(* ===== verification/Prelude.thy ===== *)
theory Prelude
  imports Main "HOL-Library.Word" "HOL-Library.Signed_Division"
begin

text \<open>
  What every component shares: the C++ integer conversions (\<open>to_int32\<close>, \<open>to_uint32\<close>:
  what a value becomes when it is stored in an \<open>int\<close> or an \<open>unsigned\<close>), the named
  collections of the development, and generic lemmas on lists and on floored division.
\<close>

unbundle bit_operations_syntax

section \<open>Collections\<close>

named_theorems cpp_int \<open>conversions to C++ integer widths and the ranges where they are the identity\<close>
named_theorems cal_simps \<open>definitions the calendar proofs unfold\<close>

section \<open>C++ integers of fixed width\<close>

definition to_int32 :: "int \<Rightarrow> int" where
  "to_int32 x = signed_take_bit 31 x"

definition to_uint32 :: "int \<Rightarrow> int" where
  "to_uint32 x = x mod 2 ^ 32"

definition in_int32 :: "int \<Rightarrow> bool" where
  "in_int32 x \<longleftrightarrow> - (2 ^ 31) \<le> x \<and> x < 2 ^ 31"

text \<open>
  The operators of \<open>int\<close> where the code does not keep its operands small: the C++ standard gives
  a signed sum outside the type no meaning, so it is an error value here, not a number.
\<close>

datatype int_fault = SignedOverflow

definition int_add :: "int \<Rightarrow> int \<Rightarrow> int_fault + int" where
  "int_add a b = (if in_int32 (a + b) then Inr (a + b) else Inl SignedOverflow)"

lemma to_int32_id [cpp_int]: "- (2 ^ 31) \<le> x \<Longrightarrow> x < 2 ^ 31 \<Longrightarrow> to_int32 x = x"
  unfolding to_int32_def by (rule signed_take_bit_int_eq_self) simp_all

lemma to_uint32_id [cpp_int]: "0 \<le> x \<Longrightarrow> x < 2 ^ 32 \<Longrightarrow> to_uint32 x = x"
  by (simp add: to_uint32_def)

lemma to_int32_to_uint32 [cpp_int]: "to_int32 (x - to_uint32 y) = to_int32 (x - y)"
proof -
  have "take_bit 32 (x - take_bit 32 y) = take_bit 32 (x - y)"
    by (simp add: take_bit_eq_mod mod_diff_right_eq)
  then show ?thesis
    unfolding to_int32_def to_uint32_def take_bit_eq_mod [symmetric]
    using signed_take_bit_eq_iff_take_bit_eq [of 31 "x - take_bit 32 y" "x - y"] by simp
qed

section \<open>Floored division\<close>

lemma le_div_iff_mult_le:
  fixes a b q :: int
  assumes "0 < b"
  shows "q \<le> a div b \<longleftrightarrow> q * b \<le> a"
proof
  assume "q \<le> a div b"
  then have "q * b \<le> (a div b) * b" using assms by (simp add: mult_right_mono)
  also have "\<dots> \<le> a" using div_mult_mod_eq [of a b] pos_mod_sign [OF assms, of a] by linarith
  finally show "q * b \<le> a" .
next
  assume "q * b \<le> a"
  from zdiv_mono1 [OF this assms] show "q \<le> a div b" using assms by simp
qed

lemma div_le_iff_less_mult:
  fixes a b n :: int
  assumes "0 < b"
  shows "a div b \<le> n \<longleftrightarrow> a < (n + 1) * b"
  using le_div_iff_mult_le [OF assms, of "n + 1" a] by linarith

lemma div_eq_iff_between:
  fixes a b q :: int
  assumes "0 < b"
  shows "a div b = q \<longleftrightarrow> q * b \<le> a \<and> a < (q + 1) * b"
  using le_div_iff_mult_le [OF assms, of q a] div_le_iff_less_mult [OF assms, of a q] by linarith

text \<open>
  The cycle law behind every calendar conversion: the \<open>q\<close>-th cycle starts on day
  \<open>(B * q + s) div A\<close>, and day \<open>n\<close> lies in cycle \<open>(A * n + (A - 1 - s)) div B\<close>.
\<close>

lemma cycle_galois:
  fixes A B n q s :: int
  assumes "0 < A" "0 < B"
  shows "(B * q + s) div A \<le> n \<longleftrightarrow> q \<le> (A * n + (A - 1 - s)) div B"
  using assms by (auto simp: div_le_iff_less_mult le_div_iff_mult_le algebra_simps)

lemma cycle_of_day:
  fixes A B n q s :: int
  assumes "0 < A" "0 < B" "(B * q + s) div A \<le> n" "n < (B * (q + 1) + s) div A"
  shows "(A * n + (A - 1 - s)) div B = q"
  using cycle_galois [OF assms(1,2), of q s n] cycle_galois [OF assms(1,2), of "q + 1" s n]
    assms(3,4) by linarith

lemma day_in_cycle:
  fixes A B n s :: int
  assumes "0 < A" "0 < B"
  shows "(B * ((A * n + (A - 1 - s)) div B) + s) div A \<le> n"
    and "n < (B * ((A * n + (A - 1 - s)) div B + 1) + s) div A"
  using cycle_galois [OF assms, of "(A * n + (A - 1 - s)) div B" s n]
    cycle_galois [OF assms, of "(A * n + (A - 1 - s)) div B + 1" s n] by linarith+

lemma cycle_eq_iff:
  fixes A B n q s :: int
  assumes "0 < A" "0 < B"
  shows "(A * n + (A - 1 - s)) div B = q \<longleftrightarrow> (B * q + s) div A \<le> n \<and> n < (B * (q + 1) + s) div A"
  using cycle_of_day [OF assms, of q s n] day_in_cycle [OF assms, where n = n and s = s] by blast

text \<open>The day within the cycle, as the code reads it off the remainder of the division.\<close>

lemma cycle_remainder:
  fixes A B n s :: int
  assumes "0 < A"
  shows "((A * n + (A - 1 - s)) mod B) div A = n - (B * ((A * n + (A - 1 - s)) div B) + s) div A"
proof -
  define q where "q = (A * n + (A - 1 - s)) div B"
  define t where "t = (B * q + s) div A"
  have rem: "(A * n + (A - 1 - s)) mod B = A * n + (A - 1 - s) - B * q"
    unfolding q_def by (rule minus_mult_div_eq_mod [symmetric])
  have "t * A \<le> B * q + s \<and> B * q + s < (t + 1) * A"
    using div_eq_iff_between [OF assms, of "B * q + s" t] by (simp add: t_def)
  then have "(A * n + (A - 1 - s) - B * q) div A = n - t"
    using div_eq_iff_between [OF assms, of "A * n + (A - 1 - s) - B * q" "n - t"]
    by (simp add: algebra_simps)
  then show ?thesis using rem by (simp add: q_def t_def)
qed

end
