(* ===== verification/CalendarMath.thy ===== *)
theory CalendarMath
  imports Prelude
begin

text \<open>
  \<open>src/corelib/time/qcalendarmath_p.h\<close>: division rounding down, with its two template
  instances (denominator a power of two or not), and the Roman-calendar arithmetic shared
  by the Gregorian, Julian and Milankovic calendars. The template parameter \<open>b\<close> is an
  argument here; values are unbounded integers, with \<open>to_int32\<close> and \<open>to_uint32\<close> where
  the code narrows or computes in 32 bits.
\<close>

section \<open>Division rounding down\<close>

definition isPowerOfTwo :: "int \<Rightarrow> bool" where
  "isPowerOfTwo b \<longleftrightarrow> b > 0 \<and> b AND (b - 1) = 0"

definition qConstexprCountTrailingZeroBits :: "32 word \<Rightarrow> nat" where
  "qConstexprCountTrailingZeroBits v =
     (let v = v AND - v; c = 32;
          c = (if v \<noteq> 0 then c - 1 else c);
          c = (if v AND 0x0000FFFF \<noteq> 0 then c - 16 else c);
          c = (if v AND 0x00FF00FF \<noteq> 0 then c - 8 else c);
          c = (if v AND 0x0F0F0F0F \<noteq> 0 then c - 4 else c);
          c = (if v AND 0x33333333 \<noteq> 0 then c - 2 else c);
          c = (if v AND 0x55555555 \<noteq> 0 then c - 1 else c)
      in c)"

definition qDivMod_any :: "int \<Rightarrow> int \<Rightarrow> int \<times> int" where
  "qDivMod_any b a =
     (if a < 0 then let a = a + 1 in (a sdiv b - 1, a smod b - 1 + b)
      else (a sdiv b, a smod b))"

definition qDivMod_pow2 :: "int \<Rightarrow> int \<Rightarrow> int \<times> int" where
  "qDivMod_pow2 b a =
     (let w = qConstexprCountTrailingZeroBits (word_of_int b)
      in if a < 0 then ((a + 1) sdiv b - 1, a AND (b - 1))
         else (drop_bit w a, a AND (b - 1)))"

definition qDivMod :: "int \<Rightarrow> int \<Rightarrow> int \<times> int" where
  "qDivMod b a = (if isPowerOfTwo b then qDivMod_pow2 b a else qDivMod_any b a)"

definition qDiv :: "int \<Rightarrow> int \<Rightarrow> int" where
  "qDiv b a = fst (qDivMod b a)"

definition qMod :: "int \<Rightarrow> int \<Rightarrow> int" where
  "qMod b a = snd (qDivMod b a)"

lemma pow2_of_and: "0 < b \<Longrightarrow> b AND (b - 1) = 0 \<Longrightarrow> \<exists>n. b = (2::int) ^ n"
proof (induction "nat b" arbitrary: b rule: less_induct)
  case less
  show ?case
  proof (cases "even b")
    case True
    then obtain k where k: "b = 2 * k" by blast
    have half: "(2 * k - 1) div 2 = k - 1" by linarith
    have "2 * (k AND (k - 1)) = b AND (b - 1)"
      unfolding k by (simp add: and_int_rec [of "2 * k"] half)
    then have "k AND (k - 1) = 0" using less.prems by simp
    moreover have "0 < k" "nat k < nat b" using k less.prems by auto
    ultimately obtain n where "k = 2 ^ n" using less.hyps by blast
    then have "b = 2 ^ Suc n" using k by simp
    then show ?thesis by blast
  next
    case False
    then obtain k where k: "b = 2 * k + 1" by (elim oddE)
    have "2 * k = b AND (b - 1)"
      unfolding k by (simp add: and_int_rec [of "2 * k + 1"])
    then have "b = 2 ^ 0" using less.prems k by simp
    then show ?thesis by blast
  qed
qed
lemma ctz_table: "list_all (\<lambda>n. qConstexprCountTrailingZeroBits (2 ^ n) = n) [0..<31]"
  by (simp add: qConstexprCountTrailingZeroBits_def upt_rec)

lemma ctz_power: "n < 31 \<Longrightarrow> qConstexprCountTrailingZeroBits (2 ^ n) = n"
  using ctz_table by (simp add: list_all_iff)

lemma sdiv_nonneg: "0 \<le> a \<Longrightarrow> 0 < b \<Longrightarrow> a sdiv b = a div (b::int)"
  by (cases "a = 0") (simp_all add: signed_divide_int_def)

lemma sdiv_nonpos: "a \<le> 0 \<Longrightarrow> 0 < b \<Longrightarrow> a sdiv b = - ((- a) div (b::int))"
  by (cases "a = 0") (simp_all add: signed_divide_int_def)

lemma floor_of_truncated:
  fixes a b :: int
  assumes "a < 0" "0 < b"
  shows "(a + 1) sdiv b - 1 = a div b"
proof -
  have "(a + 1) sdiv b = - ((- a - 1) div b)" using assms by (simp add: sdiv_nonpos)
  moreover have "a div b = - ((- a - 1) div b) - 1"
  proof -
    define c where "c = (- a - 1) div b"
    have "c * b \<le> - a - 1 \<and> - a - 1 < (c + 1) * b"
      using div_eq_iff_between [OF assms(2), of "- a - 1" c] by (simp add: c_def)
    then have "(- c - 1) * b \<le> a \<and> a < (- c - 1 + 1) * b"
      by (auto simp: algebra_simps)
    then show ?thesis
      using div_eq_iff_between [OF assms(2), of a "- c - 1"] by (simp add: c_def)
  qed
  ultimately show ?thesis by simp
qed

lemma smod_of_truncated:
  fixes a b :: int
  assumes "a < 0" "0 < b"
  shows "(a + 1) smod b - 1 + b = a mod b"
proof -
  have "(a + 1) smod b = a + 1 - b * ((a + 1) sdiv b)"
    by (simp add: minus_mult_sdiv_eq_smod)
  also have "(a + 1) sdiv b = a div b + 1" using floor_of_truncated [OF assms] by simp
  finally show ?thesis by (simp add: minus_mult_div_eq_mod [symmetric] algebra_simps)
qed

lemma qDivMod_any_eq: "0 < b \<Longrightarrow> qDivMod_any b a = (a div b, a mod b)"
proof (cases "a < 0")
  case True
  then show "0 < b \<Longrightarrow> ?thesis"
    using floor_of_truncated smod_of_truncated by (simp add: qDivMod_any_def Let_def)
next
  case False
  then show "0 < b \<Longrightarrow> ?thesis"
    by (simp add: qDivMod_any_def sdiv_nonneg
        minus_mult_sdiv_eq_smod [symmetric] minus_mult_div_eq_mod [symmetric])
qed

lemma qDivMod_pow2_eq:
  assumes "b = 2 ^ n" "n < 31"
  shows "qDivMod_pow2 b a = (a div b, a mod b)"
proof -
  have "word_of_int b = (2 ^ n :: 32 word)" using assms by simp
  then have "qConstexprCountTrailingZeroBits (word_of_int b) = n" using assms by (simp add: ctz_power)
  moreover have "a AND (b - 1) = a mod b"
    using assms by (simp add: take_bit_eq_mask [symmetric] mask_eq_exp_minus_1 [symmetric] take_bit_eq_mod)
  moreover have "0 < b" using assms by simp
  ultimately show ?thesis
    using assms by (simp add: qDivMod_pow2_def drop_bit_eq_div floor_of_truncated)
qed

text \<open>
  The code only instantiates denominators that fit an \<open>int\<close>; both template instances agree
  with floored division there.
\<close>

lemma qDivMod_eq:
  assumes "1 < b" "b < 2 ^ 31"
  shows "qDivMod b a = (a div b, a mod b)"
proof (cases "isPowerOfTwo b")
  case True
  then obtain n where n: "b = 2 ^ n"
    using pow2_of_and [of b] by (auto simp: isPowerOfTwo_def)
  have "n < 31" using assms(2) n power_less_imp_less_exp [of "2::int" n 31] by simp
  with n True show ?thesis by (simp add: qDivMod_def qDivMod_pow2_eq)
next
  case False
  then show ?thesis using assms by (simp add: qDivMod_def qDivMod_any_eq)
qed

lemma qDiv_eq [cal_simps]: "1 < b \<Longrightarrow> b < 2 ^ 31 \<Longrightarrow> qDiv b a = a div b"
  by (simp add: qDiv_def qDivMod_eq)

lemma qMod_eq [cal_simps]: "1 < b \<Longrightarrow> b < 2 ^ 31 \<Longrightarrow> qMod b a = a mod b"
  by (simp add: qMod_def qDivMod_eq)

section \<open>Roman calendars\<close>

definition LeapDayGregorian1Bce :: int where
  "LeapDayGregorian1Bce = 1721119"

definition FourYears :: int where
  "FourYears = 4 * 365 + 1"

definition FiveMonths :: int where
  "FiveMonths = 31 + 30 + 31 + 30 + 31"

text \<open>
  The pair is \<open>(year, days)\<close>. \<open>FiveMonths * month + 2\<close> is computed in \<open>unsigned\<close>.
\<close>

definition yearMonthToYearDays :: "int \<Rightarrow> int \<Rightarrow> int \<times> int" where
  "yearMonthToYearDays year month =
     (let year = (if year < 0 then year + 1 else year);
          month = month - 3;
          (year, month) = (if month < 0 then (year - 1, month + 12) else (year, month))
      in (year, qDiv 5 (to_uint32 (FiveMonths * month + 2))))"

definition dayInYearToYmd :: "int \<Rightarrow> int \<times> int \<times> int" where
  "dayInYearToYmd dayInYear =
     (let (month5Day_quotient, month5Day_remainder) = qDivMod FiveMonths (5 * dayInYear + 2);
          (yearMonth_quotient, yearMonth_remainder) = qDivMod 12 (month5Day_quotient + 2)
      in (yearMonth_quotient, yearMonth_remainder + 1, qDiv 5 month5Day_remainder + 1))"

end
