(* ===== verification/YearTower.thy ===== *)
theory YearTower
  imports CalendarMath
begin

text \<open>
  The contract between a calendar's year numbering and its month numbering, as a locale:
  years and months partition the days, and the code's two "find the cycle" formulas invert
  the two "start of the cycle" formulas. Encoding a (year, month, day) and decoding a day
  number are then inverse to each other. Months are numbered 0 to 11 in the order the
  conversion counts them (from March for the Roman calendars), days from 1.
\<close>

definition tower_encode :: "(int \<Rightarrow> int) \<Rightarrow> (int \<Rightarrow> int) \<Rightarrow> int \<Rightarrow> int \<Rightarrow> int \<Rightarrow> int" where
  "tower_encode fromYear mstart y m d = fromYear y + mstart m + (d - 1)"

definition tower_decode ::
    "(int \<Rightarrow> int) \<Rightarrow> (int \<Rightarrow> int) \<Rightarrow> (int \<Rightarrow> int) \<Rightarrow> (int \<Rightarrow> int) \<Rightarrow> int \<Rightarrow> int \<times> int \<times> int" where
  "tower_decode fromYear yearOf mstart monthOf n =
     (let y = yearOf n; k = n - fromYear y; m = monthOf k in (y, m, k - mstart m + 1))"

definition tower_mlen :: "(int \<Rightarrow> int) \<Rightarrow> (int \<Rightarrow> int) \<Rightarrow> int \<Rightarrow> int \<Rightarrow> int" where
  "tower_mlen fromYear mstart y m =
     (if m = 11 then fromYear (y + 1) - fromYear y - mstart 11 else mstart (m + 1) - mstart m)"

locale year_tower =
  fixes fromYear yearOf mstart monthOf :: "int \<Rightarrow> int"
  assumes year_of_day: "yearOf n = y \<longleftrightarrow> fromYear y \<le> n \<and> n < fromYear (y + 1)"
    and month_of_day: "monthOf k = m \<longleftrightarrow> mstart m \<le> k \<and> k < mstart (m + 1)"
    and first_month: "mstart 0 = 0"
    and months_ordered: "0 \<le> m \<Longrightarrow> m < 12 \<Longrightarrow> mstart m < mstart (m + 1)"
    and last_month: "mstart 11 < fromYear (y + 1) - fromYear y"
    and year_bound: "fromYear (y + 1) - fromYear y \<le> mstart 12"
begin

lemma year_contains: "fromYear (yearOf n) \<le> n" "n < fromYear (yearOf n + 1)"
  using year_of_day [of n "yearOf n"] by simp_all

lemma month_contains: "mstart (monthOf k) \<le> k" "k < mstart (monthOf k + 1)"
  using month_of_day [of k "monthOf k"] by simp_all

lemma mstart_mono: "0 \<le> m \<Longrightarrow> m \<le> m' \<Longrightarrow> m' \<le> 12 \<Longrightarrow> mstart m \<le> mstart m'"
proof (induction "nat (m' - m)" arbitrary: m')
  case 0
  then show ?case by simp
next
  case (Suc k)
  then have "mstart m \<le> mstart (m' - 1)" by simp
  moreover have "0 < m'" using Suc.hyps(2) Suc.prems by linarith
  ultimately show ?case using months_ordered [of "m' - 1"] Suc.prems by simp
qed

lemma fromYear_strict: "y < y' \<Longrightarrow> fromYear y < fromYear y'"
proof (induction "nat (y' - y - 1)" arbitrary: y')
  case 0
  then have "y' = y + 1" by simp
  then show ?case using last_month [of y] mstart_mono [of 0 11] by (simp add: first_month)
next
  case (Suc k)
  then have "fromYear y < fromYear (y' - 1)" by simp
  moreover have "fromYear (y' - 1) < fromYear y'"
    using last_month [of "y' - 1"] mstart_mono [of 0 11] by (simp add: first_month)
  ultimately show ?case by simp
qed

lemma month_in_year: "0 \<le> k \<Longrightarrow> k < mstart 12 \<Longrightarrow> 0 \<le> monthOf k \<and> monthOf k < 12"
proof -
  assume k: "0 \<le> k" "k < mstart 12"
  have below: "\<exists>m. 0 \<le> m \<and> m < M \<and> mstart m \<le> k \<and> k < mstart (m + 1)"
    if "0 \<le> M" "M \<le> 12" "k < mstart M" for M
    using that
  proof (induction "nat M" arbitrary: M)
    case 0
    then show ?case using k by (simp add: first_month)
  next
    case (Suc i)
    show ?case
    proof (cases "k < mstart (M - 1)")
      case True
      moreover have "i = nat (M - 1)" using Suc.hyps(2) by linarith
      ultimately have "\<exists>m. 0 \<le> m \<and> m < M - 1 \<and> mstart m \<le> k \<and> k < mstart (m + 1)"
        using Suc.prems Suc.hyps(2) by (intro Suc.hyps(1)) auto
      then obtain m where "0 \<le> m" "m < M - 1" "mstart m \<le> k" "k < mstart (m + 1)" by blast
      then show ?thesis by (intro exI [of _ m]) simp
    next
      case False
      then show ?thesis using Suc.prems Suc.hyps(2) by (intro exI [of _ "M - 1"]) auto
    qed
  qed
  from below [of 12] k obtain m where "0 \<le> m" "m < 12" "mstart m \<le> k" "k < mstart (m + 1)"
    by auto
  with month_of_day [of k m] show ?thesis by simp
qed

lemma day_in_year: "0 \<le> n - fromYear (yearOf n) \<and> n - fromYear (yearOf n) < mstart 12"
  using year_contains [of n] year_bound [of "yearOf n"] by linarith

lemma decode_valid:
  assumes "tower_decode fromYear yearOf mstart monthOf n = (y, m, d)"
  shows "0 \<le> m \<and> m \<le> 11 \<and> 1 \<le> d \<and> d \<le> tower_mlen fromYear mstart y m"
  using assms month_in_year [of "n - fromYear y"] day_in_year [of n]
    month_contains [of "n - fromYear y"] year_contains [of n]
  by (auto simp: tower_decode_def tower_mlen_def Let_def)

lemma encode_decode:
  assumes "tower_decode fromYear yearOf mstart monthOf n = (y, m, d)"
  shows "tower_encode fromYear mstart y m d = n"
  using assms by (auto simp: tower_decode_def tower_encode_def Let_def)

lemma encode_in_year:
  assumes "0 \<le> m" "m \<le> 11" "1 \<le> d" "d \<le> tower_mlen fromYear mstart y m"
  shows "fromYear y \<le> tower_encode fromYear mstart y m d"
    and "tower_encode fromYear mstart y m d < fromYear (y + 1)"
proof -
  have "0 \<le> mstart m" using mstart_mono [of 0 m] assms by (simp add: first_month)
  then show "fromYear y \<le> tower_encode fromYear mstart y m d"
    using assms by (simp add: tower_encode_def)
  have "m \<noteq> 11 \<Longrightarrow> mstart (m + 1) \<le> mstart 11" using mstart_mono [of "m + 1" 11] assms by simp
  then show "tower_encode fromYear mstart y m d < fromYear (y + 1)"
    using assms last_month [of y] by (auto simp: tower_encode_def tower_mlen_def split: if_splits)
qed

lemma decode_encode:
  assumes "0 \<le> m" "m \<le> 11" "1 \<le> d" "d \<le> tower_mlen fromYear mstart y m"
  shows "tower_decode fromYear yearOf mstart monthOf (tower_encode fromYear mstart y m d) = (y, m, d)"
proof -
  let ?n = "tower_encode fromYear mstart y m d"
  have "yearOf ?n = y" using year_of_day [of ?n y] encode_in_year [OF assms] by blast
  moreover have "monthOf (?n - fromYear y) = m"
    using month_of_day [of "?n - fromYear y" m] assms year_bound [of y]
    by (auto simp: tower_encode_def tower_mlen_def split: if_splits)
  ultimately show ?thesis by (simp add: tower_decode_def tower_encode_def Let_def)
qed

lemma encode_mono_year:
  assumes "y < y'" "0 \<le> m" "m \<le> 11" "1 \<le> d" "d \<le> tower_mlen fromYear mstart y m"
    and "0 \<le> m'" "m' \<le> 11" "1 \<le> d'" "d' \<le> tower_mlen fromYear mstart y' m'"
  shows "tower_encode fromYear mstart y m d < tower_encode fromYear mstart y' m' d'"
proof -
  have "fromYear (y + 1) \<le> fromYear y'"
    using fromYear_strict [of "y + 1" y'] assms(1) by (cases "y + 1 = y'") auto
  then show ?thesis using encode_in_year(2) [of m d y] encode_in_year(1) [of m' d' y'] assms by simp
qed

end

end
