(* ===== verification/QCalendar.thy ===== *)
theory QCalendar
  imports YearTower
begin

text \<open>
  \<open>src/corelib/time/qcalendar.cpp\<close> and the calendar-aware part of
  \<open>src/corelib/time/qdatetime.cpp\<close>. A \<open>QCalendar\<close> is its backend's virtual methods, a
  record of functions; \<open>QDate\<close> is its Julian day number. The locale \<open>calendar_backend\<close>
  is the contract of a backend; the date operations are proved against it once.
\<close>

section \<open>Parts of a date and the backend interface\<close>

definition Unspecified :: int where
  "Unspecified = - (2 ^ 31)"

record YearMonthDay =
  ymd_year :: int
  ymd_month :: int
  ymd_day :: int

definition YearMonthDay :: "int \<Rightarrow> int \<Rightarrow> int \<Rightarrow> YearMonthDay" where
  "YearMonthDay y m d = \<lparr>ymd_year = y, ymd_month = m, ymd_day = d\<rparr>"

definition YearMonthDay_none :: YearMonthDay where
  "YearMonthDay_none = YearMonthDay Unspecified Unspecified Unspecified"

definition YearMonthDay_isValid :: "YearMonthDay \<Rightarrow> bool" where
  "YearMonthDay_isValid p \<longleftrightarrow> ymd_month p \<noteq> Unspecified \<and> ymd_day p \<noteq> Unspecified"

record QCalendar =
  cal_daysInMonth :: "int \<Rightarrow> int \<Rightarrow> int"
  cal_daysInYear :: "int \<Rightarrow> int"
  cal_monthsInYear :: "int \<Rightarrow> int"
  cal_isLeapYear :: "int \<Rightarrow> bool"
  cal_isProleptic :: bool
  cal_hasYearZero :: bool
  cal_minimumDaysInMonth :: int
  cal_maximumDaysInMonth :: int
  cal_dateToJulianDay :: "int \<Rightarrow> int \<Rightarrow> int \<Rightarrow> int option"
  cal_julianDayToDate :: "int \<Rightarrow> YearMonthDay"

section \<open>The base class's implementations\<close>

definition backend_isProleptic :: bool where
  "backend_isProleptic = True"

definition backend_hasYearZero :: bool where
  "backend_hasYearZero = False"

definition backend_monthsInYear :: "bool \<Rightarrow> bool \<Rightarrow> int \<Rightarrow> int" where
  "backend_monthsInYear isProleptic hasYearZero year =
     (if year > 0 \<or> (if year < 0 then isProleptic else hasYearZero) then 12 else 0)"

definition backend_daysInYear :: "(int \<Rightarrow> int) \<Rightarrow> (int \<Rightarrow> bool) \<Rightarrow> int \<Rightarrow> int" where
  "backend_daysInYear monthsInYear isLeapYear year =
     (if monthsInYear year \<noteq> 0 then if isLeapYear year then 366 else 365 else 0)"

definition backend_isDateValid :: "(int \<Rightarrow> int \<Rightarrow> int) \<Rightarrow> int \<Rightarrow> int \<Rightarrow> int \<Rightarrow> bool" where
  "backend_isDateValid daysInMonth year month day \<longleftrightarrow> day > 0 \<and> day \<le> daysInMonth month year"

definition backend_maximumDaysInMonth :: int where
  "backend_maximumDaysInMonth = 31"

definition backend_minimumDaysInMonth :: int where
  "backend_minimumDaysInMonth = 29"

definition backend_dayOfWeek :: "int \<Rightarrow> int" where
  "backend_dayOfWeek jd = to_int32 (qMod 7 jd + 1)"

section \<open>QDate\<close>

text \<open>A \<open>QDate\<close> holds only its Julian day number, the null date \<open>nullJd\<close>.\<close>

definition nullJd :: int where "nullJd = - (2 ^ 63)"
definition minJd :: int where "minJd = - 784350574879"
definition maxJd :: int where "maxJd = 784354017364"

definition QDate_isValid :: "int \<Rightarrow> bool" where
  "QDate_isValid jd \<longleftrightarrow> jd \<ge> minJd \<and> jd \<le> maxJd"

definition QDate_null :: int where
  "QDate_null = nullJd"

definition QDate_fromJulianDay :: "int \<Rightarrow> int" where
  "QDate_fromJulianDay jd = (if jd \<ge> minJd \<and> jd \<le> maxJd then jd else QDate_null)"

definition QCalendar_dateFromParts :: "QCalendar \<Rightarrow> int \<Rightarrow> int \<Rightarrow> int \<Rightarrow> int" where
  "QCalendar_dateFromParts cal year month day =
     (case cal_dateToJulianDay cal year month day of
        Some jd \<Rightarrow> QDate_fromJulianDay jd | None \<Rightarrow> QDate_null)"

definition QCalendar_dateFromParts_ymd :: "QCalendar \<Rightarrow> YearMonthDay \<Rightarrow> int" where
  "QCalendar_dateFromParts_ymd cal parts =
     (if YearMonthDay_isValid parts
      then QCalendar_dateFromParts cal (ymd_year parts) (ymd_month parts) (ymd_day parts)
      else QDate_null)"

definition QCalendar_partsFromDate :: "QCalendar \<Rightarrow> int \<Rightarrow> YearMonthDay" where
  "QCalendar_partsFromDate cal date =
     (if QDate_isValid date then cal_julianDayToDate cal date else YearMonthDay_none)"

definition QCalendar_dayOfWeek :: "QCalendar \<Rightarrow> int \<Rightarrow> int" where
  "QCalendar_dayOfWeek cal date = (if QDate_isValid date then backend_dayOfWeek date else 0)"

definition QDate_year :: "QCalendar \<Rightarrow> int \<Rightarrow> int" where
  "QDate_year cal date =
     (if QDate_isValid date
      then let parts = QCalendar_partsFromDate cal date
           in if YearMonthDay_isValid parts then ymd_year parts else 0
      else 0)"

definition QDate_month :: "QCalendar \<Rightarrow> int \<Rightarrow> int" where
  "QDate_month cal date =
     (if QDate_isValid date
      then let parts = QCalendar_partsFromDate cal date
           in if YearMonthDay_isValid parts then ymd_month parts else 0
      else 0)"

definition QDate_day :: "QCalendar \<Rightarrow> int \<Rightarrow> int" where
  "QDate_day cal date =
     (if QDate_isValid date
      then let parts = QCalendar_partsFromDate cal date
           in if YearMonthDay_isValid parts then ymd_day parts else 0
      else 0)"

definition QDate_dayOfWeek :: "QCalendar \<Rightarrow> int \<Rightarrow> int" where
  "QDate_dayOfWeek cal date = (if \<not> QDate_isValid date then 0 else QCalendar_dayOfWeek cal date)"

definition QDate_daysTo :: "int \<Rightarrow> int \<Rightarrow> int" where
  "QDate_daysTo date d = (if \<not> QDate_isValid date \<or> \<not> QDate_isValid d then 0 else d - date)"

definition QDate_dayOfYear :: "QCalendar \<Rightarrow> int \<Rightarrow> int" where
  "QDate_dayOfYear cal date =
     (if QDate_isValid date
      then let firstDay = QCalendar_dateFromParts cal (QDate_year cal date) 1 1
           in if QDate_isValid firstDay then to_int32 (QDate_daysTo firstDay date + 1) else 0
      else 0)"

definition QDate_daysInMonth :: "QCalendar \<Rightarrow> int \<Rightarrow> int" where
  "QDate_daysInMonth cal date =
     (if QDate_isValid date
      then let parts = QCalendar_partsFromDate cal date
           in if YearMonthDay_isValid parts
              then cal_daysInMonth cal (ymd_month parts) (ymd_year parts) else 0
      else 0)"

definition QDate_daysInYear :: "QCalendar \<Rightarrow> int \<Rightarrow> int" where
  "QDate_daysInYear cal date =
     (if \<not> QDate_isValid date then 0 else cal_daysInYear cal (QDate_year cal date))"

text \<open>\<open>qAddOverflow\<close> on \<open>qint64\<close> fails exactly when the sum leaves the 64-bit range.\<close>

definition QDate_addDays :: "int \<Rightarrow> int \<Rightarrow> int" where
  "QDate_addDays date ndays =
     (if \<not> QDate_isValid date then QDate_null
      else if date + ndays < - (2 ^ 63) \<or> date + ndays \<ge> 2 ^ 63 then QDate_null
      else QDate_fromJulianDay (date + ndays))"

definition fixedDate :: "YearMonthDay \<Rightarrow> QCalendar \<Rightarrow> int" where
  "fixedDate parts cal =
     (if (ymd_year parts < 0 \<and> \<not> cal_isProleptic cal) \<or> (ymd_year parts = 0 \<and> \<not> cal_hasYearZero cal)
      then QDate_null
      else QCalendar_dateFromParts_ymd cal
             (parts\<lparr>ymd_day := min (ymd_day parts) (cal_daysInMonth cal (ymd_month parts) (ymd_year parts))\<rparr>))"

text \<open>
  The two loops of \<open>addMonths\<close>. The first does not return when the calendar has no months in
  the years it walks back through, so the loops are in \<open>option\<close>; a month or a year that
  leaves the range of \<open>int\<close> ends them with an error.
\<close>

partial_function (option) addMonths_back ::
    "QCalendar \<Rightarrow> int \<Rightarrow> int \<Rightarrow> (int_fault + int \<times> int) option" where
  "addMonths_back cal year month =
     (if month \<le> 0
      then case int_add year (- 1) of Inl e \<Rightarrow> Some (Inl e)
           | Inr year \<Rightarrow>
               if year \<noteq> 0 \<or> cal_hasYearZero cal
               then case int_add month (cal_monthsInYear cal year) of Inl e \<Rightarrow> Some (Inl e)
                    | Inr month \<Rightarrow> addMonths_back cal year month
               else addMonths_back cal year month
      else Some (Inr (year, month)))"

partial_function (option) addMonths_forward ::
    "QCalendar \<Rightarrow> int \<Rightarrow> int \<Rightarrow> int \<Rightarrow> (int_fault + int \<times> int) option" where
  "addMonths_forward cal year month count =
     (if month > count
      then case int_add month (- count) of Inl e \<Rightarrow> Some (Inl e)
           | Inr month \<Rightarrow>
               case int_add year 1 of Inl e \<Rightarrow> Some (Inl e)
               | Inr year \<Rightarrow>
                   addMonths_forward cal year month
                     (if year \<noteq> 0 \<or> cal_hasYearZero cal then cal_monthsInYear cal year else 0)
      else Some (Inr (year, month)))"

declare addMonths_back.simps [code] addMonths_forward.simps [code]

definition QDate_addMonths :: "QCalendar \<Rightarrow> int \<Rightarrow> int \<Rightarrow> (int_fault + int) option" where
  "QDate_addMonths cal date nmonths =
     (if \<not> QDate_isValid date then Some (Inr QDate_null)
      else if nmonths = 0 then Some (Inr date)
      else let parts = QCalendar_partsFromDate cal date
           in if \<not> YearMonthDay_isValid parts then Some (Inr QDate_null)
              else case int_add (ymd_month parts) nmonths of Inl e \<Rightarrow> Some (Inl e)
                   | Inr month \<Rightarrow>
                       Option.bind (addMonths_back cal (ymd_year parts) month)
                         (\<lambda>r. case r of Inl e \<Rightarrow> Some (Inl e)
                              | Inr (year, month) \<Rightarrow>
                                  Option.bind (addMonths_forward cal year month (cal_monthsInYear cal year))
                                    (\<lambda>r. case r of Inl e \<Rightarrow> Some (Inl e)
                                         | Inr (year, month) \<Rightarrow>
                                             Some (Inr (fixedDate (parts\<lparr>ymd_year := year, ymd_month := month\<rparr>) cal)))))"

definition QDate_addYears :: "QCalendar \<Rightarrow> int \<Rightarrow> int \<Rightarrow> int_fault + int" where
  "QDate_addYears cal date nyears =
     (if \<not> QDate_isValid date then Inr QDate_null
      else let parts = QCalendar_partsFromDate cal date
           in if \<not> YearMonthDay_isValid parts then Inr QDate_null
              else let old_y = ymd_year parts
                   in case int_add old_y nyears of Inl e \<Rightarrow> Inl e
                      | Inr year \<Rightarrow>
                          case (if \<not> cal_hasYearZero cal \<and> ((old_y > 0) \<noteq> (year > 0) \<or> year = 0)
                                then int_add year (if nyears > 0 then 1 else - 1) else Inr year)
                          of Inl e \<Rightarrow> Inl e
                          | Inr year \<Rightarrow> Inr (fixedDate (parts\<lparr>ymd_year := year\<rparr>) cal))"

end
