(* ===== verification/CalendarBackend.thy ===== *)
theory CalendarBackend
  imports QCalendar
begin

text \<open>
  The contract of a calendar backend with no year zero, as the locale \<open>calendar_backend\<close>,
  and what \<open>QDate\<close>'s calendar-aware operations guarantee under it. The range \<open>lo\<close> to \<open>hi\<close>
  holds the days whose year the backend can represent in an \<open>int\<close>.
\<close>

section \<open>Year numbers without a year zero\<close>

definition serial_year :: "int \<Rightarrow> int" where
  "serial_year y = (if y < 0 then y + 1 else y)"

definition year_of_serial :: "int \<Rightarrow> int" where
  "year_of_serial s = (if s > 0 then s else s - 1)"

lemma year_of_serial_nonzero [simp]: "year_of_serial s \<noteq> 0"
  by (simp add: year_of_serial_def)

lemma year_of_serial_inverse [simp]: "y \<noteq> 0 \<Longrightarrow> year_of_serial (serial_year y) = y"
  by (simp add: year_of_serial_def serial_year_def)

lemma serial_year_inverse [simp]: "serial_year (year_of_serial s) = s"
  by (simp add: year_of_serial_def serial_year_def)

text \<open>The month \<open>n\<close> months after month \<open>m\<close> of year \<open>y\<close>, counting months across years.\<close>

definition shift_month :: "int \<Rightarrow> int \<Rightarrow> int \<times> int" where
  "shift_month y m =
     (let t = 12 * serial_year y + (m - 1) in (year_of_serial (t div 12), t mod 12 + 1))"

lemma shift_month_id: "y \<noteq> 0 \<Longrightarrow> 1 \<le> m \<Longrightarrow> m \<le> 12 \<Longrightarrow> shift_month y m = (y, m)"
  by (simp add: shift_month_def Let_def)

lemma shift_month_step:
  assumes "serial_year y' = serial_year y - 1"
  shows "shift_month y' (m + 12) = shift_month y m"
proof -
  have "12 * serial_year y' + (m + 12 - 1) = 12 * serial_year y + (m - 1)" using assms by simp
  then show ?thesis unfolding shift_month_def by (simp only:)
qed

lemma shift_month_range: "shift_month y m = (y', m') \<Longrightarrow> y' \<noteq> 0 \<and> 1 \<le> m' \<and> m' \<le> 12"
  by (auto simp: shift_month_def Let_def)

text \<open>A month and its year, where the year is an \<open>int\<close>.\<close>

definition int_year :: "int \<times> int \<Rightarrow> int_fault + int \<times> int" where
  "int_year ym = (if in_int32 (fst ym) then Inr ym else Inl SignedOverflow)"

lemma int_year_pair: "int_year (y, m) = (if in_int32 y then Inr (y, m) else Inl SignedOverflow)"
  by (simp add: int_year_def)

lemma year_of_serial_mono: "s \<le> t \<Longrightarrow> year_of_serial s \<le> year_of_serial t"
  by (auto simp: year_of_serial_def)

lemma year_before: "y \<noteq> 0 \<Longrightarrow> year_of_serial (serial_year y - 1) < y"
  by (auto simp: year_of_serial_def serial_year_def)

lemma year_after: "y \<noteq> 0 \<Longrightarrow> y < year_of_serial (serial_year y + 1)"
  by (auto simp: year_of_serial_def serial_year_def)

lemma shift_back_leaves_int:
  assumes "month \<le> 0" "y \<noteq> 0" "in_int32 y" "\<not> in_int32 (year_of_serial (serial_year y - 1))"
  shows "int_year (shift_month y month) = Inl SignedOverflow"
proof -
  have "fst (shift_month y month) \<le> year_of_serial (serial_year y - 1)"
    using assms(1) unfolding shift_month_def Let_def by (auto intro: year_of_serial_mono)
  with year_before [OF assms(2)] assms(3,4) show ?thesis by (auto simp: int_year_def in_int32_def)
qed

lemma shift_forward_leaves_int:
  assumes "month > 12" "y \<noteq> 0" "in_int32 y" "\<not> in_int32 (year_of_serial (serial_year y + 1))"
  shows "int_year (shift_month y month) = Inl SignedOverflow"
proof -
  have "year_of_serial (serial_year y + 1) \<le> fst (shift_month y month)"
    using assms(1) unfolding shift_month_def Let_def by (auto intro: year_of_serial_mono)
  with year_after [OF assms(2)] assms(3,4) show ?thesis by (auto simp: int_year_def in_int32_def)
qed

text \<open>Adding to a year number and stepping over the missing year zero.\<close>

lemma crossing_year_zero:
  assumes "y \<noteq> 0" "in_int32 y"
  shows "(case int_add y n of Inl e \<Rightarrow> Inl e
          | Inr year \<Rightarrow> if (y > 0) \<noteq> (year > 0) \<or> year = 0 then int_add year (if n > 0 then 1 else - 1)
                        else Inr year)
    = (let y' = year_of_serial (serial_year y + n) in if in_int32 y' then Inr y' else Inl SignedOverflow)"
  using assms by (auto simp: int_add_def in_int32_def year_of_serial_def serial_year_def Let_def)

section \<open>The contract\<close>

locale calendar_backend =
  fixes cal :: QCalendar and lo hi :: int
  assumes range: "minJd \<le> lo" "hi \<le> maxJd"
    and proleptic: "cal_isProleptic cal"
    and no_year_zero: "\<not> cal_hasYearZero cal"
    and twelve_months: "y \<noteq> 0 \<Longrightarrow> cal_monthsInYear cal y = 12"
    and month_length: "y \<noteq> 0 \<Longrightarrow> 1 \<le> m \<Longrightarrow> m \<le> 12 \<Longrightarrow> 28 \<le> cal_daysInMonth cal m y"
    and no_month: "y = 0 \<or> m < 1 \<or> 12 < m \<Longrightarrow> cal_daysInMonth cal m y = 0"
    and year_length: "cal_dateToJulianDay cal y m d = Some a \<Longrightarrow> lo \<le> a \<Longrightarrow> a \<le> hi
                   \<Longrightarrow> cal_daysInYear cal y = (\<Sum>m = 1..12. cal_daysInMonth cal m y)"
    and to_jd_iff: "(\<exists>jd. cal_dateToJulianDay cal y m d = Some jd)
                    \<longleftrightarrow> 1 \<le> d \<and> d \<le> cal_daysInMonth cal m y"
    and in_month: "cal_dateToJulianDay cal y m 1 = Some a \<Longrightarrow> 1 \<le> d \<Longrightarrow> d \<le> cal_daysInMonth cal m y
                   \<Longrightarrow> cal_dateToJulianDay cal y m d = Some (a + d - 1)"
    and next_month: "cal_dateToJulianDay cal y m 1 = Some a \<Longrightarrow> lo \<le> a \<Longrightarrow> a \<le> hi
                   \<Longrightarrow> cal_dateToJulianDay cal (fst (shift_month y (m + 1))) (snd (shift_month y (m + 1))) 1
                       = Some (a + cal_daysInMonth cal m y)"
    and jd_of_parts: "lo \<le> jd \<Longrightarrow> jd \<le> hi \<Longrightarrow> cal_julianDayToDate cal jd = YearMonthDay y m d
                   \<Longrightarrow> cal_dateToJulianDay cal y m d = Some jd"
    and parts_of_jd: "cal_dateToJulianDay cal y m d = Some jd \<Longrightarrow> lo \<le> jd \<Longrightarrow> jd \<le> hi
                   \<Longrightarrow> cal_julianDayToDate cal jd = YearMonthDay y m d"
begin

lemma valid_date: "lo \<le> jd \<Longrightarrow> jd \<le> hi \<Longrightarrow> QDate_isValid jd"
  using range by (simp add: QDate_isValid_def)

lemma date_parts:
  assumes "lo \<le> jd" "jd \<le> hi"
  obtains y m d where "cal_julianDayToDate cal jd = YearMonthDay y m d"
    and "cal_dateToJulianDay cal y m d = Some jd"
    and "y \<noteq> 0" "1 \<le> m" "m \<le> 12" "1 \<le> d" "d \<le> cal_daysInMonth cal m y"
proof -
  let ?p = "cal_julianDayToDate cal jd"
  have p: "?p = YearMonthDay (ymd_year ?p) (ymd_month ?p) (ymd_day ?p)"
    by (simp add: YearMonthDay_def)
  from jd_of_parts [OF assms p]
  have some: "cal_dateToJulianDay cal (ymd_year ?p) (ymd_month ?p) (ymd_day ?p) = Some jd" .
  then have d: "1 \<le> ymd_day ?p" "ymd_day ?p \<le> cal_daysInMonth cal (ymd_month ?p) (ymd_year ?p)"
    using to_jd_iff by blast+
  then have "\<not> (ymd_year ?p = 0 \<or> ymd_month ?p < 1 \<or> 12 < ymd_month ?p)"
    using no_month [of "ymd_year ?p" "ymd_month ?p"] by auto
  with p some d that show thesis by auto
qed

lemma parts_isValid: "1 \<le> m \<Longrightarrow> 1 \<le> d \<Longrightarrow> YearMonthDay_isValid (YearMonthDay y m d)"
  by (simp add: YearMonthDay_isValid_def YearMonthDay_def Unspecified_def)

lemma partsFromDate_eq:
  assumes "cal_dateToJulianDay cal y m d = Some jd" "lo \<le> jd" "jd \<le> hi"
  shows "QCalendar_partsFromDate cal jd = YearMonthDay y m d"
  using assms parts_of_jd [OF assms] valid_date by (simp add: QCalendar_partsFromDate_def)

lemma to_jd_month:
  assumes "cal_dateToJulianDay cal y m d = Some jd"
  shows "y \<noteq> 0 \<and> 1 \<le> m \<and> m \<le> 12 \<and> 1 \<le> d \<and> d \<le> cal_daysInMonth cal m y"
proof -
  have d: "1 \<le> d" "d \<le> cal_daysInMonth cal m y" using assms to_jd_iff by blast+
  then show ?thesis using no_month [of y m] by fastforce
qed

lemma dateFromParts_partsFromDate:
  assumes "lo \<le> jd" "jd \<le> hi"
  shows "QCalendar_dateFromParts_ymd cal (QCalendar_partsFromDate cal jd) = jd"
proof -
  obtain y m d where p: "cal_julianDayToDate cal jd = YearMonthDay y m d"
    and j: "cal_dateToJulianDay cal y m d = Some jd" and "1 \<le> m" "1 \<le> d"
    using date_parts [OF assms] by metis
  then have v: "YearMonthDay_isValid (YearMonthDay y m d)" by (simp add: parts_isValid)
  have s: "ymd_year (YearMonthDay y m d) = y" "ymd_month (YearMonthDay y m d) = m"
    "ymd_day (YearMonthDay y m d) = d" by (simp_all add: YearMonthDay_def)
  show ?thesis
    using assms range v s p j valid_date
    by (simp add: QCalendar_dateFromParts_ymd_def QCalendar_dateFromParts_def QCalendar_partsFromDate_def
        QDate_fromJulianDay_def)
qed

lemma back_step:
  assumes "y \<noteq> 0" "in_int32 y" "in_int32 month"
  shows "addMonths_back cal y month =
     (if month \<le> 0
      then let y' = year_of_serial (serial_year y - 1)
           in if in_int32 y' then addMonths_back cal y' (month + 12) else Some (Inl SignedOverflow)
      else Some (Inr (y, month)))"
proof (cases "y = 1")
  case True
  then show ?thesis
    using assms no_year_zero twelve_months [of "- 1"]
    by (simp add: addMonths_back.simps [of cal 1] addMonths_back.simps [of cal 0] int_add_def in_int32_def
        year_of_serial_def serial_year_def Let_def)
next
  case False
  then have "year_of_serial (serial_year y - 1) = y - 1"
    using assms(1) by (simp add: year_of_serial_def serial_year_def)
  then show ?thesis
    using False assms twelve_months [of "y - 1"]
    by (simp add: addMonths_back.simps [of cal y] int_add_def in_int32_def Let_def)
qed

lemma addMonths_back_eq:
  assumes "y \<noteq> 0" "in_int32 y" "in_int32 month"
  shows "addMonths_back cal y month =
     Some (int_year (if month \<le> 0 then shift_month y month else (y, month)))"
  using assms
proof (induction "nat (12 - month)" arbitrary: y month rule: less_induct)
  case less
  let ?y = "year_of_serial (serial_year y - 1)"
  consider "month > 0" | "month \<le> 0" "\<not> in_int32 ?y" | "month \<le> 0" "in_int32 ?y" by linarith
  then show ?case
  proof cases
    case 1
    then show ?thesis using back_step [OF less.prems] less.prems by (simp add: int_year_def)
  next
    case 2
    then show ?thesis
      using back_step [OF less.prems] shift_back_leaves_int [OF 2(1) less.prems(1,2) 2(2)]
      by (simp add: Let_def)
  next
    case 3
    have "addMonths_back cal ?y (month + 12) =
        Some (int_year (if month + 12 \<le> 0 then shift_month ?y (month + 12) else (?y, month + 12)))"
      using 3 less.prems(3) by (intro less.hyps) (auto simp: in_int32_def)
    also have "(if month + 12 \<le> 0 then shift_month ?y (month + 12) else (?y, month + 12))
        = shift_month ?y (month + 12)"
      using 3 shift_month_id [of ?y "month + 12"] by simp
    also have "\<dots> = shift_month y month" by (rule shift_month_step) simp
    finally show ?thesis using back_step [OF less.prems] 3 by simp
  qed
qed

lemma forward_step:
  assumes "y \<noteq> 0" "in_int32 y" "in_int32 month"
  shows "addMonths_forward cal y month 12 =
     (if month > 12
      then let y' = year_of_serial (serial_year y + 1)
           in if in_int32 y' then addMonths_forward cal y' (month - 12) 12 else Some (Inl SignedOverflow)
      else Some (Inr (y, month)))"
proof (cases "y = - 1")
  case True
  then show ?thesis
    using assms no_year_zero twelve_months [of 1]
    by (simp add: addMonths_forward.simps [of cal "- 1"] addMonths_forward.simps [of cal 0] int_add_def
        in_int32_def year_of_serial_def serial_year_def Let_def)
next
  case False
  then have "year_of_serial (serial_year y + 1) = y + 1"
    using assms(1) by (simp add: year_of_serial_def serial_year_def)
  then show ?thesis
    using False assms twelve_months [of "y + 1"]
    by (simp add: addMonths_forward.simps [of cal y] int_add_def in_int32_def Let_def)
qed

lemma addMonths_forward_eq:
  assumes "y \<noteq> 0" "in_int32 y" "in_int32 month" "1 \<le> month"
  shows "addMonths_forward cal y month 12 = Some (int_year (shift_month y month))"
  using assms
proof (induction "nat month" arbitrary: y month rule: less_induct)
  case less
  let ?y = "year_of_serial (serial_year y + 1)"
  consider "month \<le> 12" | "month > 12" "\<not> in_int32 ?y" | "month > 12" "in_int32 ?y" by linarith
  then show ?case
  proof cases
    case 1
    then show ?thesis
      using forward_step [OF less.prems(1-3)] shift_month_id [OF less.prems(1,4)] less.prems(2)
      by (simp add: int_year_def)
  next
    case 2
    then show ?thesis
      using forward_step [OF less.prems(1-3)] shift_forward_leaves_int [OF 2(1) less.prems(1,2) 2(2)]
      by (simp add: Let_def)
  next
    case 3
    have "addMonths_forward cal ?y (month - 12) 12 = Some (int_year (shift_month ?y (month - 12)))"
      using 3 less.prems(3) by (intro less.hyps) (auto simp: in_int32_def)
    also have "shift_month ?y (month - 12) = shift_month y month"
      using shift_month_step [of y ?y "month - 12"] by simp
    finally show ?thesis using forward_step [OF less.prems(1-3)] 3 by simp
  qed
qed

lemma addMonths_loops:
  assumes "y \<noteq> 0" "in_int32 y" "in_int32 month"
  shows "Option.bind (addMonths_back cal y month)
           (\<lambda>r. case r of Inl e \<Rightarrow> Some (Inl e)
                | Inr (year, month) \<Rightarrow> addMonths_forward cal year month (cal_monthsInYear cal year))
         = Some (int_year (shift_month y month))"
proof (cases "month \<le> 0")
  case True
  obtain y' m' where s: "shift_month y month = (y', m')" by (cases "shift_month y month")
  have r: "y' \<noteq> 0" "1 \<le> m'" "m' \<le> 12" using shift_month_range [OF s] by auto
  have m: "in_int32 m'" using r by (simp add: in_int32_def)
  show ?thesis
    using True s addMonths_back_eq [OF assms] twelve_months [OF r(1)]
      addMonths_forward_eq [OF r(1) _ m r(2)] shift_month_id [OF r]
    by (simp add: int_year_pair)
next
  case False
  then show ?thesis
    using addMonths_back_eq [OF assms] twelve_months [OF assms(1)] addMonths_forward_eq [OF assms] assms(2)
    by (simp add: int_year_pair)
qed

lemma fixedDate_eq:
  assumes "y \<noteq> 0" "1 \<le> m" "m \<le> 12" "1 \<le> d"
  shows "fixedDate (YearMonthDay y m d) cal =
     QCalendar_dateFromParts cal y m (min d (cal_daysInMonth cal m y))"
proof -
  have "min d (cal_daysInMonth cal m y) \<noteq> - 2147483648"
    using assms month_length [OF assms(1-3)] by linarith
  then show ?thesis
  using assms proleptic no_year_zero month_length [OF assms(1-3)]
  by (simp add: fixedDate_def YearMonthDay_def QCalendar_dateFromParts_ymd_def
      YearMonthDay_isValid_def Unspecified_def)
qed

lemma addMonths_eq:
  assumes "cal_dateToJulianDay cal y m d = Some jd" "lo \<le> jd" "jd \<le> hi" "in_int32 y" "n \<noteq> 0"
  shows "QDate_addMonths cal jd n =
     Some (let (y', m') = shift_month y (m + n)
           in if in_int32 (m + n) \<and> in_int32 y'
              then Inr (QCalendar_dateFromParts cal y' m' (min d (cal_daysInMonth cal m' y')))
              else Inl SignedOverflow)"
proof (cases "in_int32 (m + n)")
  case False
  from to_jd_month [OF assms(1)] have r: "1 \<le> m" "1 \<le> d" by auto
  show ?thesis
    using False assms parts_isValid [OF r] valid_date partsFromDate_eq [OF assms(1-3)]
    by (simp add: QDate_addMonths_def YearMonthDay_def int_add_def split: prod.splits)
next
  case True
  from to_jd_month [OF assms(1)] have r: "y \<noteq> 0" "1 \<le> m" "m \<le> 12" "1 \<le> d" by auto
  obtain y' m' where s: "shift_month y (m + n) = (y', m')" by (cases "shift_month y (m + n)")
  have f: "fixedDate (YearMonthDay y' m' d) cal =
      QCalendar_dateFromParts cal y' m' (min d (cal_daysInMonth cal m' y'))"
    using shift_month_range [OF s] r fixedDate_eq by simp
  have u: "YearMonthDay y m d\<lparr>ymd_year := a, ymd_month := b\<rparr> = YearMonthDay a b d" for a b
    by (simp add: YearMonthDay_def)
  have p: "ymd_year (YearMonthDay y m d) = y" "ymd_month (YearMonthDay y m d) = m"
    by (simp_all add: YearMonthDay_def)
  have "QDate_addMonths cal jd n =
      Option.bind (Option.bind (addMonths_back cal y (m + n))
           (\<lambda>r. case r of Inl e \<Rightarrow> Some (Inl e)
                | Inr (year, month) \<Rightarrow> addMonths_forward cal year month (cal_monthsInYear cal year)))
        (\<lambda>r. case r of Inl e \<Rightarrow> Some (Inl e)
             | Inr (year, month) \<Rightarrow> Some (Inr (fixedDate (YearMonthDay year month d) cal)))"
    using True assms u p parts_isValid [OF r(2,4)] valid_date partsFromDate_eq [OF assms(1-3)]
    by (cases "addMonths_back cal y (m + n)")
      (simp_all add: QDate_addMonths_def int_add_def split: sum.splits prod.splits)
  also have "\<dots> = (case int_year (shift_month y (m + n)) of Inl e \<Rightarrow> Some (Inl e)
       | Inr (year, month) \<Rightarrow> Some (Inr (fixedDate (YearMonthDay year month d) cal)))"
    by (simp only: addMonths_loops [OF r(1) assms(4) True] Option.bind.bind_lunit)
  finally show ?thesis using True f s by (simp add: int_year_pair)
qed

lemma addYears_eq:
  assumes "cal_dateToJulianDay cal y m d = Some jd" "lo \<le> jd" "jd \<le> hi" "in_int32 y"
  shows "QDate_addYears cal jd n =
     (let y' = year_of_serial (serial_year y + n)
      in if in_int32 y' then Inr (QCalendar_dateFromParts cal y' m (min d (cal_daysInMonth cal m y')))
         else Inl SignedOverflow)"
proof -
  from to_jd_month [OF assms(1)] have r: "y \<noteq> 0" "1 \<le> m" "m \<le> 12" "1 \<le> d" by auto
  have u: "YearMonthDay y m d\<lparr>ymd_year := a\<rparr> = YearMonthDay a m d" for a
    by (simp add: YearMonthDay_def)
  have p: "ymd_year (YearMonthDay y m d) = y" by (simp add: YearMonthDay_def)
  let ?year = "\<lambda>year. if (y > 0) \<noteq> (year > 0) \<or> year = 0
                     then int_add year (if n > 0 then 1 else - 1) else Inr year"
  have "QDate_addYears cal jd n =
      (case (case int_add y n of Inl e \<Rightarrow> Inl e | Inr year \<Rightarrow> ?year year) of Inl e \<Rightarrow> Inl e
       | Inr year \<Rightarrow> Inr (fixedDate (YearMonthDay year m d) cal))"
    using valid_date [OF assms(2,3)]
    by (cases "int_add y n")
      (simp_all add: QDate_addYears_def partsFromDate_eq [OF assms(1-3)] parts_isValid [OF r(2,4)]
        Let_def p u no_year_zero split: sum.splits)
  then show ?thesis
    unfolding crossing_year_zero [OF r(1) assms(4)]
    by (simp add: Let_def fixedDate_eq [OF year_of_serial_nonzero r(2-4)])
qed

end

end
