(* ===== verification/RomanCalendars.thy ===== *)
theory RomanCalendars
  imports CalendarBackend
begin

text \<open>
  The Roman calendars: \<open>qromancalendar.cpp\<close>, \<open>qgregoriancalendar.cpp\<close>,
  \<open>qjuliancalendar.cpp\<close> and \<open>qmilankoviccalendar.cpp\<close> of \<open>src/corelib/time\<close>. The C++
  remainder \<open>%\<close> is \<open>smod\<close>; \<open>to_int32\<close> marks each narrowing to \<open>int\<close>.
\<close>

section \<open>QRomanCalendar\<close>

definition Roman_daysInMonth :: "(int \<Rightarrow> bool) \<Rightarrow> int \<Rightarrow> int \<Rightarrow> int" where
  "Roman_daysInMonth isLeapYear month year =
     (if year = 0 \<or> month < 1 \<or> month > 12 then 0
      else if month = 2 then if isLeapYear year then 29 else 28
      else 30 OR ((month AND 1) XOR drop_bit 3 month))"

definition Roman_minimumDaysInMonth :: int where
  "Roman_minimumDaysInMonth = 28"

section \<open>QGregorianCalendar\<close>

definition Gregorian_leapTest :: "int \<Rightarrow> bool" where
  "Gregorian_leapTest year =
     (if year = Unspecified then False
      else let year = (if year < 1 then year + 1 else year)
           in year smod 4 = 0 \<and> (year smod 100 \<noteq> 0 \<or> year smod 400 = 0))"

definition Gregorian_isLeapYear :: "int \<Rightarrow> bool" where
  "Gregorian_isLeapYear year = Gregorian_leapTest year"

definition Gregorian_monthLength :: "int \<Rightarrow> int \<Rightarrow> int" where
  "Gregorian_monthLength month year =
     (if month < 1 \<or> month > 12 then 0
      else if month = 2 then if Gregorian_leapTest year then 29 else 28
      else 30 OR ((month AND 1) XOR drop_bit 3 month))"

definition Gregorian_validParts :: "int \<Rightarrow> int \<Rightarrow> int \<Rightarrow> bool" where
  "Gregorian_validParts year month day \<longleftrightarrow>
     year \<noteq> 0 \<and> 0 < day \<and> day \<le> Gregorian_monthLength month year"

definition Gregorian_weekDayOfJulian :: "int \<Rightarrow> int" where
  "Gregorian_weekDayOfJulian jd = to_int32 (qMod 7 jd + 1)"

definition Gregorian_BaseJd :: int where
  "Gregorian_BaseJd = LeapDayGregorian1Bce"

definition FourCenturies :: int where
  "FourCenturies = 400 * 365 + 97"

definition Gregorian_julianFromParts :: "int \<Rightarrow> int \<Rightarrow> int \<Rightarrow> int option" where
  "Gregorian_julianFromParts year month day =
     (if \<not> Gregorian_validParts year month day then None
      else let (y, days) = yearMonthToYearDays year month;
               fromYear = 365 * y + qDiv 4 y - qDiv 100 y + qDiv 400 y
           in Some (fromYear + days + day + Gregorian_BaseJd))"

definition Gregorian_partsFromJulian :: "int \<Rightarrow> YearMonthDay" where
  "Gregorian_partsFromJulian jd =
     (let dayNumber = jd - Gregorian_BaseJd;
          century = qDiv FourCenturies (4 * dayNumber - 1);
          dayInCentury = to_int32 (dayNumber - qDiv 4 (FourCenturies * century));
          yearInCentury = qDiv FourYears (4 * dayInCentury - 1);
          dayInYear = to_int32 (dayInCentury - qDiv 4 (to_uint32 (FourYears * yearInCentury)));
          m = qDiv FiveMonths (5 * dayInYear - 3);
          yearOffset = (if m < 10 then 0 else 1);
          y = to_int32 (100 * century + yearInCentury + yearOffset);
          month = m + 3 - 12 * yearOffset;
          day = to_int32 (dayInYear - qDiv 5 (to_uint32 (FiveMonths * m + 2)))
      in YearMonthDay (if y > 0 then y else y - 1) month day)"

definition Gregorian_dateToJulianDay :: "int \<Rightarrow> int \<Rightarrow> int \<Rightarrow> int option" where
  "Gregorian_dateToJulianDay year month day = Gregorian_julianFromParts year month day"

definition Gregorian_julianDayToDate :: "int \<Rightarrow> YearMonthDay" where
  "Gregorian_julianDayToDate jd = Gregorian_partsFromJulian jd"

section \<open>QJulianCalendar\<close>

definition Julian_isLeapYear :: "int \<Rightarrow> bool" where
  "Julian_isLeapYear year =
     (if year = Unspecified \<or> year = 0 then False
      else qMod 4 (if year < 0 then year + 1 else year) = 0)"

definition JulianBaseJd :: int where
  "JulianBaseJd = LeapDayGregorian1Bce - 2"

definition Julian_dateToJulianDay :: "int \<Rightarrow> int \<Rightarrow> int \<Rightarrow> int option" where
  "Julian_dateToJulianDay year month day =
     (if \<not> backend_isDateValid (Roman_daysInMonth Julian_isLeapYear) year month day then None
      else let (y, days) = yearMonthToYearDays year month
           in Some (qDiv 4 (FourYears * y) + days + day + JulianBaseJd))"

definition Julian_julianDayToDate :: "int \<Rightarrow> YearMonthDay" where
  "Julian_julianDayToDate jd =
     (let (quotient, remainder) = qDivMod FourYears (4 * (jd - JulianBaseJd) - 1);
          (year, month, day) = dayInYearToYmd (to_int32 (qDiv 4 remainder));
          y = to_int32 (quotient + year)
      in YearMonthDay (if y > 0 then y else y - 1) month day)"

section \<open>QMilankovicCalendar\<close>

definition Milankovic_isLeapYear :: "int \<Rightarrow> bool" where
  "Milankovic_isLeapYear year =
     (if year = Unspecified then False
      else let year = (if year \<le> 0 then year + 1 else year)
           in if qMod 4 year \<noteq> 0 then False
              else let (quotient, remainder) = qDivMod 100 year
                   in if remainder = 0 \<and> (let century = qMod 9 quotient in century \<noteq> 2 \<and> century \<noteq> 6)
                      then False else True)"

definition MilankovicBaseJd :: int where
  "MilankovicBaseJd = LeapDayGregorian1Bce"

definition NineCenturies :: int where
  "NineCenturies = 365 * 900 + 900 div 4 - 7"

definition LeapCentury :: int where
  "LeapCentury = 365 * 100 + 25"

definition Milankovic_dateToJulianDay :: "int \<Rightarrow> int \<Rightarrow> int \<Rightarrow> int option" where
  "Milankovic_dateToJulianDay year month day =
     (if \<not> backend_isDateValid (Roman_daysInMonth Milankovic_isLeapYear) year month day then None
      else let (y, days) = yearMonthToYearDays year month;
               (quotient, remainder) = qDivMod 100 y;
               fromYear = qDiv 9 (NineCenturies * quotient + 6) + qDiv 100 (LeapCentury * remainder)
           in Some (fromYear + days + day + MilankovicBaseJd))"

definition Milankovic_julianDayToDate :: "int \<Rightarrow> YearMonthDay" where
  "Milankovic_julianDayToDate jd =
     (let (quotient9, remainder9) = qDivMod NineCenturies (9 * (jd - MilankovicBaseJd) - 7);
          (quotient100, remainder100) = qDivMod LeapCentury (100 * qDiv 9 remainder9 + 99);
          (year, month, day) = dayInYearToYmd (to_int32 (qDiv 100 remainder100));
          y = to_int32 (100 * quotient9 + quotient100 + year)
      in YearMonthDay (if y > 0 then y else y - 1) month day)"

section \<open>The backends\<close>

definition GregorianCalendar :: QCalendar where
  "GregorianCalendar =
     \<lparr>cal_daysInMonth = Roman_daysInMonth Gregorian_isLeapYear,
      cal_daysInYear = backend_daysInYear
        (backend_monthsInYear backend_isProleptic backend_hasYearZero) Gregorian_isLeapYear,
      cal_monthsInYear = backend_monthsInYear backend_isProleptic backend_hasYearZero,
      cal_isLeapYear = Gregorian_isLeapYear,
      cal_isProleptic = backend_isProleptic,
      cal_hasYearZero = backend_hasYearZero,
      cal_minimumDaysInMonth = Roman_minimumDaysInMonth,
      cal_maximumDaysInMonth = backend_maximumDaysInMonth,
      cal_dateToJulianDay = Gregorian_dateToJulianDay,
      cal_julianDayToDate = Gregorian_julianDayToDate\<rparr>"

definition JulianCalendar :: QCalendar where
  "JulianCalendar =
     \<lparr>cal_daysInMonth = Roman_daysInMonth Julian_isLeapYear,
      cal_daysInYear = backend_daysInYear
        (backend_monthsInYear backend_isProleptic backend_hasYearZero) Julian_isLeapYear,
      cal_monthsInYear = backend_monthsInYear backend_isProleptic backend_hasYearZero,
      cal_isLeapYear = Julian_isLeapYear,
      cal_isProleptic = backend_isProleptic,
      cal_hasYearZero = backend_hasYearZero,
      cal_minimumDaysInMonth = Roman_minimumDaysInMonth,
      cal_maximumDaysInMonth = backend_maximumDaysInMonth,
      cal_dateToJulianDay = Julian_dateToJulianDay,
      cal_julianDayToDate = Julian_julianDayToDate\<rparr>"

definition MilankovicCalendar :: QCalendar where
  "MilankovicCalendar =
     \<lparr>cal_daysInMonth = Roman_daysInMonth Milankovic_isLeapYear,
      cal_daysInYear = backend_daysInYear
        (backend_monthsInYear backend_isProleptic backend_hasYearZero) Milankovic_isLeapYear,
      cal_monthsInYear = backend_monthsInYear backend_isProleptic backend_hasYearZero,
      cal_isLeapYear = Milankovic_isLeapYear,
      cal_isProleptic = backend_isProleptic,
      cal_hasYearZero = backend_hasYearZero,
      cal_minimumDaysInMonth = Roman_minimumDaysInMonth,
      cal_maximumDaysInMonth = backend_maximumDaysInMonth,
      cal_dateToJulianDay = Milankovic_dateToJulianDay,
      cal_julianDayToDate = Milankovic_julianDayToDate\<rparr>"

end
