(* ===== verification/RomanContract.thy ===== *)
theory RomanContract
  imports RomanCalendars
begin

text \<open>
  What the three Roman calendars share, as the locale \<open>roman_calendar\<close>: years counted from
  March, the five-month cycle, and a leap day at the end of the March year. It extends to the
  contract of a backend (\<open>sublocale\<close>), so that each calendar only shows its year arithmetic.
\<close>

section \<open>Months counted from March\<close>

definition roman_mstart :: "int \<Rightarrow> int" where
  "roman_mstart m = (153 * m + 2) div 5"

definition roman_monthOf :: "int \<Rightarrow> int" where
  "roman_monthOf k = (5 * k + 2) div 153"

definition march_month :: "int \<Rightarrow> int" where
  "march_month m = (if m < 3 then m + 9 else m - 3)"

definition march_year :: "int \<Rightarrow> int \<Rightarrow> int" where
  "march_year y m = (if m < 3 then serial_year y - 1 else serial_year y)"

definition civil_of_march :: "int \<times> int \<times> int \<Rightarrow> YearMonthDay" where
  "civil_of_march t = (case t of (Y, M, d) \<Rightarrow>
     YearMonthDay (year_of_serial (Y + (if M < 10 then 0 else 1))) (if M < 10 then M + 3 else M - 9) d)"

lemma roman_month_of_day:
  "roman_monthOf k = m \<longleftrightarrow> roman_mstart m \<le> k \<and> k < roman_mstart (m + 1)"
  using cycle_eq_iff [of 5 153 k 2 m] by (simp only: roman_monthOf_def roman_mstart_def) simp

lemma twelve_cases:
  "0 \<le> (m::int) \<Longrightarrow> m \<le> 11 \<Longrightarrow>
   m = 0 \<or> m = 1 \<or> m = 2 \<or> m = 3 \<or> m = 4 \<or> m = 5 \<or> m = 6 \<or> m = 7 \<or> m = 8 \<or> m = 9 \<or> m = 10 \<or> m = 11"
  by arith

lemma month_cases:
  "1 \<le> (m::int) \<Longrightarrow> m \<le> 12 \<Longrightarrow>
   m = 1 \<or> m = 2 \<or> m = 3 \<or> m = 4 \<or> m = 5 \<or> m = 6 \<or> m = 7 \<or> m = 8 \<or> m = 9 \<or> m = 10 \<or> m = 11 \<or> m = 12"
  by arith

text \<open>The bit formula for month lengths is the usual table.\<close>

lemma Roman_daysInMonth_eq:
  "Roman_daysInMonth leap m y =
     (if y = 0 \<or> m < 1 \<or> m > 12 then 0
      else if m = 2 then if leap y then 29 else 28
      else if m \<in> {4, 6, 9, 11} then 30 else 31)"
proof (cases "1 \<le> m \<and> m \<le> 12")
  case True
  then have m: "1 \<le> m" "m \<le> 12" by simp_all
  have "m = 2 \<or> 30 OR ((m AND 1) XOR drop_bit 3 m) = (if m \<in> {4, 6, 9, 11} then 30 else 31)"
    using month_cases [OF m] by (elim disjE) simp_all
  then show ?thesis using True by (auto simp: Roman_daysInMonth_def)
qed (auto simp: Roman_daysInMonth_def)

lemma march_month_start:
  assumes "1 \<le> m" "m \<le> 12"
  shows "qDiv 5 (to_uint32 (FiveMonths * march_month m + 2)) = roman_mstart (march_month m)"
proof -
  have "0 \<le> march_month m" "march_month m \<le> 11" using assms by (auto simp: march_month_def)
  then show ?thesis by (simp add: roman_mstart_def FiveMonths_def cpp_int cal_simps)
qed

lemma yearMonthToYearDays_eq:
  assumes "1 \<le> m" "m \<le> 12"
  shows "yearMonthToYearDays y m = (march_year y m, roman_mstart (march_month m))"
proof -
  have "yearMonthToYearDays y m =
      (march_year y m, qDiv 5 (to_uint32 (FiveMonths * march_month m + 2)))"
    by (simp add: yearMonthToYearDays_def march_year_def march_month_def serial_year_def Let_def
        add.commute [of 9])
  then show ?thesis using march_month_start [OF assms] by simp
qed

lemma march_months: "1 \<le> m \<Longrightarrow> m \<le> 12 \<Longrightarrow> 0 \<le> march_month m \<and> march_month m \<le> 11"
  by (auto simp: march_month_def)

lemma civil_march:
  "y \<noteq> 0 \<Longrightarrow> 1 \<le> m \<Longrightarrow> m \<le> 12 \<Longrightarrow>
   civil_of_march (march_year y m, march_month m, d) = YearMonthDay y m d"
  by (auto simp: civil_of_march_def march_year_def march_month_def)

lemma march_civil:
  assumes "0 \<le> M" "M \<le> 11" "civil_of_march (Y, M, d) = YearMonthDay y m d'"
  shows "d' = d \<and> y \<noteq> 0 \<and> 1 \<le> m \<and> m \<le> 12 \<and> march_year y m = Y \<and> march_month m = M"
  using assms
  by (cases "M < 10") (auto simp: civil_of_march_def YearMonthDay_def march_year_def march_month_def)

section \<open>The contract\<close>

locale roman_years =
  fixes fromYear yearOf :: "int \<Rightarrow> int" and leap :: "int \<Rightarrow> bool"
  assumes roman_year_of_day: "yearOf n = Y \<longleftrightarrow> fromYear Y \<le> n \<and> n < fromYear (Y + 1)"
    and year_step: "fromYear (Y + 1) = fromYear Y + (if leap (year_of_serial (Y + 1)) then 366 else 365)"
begin

sublocale year_tower fromYear yearOf roman_mstart roman_monthOf
proof
  show "yearOf n = y \<longleftrightarrow> fromYear y \<le> n \<and> n < fromYear (y + 1)" for n y by (rule roman_year_of_day)
  show "roman_monthOf k = m \<longleftrightarrow> roman_mstart m \<le> k \<and> k < roman_mstart (m + 1)" for k m
    by (rule roman_month_of_day)
  show "roman_mstart m < roman_mstart (m + 1)" if "0 \<le> m" "m < 12" for m
    using twelve_cases [of m] that by (auto simp: roman_mstart_def)
  show "roman_mstart 11 < fromYear (y + 1) - fromYear y" for y
    using year_step [of y] by (simp add: roman_mstart_def)
  show "fromYear (y + 1) - fromYear y \<le> roman_mstart 12" for y
    using year_step [of y] by (simp add: roman_mstart_def)
qed (simp add: roman_mstart_def)

text \<open>Days between the first and the last day whose year is an \<open>int\<close> have such a year.\<close>

lemma civil_year_range:
  assumes "fromYear (- (2 ^ 31)) + roman_mstart 10 \<le> n" "n < fromYear (2 ^ 31 - 1) + roman_mstart 10"
    and "tower_decode fromYear yearOf roman_mstart roman_monthOf n = (Y, M, D)"
  shows "- (2 ^ 31) < Y + (if M < 10 then 0 else 1) \<and> Y + (if M < 10 then 0 else 1) < 2 ^ 31"
proof -
  have Y: "Y = yearOf n" and M: "M = monthOf n'" if "n' = n - fromYear Y" "monthOf = roman_monthOf" for n' monthOf
    using assms(3) that by (auto simp: tower_decode_def Let_def)
  note Yn = Y [OF refl refl] and Mn = M [OF refl refl]
  have c: "fromYear Y \<le> n" "n < fromYear (Y + 1)" using year_contains [of n] by (simp_all add: Yn)
  have m: "roman_mstart M \<le> n - fromYear Y" "n - fromYear Y < roman_mstart (M + 1)"
    using month_contains [of "n - fromYear Y"] by (simp_all add: Mn)
  have M12: "0 \<le> M" "M \<le> 11" using decode_valid [OF assms(3)] by simp_all
  have pos: "0 \<le> roman_mstart 10" "roman_mstart 10 < 366" by (simp_all add: roman_mstart_def)
  have mono: "Y1 \<le> Y2 \<Longrightarrow> fromYear Y1 \<le> fromYear Y2" for Y1 Y2
    using fromYear_strict [of Y1 Y2] by (cases "Y1 = Y2") auto
  have below: "M < 10 \<Longrightarrow> roman_mstart (M + 1) \<le> roman_mstart 10"
    and above: "10 \<le> M \<Longrightarrow> roman_mstart 10 \<le> roman_mstart M"
    using mstart_mono [of "M + 1" 10] mstart_mono [of 10 M] M12 by simp_all
  have "\<not> Y + 1 \<le> - (2 ^ 31)" using mono [of "Y + 1" "- (2 ^ 31)"] c assms(1) pos by linarith
  moreover have "Y \<noteq> - (2 ^ 31) \<or> 10 \<le> M"
    using m(2) assms(1) below by force
  moreover have "\<not> 2 ^ 31 \<le> Y"
  proof
    assume "2 ^ 31 \<le> Y"
    then have "fromYear (2 ^ 31) \<le> n" using mono [of "2 ^ 31" Y] c by simp
    moreover have "fromYear (2 ^ 31 - 1) + roman_mstart 11 < fromYear (2 ^ 31)"
      using last_month [of "2 ^ 31 - 1"] by simp
    moreover have "roman_mstart 10 \<le> roman_mstart 11" by (simp add: roman_mstart_def)
    ultimately show False using assms(2) by linarith
  qed
  moreover have "Y \<noteq> 2 ^ 31 - 1 \<or> M < 10"
    using m(1) assms(2) above by force
  ultimately show ?thesis by (cases "M < 10") simp_all
qed

end

locale roman_calendar = roman_years +
  fixes cal :: QCalendar and lo hi base :: int
  assumes jd_range: "minJd \<le> lo" "hi \<le> maxJd"
    and fields: "cal_daysInMonth cal = Roman_daysInMonth leap"
      "cal_daysInYear cal = backend_daysInYear (backend_monthsInYear True False) leap"
      "cal_monthsInYear cal = backend_monthsInYear True False"
      "cal_isProleptic cal" "\<not> cal_hasYearZero cal"
    and to_jd: "cal_dateToJulianDay cal y m d =
      (if 1 \<le> d \<and> d \<le> Roman_daysInMonth leap m y
       then Some (fromYear (march_year y m) + roman_mstart (march_month m) + d + base) else None)"
    and from_jd: "lo \<le> jd \<Longrightarrow> jd \<le> hi \<Longrightarrow> cal_julianDayToDate cal jd =
      civil_of_march (tower_decode fromYear yearOf roman_mstart roman_monthOf (jd - base - 1))"
begin

lemma month_length_tower:
  assumes "y \<noteq> 0" "1 \<le> m" "m \<le> 12"
  shows "Roman_daysInMonth leap m y = tower_mlen fromYear roman_mstart (march_year y m) (march_month m)"
proof (cases "m = 2")
  case True
  with assms year_step [of "serial_year y - 1"] show ?thesis
    by (auto simp: Roman_daysInMonth_eq tower_mlen_def march_year_def march_month_def roman_mstart_def)
next
  case False
  have eq: "tower_mlen fromYear roman_mstart Y (march_month m) = (if m \<in> {4, 6, 9, 11} then 30 else 31)" for Y
    using month_cases [OF assms(2,3)] False
    by (elim disjE) (simp_all add: tower_mlen_def march_month_def roman_mstart_def)
  show ?thesis using False assms by (simp add: Roman_daysInMonth_eq eq)
qed

lemma to_jd_encode:
  assumes "cal_dateToJulianDay cal y m d = Some jd"
  shows "jd = tower_encode fromYear roman_mstart (march_year y m) (march_month m) d + base + 1"
  using assms by (auto simp: to_jd tower_encode_def split: if_splits)

lemma leap_sum:
  assumes "y \<noteq> 0"
  shows "(\<Sum>m = 1..12. Roman_daysInMonth leap m y) = (if leap y then 366 else 365)"
proof -
  have "{1..12::int} = {1, 2, 3, 4, 5, 6, 7, 8, 9, 10, 11, 12}"
    unfolding set_upto [symmetric] by (simp add: upto.simps)
  with assms show ?thesis by (simp add: Roman_daysInMonth_eq)
qed

lemma next_month_start:
  assumes "y \<noteq> 0" "1 \<le> m" "m \<le> 12" "shift_month y (m + 1) = (y', m')"
  shows "fromYear (march_year y' m') + roman_mstart (march_month m')
    = fromYear (march_year y m) + roman_mstart (march_month m) + Roman_daysInMonth leap m y"
proof -
  have sm: "(y', m') = (if m = 12 then (year_of_serial (serial_year y + 1), 1) else (y, m + 1))"
    using assms by (auto simp: shift_month_def Let_def)
  have succ: "march_month m \<noteq> 11 \<Longrightarrow> march_year y' m' = march_year y m \<and> march_month m' = march_month m + 1"
    and feb: "march_month m = 11 \<Longrightarrow> march_year y' m' = march_year y m + 1 \<and> march_month m' = 0"
    using sm assms by (auto simp: march_year_def march_month_def split: if_splits)
  show ?thesis
    unfolding month_length_tower [OF assms(1-3)]
    using succ feb by (cases "march_month m = 11") (simp_all add: tower_mlen_def first_month)
qed

end

sublocale roman_calendar \<subseteq> calendar_backend cal lo hi
proof
  show "minJd \<le> lo" "hi \<le> maxJd" by (fact jd_range)+
  show "cal_isProleptic cal" "\<not> cal_hasYearZero cal" by (fact fields)+
  show "cal_monthsInYear cal y = 12" if "y \<noteq> 0" for y
    using that by (auto simp: fields backend_monthsInYear_def)
  show "28 \<le> cal_daysInMonth cal m y" if "y \<noteq> 0" "1 \<le> m" "m \<le> 12" for m y
    using that by (simp add: fields Roman_daysInMonth_eq)
  show "cal_daysInMonth cal m y = 0" if "y = 0 \<or> m < 1 \<or> 12 < m" for m y
    using that by (auto simp: fields Roman_daysInMonth_eq)
  show "cal_daysInYear cal y = (\<Sum>m = 1..12. cal_daysInMonth cal m y)" 
    if "cal_dateToJulianDay cal y m d = Some a" for y m d a
  proof -
    from that have "y \<noteq> 0" by (auto simp: to_jd Roman_daysInMonth_eq split: if_splits)
    then show ?thesis by (auto simp: fields leap_sum backend_daysInYear_def backend_monthsInYear_def)
  qed
  show "(\<exists>jd. cal_dateToJulianDay cal y m d = Some jd) \<longleftrightarrow> 1 \<le> d \<and> d \<le> cal_daysInMonth cal m y" for y m d
    by (simp add: to_jd fields)
  show "cal_dateToJulianDay cal y m d = Some (a + d - 1)"
    if "cal_dateToJulianDay cal y m 1 = Some a" "1 \<le> d" "d \<le> cal_daysInMonth cal m y" for y m d a
    using that by (auto simp: to_jd fields split: if_splits)
  show "cal_dateToJulianDay cal (fst (shift_month y (m + 1))) (snd (shift_month y (m + 1))) 1
      = Some (a + cal_daysInMonth cal m y)" if a: "cal_dateToJulianDay cal y m 1 = Some a" for y m a
  proof -
    from a have l: "1 \<le> Roman_daysInMonth leap m y" by (auto simp: to_jd split: if_splits)
    then have r: "y \<noteq> 0" "1 \<le> m" "m \<le> 12" by (auto simp: Roman_daysInMonth_eq split: if_splits)
    obtain y' m' where s: "shift_month y (m + 1) = (y', m')" by (cases "shift_month y (m + 1)")
    have "28 \<le> Roman_daysInMonth leap m' y'"
      using shift_month_range [OF s] by (simp add: Roman_daysInMonth_eq)
    then show ?thesis
      using a l s next_month_start [OF r s] by (simp add: to_jd fields)
  qed
  show "cal_dateToJulianDay cal y m d = Some jd"
    if "lo \<le> jd" "jd \<le> hi" "cal_julianDayToDate cal jd = YearMonthDay y m d" for jd y m d
  proof -
    obtain Y M D where dec: "tower_decode fromYear yearOf roman_mstart roman_monthOf (jd - base - 1) = (Y, M, D)"
      by (cases "tower_decode fromYear yearOf roman_mstart roman_monthOf (jd - base - 1)")
    with that have civ: "civil_of_march (Y, M, D) = YearMonthDay y m d" by (simp add: from_jd)
    note v = decode_valid [OF dec] and e = encode_decode [OF dec]
    from march_civil [OF _ _ civ] v
    have c: "d = D" "y \<noteq> 0" "1 \<le> m" "m \<le> 12" "march_year y m = Y" "march_month m = M" by auto
    with v month_length_tower [OF c(2-4)] have "1 \<le> d \<and> d \<le> Roman_daysInMonth leap m y" by simp
    with c e show ?thesis by (simp add: to_jd tower_encode_def)
  qed
  show "cal_julianDayToDate cal jd = YearMonthDay y m d"
    if j: "cal_dateToJulianDay cal y m d = Some jd" "lo \<le> jd" "jd \<le> hi" for jd y m d
  proof -
    from j(1) have l: "1 \<le> d" "d \<le> Roman_daysInMonth leap m y" by (auto simp: to_jd split: if_splits)
    then have r: "y \<noteq> 0" "1 \<le> m" "m \<le> 12" by (auto simp: Roman_daysInMonth_eq split: if_splits)
    have "tower_decode fromYear yearOf roman_mstart roman_monthOf (jd - base - 1)
        = (march_year y m, march_month m, d)"
      using decode_encode [of "march_month m" d "march_year y m"] march_months [OF r(2,3)] l
        to_jd_encode [OF j(1)] month_length_tower [OF r] by simp
    then show ?thesis using from_jd [OF j(2,3)] civil_march [OF r] by simp
  qed
qed

end
