(* ===== verification/RomanInstances.thy ===== *)
theory RomanInstances
  imports RomanContract
begin

text \<open>
  The year arithmetic of the Gregorian, Julian and Milankovic calendars, and the
  interpretation of the contract on each of them.
\<close>

lemma smod_eq_0_iff: "a smod b = 0 \<longleftrightarrow> b dvd (a::int)"
  by (cases "a = 0")
    (simp_all add: signed_modulo_int_def mod_eq_0_iff_dvd sgn_if)

lemma div_succ: "0 < k \<Longrightarrow> (Y + 1) div k = Y div k + (if k dvd Y + 1 then 1 else 0)" for Y k :: int
proof -
  assume k: "0 < k"
  show ?thesis
  proof (cases "k dvd Y + 1")
    case True
    then obtain j where j: "Y + 1 = k * j" by blast
    then have "Y div k = j - 1"
      using k by (subst div_eq_iff_between) (auto simp: algebra_simps)
    with j k True show ?thesis by simp
  next
    case False
    then have "(Y + 1) mod k \<noteq> 0" by (simp add: mod_eq_0_iff_dvd)
    then have r: "0 < (Y + 1) mod k" using k by (simp add: less_le)
    have e: "(Y + 1) div k * k = Y + 1 - (Y + 1) mod k" by (simp add: minus_mod_eq_div_mult)
    have "Y div k = (Y + 1) div k"
      using pos_mod_bound [OF k, of "Y + 1"] r
      by (subst div_eq_iff_between [OF k]) (simp only: distrib_right e, linarith)
    with False show ?thesis by simp
  qed
qed

lemma serial_no_leap_min: "y \<noteq> 0 \<Longrightarrow> y = Unspecified \<Longrightarrow> \<not> 4 dvd serial_year y"
  by (simp add: serial_year_def Unspecified_def)

section \<open>Gregorian\<close>

definition Gregorian_fromYear :: "int \<Rightarrow> int" where
  "Gregorian_fromYear Y = 365 * Y + Y div 4 - Y div 100 + Y div 400"

definition Gregorian_yearOf :: "int \<Rightarrow> int" where
  "Gregorian_yearOf n =
     (let c = (4 * n + 3) div 146097; k = n - (146097 * c) div 4 in 100 * c + (4 * k + 3) div 1461)"

lemma Gregorian_leapTest_serial:
  "y \<noteq> 0 \<Longrightarrow> Gregorian_leapTest y \<longleftrightarrow>
     4 dvd serial_year y \<and> (\<not> 100 dvd serial_year y \<or> 400 dvd serial_year y)"
  by (auto simp: Gregorian_leapTest_def serial_year_def smod_eq_0_iff Unspecified_def Let_def)

lemma century_start: "(146097 * C) div 4 = 36524 * C + C div (4::int)"
  by linarith

lemma four_year_start: "(1461 * R) div 4 = 365 * R + R div (4::int)"
  by linarith

lemma century_end: "(146097 * (C + 1)) div 4 \<le> (146097 * C) div 4 + (36525::int)"
  using div_succ [of 4 C] by (simp only: century_start) (simp split: if_splits)

lemma four_year_end: "(1461 * (R + 1)) div 4 \<le> (1461 * R) div 4 + (366::int)"
  using div_succ [of 4 R] by (simp only: four_year_start) (simp split: if_splits)

lemma Gregorian_fromYear_split:
  assumes "0 \<le> R" "R < 100"
  shows "Gregorian_fromYear (100 * C + R) = (146097 * C) div 4 + (1461 * R) div 4"
proof -
  have d4: "(100 * C + R) div 4 = 25 * C + R div 4" using assms by simp
  have d100: "(100 * C + R) div 100 = C" using assms by simp
  have d400: "(100 * C + R) div 400 = C div 4"
    using assms zdiv_zmult2_eq [of 4 "100 * C + R" 100] by simp
  show ?thesis
    by (simp only: Gregorian_fromYear_def d4 d100 d400 century_start four_year_start) simp
qed

lemma Gregorian_century:
  fixes n :: int
  defines "c \<equiv> (4 * n + 3) div 146097"
  defines "k \<equiv> n - (146097 * c) div 4"
  defines "r \<equiv> (4 * k + 3) div 1461"
  shows "0 \<le> k" "k \<le> 36524" "0 \<le> r" "r < 100" "(1461 * r) div 4 \<le> k" "k < (1461 * (r + 1)) div 4"
    and "n < (146097 * (c + 1)) div 4"
proof -
  have c: "(146097 * c) div 4 \<le> n" "n < (146097 * (c + 1)) div 4"
    using day_in_cycle [of 4 146097 0 n] by (simp_all add: c_def)
  then show k: "0 \<le> k" "k \<le> 36524" and "n < (146097 * (c + 1)) div 4"
    using century_end [of c] by (simp_all only: k_def)
  show "0 \<le> r" "r < 100" using k unfolding r_def by linarith+
  show "(1461 * r) div 4 \<le> k" "k < (1461 * (r + 1)) div 4"
    using day_in_cycle [of 4 1461 0 k] by (simp_all add: r_def)
qed

lemma Gregorian_year_contains:
  "Gregorian_fromYear (Gregorian_yearOf n) \<le> n \<and> n < Gregorian_fromYear (Gregorian_yearOf n + 1)"
proof -
  define c where "c = (4 * n + 3) div 146097"
  define k where "k = n - (146097 * c) div 4"
  define r where "r = (4 * k + 3) div 1461"
  note g = Gregorian_century [of n, folded c_def, folded k_def, folded r_def]
  have y: "Gregorian_yearOf n = 100 * c + r" by (simp add: Gregorian_yearOf_def c_def k_def r_def Let_def)
  have lo: "Gregorian_fromYear (100 * c + r) \<le> n"
    using g Gregorian_fromYear_split [of r c] by (simp add: k_def)
  have hi: "n < Gregorian_fromYear (100 * c + r + 1)"
  proof (cases "r = 99")
    case True
    then show ?thesis using g Gregorian_fromYear_split [of 0 "c + 1"] by (simp add: algebra_simps)
  next
    case False
    then show ?thesis
      using g Gregorian_fromYear_split [of "r + 1" c] by (simp add: k_def add.assoc)
  qed
  from lo hi y show ?thesis by simp
qed

lemma Gregorian_year_step:
  "Gregorian_fromYear (Y + 1) =
     Gregorian_fromYear Y + (if Gregorian_leapTest (year_of_serial (Y + 1)) then 366 else 365)"
proof -
  have nested: "400 dvd Y + 1 \<Longrightarrow> 100 dvd Y + 1" "100 dvd Y + 1 \<Longrightarrow> 4 dvd Y + 1"
    using dvd_trans [of 100 400 "Y + 1"] dvd_trans [of 4 100 "Y + 1"] by simp_all
  have leap: "Gregorian_leapTest (year_of_serial (Y + 1)) \<longleftrightarrow>
      4 dvd Y + 1 \<and> (\<not> 100 dvd Y + 1 \<or> 400 dvd Y + 1)"
    by (simp only: Gregorian_leapTest_serial [OF year_of_serial_nonzero] serial_year_inverse)
  have "Gregorian_fromYear (Y + 1) = Gregorian_fromYear Y + 365 + (if 4 dvd Y + 1 then 1 else 0)
      - (if 100 dvd Y + 1 then 1 else 0) + (if 400 dvd Y + 1 then 1 else 0)"
    by (simp only: Gregorian_fromYear_def div_succ zero_less_numeral) simp
  then show ?thesis
    unfolding leap using nested
    by (cases "4 dvd Y + 1"; cases "100 dvd Y + 1"; cases "400 dvd Y + 1")
      (simp_all only: if_True if_False simp_thms)
qed

text \<open>Years in order and containing the day: then the year of a day is unique.\<close>

lemma year_of_day_iff:
  fixes fromYear yearOf :: "int \<Rightarrow> int"
  assumes contains: "\<And>n. fromYear (yearOf n) \<le> n \<and> n < fromYear (yearOf n + 1)"
    and step: "\<And>Y. fromYear Y < fromYear (Y + 1)"
  shows "yearOf n = Y \<longleftrightarrow> fromYear Y \<le> n \<and> n < fromYear (Y + 1)"
proof
  show "yearOf n = Y \<Longrightarrow> fromYear Y \<le> n \<and> n < fromYear (Y + 1)" using contains by blast
  have mono: "a \<le> b \<Longrightarrow> fromYear a \<le> fromYear b" for a b
  proof (induction "nat (b - a)" arbitrary: b)
    case (Suc i)
    then have "fromYear a \<le> fromYear (b - 1)" by simp
    with step [of "b - 1"] show ?case by simp
  qed simp
  assume Y: "fromYear Y \<le> n \<and> n < fromYear (Y + 1)"
  show "yearOf n = Y"
  proof (rule ccontr)
    assume "yearOf n \<noteq> Y"
    then consider "yearOf n + 1 \<le> Y" | "Y + 1 \<le> yearOf n" by linarith
    then show False
      by cases (use mono contains [of n] Y in \<open>meson linorder_not_le order_trans\<close>)+
  qed
qed

interpretation greg_years: roman_years Gregorian_fromYear Gregorian_yearOf Gregorian_isLeapYear
proof
  show "Gregorian_yearOf n = Y \<longleftrightarrow> Gregorian_fromYear Y \<le> n \<and> n < Gregorian_fromYear (Y + 1)" for n Y
    by (rule year_of_day_iff) (use Gregorian_year_contains Gregorian_year_step in auto)
qed (simp add: Gregorian_year_step Gregorian_isLeapYear_def)

lemma Gregorian_from_jd:
  assumes "minJd \<le> jd" "jd \<le> maxJd"
  shows "Gregorian_partsFromJulian jd = civil_of_march
     (tower_decode Gregorian_fromYear Gregorian_yearOf roman_mstart roman_monthOf (jd - Gregorian_BaseJd - 1))"
proof -
  define n where "n = jd - Gregorian_BaseJd - 1"
  define c where "c = (4 * n + 3) div 146097"
  define k where "k = n - (146097 * c) div 4"
  define r where "r = (4 * k + 3) div 1461"
  define diy where "diy = k - (1461 * r) div 4"
  define M where "M = roman_monthOf diy"
  note g = Gregorian_century [of n, folded c_def, folded k_def, folded r_def]
  have y: "Gregorian_yearOf n = 100 * c + r" by (simp add: Gregorian_yearOf_def c_def k_def r_def Let_def)
  have diy: "diy = n - Gregorian_fromYear (100 * c + r)" "0 \<le> diy" "diy \<le> 366"
    using g Gregorian_fromYear_split [of r c] four_year_end [of r] by (simp_all only: diy_def k_def)
  have dec: "tower_decode Gregorian_fromYear Gregorian_yearOf roman_mstart roman_monthOf n
      = (100 * c + r, M, diy - roman_mstart M + 1)"
    using y diy by (simp add: tower_decode_def M_def Let_def)
  have M: "0 \<le> M" "M \<le> 11" and D: "1 \<le> diy - roman_mstart M + 1" "diy - roman_mstart M + 1 \<le> 31"
    using greg_years.decode_valid [OF dec] greg_years.decode_valid [OF dec] diy
      roman_month_of_day [of diy M] by (auto simp: M_def roman_mstart_def)
  have range: "- (2 ^ 31) < 100 * c + r + (if M < 10 then 0 else 1)"
    "100 * c + r + (if M < 10 then 0 else 1) < 2 ^ 31"
    using greg_years.civil_year_range [OF _ _ dec] assms
    by (simp_all add: n_def Gregorian_BaseJd_def LeapDayGregorian1Bce_def minJd_def maxJd_def
        Gregorian_fromYear_def roman_mstart_def)
  have four: "FourCenturies = 146097" "FourYears = 1461" "FiveMonths = 153"
    by (simp_all add: FourCenturies_def FourYears_def FiveMonths_def)
  have shift: "4 * (jd - Gregorian_BaseJd) - 1 = 4 * n + 3" "jd - Gregorian_BaseJd = n + 1"
    by (simp_all add: n_def)
  have e1: "qDiv FourCenturies (4 * (jd - Gregorian_BaseJd) - 1) = c"
    unfolding four shift by (simp add: cal_simps c_def)
  have e2: "to_int32 (jd - Gregorian_BaseJd - qDiv 4 (FourCenturies * c)) = k + 1"
    unfolding four shift using g by (subst to_int32_id) (simp_all add: cal_simps k_def)
  have e3: "qDiv FourYears (4 * (k + 1) - 1) = r"
    unfolding four by (simp add: cal_simps r_def)
  have e4: "to_int32 (k + 1 - qDiv 4 (to_uint32 (FourYears * r))) = diy + 1"
    unfolding four using diy g by (subst to_int32_id) (simp_all add: cpp_int cal_simps diy_def)
  have e5: "qDiv FiveMonths (5 * (diy + 1) - 3) = M"
    unfolding four by (simp add: cal_simps M_def roman_monthOf_def)
  have e6: "to_int32 (100 * c + r + (if M < 10 then 0 else 1)) = 100 * c + r + (if M < 10 then 0 else 1)"
    using range by (intro to_int32_id) simp_all
  have e7: "to_int32 (diy + 1 - qDiv 5 (to_uint32 (FiveMonths * M + 2))) = diy - roman_mstart M + 1"
    unfolding four using D M by (subst to_int32_id) (simp_all add: cpp_int cal_simps roman_mstart_def)
  show ?thesis
    unfolding n_def [symmetric] dec Gregorian_partsFromJulian_def Let_def e1 e2 e3 e4 e5 e6 e7
    by (simp add: civil_of_march_def year_of_serial_def)
qed

lemma Gregorian_validParts_eq:
  "Gregorian_validParts y m d \<longleftrightarrow> 1 \<le> d \<and> d \<le> Roman_daysInMonth Gregorian_isLeapYear m y"
  by (auto simp: Gregorian_validParts_def Gregorian_monthLength_def Roman_daysInMonth_def
      Gregorian_isLeapYear_def)

lemma Gregorian_to_jd:
  "Gregorian_julianFromParts y m d =
     (if 1 \<le> d \<and> d \<le> Roman_daysInMonth Gregorian_isLeapYear m y
      then Some (Gregorian_fromYear (march_year y m) + roman_mstart (march_month m) + d + Gregorian_BaseJd)
      else None)"
proof (cases "1 \<le> m \<and> m \<le> 12")
  case True
  then show ?thesis
    by (simp add: Gregorian_julianFromParts_def Gregorian_validParts_eq yearMonthToYearDays_eq
        Gregorian_fromYear_def cal_simps)
next
  case False
  then have "Roman_daysInMonth Gregorian_isLeapYear m y = 0" by (auto simp: Roman_daysInMonth_def)
  then show ?thesis by (simp add: Gregorian_julianFromParts_def Gregorian_validParts_eq)
qed

interpretation greg: roman_calendar Gregorian_fromYear Gregorian_yearOf Gregorian_isLeapYear
  GregorianCalendar minJd maxJd Gregorian_BaseJd
proof
  show "cal_dateToJulianDay GregorianCalendar y m d =
      (if 1 \<le> d \<and> d \<le> Roman_daysInMonth Gregorian_isLeapYear m y
       then Some (Gregorian_fromYear (march_year y m) + roman_mstart (march_month m) + d + Gregorian_BaseJd)
       else None)" for y m d
    by (simp add: GregorianCalendar_def Gregorian_dateToJulianDay_def Gregorian_to_jd)
  show "cal_julianDayToDate GregorianCalendar jd = civil_of_march
      (tower_decode Gregorian_fromYear Gregorian_yearOf roman_mstart roman_monthOf (jd - Gregorian_BaseJd - 1))"
    if "minJd \<le> jd" "jd \<le> maxJd" for jd
    using Gregorian_from_jd [OF that] by (simp add: GregorianCalendar_def Gregorian_julianDayToDate_def)
qed (simp_all add: GregorianCalendar_def backend_isProleptic_def backend_hasYearZero_def)

section \<open>Julian\<close>

definition Julian_fromYear :: "int \<Rightarrow> int" where
  "Julian_fromYear Y = (1461 * Y) div 4"

definition Julian_yearOf :: "int \<Rightarrow> int" where
  "Julian_yearOf n = (4 * n + 3) div 1461"

lemma Julian_leap_serial: "y \<noteq> 0 \<Longrightarrow> Julian_isLeapYear y \<longleftrightarrow> 4 dvd serial_year y"
  by (auto simp: Julian_isLeapYear_def serial_year_def Unspecified_def cal_simps mod_eq_0_iff_dvd)

interpretation julian_years: roman_years Julian_fromYear Julian_yearOf Julian_isLeapYear
proof
  show "Julian_yearOf n = Y \<longleftrightarrow> Julian_fromYear Y \<le> n \<and> n < Julian_fromYear (Y + 1)" for n Y
    using cycle_eq_iff [of 4 1461 n 0 Y] by (simp only: Julian_fromYear_def Julian_yearOf_def) simp
  show "Julian_fromYear (Y + 1) =
      Julian_fromYear Y + (if Julian_isLeapYear (year_of_serial (Y + 1)) then 366 else 365)" for Y
    by (simp only: Julian_fromYear_def four_year_start div_succ zero_less_numeral
        Julian_leap_serial [OF year_of_serial_nonzero] serial_year_inverse) simp
qed

lemma dayInYearToYmd_eq:
  assumes "0 \<le> k" "k \<le> 366"
  shows "dayInYearToYmd k = (let M = roman_monthOf k
     in (if M < 10 then 0 else 1, if M < 10 then M + 3 else M - 9, k - roman_mstart M + 1))"
proof -
  define M where "M = roman_monthOf k"
  have M: "0 \<le> M" "M \<le> 11" using assms unfolding M_def roman_monthOf_def by linarith+
  have "(5 * k + 2) mod 153 div 5 = k - roman_mstart M"
    using cycle_remainder [of 5 k 2 153] by (simp add: M_def roman_monthOf_def roman_mstart_def)
  moreover have "(M + 2) div 12 = (if M < 10 then 0 else 1)" using M by auto
  moreover have "(M + 2) mod 12 + 1 = (if M < 10 then M + 3 else M - 9)"
    using M by (simp add: minus_div_mult_eq_mod [symmetric] \<open>(M + 2) div 12 = _\<close>)
  ultimately show ?thesis
    by (simp add: dayInYearToYmd_def FiveMonths_def qDivMod_eq cal_simps Let_def M_def [symmetric]
        roman_monthOf_def [symmetric])
qed

text \<open>What the Julian and Milankovic conversions do once they have the year and the day in it.\<close>

lemma civil_from_day_in_year:
  assumes "tower_decode fromYear yearOf roman_mstart roman_monthOf n = (Y, M, D)"
    and "k = n - fromYear Y" "0 \<le> k" "k \<le> 366"
    and "- (2 ^ 31) < Y + (if M < 10 then 0 else 1)" "Y + (if M < 10 then 0 else 1) < 2 ^ 31"
  shows "(let (year, month, day) = dayInYearToYmd (to_int32 k); y = to_int32 (Y + year)
          in YearMonthDay (if y > 0 then y else y - 1) month day) = civil_of_march (Y, M, D)"
proof -
  have k: "to_int32 k = k" using assms by (intro to_int32_id) simp_all
  have M: "roman_monthOf k = M" and D: "k - roman_mstart M + 1 = D"
    using assms(1,2) by (auto simp: tower_decode_def Let_def)
  have y: "to_int32 (Y + (if M < 10 then 0 else 1)) = Y + (if M < 10 then 0 else 1)"
    using assms(5,6) by (intro to_int32_id) simp_all
  show ?thesis
    unfolding k dayInYearToYmd_eq [OF assms(3,4)] Let_def M prod.case y D
    by (simp add: civil_of_march_def year_of_serial_def)
qed

lemma Julian_from_jd:
  assumes "minJd \<le> jd" "jd \<le> maxJd"
  shows "Julian_julianDayToDate jd = civil_of_march
     (tower_decode Julian_fromYear Julian_yearOf roman_mstart roman_monthOf (jd - JulianBaseJd - 1))"
proof -
  define n where "n = jd - JulianBaseJd - 1"
  obtain Y M D where dec: "tower_decode Julian_fromYear Julian_yearOf roman_mstart roman_monthOf n = (Y, M, D)"
    by (cases "tower_decode Julian_fromYear Julian_yearOf roman_mstart roman_monthOf n")
  then have Y: "Y = (4 * n + 3) div 1461" by (simp add: tower_decode_def Julian_yearOf_def Let_def)
  have range: "- (2 ^ 31) < Y + (if M < 10 then 0 else 1)" "Y + (if M < 10 then 0 else 1) < 2 ^ 31"
    using julian_years.civil_year_range [OF _ _ dec] assms
    by (simp_all add: n_def JulianBaseJd_def LeapDayGregorian1Bce_def minJd_def maxJd_def
        Julian_fromYear_def roman_mstart_def)
  have k: "(4 * n + 3) mod 1461 div 4 = n - Julian_fromYear Y"
    using cycle_remainder [of 4 n 0 1461] by (simp add: Julian_fromYear_def Y)
  have k366: "0 \<le> n - Julian_fromYear Y" "n - Julian_fromYear Y \<le> 366"
    using julian_years.day_in_year [of n] Y by (simp_all add: Julian_yearOf_def roman_mstart_def)
  have e: "qDivMod FourYears (4 * (jd - JulianBaseJd) - 1) = (Y, (4 * n + 3) mod 1461)"
    by (simp add: qDivMod_eq FourYears_def Y n_def)
  have q: "qDiv 4 ((4 * n + 3) mod 1461) = n - Julian_fromYear Y" by (simp add: cal_simps k)
  show ?thesis
    unfolding n_def [symmetric] dec civil_from_day_in_year [OF dec refl k366 range, symmetric]
    by (simp only: Julian_julianDayToDate_def Let_def e q prod.case)
qed

lemma Julian_to_jd:
  "Julian_dateToJulianDay y m d =
     (if 1 \<le> d \<and> d \<le> Roman_daysInMonth Julian_isLeapYear m y
      then Some (Julian_fromYear (march_year y m) + roman_mstart (march_month m) + d + JulianBaseJd)
      else None)"
proof (cases "1 \<le> m \<and> m \<le> 12")
  case True
  then show ?thesis
    by (simp add: Julian_dateToJulianDay_def backend_isDateValid_def yearMonthToYearDays_eq
        Julian_fromYear_def FourYears_def cal_simps)
next
  case False
  then have "Roman_daysInMonth Julian_isLeapYear m y = 0" by (auto simp: Roman_daysInMonth_def)
  then show ?thesis by (simp add: Julian_dateToJulianDay_def backend_isDateValid_def)
qed

interpretation julian: roman_calendar Julian_fromYear Julian_yearOf Julian_isLeapYear
  JulianCalendar minJd maxJd JulianBaseJd
proof
  show "cal_dateToJulianDay JulianCalendar y m d =
      (if 1 \<le> d \<and> d \<le> Roman_daysInMonth Julian_isLeapYear m y
       then Some (Julian_fromYear (march_year y m) + roman_mstart (march_month m) + d + JulianBaseJd)
       else None)" for y m d
    by (simp add: JulianCalendar_def Julian_to_jd)
  show "cal_julianDayToDate JulianCalendar jd = civil_of_march
      (tower_decode Julian_fromYear Julian_yearOf roman_mstart roman_monthOf (jd - JulianBaseJd - 1))"
    if "minJd \<le> jd" "jd \<le> maxJd" for jd
    using Julian_from_jd [OF that] by (simp add: JulianCalendar_def)
qed (simp_all add: JulianCalendar_def backend_isProleptic_def backend_hasYearZero_def)

end
