(* ===== verification/MilankovicInstance.thy ===== *)
theory MilankovicInstance
  imports RomanInstances
begin

text \<open>
  The Milankovic calendar's nine-century cycle, and the contract on the days whose year it
  can represent: its 32-bit year wraps at both ends of \<open>QDate\<close>'s range.
\<close>

definition Milankovic_fromYear :: "int \<Rightarrow> int" where
  "Milankovic_fromYear Y = (328718 * (Y div 100) + 6) div 9 + (36525 * (Y mod 100)) div 100"

definition Milankovic_yearOf :: "int \<Rightarrow> int" where
  "Milankovic_yearOf n =
     (let q = (9 * n + 2) div 328718; k = n - (328718 * q + 6) div 9
      in 100 * q + (100 * k + 99) div 36525)"

definition Milankovic_lo :: int where "Milankovic_lo = - 784349978355"
definition Milankovic_hi :: int where "Milankovic_hi = 784353420841"

lemma nine_century_start: "(328718 * q + 6) div 9 = 36524 * q + (2 * q + 6) div (9::int)"
  by linarith

lemma nine_century_end: "(328718 * (q + 1) + 6) div 9 \<le> (328718 * q + 6) div 9 + (36525::int)"
proof -
  have "(2 * (q + 1) + 6) div 9 \<le> (2 * q + 6 + 9) div (9::int)" by (rule zdiv_mono1) simp_all
  also have "\<dots> = (2 * q + 6) div 9 + 1" by simp
  finally have "(2 * (q + 1) + 6) div 9 \<le> (2 * q + 6) div 9 + 1" .
  moreover have "x \<le> y + 1 \<Longrightarrow> 36524 * (q + 1) + x \<le> 36524 * q + y + 36525" for x y :: int
    by (simp add: distrib_left)
  ultimately show ?thesis unfolding nine_century_start by blast
qed

lemma leap_century_start: "(36525 * r) div 100 = 365 * r + r div (4::int)"
  by linarith

lemma Milankovic_fromYear_split:
  assumes "0 \<le> r" "r < 100"
  shows "Milankovic_fromYear (100 * q + r) = (328718 * q + 6) div 9 + (36525 * r) div 100"
proof -
  have "(100 * q + r) div 100 = q" "(100 * q + r) mod 100 = r" using assms by simp_all
  then show ?thesis by (simp only: Milankovic_fromYear_def)
qed

lemma Milankovic_century:
  fixes n :: int
  defines "q \<equiv> (9 * n + 2) div 328718"
  defines "k \<equiv> n - (328718 * q + 6) div 9"
  defines "r \<equiv> (100 * k + 99) div 36525"
  shows "0 \<le> k" "k \<le> 36524" "0 \<le> r" "r < 100" "(36525 * r) div 100 \<le> k" "k < (36525 * (r + 1)) div 100"
    and "n < (328718 * (q + 1) + 6) div 9"
proof -
  have "(328718 * q + 6) div 9 \<le> n" "n < (328718 * (q + 1) + 6) div 9"
    using day_in_cycle [of 9 328718 6 n] by (simp_all add: q_def)
  then show k: "0 \<le> k" "k \<le> 36524" and "n < (328718 * (q + 1) + 6) div 9"
    using nine_century_end [of q] by (simp_all only: k_def)
  show "0 \<le> r" "r < 100" using k unfolding r_def by linarith+
  show "(36525 * r) div 100 \<le> k" "k < (36525 * (r + 1)) div 100"
    using day_in_cycle [of 100 36525 0 k] by (simp_all add: r_def)
qed

lemma Milankovic_year_contains:
  "Milankovic_fromYear (Milankovic_yearOf n) \<le> n \<and> n < Milankovic_fromYear (Milankovic_yearOf n + 1)"
proof -
  define q where "q = (9 * n + 2) div 328718"
  define k where "k = n - (328718 * q + 6) div 9"
  define r where "r = (100 * k + 99) div 36525"
  note g = Milankovic_century [of n, folded q_def, folded k_def, folded r_def]
  have y: "Milankovic_yearOf n = 100 * q + r" by (simp add: Milankovic_yearOf_def q_def k_def r_def Let_def)
  have lo: "Milankovic_fromYear (100 * q + r) \<le> n"
    using g Milankovic_fromYear_split [of r q] by (simp add: k_def)
  have hi: "n < Milankovic_fromYear (100 * q + r + 1)"
  proof (cases "r = 99")
    case True
    then have "100 * q + r + 1 = 100 * (q + 1) + 0" by simp
    moreover have "Milankovic_fromYear (100 * (q + 1) + 0) = (328718 * (q + 1) + 6) div 9"
      using Milankovic_fromYear_split [of 0 "q + 1"] by simp
    ultimately show ?thesis using g(7) by (simp only:)
  next
    case False
    then show ?thesis
      using g Milankovic_fromYear_split [of "r + 1" q] by (simp add: k_def add.assoc)
  qed
  from lo hi y show ?thesis by simp
qed

lemma Milankovic_leap_serial:
  "y \<noteq> 0 \<Longrightarrow> Milankovic_isLeapYear y \<longleftrightarrow>
     4 dvd serial_year y \<and> (100 dvd serial_year y \<longrightarrow> serial_year y div 100 mod 9 \<in> {2, 6})"
  by (auto simp: Milankovic_isLeapYear_def serial_year_def Unspecified_def cal_simps qDivMod_eq
      mod_eq_0_iff_dvd Let_def)

lemma mod_nine_cases:
  "(q::int) mod 9 \<in> {0, 1, 2, 3, 4, 5, 6, 7, 8}"
proof -
  have "0 \<le> q mod 9" "q mod 9 < 9" by simp_all
  then have "q mod 9 \<in> {0..8}" by simp
  also have "{0..8} = {0, 1, 2, 3, 4, 5, 6, 7, 8::int}"
    unfolding set_upto [symmetric] by (simp add: upto.simps)
  finally show ?thesis .
qed

lemma nine_century_leap:
  fixes q :: int
  shows "(328718 * (q + 1) + 6) div 9
    = (328718 * q + 6) div 9 + (if (q + 1) mod 9 \<in> {2, 6} then 36525 else 36524)"
proof -
  define a b where "a = q div 9" and "b = q mod 9"
  have q: "q = 9 * a + b" by (simp add: a_def b_def)
  have b: "b \<in> {0, 1, 2, 3, 4, 5, 6, 7, 8}" unfolding b_def by (rule mod_nine_cases)
  have start: "(2 * (9 * a + c) + 6) div 9 = 2 * a + (2 * c + 6) div 9" for c
    using div_mult_self1 [of 9 "2 * c + 6" "2 * a"] by (simp add: algebra_simps)
  have rem: "(q + 1) mod 9 = (b + 1) mod 9" unfolding q by (simp add: add.assoc)
  have "(328718 * (q + 1) + 6) div 9
      = (328718 * q + 6) div 9 + (36524 + (2 * (b + 1) + 6) div 9 - (2 * b + 6) div 9)"
    unfolding nine_century_start using start [of "b + 1"] start [of b] by (simp add: q add.assoc)
  then show ?thesis using b unfolding rem by (elim insertE) simp_all
qed

lemma Milankovic_year_step:
  "Milankovic_fromYear (Y + 1) =
     Milankovic_fromYear Y + (if Milankovic_isLeapYear (year_of_serial (Y + 1)) then 366 else 365)"
proof -
  define q r where "q = Y div 100" and "r = Y mod 100"
  have Y: "Y = 100 * q + r" and r: "0 \<le> r" "r < 100" by (simp_all add: q_def r_def)
  have leap: "Milankovic_isLeapYear (year_of_serial (Y + 1)) \<longleftrightarrow>
      4 dvd Y + 1 \<and> (100 dvd Y + 1 \<longrightarrow> (Y + 1) div 100 mod 9 \<in> {2, 6})"
    by (simp only: Milankovic_leap_serial [OF year_of_serial_nonzero] serial_year_inverse)
  show ?thesis
  proof (cases "r = 99")
    case True
    have Y1: "Y + 1 = 100 * (q + 1)" using True Y by simp
    have "Milankovic_fromYear (Y + 1)
        = Milankovic_fromYear Y + (if (q + 1) mod 9 \<in> {2, 6} then 366 else 365)"
      using nine_century_leap [of q] Milankovic_fromYear_split [of 0 "q + 1"]
        Milankovic_fromYear_split [of 99 q] True
      unfolding Y1 by (simp add: Y)
    moreover have "4 dvd Y + 1" "100 dvd Y + 1" "(Y + 1) div 100 = q + 1" unfolding Y1 by simp_all
    ultimately show ?thesis unfolding leap by simp
  next
    case False
    have Y1: "Y + 1 = 100 * q + (r + 1)" by (simp add: Y)
    have "(Y + 1) mod 100 = r + 1" unfolding Y1 using False r by simp
    then have "\<not> 100 dvd Y + 1" using r by (simp add: dvd_eq_mod_eq_0)
    moreover have "4 dvd Y + 1 \<longleftrightarrow> 4 dvd r + 1"
      unfolding Y1 by (rule dvd_add_right_iff) simp
    moreover have "Milankovic_fromYear (Y + 1) = Milankovic_fromYear Y + (if 4 dvd r + 1 then 366 else 365)"
      using Milankovic_fromYear_split [of "r + 1" q] Milankovic_fromYear_split [of r q] False r
        div_succ [of 4 r]
      unfolding leap_century_start Y1 by (simp add: Y)
    ultimately show ?thesis unfolding leap by simp
  qed
qed

interpretation milankovic_years: roman_years Milankovic_fromYear Milankovic_yearOf Milankovic_isLeapYear
proof
  show "Milankovic_yearOf n = Y \<longleftrightarrow> Milankovic_fromYear Y \<le> n \<and> n < Milankovic_fromYear (Y + 1)" for n Y
    by (rule year_of_day_iff) (use Milankovic_year_contains Milankovic_year_step in auto)
qed (rule Milankovic_year_step)

lemma Milankovic_from_jd:
  assumes "Milankovic_lo \<le> jd" "jd \<le> Milankovic_hi"
  shows "Milankovic_julianDayToDate jd = civil_of_march
     (tower_decode Milankovic_fromYear Milankovic_yearOf roman_mstart roman_monthOf (jd - MilankovicBaseJd - 1))"
proof -
  define n where "n = jd - MilankovicBaseJd - 1"
  define q where "q = (9 * n + 2) div 328718"
  define k where "k = n - (328718 * q + 6) div 9"
  define r where "r = (100 * k + 99) div 36525"
  note g = Milankovic_century [of n, folded q_def, folded k_def, folded r_def]
  have y: "Milankovic_yearOf n = 100 * q + r" by (simp add: Milankovic_yearOf_def q_def k_def r_def Let_def)
  obtain M D where dec: "tower_decode Milankovic_fromYear Milankovic_yearOf roman_mstart roman_monthOf n
      = (100 * q + r, M, D)"
    by (simp add: tower_decode_def y Let_def)
  have range: "- (2 ^ 31) < 100 * q + r + (if M < 10 then 0 else 1)"
    "100 * q + r + (if M < 10 then 0 else 1) < 2 ^ 31"
    using milankovic_years.civil_year_range [OF _ _ dec] assms
    by (simp_all add: n_def MilankovicBaseJd_def LeapDayGregorian1Bce_def Milankovic_lo_def Milankovic_hi_def
        Milankovic_fromYear_def roman_mstart_def)
  have kr: "n - Milankovic_fromYear (100 * q + r) = k - (36525 * r) div 100"
    using Milankovic_fromYear_split [of r q] g by (simp add: k_def)
  have k366: "0 \<le> n - Milankovic_fromYear (100 * q + r)" "n - Milankovic_fromYear (100 * q + r) \<le> 366"
    using milankovic_years.day_in_year [of n] y by (simp_all add: roman_mstart_def)
  have e1: "qDivMod NineCenturies (9 * (jd - MilankovicBaseJd) - 7) = (q, (9 * n + 2) mod 328718)"
    by (simp add: qDivMod_eq NineCenturies_def q_def n_def)
  have e2: "qDiv 9 ((9 * n + 2) mod 328718) = k"
    using cycle_remainder [of 9 n 6 328718] by (simp add: cal_simps k_def q_def)
  have e3: "qDivMod LeapCentury (100 * k + 99) = (r, (100 * k + 99) mod 36525)"
    by (simp add: qDivMod_eq LeapCentury_def r_def)
  have rest: "((100 * k + 99) mod 36525) div 100 = k - (36525 * r) div 100"
    using cycle_remainder [of 100 k 0 36525] by (simp add: r_def)
  have e4: "qDiv 100 ((100 * k + 99) mod 36525) = n - Milankovic_fromYear (100 * q + r)"
    unfolding kr rest [symmetric] by (rule qDiv_eq) simp_all
  show ?thesis
    unfolding n_def [symmetric] dec civil_from_day_in_year [OF dec refl k366 range, symmetric]
    by (simp only: Milankovic_julianDayToDate_def Let_def e1 e2 e3 e4 prod.case)
qed

lemma Milankovic_to_jd:
  "Milankovic_dateToJulianDay y m d =
     (if 1 \<le> d \<and> d \<le> Roman_daysInMonth Milankovic_isLeapYear m y
      then Some (Milankovic_fromYear (march_year y m) + roman_mstart (march_month m) + d + MilankovicBaseJd)
      else None)"
proof (cases "1 \<le> m \<and> m \<le> 12")
  case True
  then show ?thesis
    by (simp add: Milankovic_dateToJulianDay_def backend_isDateValid_def yearMonthToYearDays_eq
        Milankovic_fromYear_def NineCenturies_def LeapCentury_def qDivMod_eq cal_simps)
next
  case False
  then have "Roman_daysInMonth Milankovic_isLeapYear m y = 0" by (auto simp: Roman_daysInMonth_def)
  then show ?thesis by (simp add: Milankovic_dateToJulianDay_def backend_isDateValid_def)
qed

interpretation milankovic: roman_calendar Milankovic_fromYear Milankovic_yearOf Milankovic_isLeapYear
  MilankovicCalendar Milankovic_lo Milankovic_hi MilankovicBaseJd
proof
  show "cal_dateToJulianDay MilankovicCalendar y m d =
      (if 1 \<le> d \<and> d \<le> Roman_daysInMonth Milankovic_isLeapYear m y
       then Some (Milankovic_fromYear (march_year y m) + roman_mstart (march_month m) + d + MilankovicBaseJd)
       else None)" for y m d
    by (simp add: MilankovicCalendar_def Milankovic_to_jd)
  show "cal_julianDayToDate MilankovicCalendar jd = civil_of_march
      (tower_decode Milankovic_fromYear Milankovic_yearOf roman_mstart roman_monthOf (jd - MilankovicBaseJd - 1))"
    if "Milankovic_lo \<le> jd" "jd \<le> Milankovic_hi" for jd
    using Milankovic_from_jd [OF that] by (simp add: MilankovicCalendar_def)
qed (simp_all add: MilankovicCalendar_def backend_isProleptic_def backend_hasYearZero_def
    Milankovic_lo_def Milankovic_hi_def minJd_def maxJd_def)

end
