(* ===== verification/IslamicCivil.thy ===== *)
theory IslamicCivil
  imports RomanInstances
begin

text \<open>
  \<open>qhijricalendar.cpp\<close> and \<open>qislamiccivilcalendar.cpp\<close> of \<open>src/corelib/time\<close>: the tabular
  Islamic calendar, its conversions, and the contract of a backend on the days whose year
  keeps \<open>year * 11 + 14\<close> within an \<open>int\<close>.
\<close>

section \<open>QHijriCalendar\<close>

definition Hijri_daysInMonth :: "(int \<Rightarrow> bool) \<Rightarrow> int \<Rightarrow> int \<Rightarrow> int" where
  "Hijri_daysInMonth isLeapYear month year =
     (if year = 0 \<or> month < 1 \<or> month > 12 then 0
      else if month = 12 \<and> isLeapYear year then 30
      else if month smod 2 = 0 then 29 else 30)"

definition Hijri_maximumDaysInMonth :: int where
  "Hijri_maximumDaysInMonth = 30"

definition Hijri_daysInYear :: "(int \<Rightarrow> int) \<Rightarrow> (int \<Rightarrow> bool) \<Rightarrow> int \<Rightarrow> int" where
  "Hijri_daysInYear monthsInYear isLeapYear year =
     (if monthsInYear year \<noteq> 0 then if isLeapYear year then 355 else 354 else 0)"

section \<open>QIslamicCivilCalendar\<close>

definition IslamicCivil_isLeapYear :: "int \<Rightarrow> bool" where
  "IslamicCivil_isLeapYear year =
     (if year = Unspecified then False
      else let year = (if year < 0 then year + 1 else year)
           in qMod 30 (to_int32 (year * 11 + 14)) < 11)"

definition EpochJd :: int where
  "EpochJd = 1948440"

definition ThirtyYears :: int where
  "ThirtyYears = 11 * 355 + 19 * 354"

definition ElevenMonths :: int where
  "ElevenMonths = 6 * 30 + 5 * 29"

definition IslamicCivil_dateToJulianDay :: "int \<Rightarrow> int \<Rightarrow> int \<Rightarrow> int option" where
  "IslamicCivil_dateToJulianDay year month day =
     (if \<not> backend_isDateValid (Hijri_daysInMonth IslamicCivil_isLeapYear) year month day then None
      else Some (qDiv 30 (ThirtyYears * (if year > 0 then year - 1 else year) + 14)
                 + qDiv 11 (to_uint32 (ElevenMonths * (month - 1) + 5))
                 + day + EpochJd - 1))"

definition IslamicCivil_julianDayToDate :: "int \<Rightarrow> YearMonthDay" where
  "IslamicCivil_julianDayToDate jd =
     (let (quotient30, remainder30) = qDivMod ThirtyYears (30 * (jd - EpochJd) + 15);
          (quotient11, remainder11) = qDivMod ElevenMonths (11 * qDiv 30 remainder30 + 5);
          month = to_int32 (quotient11 + 1);
          day = to_int32 (qDiv 11 remainder11 + 1);
          y = to_int32 (quotient30 + 1)
      in YearMonthDay (if y > 0 then y else y - 1) month day)"

definition IslamicCivilCalendar :: QCalendar where
  "IslamicCivilCalendar =
     \<lparr>cal_daysInMonth = Hijri_daysInMonth IslamicCivil_isLeapYear,
      cal_daysInYear = Hijri_daysInYear
        (backend_monthsInYear backend_isProleptic backend_hasYearZero) IslamicCivil_isLeapYear,
      cal_monthsInYear = backend_monthsInYear backend_isProleptic backend_hasYearZero,
      cal_isLeapYear = IslamicCivil_isLeapYear,
      cal_isProleptic = backend_isProleptic,
      cal_hasYearZero = backend_hasYearZero,
      cal_minimumDaysInMonth = backend_minimumDaysInMonth,
      cal_maximumDaysInMonth = Hijri_maximumDaysInMonth,
      cal_dateToJulianDay = IslamicCivil_dateToJulianDay,
      cal_julianDayToDate = IslamicCivil_julianDayToDate\<rparr>"

section \<open>The contract\<close>

definition islamic_fromYear :: "int \<Rightarrow> int" where
  "islamic_fromYear Y = (10631 * Y + 14) div 30"

definition islamic_yearOf :: "int \<Rightarrow> int" where
  "islamic_yearOf n = (30 * n + 15) div 10631"

definition islamic_mstart :: "int \<Rightarrow> int" where
  "islamic_mstart m = (325 * m + 5) div 11"

definition islamic_monthOf :: "int \<Rightarrow> int" where
  "islamic_monthOf k = (11 * k + 5) div 325"

definition islamic_lo :: int where "islamic_lo = - 69179562592"
definition islamic_hi :: int where "islamic_hi = 69183458762"

definition islamic_leap :: "int \<Rightarrow> bool" where
  "islamic_leap s \<longleftrightarrow> (11 * s + 14) mod 30 < 11"

lemma islamic_year_start: "islamic_fromYear Y = 354 * Y + (11 * Y + 14) div 30"
  unfolding islamic_fromYear_def by linarith

lemma div_step_30:
  "((t::int) + 11) div 30 = t div 30 + (if (t + 11) mod 30 < 11 then 1 else 0)"
proof -
  define q r where "q = t div 30" and "r = t mod 30"
  have t: "t = 30 * q + r" and r: "0 \<le> r" "r < 30" by (simp_all add: q_def r_def)
  show ?thesis
  proof (cases "r < 19")
    case True
    then have "t + 11 = (r + 11) + 30 * q" "0 \<le> r + 11" "r + 11 < 30" using t r by simp_all
    then have "(t + 11) div 30 = q" "(t + 11) mod 30 = r + 11"
      by (simp_all only: div_mult_self2 mod_mult_self2) simp_all
    then show ?thesis using r by (simp add: q_def)
  next
    case False
    then have "t + 11 = (r - 19) + 30 * (q + 1)" "0 \<le> r - 19" "r - 19 < 30" using t r by simp_all
    then have "(t + 11) div 30 = q + 1" "(t + 11) mod 30 = r - 19"
      by (simp_all only: div_mult_self2 mod_mult_self2) simp_all
    then show ?thesis using r by (simp add: q_def)
  qed
qed

lemma islamic_year_step:
  "islamic_fromYear (Y + 1) = islamic_fromYear Y + (if islamic_leap (Y + 1) then 355 else 354)"
proof -
  have t: "11 * (Y + 1) + 14 = (11 * Y + 14) + 11" by simp
  show ?thesis
    unfolding islamic_year_start islamic_leap_def t div_step_30 by (simp split: if_split)
qed

lemma islamic_mlen:
  assumes "0 \<le> m" "m \<le> 11"
  shows "tower_mlen islamic_fromYear islamic_mstart Y m =
    (if m = 11 \<and> islamic_leap (Y + 1) then 30 else if even m then 30 else 29)"
  using twelve_cases [OF assms] islamic_year_step [of Y]
  by (elim disjE) (simp_all add: tower_mlen_def islamic_mstart_def)

interpretation islamic_tower: year_tower islamic_fromYear islamic_yearOf islamic_mstart islamic_monthOf
proof
  show "islamic_yearOf n = Y \<longleftrightarrow> islamic_fromYear Y \<le> n \<and> n < islamic_fromYear (Y + 1)" for n Y
    using cycle_eq_iff [of 30 10631 n 14 Y] by (simp only: islamic_fromYear_def islamic_yearOf_def) simp
  show "islamic_monthOf k = m \<longleftrightarrow> islamic_mstart m \<le> k \<and> k < islamic_mstart (m + 1)" for k m
    using cycle_eq_iff [of 11 325 k 5 m] by (simp only: islamic_mstart_def islamic_monthOf_def) simp
  show "islamic_mstart m < islamic_mstart (m + 1)" if "0 \<le> m" "m < 12" for m
  proof -
    have "m \<le> 11" using that by simp
    from twelve_cases [OF that(1) this] show ?thesis by (elim disjE) (simp_all add: islamic_mstart_def)
  qed
  show "islamic_mstart 11 < islamic_fromYear (Y + 1) - islamic_fromYear Y" for Y
    unfolding islamic_year_step by (simp add: islamic_mstart_def)
  show "islamic_fromYear (Y + 1) - islamic_fromYear Y \<le> islamic_mstart 12" for Y
    unfolding islamic_year_step by (simp add: islamic_mstart_def)
qed (simp add: islamic_mstart_def)

lemma islamic_year_mono: "Y \<le> Y' \<Longrightarrow> islamic_fromYear Y \<le> islamic_fromYear Y'"
  using islamic_tower.fromYear_strict [of Y Y'] by (cases "Y = Y'") auto

lemma Hijri_daysInMonth_eq:
  "Hijri_daysInMonth leap m y =
     (if y = 0 \<or> m < 1 \<or> 12 < m then 0 else if m = 12 \<and> leap y then 30 else if even m then 29 else 30)"
  by (simp add: Hijri_daysInMonth_def smod_eq_0_iff)

lemma IslamicCivil_leap_serial:
  assumes "y \<noteq> 0" "- 195225786 \<le> serial_year y" "serial_year y \<le> 195225784"
  shows "IslamicCivil_isLeapYear y \<longleftrightarrow> islamic_leap (serial_year y)"
proof -
  have "y \<noteq> Unspecified" using assms by (auto simp: serial_year_def Unspecified_def)
  moreover have "to_int32 (serial_year y * 11 + 14) = serial_year y * 11 + 14"
    using assms by (intro to_int32_id) simp_all
  ultimately show ?thesis
    by (simp add: IslamicCivil_isLeapYear_def islamic_leap_def Let_def cal_simps
        serial_year_def mult.commute split: if_splits)
qed

lemma islamic_month_length:
  assumes "y \<noteq> 0" "- 195225786 \<le> serial_year y" "serial_year y \<le> 195225784" "1 \<le> m" "m \<le> 12"
  shows "Hijri_daysInMonth IslamicCivil_isLeapYear m y =
    tower_mlen islamic_fromYear islamic_mstart (serial_year y - 1) (m - 1)"
  using assms IslamicCivil_leap_serial [OF assms(1-3)]
  by (simp add: Hijri_daysInMonth_eq islamic_mlen)

lemma IslamicCivil_to_jd:
  "IslamicCivil_dateToJulianDay y m d =
     (if 1 \<le> d \<and> d \<le> Hijri_daysInMonth IslamicCivil_isLeapYear m y
      then Some (tower_encode islamic_fromYear islamic_mstart (serial_year y - 1) (m - 1) d + EpochJd)
      else None)"
proof (cases "y \<noteq> 0 \<and> 1 \<le> m \<and> m \<le> 12")
  case True
  then have "to_uint32 (ElevenMonths * (m - 1) + 5) = 325 * (m - 1) + 5"
    by (simp add: ElevenMonths_def cpp_int)
  moreover have "(if y > 0 then y - 1 else y) = serial_year y - 1"
    using True by (simp add: serial_year_def)
  ultimately show ?thesis
    by (simp add: IslamicCivil_dateToJulianDay_def backend_isDateValid_def tower_encode_def
        islamic_fromYear_def islamic_mstart_def ThirtyYears_def cal_simps)
next
  case False
  then have "Hijri_daysInMonth IslamicCivil_isLeapYear m y = 0" by (auto simp: Hijri_daysInMonth_eq)
  then show ?thesis by (simp add: IslamicCivil_dateToJulianDay_def backend_isDateValid_def)
qed

lemma IslamicCivil_to_jd_parts:
  assumes "IslamicCivil_dateToJulianDay y m d = Some jd"
  shows "y \<noteq> 0 \<and> 1 \<le> m \<and> m \<le> 12 \<and> 1 \<le> d \<and> d \<le> Hijri_daysInMonth IslamicCivil_isLeapYear m y
    \<and> jd = tower_encode islamic_fromYear islamic_mstart (serial_year y - 1) (m - 1) d + EpochJd"
  using assms by (auto simp: IslamicCivil_to_jd Hijri_daysInMonth_eq split: if_splits)

lemma islamic_year_in_range:
  assumes j: "IslamicCivil_dateToJulianDay y m d = Some jd" and "islamic_lo \<le> jd" "jd \<le> islamic_hi"
  shows "- 195225786 \<le> serial_year y \<and> serial_year y \<le> 195225784"
proof -
  let ?Y = "serial_year y - 1" and ?n = "jd - EpochJd"
  note p = IslamicCivil_to_jd_parts [OF j]
  have d30: "d \<le> 30" using p by (auto simp: Hijri_daysInMonth_eq split: if_splits)
  have ms: "0 \<le> islamic_mstart (m - 1)" "islamic_mstart (m - 1) \<le> 325"
    using islamic_tower.mstart_mono [of 0 "m - 1"] islamic_tower.mstart_mono [of "m - 1" 11] p
    by (simp_all add: islamic_mstart_def)
  have n: "?n = islamic_fromYear ?Y + islamic_mstart (m - 1) + (d - 1)"
    using p by (simp add: tower_encode_def)
  have step: "islamic_fromYear ?Y + 354 \<le> islamic_fromYear (serial_year y)"
    using islamic_year_step [of ?Y] by simp
  have ends: "islamic_fromYear (- 195225786) = islamic_lo - EpochJd"
    "islamic_fromYear 195225784 = islamic_hi + 1 - EpochJd"
    by (simp_all add: islamic_fromYear_def islamic_lo_def islamic_hi_def EpochJd_def)
  have "\<not> serial_year y \<le> - 195225787"
  proof
    assume "serial_year y \<le> - 195225787"
    then have "islamic_fromYear (serial_year y) < islamic_fromYear (- 195225786)"
      by (intro islamic_tower.fromYear_strict) simp
    then show False using n d30 ms step ends assms(2) by linarith
  qed
  moreover have "\<not> 195225784 \<le> ?Y"
    using islamic_year_mono [of 195225784 ?Y] ends n p ms assms(3) by linarith
  ultimately show ?thesis by linarith
qed


lemma IslamicCivil_from_jd:
  assumes dec: "tower_decode islamic_fromYear islamic_yearOf islamic_mstart islamic_monthOf (jd - EpochJd) = (Y, M, D)"
    and "islamic_lo \<le> jd" "jd \<le> islamic_hi"
  shows "IslamicCivil_julianDayToDate jd = YearMonthDay (year_of_serial (Y + 1)) (M + 1) D"
    and "- 195225786 \<le> Y + 1 \<and> Y + 1 \<le> 195225784"
proof -
  define n where "n = jd - EpochJd"
  define k where "k = n - islamic_fromYear Y"
  have Y: "Y = (30 * n + 15) div 10631" and M: "M = (11 * k + 5) div 325"
    and D: "D = k - islamic_mstart M + 1"
    using dec by (auto simp: tower_decode_def Let_def islamic_yearOf_def islamic_monthOf_def n_def k_def)
  note v = islamic_tower.decode_valid [OF dec]
  have "k < islamic_mstart 12" "0 \<le> k"
    using islamic_tower.day_in_year [of n] Y by (simp_all add: k_def islamic_yearOf_def)
  then have k: "0 \<le> k" "k \<le> 354" by (simp_all add: islamic_mstart_def)
  have c: "islamic_fromYear Y \<le> n" "n < islamic_fromYear (Y + 1)"
    using islamic_tower.year_contains [of n] Y by (simp_all add: islamic_yearOf_def)
  have ends: "islamic_fromYear (- 195225786) = islamic_lo - EpochJd"
    "islamic_fromYear 195225784 = islamic_hi + 1 - EpochJd"
    by (simp_all add: islamic_fromYear_def islamic_lo_def islamic_hi_def EpochJd_def)
  have "\<not> Y + 1 \<le> - 195225786"
    using islamic_year_mono [of "Y + 1" "- 195225786"] ends c assms(2) by (auto simp: n_def)
  moreover have "\<not> 195225784 \<le> Y"
    using islamic_year_mono [of 195225784 Y] ends c assms(3) by (auto simp: n_def)
  ultimately show range: "- 195225786 \<le> Y + 1 \<and> Y + 1 \<le> 195225784" by linarith
  have r1: "(30 * n + 15) mod 10631 div 30 = k"
    using cycle_remainder [of 30 n 14 10631] by (simp add: k_def Y islamic_fromYear_def)
  have r2: "(11 * k + 5) mod 325 div 11 = D - 1"
    using cycle_remainder [of 11 k 5 325] by (simp add: D M islamic_mstart_def)
  have D30: "D \<le> 30" using v by (auto simp: islamic_mlen split: if_splits)
  have e1: "qDivMod ThirtyYears (30 * (jd - EpochJd) + 15) = (Y, (30 * n + 15) mod 10631)"
    by (simp add: qDivMod_eq ThirtyYears_def Y n_def)
  have e2: "qDivMod ElevenMonths (11 * qDiv 30 ((30 * n + 15) mod 10631) + 5)
      = (M, (11 * k + 5) mod 325)"
    by (simp add: qDivMod_eq ElevenMonths_def cal_simps r1 M)
  have e3: "to_int32 (M + 1) = M + 1" "to_int32 (qDiv 11 ((11 * k + 5) mod 325) + 1) = D"
    "to_int32 (Y + 1) = Y + 1"
    using v D30 range by (simp_all add: cal_simps r2 to_int32_id)
  show "IslamicCivil_julianDayToDate jd = YearMonthDay (year_of_serial (Y + 1)) (M + 1) D"
    unfolding IslamicCivil_julianDayToDate_def Let_def e1 prod.case e2 e3
    by (simp add: year_of_serial_def)
qed

lemma Hijri_leap_sum:
  assumes "y \<noteq> 0"
  shows "(\<Sum>m = 1..12. Hijri_daysInMonth leap m y) = (if leap y then 355 else 354)"
proof -
  have "{1..12::int} = {1, 2, 3, 4, 5, 6, 7, 8, 9, 10, 11, 12}"
    unfolding set_upto [symmetric] by (simp add: upto.simps)
  with assms show ?thesis by (simp add: Hijri_daysInMonth_eq)
qed

lemma islamic_next_month:
  assumes j: "IslamicCivil_dateToJulianDay y m 1 = Some a" and r: "islamic_lo \<le> a" "a \<le> islamic_hi"
    and s: "shift_month y (m + 1) = (y', m')"
  shows "IslamicCivil_dateToJulianDay y' m' 1
    = Some (a + Hijri_daysInMonth IslamicCivil_isLeapYear m y)"
proof -
  note p = IslamicCivil_to_jd_parts [OF j]
  have ymd: "y \<noteq> 0" "1 \<le> m" "m \<le> 12" using p by simp_all
  have l: "Hijri_daysInMonth IslamicCivil_isLeapYear m y
      = tower_mlen islamic_fromYear islamic_mstart (serial_year y - 1) (m - 1)"
    using islamic_year_in_range [OF j r] ymd by (intro islamic_month_length) simp_all
  have sm: "(y', m') = (if m = 12 then (year_of_serial (serial_year y + 1), 1) else (y, m + 1))"
    using ymd s by (auto simp: shift_month_def Let_def)
  have "1 \<le> Hijri_daysInMonth IslamicCivil_isLeapYear m' y'"
    using shift_month_range [OF s] by (simp add: Hijri_daysInMonth_eq)
  moreover have "tower_encode islamic_fromYear islamic_mstart (serial_year y' - 1) (m' - 1) 1
      = tower_encode islamic_fromYear islamic_mstart (serial_year y - 1) (m - 1) 1
        + tower_mlen islamic_fromYear islamic_mstart (serial_year y - 1) (m - 1)"
    using sm by (cases "m = 12") (simp_all add: tower_encode_def tower_mlen_def islamic_tower.first_month)
  ultimately show ?thesis using p by (simp add: IslamicCivil_to_jd l)
qed

interpretation islamic: calendar_backend IslamicCivilCalendar islamic_lo islamic_hi
proof
  show "minJd \<le> islamic_lo" "islamic_hi \<le> maxJd"
    by (simp_all add: minJd_def maxJd_def islamic_lo_def islamic_hi_def)
  show "cal_isProleptic IslamicCivilCalendar" "\<not> cal_hasYearZero IslamicCivilCalendar"
    by (simp_all add: IslamicCivilCalendar_def backend_isProleptic_def backend_hasYearZero_def)
  show "cal_monthsInYear IslamicCivilCalendar y = 12" if "y \<noteq> 0" for y
    using that by (auto simp: IslamicCivilCalendar_def backend_monthsInYear_def backend_isProleptic_def)
  show "28 \<le> cal_daysInMonth IslamicCivilCalendar m y" if "y \<noteq> 0" "1 \<le> m" "m \<le> 12" for m y
    using that by (simp add: IslamicCivilCalendar_def Hijri_daysInMonth_eq)
  show "cal_daysInMonth IslamicCivilCalendar m y = 0" if "y = 0 \<or> m < 1 \<or> 12 < m" for m y
    using that by (auto simp: IslamicCivilCalendar_def Hijri_daysInMonth_eq)
  show "cal_daysInYear IslamicCivilCalendar y = (\<Sum>m = 1..12. cal_daysInMonth IslamicCivilCalendar m y)"
    if "cal_dateToJulianDay IslamicCivilCalendar y m d = Some a" for y m d a
  proof -
    from that have "y \<noteq> 0"
      using IslamicCivil_to_jd_parts [of y m d a] by (simp add: IslamicCivilCalendar_def)
    then show ?thesis
      using Hijri_leap_sum [of y IslamicCivil_isLeapYear]
      by (auto simp: IslamicCivilCalendar_def Hijri_daysInYear_def backend_monthsInYear_def
          backend_isProleptic_def)
  qed
  show "(\<exists>jd. cal_dateToJulianDay IslamicCivilCalendar y m d = Some jd)
      \<longleftrightarrow> 1 \<le> d \<and> d \<le> cal_daysInMonth IslamicCivilCalendar m y" for y m d
    by (simp add: IslamicCivilCalendar_def IslamicCivil_to_jd)
  show "cal_dateToJulianDay IslamicCivilCalendar y m d = Some (a + d - 1)"
    if "cal_dateToJulianDay IslamicCivilCalendar y m 1 = Some a" "1 \<le> d"
      "d \<le> cal_daysInMonth IslamicCivilCalendar m y" for y m d a
    using that by (auto simp: IslamicCivilCalendar_def IslamicCivil_to_jd tower_encode_def split: if_splits)
  show "cal_dateToJulianDay IslamicCivilCalendar (fst (shift_month y (m + 1))) (snd (shift_month y (m + 1))) 1
      = Some (a + cal_daysInMonth IslamicCivilCalendar m y)"
    if "cal_dateToJulianDay IslamicCivilCalendar y m 1 = Some a" "islamic_lo \<le> a" "a \<le> islamic_hi" for y m a
    using that islamic_next_month [of y m a "fst (shift_month y (m + 1))" "snd (shift_month y (m + 1))"]
    by (simp add: IslamicCivilCalendar_def)
next
  fix jd y m d
  assume r: "islamic_lo \<le> jd" "jd \<le> islamic_hi"
    and p: "cal_julianDayToDate IslamicCivilCalendar jd = YearMonthDay y m d"
  obtain Y M D where dec: "tower_decode islamic_fromYear islamic_yearOf islamic_mstart islamic_monthOf
      (jd - EpochJd) = (Y, M, D)"
    by (cases "tower_decode islamic_fromYear islamic_yearOf islamic_mstart islamic_monthOf (jd - EpochJd)")
  note f = IslamicCivil_from_jd [OF dec r] and v = islamic_tower.decode_valid [OF dec]
  from f(1) p have e: "y = year_of_serial (Y + 1)" "m = M + 1" "d = D"
    by (simp_all add: IslamicCivilCalendar_def YearMonthDay_def)
  have "1 \<le> d \<and> d \<le> Hijri_daysInMonth IslamicCivil_isLeapYear m y"
    using v f(2) islamic_month_length [of y m] by (simp add: e)
  then show "cal_dateToJulianDay IslamicCivilCalendar y m d = Some jd"
    using islamic_tower.encode_decode [OF dec] by (simp add: IslamicCivilCalendar_def IslamicCivil_to_jd e)
next
  fix jd y m d
  assume "cal_dateToJulianDay IslamicCivilCalendar y m d = Some jd" and r: "islamic_lo \<le> jd" "jd \<le> islamic_hi"
  then have j: "IslamicCivil_dateToJulianDay y m d = Some jd" by (simp add: IslamicCivilCalendar_def)
  note p = IslamicCivil_to_jd_parts [OF j] and g = islamic_year_in_range [OF j r]
  have "tower_decode islamic_fromYear islamic_yearOf islamic_mstart islamic_monthOf (jd - EpochJd)
      = (serial_year y - 1, m - 1, d)"
    using p g islamic_month_length [of y m]
      islamic_tower.decode_encode [of "m - 1" d "serial_year y - 1"] by simp
  from IslamicCivil_from_jd(1) [OF this r] p
  show "cal_julianDayToDate IslamicCivilCalendar jd = YearMonthDay y m d"
    by (simp add: IslamicCivilCalendar_def)
qed

end
