(* ===== verification/GregorianWeek.thy ===== *)
theory GregorianWeek
  imports RomanInstances
begin

text \<open>
  \<open>yearStartWeekDay\<close> and \<open>yearSharingWeekDays\<close> of \<open>qgregoriancalendar.cpp\<close>: the day of the
  week a year starts on, and the stand-in year between 1970 and 2400 that a date is formatted
  with when a system API has a limited range of years.
\<close>

definition Gregorian_yearStartWeekDay :: "int \<Rightarrow> int" where
  "Gregorian_yearStartWeekDay year =
     (let y = to_int32 (year - (if year < 0 then 800 else 801))
      in qMod 7 (to_int32 (y + qDiv 4 y - qDiv 100 y + qDiv 400 y)) + 1)"

definition yearSharing_usual :: "int list" where
  "yearSharing_usual = [2198, 2199, 2098, 2099, 2399, 2298, 2299]"

definition yearSharing_leaps :: "int list" where
  "yearSharing_leaps = [2396, 2284, 2296, 2184, 2196, 2084, 2096]"

text \<open>The two tables are indexed by the day of the week, Monday \<open>= 0\<close>.\<close>

definition Gregorian_yearSharingWeekDays :: "int \<Rightarrow> int" where
  "Gregorian_yearSharingWeekDays date =
     (let year = QDate_year GregorianCalendar date;
          res = (if year < 1970
                 then 2400 - to_int32 (2000 - (if year < 0 then year + 1 else year)) smod 400
                 else if year > 2399 then 2000 + (year - 2000) smod 400 else year)
      in if res \<noteq> year
         then let lastTwo = res smod 100
              in if lastTwo = QDate_month GregorianCalendar date
                    \<or> lastTwo = QDate_day GregorianCalendar date
                 then (if Gregorian_leapTest year then yearSharing_leaps else yearSharing_usual)
                        ! nat (Gregorian_yearStartWeekDay year - 1)
                 else res
         else res)"

section \<open>The day of the week of the first of January\<close>

definition serial_start :: "int \<Rightarrow> int" where
  "serial_start s = (Gregorian_fromYear (s - 1) + 307 + Gregorian_BaseJd) mod 7 + 1"

lemma Gregorian_new_year:
  assumes "y \<noteq> 0"
  shows "Gregorian_dateToJulianDay y 1 1 =
    Some (Gregorian_fromYear (serial_year y - 1) + 307 + Gregorian_BaseJd)"
  using assms
  by (simp add: Gregorian_dateToJulianDay_def Gregorian_to_jd Roman_daysInMonth_eq march_year_def
      march_month_def roman_mstart_def)

lemma div_shift: "0 < k \<Longrightarrow> (Y - k * q) div k = Y div k - (q::int)"
  by (metis add.commute add_diff_cancel_right' diff_add_cancel div_mult_self2 less_irrefl)

lemma yearStartWeekDay_serial:
  assumes "y \<noteq> 0" "- 1700000000 \<le> y" "y \<le> 1700000000"
  shows "Gregorian_yearStartWeekDay y = serial_start (serial_year y)"
proof -
  define Y where "Y = serial_year y - 1"
  have y: "y - (if y < 0 then 800 else 801) = Y - 800"
    using assms by (simp add: Y_def serial_year_def)
  have Yb: "- 1700000001 \<le> Y" "Y \<le> 1700000000"
    using assms by (auto simp: Y_def serial_year_def)
  have d: "(Y - 800) div 4 = Y div 4 - 200" "(Y - 800) div 100 = Y div 100 - 8"
    "(Y - 800) div 400 = Y div 400 - 2"
    using div_shift [of 4 Y 200] div_shift [of 100 Y 8] div_shift [of 400 Y 2] by simp_all
  have q: "- 425000001 \<le> Y div 4" "Y div 4 \<le> 425000000" "- 17000001 \<le> Y div 100"
    "Y div 100 \<le> 17000000" "- 4250001 \<le> Y div 400" "Y div 400 \<le> 4250000"
    using Yb by (simp_all add: le_div_iff_mult_le div_le_iff_less_mult)
  define t where "t = Y + Y div 4 - Y div 100 + Y div 400"
  have i1: "to_int32 (Y - 800) = Y - 800" using Yb by (intro to_int32_id) simp_all
  have i2: "to_int32 (Y - 800 + (Y div 4 - 200) - (Y div 100 - 8) + (Y div 400 - 2)) = t - 994"
    using Yb q unfolding t_def by (subst to_int32_id) simp_all
  have qd: "qDiv 4 x = x div 4" "qDiv 100 x = x div 100" "qDiv 400 x = x div 400" "qMod 7 x = x mod 7" for x
    by (simp_all add: cal_simps)
  have "Gregorian_yearStartWeekDay y = (t - 994) mod 7 + 1"
    by (simp only: Gregorian_yearStartWeekDay_def y Let_def i1 qd d i2)
  moreover have "Gregorian_fromYear Y + 307 + Gregorian_BaseJd = (t - 994) + 7 * (52 * Y + 246060)"
    by (simp add: Gregorian_fromYear_def Gregorian_BaseJd_def LeapDayGregorian1Bce_def t_def)
  then have "(Gregorian_fromYear Y + 307 + Gregorian_BaseJd) mod 7 = (t - 994) mod 7"
    by (simp only: mod_mult_self2)
  ultimately show ?thesis by (simp only: serial_start_def Y_def)
qed


section \<open>The stand-in year\<close>

lemma serial_start_cycle: "serial_start (s + 400 * q) = serial_start s"
proof -
  have Y: "s + 400 * q - 1 = (s - 1) - 400 * (- q)" by simp
  have "(s - 1 - 400 * (- q)) div 4 = (s - 1) div 4 - 100 * (- q)"
    "(s - 1 - 400 * (- q)) div 100 = (s - 1) div 100 - 4 * (- q)"
    "(s - 1 - 400 * (- q)) div 400 = (s - 1) div 400 - (- q)"
    using div_shift [of 4 "s - 1" "100 * (- q)"] div_shift [of 100 "s - 1" "4 * (- q)"]
      div_shift [of 400 "s - 1" "- q"] by simp_all
  then have "Gregorian_fromYear (s + 400 * q - 1) + 307 + Gregorian_BaseJd
      = Gregorian_fromYear (s - 1) + 307 + Gregorian_BaseJd + 7 * (20871 * q)"
    unfolding Y Gregorian_fromYear_def by simp
  then show ?thesis by (simp only: serial_start_def mod_mult_self2)
qed

lemma leap_cycle:
  assumes "y \<noteq> 0" "r \<noteq> 0" "serial_year r = serial_year y + 400 * q"
  shows "Gregorian_leapTest r \<longleftrightarrow> Gregorian_leapTest y"
proof -
  have "k dvd serial_year r \<longleftrightarrow> k dvd serial_year y" if "k dvd 400" for k
    using that assms(3) by (simp add: dvd_add_left_iff)
  then show ?thesis
    using assms(1,2) by (simp add: Gregorian_leapTest_serial)
qed

lemma sharing_tables:
  "list_all (\<lambda>i. serial_start (yearSharing_leaps ! i) = int i + 1 \<and> Gregorian_leapTest (yearSharing_leaps ! i)
     \<and> 1970 \<le> yearSharing_leaps ! i \<and> yearSharing_leaps ! i \<le> 2400 \<and> 31 < yearSharing_leaps ! i mod 100) [0..<7]"
  "list_all (\<lambda>i. serial_start (yearSharing_usual ! i) = int i + 1 \<and> \<not> Gregorian_leapTest (yearSharing_usual ! i)
     \<and> 1970 \<le> yearSharing_usual ! i \<and> yearSharing_usual ! i \<le> 2400 \<and> 31 < yearSharing_usual ! i mod 100) [0..<7]"
  by code_simp+

lemma sharing_table_entry:
  fixes w :: int and b :: bool
  assumes "1 \<le> w" "w \<le> 7"
  defines "r \<equiv> (if b then yearSharing_leaps else yearSharing_usual) ! nat (w - 1)"
  shows "serial_start r = w \<and> (Gregorian_leapTest r \<longleftrightarrow> b) \<and> 1970 \<le> r \<and> r \<le> 2400 \<and> 31 < r mod 100"
proof -
  have "nat (w - 1) \<in> set [0..<7]" "int (nat (w - 1)) + 1 = w" using assms by auto
  then show ?thesis
    using sharing_tables [unfolded list_all_iff] unfolding r_def by (cases b) force+
qed

lemma serial_start_range: "1 \<le> serial_start s \<and> serial_start s \<le> 7"
  by (simp add: serial_start_def pos_mod_bound [of 7, simplified] less_imp_le
      zless_imp_add1_zle [of _ 7, simplified])

text \<open>The year before the table: in range, and a multiple of 400 years away.\<close>

lemma sharing_candidate:
  assumes "y \<noteq> 0" "- 1700000000 \<le> y" "y \<le> 1700000000"
  defines "res \<equiv> (if y < 1970 then 2400 - to_int32 (2000 - (if y < 0 then y + 1 else y)) smod 400
                 else if y > 2399 then 2000 + (y - 2000) smod 400 else y)"
  shows "1970 \<le> res \<and> res \<le> 2400 \<and> (\<exists>q. res = serial_year y + 400 * q)"
proof -
  have sm: "a smod 400 = a mod 400" if "0 \<le> a" for a :: int
    using that sdiv_nonneg [of a 400]
    by (simp add: minus_mult_sdiv_eq_smod [symmetric] minus_mult_div_eq_mod [symmetric])
  consider "y < 1970" | "2399 < y" | "1970 \<le> y" "y \<le> 2399" by linarith
  then show ?thesis
  proof cases
    case 1
    then have i: "to_int32 (2000 - (if y < 0 then y + 1 else y)) = 2000 - serial_year y"
      using assms by (subst to_int32_id) (auto simp: serial_year_def)
    have "0 \<le> 2000 - serial_year y" using 1 by (simp add: serial_year_def)
    then have r: "res = 2400 - (2000 - serial_year y) mod 400"
      using 1 unfolding res_def i by (simp add: sm)
    define X D where "X = (2000 - serial_year y) mod 400" and "D = (2000 - serial_year y) div 400"
    have "X = 2000 - serial_year y - 400 * D" "0 \<le> X" "X < 400" "res = 2400 - X"
      unfolding X_def D_def using r by (simp_all add: minus_mult_div_eq_mod)
    then have "1970 \<le> res" "res \<le> 2400" "res = serial_year y + 400 * (1 + D)" by simp_all
    then show ?thesis by blast
  next
    case 2
    then have "res = 2000 + (y - 2000) mod 400" unfolding res_def by (simp add: sm)
    moreover define D where "D = (y - 2000) div 400"
    moreover have "(y - 2000) mod 400 = y - 2000 - 400 * D"
      unfolding D_def by (rule minus_mult_div_eq_mod [symmetric])
    moreover have "0 \<le> (y - 2000) mod 400" "(y - 2000) mod 400 < 400" by simp_all
    moreover have "serial_year y = y" using 2 by (simp add: serial_year_def)
    ultimately have "1970 \<le> res" "res \<le> 2400" "res = serial_year y + 400 * (- D)" by linarith+
    then show ?thesis by blast
  next
    case 3
    then show ?thesis unfolding res_def by (auto simp: serial_year_def intro!: exI [of _ 0])
  qed
qed

lemma QDate_parts_Gregorian:
  assumes "Gregorian_dateToJulianDay y m d = Some jd" "minJd \<le> jd" "jd \<le> maxJd"
  shows "QDate_year GregorianCalendar jd = y" "QDate_month GregorianCalendar jd = m"
    "QDate_day GregorianCalendar jd = d"
proof -
  have j: "cal_dateToJulianDay GregorianCalendar y m d = Some jd"
    using assms(1) by (simp add: GregorianCalendar_def)
  from greg.partsFromDate_eq [OF this assms(2,3)] greg.to_jd_month [OF j] assms(2,3)
  show "QDate_year GregorianCalendar jd = y" "QDate_month GregorianCalendar jd = m"
    "QDate_day GregorianCalendar jd = d"
    using greg.parts_isValid [of m d y]
    by (simp_all add: QDate_year_def QDate_month_def QDate_day_def QDate_isValid_def YearMonthDay_def)
qed


text \<open>for a date whose year is within 1.7 milliard years of the epoch, the stand-in year lies
  between 1970 and 2400, starts on the same day of the week and is leap exactly when the date's
  year is, and when it is not the date's own year its last two digits are neither the month nor
  the day of the month.\<close>

theorem yearSharingWeekDays_shares:
  assumes "Gregorian_dateToJulianDay y m d = Some jd" "minJd \<le> jd" "jd \<le> maxJd"
    and "- 1700000000 \<le> y" "y \<le> 1700000000"
  defines "r \<equiv> Gregorian_yearSharingWeekDays jd"
  shows "1970 \<le> r \<and> r \<le> 2400
    \<and> Gregorian_yearStartWeekDay r = Gregorian_yearStartWeekDay y
    \<and> Gregorian_leapTest r = Gregorian_leapTest y
    \<and> (r \<noteq> y \<longrightarrow> r mod 100 \<noteq> m \<and> r mod 100 \<noteq> d)"
proof -
  note parts = QDate_parts_Gregorian [OF assms(1-3)]
  have "cal_dateToJulianDay GregorianCalendar y m d = Some jd"
    using assms(1) by (simp add: GregorianCalendar_def)
  from greg.to_jd_month [OF this] have y: "y \<noteq> 0" and md: "1 \<le> m" "m \<le> 12" "d \<le> 31"
    by (auto simp: GregorianCalendar_def Roman_daysInMonth_eq split: if_splits)
  define res where "res = (if y < 1970 then 2400 - to_int32 (2000 - (if y < 0 then y + 1 else y)) smod 400
                 else if y > 2399 then 2000 + (y - 2000) smod 400 else y)"
  obtain q where res: "1970 \<le> res" "res \<le> 2400" and q: "res = serial_year y + 400 * q"
    using sharing_candidate [OF y assms(4,5)] unfolding res_def by blast
  have sm: "res smod 100 = res mod 100"
    using res sdiv_nonneg [of res 100]
    by (simp add: minus_mult_sdiv_eq_smod [symmetric] minus_mult_div_eq_mod [symmetric])
  define w where "w = Gregorian_yearStartWeekDay y"
  have w: "w = serial_start (serial_year y)" "1 \<le> w" "w \<le> 7"
    using yearStartWeekDay_serial [OF y assms(4,5)] serial_start_range by (simp_all add: w_def)
  have r: "r = (if res \<noteq> y \<and> (res mod 100 = m \<or> res mod 100 = d)
      then (if Gregorian_leapTest y then yearSharing_leaps else yearSharing_usual) ! nat (w - 1) else res)"
    unfolding r_def Gregorian_yearSharingWeekDays_def Let_def parts res_def [symmetric] sm w_def by simp
  have start: "Gregorian_yearStartWeekDay x = serial_start x" if "1970 \<le> x" "x \<le> 2400" for x
    using yearStartWeekDay_serial [of x] that by (simp add: serial_year_def)
  show ?thesis
  proof (cases "res \<noteq> y \<and> (res mod 100 = m \<or> res mod 100 = d)")
    case True
    with r sharing_table_entry [OF w(2,3), of "Gregorian_leapTest y"] start [of r] md
    show ?thesis unfolding w_def [symmetric] by simp
  next
    case False
    moreover have "Gregorian_leapTest res = Gregorian_leapTest y"
      using res q by (intro leap_cycle [OF y, of res q]) (simp_all add: serial_year_def)
    moreover have "serial_start res = w" unfolding q w(1) by (rule serial_start_cycle)
    moreover have "r = res" unfolding r using False by (rule if_not_P)
    ultimately show ?thesis using res start [of res] unfolding w_def [symmetric] by blast
  qed
qed

theorem yearSharingWeekDays_shares_witness:
  "1970 \<le> Gregorian_yearSharingWeekDays 2086668 \<and> Gregorian_yearSharingWeekDays 2086668 \<le> 2400"
proof -
  have d: "Gregorian_dateToJulianDay 1001 1 1 = Some 2086668" by code_simp
  from yearSharingWeekDays_shares [OF d] show ?thesis by (simp add: minJd_def maxJd_def)
qed

section \<open>The years of the valid days are those of an \<open>int\<close>\<close>

lemma Gregorian_fromYear_mono: "Y \<le> Y' \<Longrightarrow> Gregorian_fromYear Y \<le> Gregorian_fromYear Y'"
  using greg_years.fromYear_strict [of Y Y'] by (cases "Y = Y'") auto

lemma Gregorian_year_in_int:
  assumes "Gregorian_julianFromParts y m d = Some jd" "QDate_isValid jd"
  shows "in_int32 y"
proof -
  have l: "1 \<le> d" "d \<le> Roman_daysInMonth Gregorian_isLeapYear m y"
    and jd: "jd = Gregorian_fromYear (march_year y m) + roman_mstart (march_month m) + d + Gregorian_BaseJd"
    using assms(1) by (auto simp: Gregorian_to_jd split: if_splits)
  from l have r: "y \<noteq> 0" "1 \<le> m" "m \<le> 12" by (auto simp: Roman_daysInMonth_eq split: if_splits)
  have ends: "minJd = Gregorian_fromYear (- (2 ^ 31)) + 307 + Gregorian_BaseJd"
    "maxJd = Gregorian_fromYear (2 ^ 31 - 1) + 306 + Gregorian_BaseJd"
    "Gregorian_fromYear (- (2 ^ 31) - 1) + 365 \<le> Gregorian_fromYear (- (2 ^ 31))"
    "Gregorian_fromYear (2 ^ 31 - 1) + 365 \<le> Gregorian_fromYear (2 ^ 31)"
    by (simp_all add: Gregorian_fromYear_def minJd_def maxJd_def Gregorian_BaseJd_def LeapDayGregorian1Bce_def)
  have ml: "march_month m < 10 \<Longrightarrow> roman_mstart (march_month m) + Roman_daysInMonth Gregorian_isLeapYear m y \<le> 306"
    "roman_mstart (march_month m) + Roman_daysInMonth Gregorian_isLeapYear m y \<le> 366"
    "0 \<le> roman_mstart (march_month m)" "10 \<le> march_month m \<Longrightarrow> 306 \<le> roman_mstart (march_month m)"
    using month_cases [OF r(2,3)] r(1)
    by (elim disjE; simp add: roman_mstart_def march_month_def Roman_daysInMonth_eq)+
  have jds: "minJd \<le> jd" "jd \<le> maxJd" using assms(2) by (simp_all add: QDate_isValid_def)
  have "\<not> y < - (2 ^ 31)"
  proof
    assume y: "y < - (2 ^ 31)"
    show False
    proof (cases "m < 3")
      case True
      then have "march_year y m \<le> - (2 ^ 31) - 1" using y by (simp add: march_year_def serial_year_def)
      from Gregorian_fromYear_mono [OF this] ml(2) l ends jds(1) show False by (simp add: jd)
    next
      case False
      then have "march_year y m \<le> - (2 ^ 31)" "march_month m < 10"
        using y r by (simp_all add: march_year_def serial_year_def march_month_def)
      from Gregorian_fromYear_mono [OF this(1)] ml(1) [OF this(2)] l ends jds(1) show False by (simp add: jd)
    qed
  qed
  moreover have "\<not> 2 ^ 31 \<le> y"
  proof
    assume y: "2 ^ 31 \<le> y"
    show False
    proof (cases "m < 3")
      case True
      then have "2 ^ 31 - 1 \<le> march_year y m" "10 \<le> march_month m"
        using y r by (simp_all add: march_year_def serial_year_def march_month_def)
      from Gregorian_fromYear_mono [OF this(1)] ml(4) [OF this(2)] l ends jds(2) show False by (simp add: jd)
    next
      case False
      then have "2 ^ 31 \<le> march_year y m" using y by (simp add: march_year_def serial_year_def)
      from Gregorian_fromYear_mono [OF this] ml(3) l ends jds(2) show False by (simp add: jd)
    qed
  qed
  ultimately show ?thesis by (simp add: in_int32_def)
qed

end
