(* ===== verification/CalendarProps.thy ===== *)
theory CalendarProps
  imports MilankovicInstance IslamicCivil GregorianWeek
begin

text \<open>
  What \<open>QDate\<close> and \<open>QCalendar\<close> guarantee with the calendars of \<open>src/corelib/time\<close>: round
  trips between day numbers and dates, month and year arithmetic, the day of the year, and
  the two places where a valid \<open>QDate\<close> has a year that does not fit an \<open>int\<close>.
\<close>

section \<open>The day of the year under the contract\<close>

context calendar_backend
begin

lemma month_starts:
  assumes "cal_dateToJulianDay cal y 1 1 = Some a" "lo \<le> a"
    and "0 \<le> k" "k \<le> 11" "a + (\<Sum>i = 1..k. cal_daysInMonth cal i y) \<le> hi"
  shows "cal_dateToJulianDay cal y (k + 1) 1 = Some (a + (\<Sum>i = 1..k. cal_daysInMonth cal i y))"
  using assms(3-5)
proof (induction "nat k" arbitrary: k)
  case 0
  then show ?case using assms(1) by simp
next
  case (Suc j)
  have y: "y \<noteq> 0" using to_jd_month [OF assms(1)] by simp
  have pos: "0 \<le> cal_daysInMonth cal i y" if "i \<in> {1..k}" for i
    using month_length [OF y, of i] that Suc.prems by auto
  have k: "1 \<le> k" using Suc.hyps(2) by linarith
  have split: "(\<Sum>i = 1..k. cal_daysInMonth cal i y)
      = (\<Sum>i = 1..k - 1. cal_daysInMonth cal i y) + cal_daysInMonth cal k y"
  proof -
    have "{1..k} = insert k {1..k - 1}" using k by auto
    then show ?thesis by simp
  qed
  have nonneg: "0 \<le> (\<Sum>i = 1..k - 1. cal_daysInMonth cal i y)"
    by (rule sum_nonneg) (use pos in auto)
  define b where "b = a + (\<Sum>i = 1..k - 1. cal_daysInMonth cal i y)"
  have b: "lo \<le> b" "b \<le> hi"
    using Suc.prems assms(2) nonneg pos [of k] k split by (simp_all add: b_def)
  have "cal_dateToJulianDay cal y (k - 1 + 1) 1 = Some b"
    unfolding b_def using Suc b by (intro Suc.hyps(1)) (simp_all add: b_def)
  then have here: "cal_dateToJulianDay cal y k 1 = Some b" by simp
  have "shift_month y (k + 1) = (y, k + 1)"
    using shift_month_id [of y "k + 1"] y k Suc.prems by simp
  with next_month [OF here b] show ?case by (simp add: b_def split)
qed

lemma dayOfYear_eq:
  assumes "cal_dateToJulianDay cal y m d = Some jd" "lo \<le> jd" "jd \<le> hi"
    and "cal_dateToJulianDay cal y 1 1 = Some a" "lo \<le> a"
    and "a + (\<Sum>i = 1..m - 1. cal_daysInMonth cal i y) \<le> hi"
    and "in_int32 ((\<Sum>i = 1..m - 1. cal_daysInMonth cal i y) + d)"
  shows "QDate_dayOfYear cal jd = (\<Sum>i = 1..m - 1. cal_daysInMonth cal i y) + d"
proof -
  from to_jd_month [OF assms(1)] have r: "y \<noteq> 0" "1 \<le> m" "m \<le> 12" "1 \<le> d"
    and d: "d \<le> cal_daysInMonth cal m y" by auto
  have "cal_dateToJulianDay cal y m 1 = Some (a + (\<Sum>i = 1..m - 1. cal_daysInMonth cal i y))"
    using month_starts [OF assms(4,5), of "m - 1"] r assms(6) by simp
  from in_month [OF this r(4) d] assms(1)
  have jd: "jd = a + (\<Sum>i = 1..m - 1. cal_daysInMonth cal i y) + d - 1" by simp
  have "0 \<le> (\<Sum>i = 1..m - 1. cal_daysInMonth cal i y)"
    by (rule sum_nonneg) (use month_length [OF r(1)] r(3) in force)
  then have a: "QDate_isValid a" using assms(3,5) jd r(4) by (intro valid_date) simp_all
  have "QDate_year cal jd = y"
    using partsFromDate_eq [OF assms(1-3)] parts_isValid [OF r(2,4)] valid_date [OF assms(2,3)]
    by (simp add: QDate_year_def YearMonthDay_def)
  then show ?thesis
    using assms(4,7) a valid_date [OF assms(2,3)] jd
    by (simp add: QDate_dayOfYear_def QCalendar_dateFromParts_def QDate_fromJulianDay_def
        QDate_isValid_def QDate_daysTo_def in_int32_def to_int32_id)
qed

end

section \<open>Round trips\<close>

text \<open>C37: with the Gregorian calendar every valid \<open>QDate\<close> survives the trip to year, month and
  day and back, and every date whose day number is a valid \<open>QDate\<close> survives the trip to the day
  number and back.\<close>

theorem Gregorian_round_trip:
  assumes "QDate_isValid jd"
  shows "QCalendar_dateFromParts_ymd GregorianCalendar (QCalendar_partsFromDate GregorianCalendar jd) = jd
    \<and> (Gregorian_dateToJulianDay y m d = Some jd
       \<longrightarrow> QCalendar_partsFromDate GregorianCalendar jd = YearMonthDay y m d)"
  using assms greg.dateFromParts_partsFromDate [of jd] greg.partsFromDate_eq [of y m d jd]
  by (simp add: QDate_isValid_def GregorianCalendar_def)

theorem Gregorian_round_trip_witness:
  "QCalendar_dateFromParts_ymd GregorianCalendar (QCalendar_partsFromDate GregorianCalendar 2440588) = 2440588
   \<and> QCalendar_partsFromDate GregorianCalendar 2440588 = YearMonthDay 1970 1 1"
proof -
  have "Gregorian_dateToJulianDay 1970 1 1 = Some 2440588" by code_simp
  then show ?thesis
    using Gregorian_round_trip [of 2440588 1970 1 1] unfolding QDate_isValid_def minJd_def maxJd_def by force
qed

text \<open>the same round trips for the Julian calendar.\<close>

theorem Julian_round_trip:
  assumes "QDate_isValid jd"
  shows "QCalendar_dateFromParts_ymd JulianCalendar (QCalendar_partsFromDate JulianCalendar jd) = jd
    \<and> (Julian_dateToJulianDay y m d = Some jd
       \<longrightarrow> QCalendar_partsFromDate JulianCalendar jd = YearMonthDay y m d)"
  using assms julian.dateFromParts_partsFromDate [of jd] julian.partsFromDate_eq [of y m d jd]
  by (simp add: QDate_isValid_def JulianCalendar_def)

theorem Julian_round_trip_witness:
  "QCalendar_dateFromParts_ymd JulianCalendar (QCalendar_partsFromDate JulianCalendar 2440588) = 2440588"
  using Julian_round_trip [of 2440588 1970 1 1] by (simp add: QDate_isValid_def minJd_def maxJd_def)

text \<open>C33: the same round trips for the Milankovic calendar, on the days whose year fits an \<open>int\<close>.\<close>

theorem Milankovic_round_trip:
  assumes "Milankovic_lo \<le> jd" "jd \<le> Milankovic_hi"
  shows "QCalendar_dateFromParts_ymd MilankovicCalendar (QCalendar_partsFromDate MilankovicCalendar jd) = jd
    \<and> (Milankovic_dateToJulianDay y m d = Some jd
       \<longrightarrow> QCalendar_partsFromDate MilankovicCalendar jd = YearMonthDay y m d)"
  using assms milankovic.dateFromParts_partsFromDate [of jd] milankovic.partsFromDate_eq [of y m d jd]
  by (simp add: MilankovicCalendar_def)

theorem Milankovic_round_trip_witness:
  "QCalendar_dateFromParts_ymd MilankovicCalendar (QCalendar_partsFromDate MilankovicCalendar 2440588) = 2440588"
  using Milankovic_round_trip [of 2440588 1970 1 1] by (simp add: Milankovic_lo_def Milankovic_hi_def)

text \<open>C38: the same round trips for the tabular Islamic calendar, on the days whose year \<open>y\<close> keeps
  the \<open>y * 11 + 14\<close> of the leap test within an \<open>int\<close>.\<close>

theorem IslamicCivil_round_trip:
  assumes "islamic_lo \<le> jd" "jd \<le> islamic_hi"
  shows "QCalendar_dateFromParts_ymd IslamicCivilCalendar (QCalendar_partsFromDate IslamicCivilCalendar jd) = jd
    \<and> (IslamicCivil_dateToJulianDay y m d = Some jd
       \<longrightarrow> QCalendar_partsFromDate IslamicCivilCalendar jd = YearMonthDay y m d)"
  using assms islamic.dateFromParts_partsFromDate [of jd] islamic.partsFromDate_eq [of y m d jd]
  by (simp add: IslamicCivilCalendar_def)

theorem IslamicCivil_round_trip_witness:
  "QCalendar_dateFromParts_ymd IslamicCivilCalendar (QCalendar_partsFromDate IslamicCivilCalendar 2440588) = 2440588"
  using IslamicCivil_round_trip [of 2440588 1389 10 22] by (simp add: islamic_lo_def islamic_hi_def)

section \<open>Month and year arithmetic\<close>

text \<open>C39: \<open>addMonths\<close> in the Gregorian calendar returns, for every valid date and every number of
  months: it counts months across years, there being no year zero, and moves the day of the month
  back to the last day of the target month when that month is shorter. The sums it makes leave the
  range of \<open>int\<close>, where the code has no meaning, just when the month number plus the count does or
  the target year does.\<close>

theorem Gregorian_addMonths:
  assumes "Gregorian_dateToJulianDay y m d = Some jd" "QDate_isValid jd" "n \<noteq> 0"
    and "shift_month y (m + n) = (y', m')"
  shows "QDate_addMonths GregorianCalendar jd n =
    Some (if in_int32 (m + n) \<and> in_int32 y'
          then Inr (QCalendar_dateFromParts GregorianCalendar y' m'
                      (min d (Roman_daysInMonth Gregorian_isLeapYear m' y')))
          else Inl SignedOverflow)"
  using assms greg.addMonths_eq [of y m d jd n] Gregorian_year_in_int [of y m d jd]
  by (simp add: GregorianCalendar_def QDate_isValid_def Gregorian_dateToJulianDay_def)

theorem Gregorian_addMonths_witness:
  "QDate_addMonths GregorianCalendar 2451635 (- 25) =
     Some (Inr (QCalendar_dateFromParts GregorianCalendar 1998 2 28))
   \<and> QDate_addMonths GregorianCalendar 2451635 (2 ^ 31 - 1) = Some (Inl SignedOverflow)"
proof -
  have d: "Gregorian_dateToJulianDay 2000 3 31 = Some 2451635" by code_simp
  have s: "shift_month 2000 (3 + - 25) = (1998, 2)" by code_simp
  have l: "min 31 (Roman_daysInMonth Gregorian_isLeapYear 2 1998) = 28" by code_simp
  have o: "\<not> in_int32 (3 + (2 ^ 31 - 1))" by code_simp
  from Gregorian_addMonths [OF d _ _ s] Gregorian_addMonths [OF d, of "2 ^ 31 - 1"] o show ?thesis
    by (cases "shift_month 2000 (3 + (2 ^ 31 - 1))") (simp add: QDate_isValid_def minJd_def maxJd_def l in_int32_def)
qed

text \<open>\<open>addYears\<close> in the Gregorian calendar counts years without a year zero and moves
  29 February back to the 28th when the target year is not leap; its sums leave the range of
  \<open>int\<close> just when the target year does.\<close>

theorem Gregorian_addYears:
  assumes "Gregorian_dateToJulianDay y m d = Some jd" "QDate_isValid jd"
    and "y' = year_of_serial (serial_year y + n)"
  shows "QDate_addYears GregorianCalendar jd n =
    (if in_int32 y'
     then Inr (QCalendar_dateFromParts GregorianCalendar y' m
            (if m = 2 \<and> d = 29 \<and> \<not> Gregorian_isLeapYear y' then 28 else d))
     else Inl SignedOverflow)"
proof -
  have j: "cal_dateToJulianDay GregorianCalendar y m d = Some jd"
    using assms(1) by (simp add: GregorianCalendar_def)
  have f: "cal_daysInMonth GregorianCalendar = Roman_daysInMonth Gregorian_isLeapYear"
    by (simp add: GregorianCalendar_def)
  have y': "y' \<noteq> 0" by (simp add: assms(3))
  have "min d (Roman_daysInMonth Gregorian_isLeapYear m y') =
      (if m = 2 \<and> d = 29 \<and> \<not> Gregorian_isLeapYear y' then 28 else d)"
    using greg.to_jd_month [OF j] y' by (auto simp: f Roman_daysInMonth_eq min_def split: if_splits)
  moreover have "minJd \<le> jd" "jd \<le> maxJd" using assms(2) by (simp_all add: QDate_isValid_def)
  moreover have "in_int32 y"
    using assms(1,2) Gregorian_year_in_int by (simp add: Gregorian_dateToJulianDay_def)
  ultimately show ?thesis
    using greg.addYears_eq [OF j, of n] by (simp add: f assms(3) Let_def)
qed

theorem Gregorian_addYears_witness:
  "QDate_addYears GregorianCalendar 2451604 (- 2000) = Inr (QCalendar_dateFromParts GregorianCalendar (- 1) 2 29)"
proof -
  have d: "Gregorian_dateToJulianDay 2000 2 29 = Some 2451604" by code_simp
  have y: "- 1 = year_of_serial (serial_year 2000 + - 2000)" by code_simp
  have l: "Gregorian_isLeapYear (- 1)" by code_simp
  from Gregorian_addYears [OF d _ y] show ?thesis
    by (simp add: QDate_isValid_def minJd_def maxJd_def l in_int32_def)
qed


section \<open>Parts and lengths\<close>

text \<open>C24: the day of the year that \<open>QDate::dayOfYear\<close> returns in the Gregorian calendar is the
  lengths of the months before the date's, added up, and the day of the month.\<close>

theorem Gregorian_dayOfYear:
  assumes "Gregorian_dateToJulianDay y m d = Some jd" "- 2000000000 \<le> y" "y \<le> 2000000000"
  shows "QDate_dayOfYear GregorianCalendar jd = (\<Sum>i = 1..m - 1. Roman_daysInMonth Gregorian_isLeapYear i y) + d"
proof -
  have j: "cal_dateToJulianDay GregorianCalendar y m d = Some jd"
    and f: "cal_daysInMonth GregorianCalendar = Roman_daysInMonth Gregorian_isLeapYear"
    using assms(1) by (simp_all add: GregorianCalendar_def)
  from greg.to_jd_month [OF j] have y: "y \<noteq> 0" and m: "1 \<le> m" "m \<le> 12"
    and d: "1 \<le> d" "d \<le> Roman_daysInMonth Gregorian_isLeapYear m y" by (simp_all add: f)
  have len: "0 \<le> Roman_daysInMonth Gregorian_isLeapYear i y \<and> Roman_daysInMonth Gregorian_isLeapYear i y \<le> 31" for i
    by (simp add: Roman_daysInMonth_eq)
  define S where "S = (\<Sum>i = 1..m - 1. Roman_daysInMonth Gregorian_isLeapYear i y)"
  have "S \<le> of_nat (card {1..m - 1}) * 31"
    unfolding S_def by (rule sum_bounded_above) (use len in blast)
  then have S: "0 \<le> S" "S \<le> 341" using len m by (simp_all add: S_def sum_nonneg)
  define a where "a = Gregorian_fromYear (serial_year y - 1) + 307 + Gregorian_BaseJd"
  have a: "cal_dateToJulianDay GregorianCalendar y 1 1 = Some a"
    using Gregorian_new_year [OF y] by (simp add: GregorianCalendar_def a_def)
  have ends: "minJd + 1000 \<le> Gregorian_fromYear (- 2000000000) + Gregorian_BaseJd"
    "Gregorian_fromYear 2000000000 + Gregorian_BaseJd + 1000 \<le> maxJd"
    by (simp_all add: minJd_def maxJd_def Gregorian_fromYear_def Gregorian_BaseJd_def LeapDayGregorian1Bce_def)
  have mono: "Y \<le> Y' \<Longrightarrow> Gregorian_fromYear Y \<le> Gregorian_fromYear Y'" for Y Y'
    using greg_years.fromYear_strict [of Y Y'] by (cases "Y = Y'") auto
  have sy: "- 2000000000 \<le> serial_year y - 1" "serial_year y - 1 \<le> 2000000000"
    "- 2000000000 \<le> march_year y m" "march_year y m \<le> 2000000000"
    using assms(2,3) y by (auto simp: serial_year_def march_year_def)
  have ar: "minJd + 1000 \<le> a" "a + 600 \<le> maxJd"
    using mono [OF sy(1)] mono [OF sy(2)] ends by (simp_all add: a_def)
  have jr: "minJd \<le> jd" "jd \<le> maxJd"
  proof -
    have ms: "0 \<le> roman_mstart (march_month m) \<and> roman_mstart (march_month m) \<le> 400"
      using month_cases [OF m] by (elim disjE) (simp_all add: roman_mstart_def march_month_def)
    have "jd = Gregorian_fromYear (march_year y m) + roman_mstart (march_month m) + d + Gregorian_BaseJd"
      using assms(1) by (auto simp: Gregorian_dateToJulianDay_def Gregorian_to_jd split: if_splits)
    moreover have "d \<le> 31" using d len [of m] by simp
    ultimately show "minJd \<le> jd" "jd \<le> maxJd"
      using mono [OF sy(3)] mono [OF sy(4)] ends ms d by linarith+
  qed
  have "in_int32 (S + d)" using S d len [of m] by (simp add: in_int32_def)
  then show ?thesis
    using greg.dayOfYear_eq [OF j jr a] ar S by (simp add: f S_def)
qed

theorem Gregorian_dayOfYear_witness:
  "QDate_dayOfYear GregorianCalendar 2451635 = 91"
proof -
  have d: "Gregorian_dateToJulianDay 2000 3 31 = Some 2451635" by code_simp
  have "{1..3 - 1 :: int} = {1, 2}" by auto
  then have "(\<Sum>i = 1..3 - 1. Roman_daysInMonth Gregorian_isLeapYear i 2000) = 60"
    by (simp add: Roman_daysInMonth_eq Gregorian_isLeapYear_def Gregorian_leapTest_serial serial_year_def)
  with Gregorian_dayOfYear [OF d] show ?thesis by simp
qed

text \<open>C31: \<open>qDivMod\<close> divides rounding down, in both of its instances: the quotient and the
  remainder recompose the numerator and the remainder is from 0 to the denominator.\<close>

theorem qDivMod_floors:
  assumes "1 < b" "b < 2 ^ 31" "qDivMod b a = (q, r)"
  shows "a = b * q + r \<and> 0 \<le> r \<and> r < b"
  using assms qDivMod_eq [OF assms(1,2), of a] by auto

theorem qDivMod_floors_witness:
  "qDivMod 400 (- 1) = (- 1, 399) \<and> qDivMod 4 (- 7) = (- 2, 1)
   \<and> (- 7 :: int) = 4 * (- 2) + 1"
proof -
  have a: "qDivMod 400 (- 1) = (- 1, 399)" and b: "qDivMod 4 (- 7) = (- 2, 1)" by code_simp+
  with qDivMod_floors [OF _ _ b] show ?thesis by simp
qed

text \<open>C40: a Milankovic date whose year does not fit an \<open>int\<close> is a valid \<open>QDate\<close> all the same, and
  its parts are those of another date: at both ends of the range the year has the wrong sign and
  the parts do not convert back.\<close>

theorem Milankovic_year_overflow:
  "QDate_isValid maxJd
   \<and> ymd_year (QCalendar_partsFromDate MilankovicCalendar maxJd) < 0
   \<and> QCalendar_dateFromParts_ymd MilankovicCalendar (QCalendar_partsFromDate MilankovicCalendar maxJd) \<noteq> maxJd
   \<and> QDate_isValid minJd
   \<and> 0 < ymd_year (QCalendar_partsFromDate MilankovicCalendar minJd)
   \<and> QCalendar_dateFromParts_ymd MilankovicCalendar (QCalendar_partsFromDate MilankovicCalendar minJd) \<noteq> minJd"
  by code_simp

text \<open>The same overflow in the tabular Islamic calendar, whose year is shorter.\<close>

theorem IslamicCivil_year_overflow:
  "ymd_year (QCalendar_partsFromDate IslamicCivilCalendar maxJd) < 0
   \<and> QCalendar_dateFromParts_ymd IslamicCivilCalendar (QCalendar_partsFromDate IslamicCivilCalendar maxJd) \<noteq> maxJd
   \<and> 0 < ymd_year (QCalendar_partsFromDate IslamicCivilCalendar minJd)
   \<and> QCalendar_dateFromParts_ymd IslamicCivilCalendar (QCalendar_partsFromDate IslamicCivilCalendar minJd) \<noteq> minJd"
  by code_simp

end
