(* ===== verification/DateTime.thy ===== *)
theory DateTime
  imports GregorianWeek
begin

text \<open>
  \<open>src/corelib/time/qdatetime.cpp\<close>: \<open>QDate\<close>'s overloads without a calendar, which go straight
  to the Gregorian arithmetic; \<open>QTime\<close>; and the conversions between a date and time and
  milliseconds since 1970 with their 64-bit overflow checks. A \<open>QTime\<close> is its \<open>mds\<close>, an \<open>int\<close>.
\<close>

section \<open>QDate without a calendar\<close>

definition QDate_fromYmd :: "int \<Rightarrow> int \<Rightarrow> int \<Rightarrow> int" where
  "QDate_fromYmd y m d = (case Gregorian_julianFromParts y m d of Some jd \<Rightarrow> jd | None \<Rightarrow> nullJd)"

definition QDate_setDate :: "int \<Rightarrow> int \<Rightarrow> int \<Rightarrow> int \<times> bool" where
  "QDate_setDate year month day =
     (let maybe = Gregorian_julianFromParts year month day
      in (case maybe of Some jd \<Rightarrow> jd | None \<Rightarrow> nullJd, maybe \<noteq> None))"

definition QDate_year0 :: "int \<Rightarrow> int" where
  "QDate_year0 jd =
     (if QDate_isValid jd
      then let parts = Gregorian_partsFromJulian jd
           in if YearMonthDay_isValid parts then ymd_year parts else 0
      else 0)"

definition QDate_month0 :: "int \<Rightarrow> int" where
  "QDate_month0 jd =
     (if QDate_isValid jd
      then let parts = Gregorian_partsFromJulian jd
           in if YearMonthDay_isValid parts then ymd_month parts else 0
      else 0)"

definition QDate_day0 :: "int \<Rightarrow> int" where
  "QDate_day0 jd =
     (if QDate_isValid jd
      then let parts = Gregorian_partsFromJulian jd
           in if YearMonthDay_isValid parts then ymd_day parts else 0
      else 0)"

definition QDate_getDate :: "int \<Rightarrow> int \<times> int \<times> int" where
  "QDate_getDate jd =
     (let parts = (if QDate_isValid jd then Gregorian_partsFromJulian jd else YearMonthDay_none);
          ok = YearMonthDay_isValid parts
      in (if ok then ymd_year parts else 0, if ok then ymd_month parts else 0, if ok then ymd_day parts else 0))"

definition QDate_dayOfWeek0 :: "int \<Rightarrow> int" where
  "QDate_dayOfWeek0 jd = (if QDate_isValid jd then Gregorian_weekDayOfJulian jd else 0)"

definition QDate_dayOfYear0 :: "int \<Rightarrow> int" where
  "QDate_dayOfYear0 jd =
     (if QDate_isValid jd
      then (case Gregorian_julianFromParts (QDate_year0 jd) 1 1 of
              Some first \<Rightarrow> to_int32 (jd - first + 1) | None \<Rightarrow> 0)
      else 0)"

definition QDate_daysInMonth0 :: "int \<Rightarrow> int" where
  "QDate_daysInMonth0 jd =
     (if QDate_isValid jd
      then let parts = Gregorian_partsFromJulian jd
           in if YearMonthDay_isValid parts
              then Gregorian_monthLength (ymd_month parts) (ymd_year parts) else 0
      else 0)"

definition QDate_daysInYear0 :: "int \<Rightarrow> int" where
  "QDate_daysInYear0 jd =
     (if QDate_isValid jd then if Gregorian_leapTest (QDate_year0 jd) then 366 else 365 else 0)"

definition fixedDate0 :: "YearMonthDay \<Rightarrow> int" where
  "fixedDate0 parts =
     (if ymd_year parts \<noteq> 0
      then let day = min (ymd_day parts) (Gregorian_monthLength (ymd_month parts) (ymd_year parts))
           in case Gregorian_julianFromParts (ymd_year parts) (ymd_month parts) day of
                Some jd \<Rightarrow> QDate_fromJulianDay jd | None \<Rightarrow> QDate_null
      else QDate_null)"

text \<open>The loops of \<open>addMonths(int)\<close>: both skip over year zero, and end with an error when a
  month or a year leaves the range of \<open>int\<close>.\<close>

function addMonths0_back :: "int \<Rightarrow> int \<Rightarrow> int_fault + int \<times> int" where
  "addMonths0_back year month =
     (if month \<le> 0
      then case int_add year (- 1) of Inl e \<Rightarrow> Inl e
           | Inr year \<Rightarrow>
               if year \<noteq> 0
               then case int_add month 12 of Inl e \<Rightarrow> Inl e | Inr month \<Rightarrow> addMonths0_back year month
               else addMonths0_back year month
      else Inr (year, month))"
  by auto
termination
  by (relation "measure (\<lambda>(year, month). 2 * nat (12 - month) + (if year = 1 then 1 else 0))")
    (auto simp: int_add_def split: if_splits)

function addMonths0_forward :: "int \<Rightarrow> int \<Rightarrow> int_fault + int \<times> int" where
  "addMonths0_forward year month =
     (if month > 12
      then case int_add month (- 12) of Inl e \<Rightarrow> Inl e
           | Inr month \<Rightarrow>
               case int_add year 1 of Inl e \<Rightarrow> Inl e
               | Inr year \<Rightarrow> addMonths0_forward (if year = 0 then year + 1 else year) month
      else Inr (year, month))"
  by auto
termination
  by (relation "measure (\<lambda>(year, month). nat month)") (auto simp: int_add_def split: if_splits)

declare addMonths0_back.simps [simp del] addMonths0_forward.simps [simp del]

definition QDate_addMonths0 :: "int \<Rightarrow> int \<Rightarrow> int_fault + int" where
  "QDate_addMonths0 jd nmonths =
     (if \<not> QDate_isValid jd then Inr QDate_null
      else if nmonths = 0 then Inr jd
      else let parts = Gregorian_partsFromJulian jd
           in if \<not> YearMonthDay_isValid parts then Inr QDate_null
              else case int_add (ymd_month parts) nmonths of Inl e \<Rightarrow> Inl e
                   | Inr month \<Rightarrow>
                       case addMonths0_back (ymd_year parts) month of Inl e \<Rightarrow> Inl e
                       | Inr (year, month) \<Rightarrow>
                           case addMonths0_forward year month of Inl e \<Rightarrow> Inl e
                           | Inr (year, month) \<Rightarrow>
                               Inr (fixedDate0 (parts\<lparr>ymd_year := year, ymd_month := month\<rparr>)))"

definition QDate_addYears0 :: "int \<Rightarrow> int \<Rightarrow> int_fault + int" where
  "QDate_addYears0 jd nyears =
     (if \<not> QDate_isValid jd then Inr QDate_null
      else let parts = Gregorian_partsFromJulian jd
           in if \<not> YearMonthDay_isValid parts then Inr QDate_null
              else let old_y = ymd_year parts
                   in case int_add old_y nyears of Inl e \<Rightarrow> Inl e
                      | Inr year \<Rightarrow>
                          case (if (old_y > 0) \<noteq> (year > 0) \<or> year = 0
                                then int_add year (if nyears > 0 then 1 else - 1) else Inr year)
                          of Inl e \<Rightarrow> Inl e
                          | Inr year \<Rightarrow> Inr (fixedDate0 (parts\<lparr>ymd_year := year\<rparr>)))"

section \<open>QTime\<close>

definition SECS_PER_MIN :: int where "SECS_PER_MIN = 60"
definition MINS_PER_HOUR :: int where "MINS_PER_HOUR = 60"
definition SECS_PER_DAY :: int where "SECS_PER_DAY = 3600 * 24"
definition MSECS_PER_SEC :: int where "MSECS_PER_SEC = 1000"
definition MSECS_PER_MIN :: int where "MSECS_PER_MIN = SECS_PER_MIN * MSECS_PER_SEC"
definition MSECS_PER_HOUR :: int where "MSECS_PER_HOUR = 3600 * MSECS_PER_SEC"
definition MSECS_PER_DAY :: int where "MSECS_PER_DAY = SECS_PER_DAY * MSECS_PER_SEC"
definition JULIAN_DAY_FOR_EPOCH :: int where "JULIAN_DAY_FOR_EPOCH = 2440588"
definition NullTime :: int where "NullTime = - 1"

lemmas time_units = SECS_PER_MIN_def MINS_PER_HOUR_def SECS_PER_DAY_def MSECS_PER_SEC_def
  MSECS_PER_MIN_def MSECS_PER_HOUR_def MSECS_PER_DAY_def JULIAN_DAY_FOR_EPOCH_def NullTime_def

definition QTime_ds :: "int \<Rightarrow> int" where
  "QTime_ds mds = (if mds = - 1 then 0 else mds)"

definition QTime_isValid :: "int \<Rightarrow> bool" where
  "QTime_isValid mds \<longleftrightarrow> mds > NullTime \<and> mds < MSECS_PER_DAY"

definition QTime_isValidParts :: "int \<Rightarrow> int \<Rightarrow> int \<Rightarrow> int \<Rightarrow> bool" where
  "QTime_isValidParts h m s ms \<longleftrightarrow>
     to_uint32 h < 24 \<and> to_uint32 m < MINS_PER_HOUR \<and> to_uint32 s < SECS_PER_MIN \<and> to_uint32 ms < MSECS_PER_SEC"

definition QTime_hour :: "int \<Rightarrow> int" where
  "QTime_hour mds = (if \<not> QTime_isValid mds then - 1 else QTime_ds mds sdiv MSECS_PER_HOUR)"

definition QTime_minute :: "int \<Rightarrow> int" where
  "QTime_minute mds =
     (if \<not> QTime_isValid mds then - 1 else (QTime_ds mds smod MSECS_PER_HOUR) sdiv MSECS_PER_MIN)"

definition QTime_second :: "int \<Rightarrow> int" where
  "QTime_second mds =
     (if \<not> QTime_isValid mds then - 1 else (QTime_ds mds sdiv MSECS_PER_SEC) smod SECS_PER_MIN)"

definition QTime_msec :: "int \<Rightarrow> int" where
  "QTime_msec mds = (if \<not> QTime_isValid mds then - 1 else QTime_ds mds smod MSECS_PER_SEC)"

definition QTime_setHMS :: "int \<Rightarrow> int \<Rightarrow> int \<Rightarrow> int \<Rightarrow> int \<times> bool" where
  "QTime_setHMS h m s ms =
     (if \<not> QTime_isValidParts h m s ms then (NullTime, False)
      else (((h * MINS_PER_HOUR + m) * SECS_PER_MIN + s) * MSECS_PER_SEC + ms, True))"

text \<open>The sum in \<open>addMSecs\<close> is of two \<open>int\<close>s.\<close>

definition QTime_addMSecs :: "int \<Rightarrow> int \<Rightarrow> int" where
  "QTime_addMSecs mds ms =
     (if QTime_isValid mds then to_int32 (qMod MSECS_PER_DAY (to_int32 (QTime_ds mds + ms))) else NullTime)"

definition QTime_addSecs :: "int \<Rightarrow> int \<Rightarrow> int" where
  "QTime_addSecs mds s = QTime_addMSecs mds ((s smod SECS_PER_DAY) * MSECS_PER_SEC)"

definition QTime_secsTo :: "int \<Rightarrow> int \<Rightarrow> int" where
  "QTime_secsTo mds t =
     (if \<not> QTime_isValid mds \<or> \<not> QTime_isValid t then 0
      else QTime_ds t sdiv MSECS_PER_SEC - QTime_ds mds sdiv MSECS_PER_SEC)"

definition QTime_msecsTo :: "int \<Rightarrow> int \<Rightarrow> int" where
  "QTime_msecsTo mds t =
     (if \<not> QTime_isValid mds \<or> \<not> QTime_isValid t then 0 else QTime_ds t - QTime_ds mds)"

section \<open>Milliseconds since 1970\<close>

definition in_int64 :: "int \<Rightarrow> bool" where
  "in_int64 x \<longleftrightarrow> - (2 ^ 63) \<le> x \<and> x < 2 ^ 63"

text \<open>\<open>qMulOverflow\<close> and \<open>qAddOverflow\<close>: \<open>None\<close> when the result does not fit.\<close>

definition qMulOverflow :: "int \<Rightarrow> int \<Rightarrow> int option" where
  "qMulOverflow a b = (if in_int64 (a * b) then Some (a * b) else None)"

definition qAddOverflow :: "int \<Rightarrow> int \<Rightarrow> int option" where
  "qAddOverflow a b = (if in_int64 (a + b) then Some (a + b) else None)"

definition msecsToJulianDay :: "int \<Rightarrow> int" where
  "msecsToJulianDay msecs = JULIAN_DAY_FOR_EPOCH + qDiv MSECS_PER_DAY msecs"

definition msecsToDate :: "int \<Rightarrow> int" where
  "msecsToDate msecs = QDate_fromJulianDay (msecsToJulianDay msecs)"

definition msecsToTime :: "int \<Rightarrow> int" where
  "msecsToTime msecs = to_int32 (qMod MSECS_PER_DAY msecs)"

definition daysAndMillisOverflow :: "int \<Rightarrow> int \<Rightarrow> int option" where
  "daysAndMillisOverflow days millisInDay =
     Option.bind (qMulOverflow days MSECS_PER_DAY) (\<lambda>sumMillis. qAddOverflow sumMillis millisInDay)"

definition timeToMSecs :: "int \<Rightarrow> int \<Rightarrow> int" where
  "timeToMSecs date time =
     (let days = date - JULIAN_DAY_FOR_EPOCH;
          dayms = QTime_ds time;
          (days, dayms) = (if days < 0 \<and> dayms > 0 then (days + 1, dayms - MSECS_PER_DAY) else (days, dayms))
      in case daysAndMillisOverflow days dayms of
           None \<Rightarrow> if days < 0 then - (2 ^ 63) else 2 ^ 63 - 1
         | Some msecs \<Rightarrow> msecs)"

datatype DaySide = Start | End

definition inDateTimeRange :: "int \<Rightarrow> DaySide \<Rightarrow> bool" where
  "inDateTimeRange jd side =
     (if jd < - (2 ^ 63) + JULIAN_DAY_FOR_EPOCH then False
      else let jd = jd - JULIAN_DAY_FOR_EPOCH;
               maxDay = (2 ^ 63 - 1) sdiv MSECS_PER_DAY;
               minDay = (- (2 ^ 63)) sdiv MSECS_PER_DAY - 1
           in case side of
                Start \<Rightarrow> jd > minDay \<and> jd \<le> maxDay
              | End \<Rightarrow> jd \<ge> minDay \<and> jd < maxDay)"

section \<open>Years the system's time functions know\<close>

definition forLeapEarly :: "int list" where
  "forLeapEarly = [1928, 1912, 1924, 1908, 1920, 1904, 1916]"
definition regularEarly :: "int list" where
  "regularEarly = [1905, 1906, 1907, 1902, 1903, 1909, 1910]"
definition forLeapLate :: "int list" where
  "forLeapLate = [2012, 2024, 2036, 2020, 2032, 2016, 2028]"
definition regularLate :: "int list" where
  "regularLate = [2034, 2035, 2030, 2031, 2037, 2027, 2033]"

definition systemTimeYearMatching :: "int \<Rightarrow> int" where
  "systemTimeYearMatching year =
     (let dow = Gregorian_yearStartWeekDay year
      in (if Gregorian_leapTest year
          then if year < 1970 then forLeapEarly else forLeapLate
          else if year < 1970 then regularEarly else regularLate)
         ! (if dow = 7 then 0 else nat dow))"

end
