(* ===== verification/DateTimeProps.thy ===== *)
theory DateTimeProps
  imports DateTime
begin

text \<open>
  What \<open>QDate\<close>'s Gregorian overloads, \<open>QTime\<close> and the millisecond conversions guarantee.
\<close>

section \<open>The Gregorian overloads\<close>

lemma Gregorian_cal [simp]:
  "cal_daysInMonth GregorianCalendar = Roman_daysInMonth Gregorian_isLeapYear"
  "cal_julianDayToDate GregorianCalendar = Gregorian_partsFromJulian"
  "cal_dateToJulianDay GregorianCalendar = Gregorian_julianFromParts"
  "cal_isProleptic GregorianCalendar" "\<not> cal_hasYearZero GregorianCalendar"
  by (auto simp: GregorianCalendar_def Gregorian_julianDayToDate_def Gregorian_dateToJulianDay_def
      backend_isProleptic_def backend_hasYearZero_def fun_eq_iff)

lemma Gregorian_partsFromDate:
  "QDate_isValid jd \<Longrightarrow> QCalendar_partsFromDate GregorianCalendar jd = Gregorian_partsFromJulian jd"
  by (simp add: QCalendar_partsFromDate_def)

lemma QDate_fields0:
  "QDate_year0 jd = QDate_year GregorianCalendar jd"
  "QDate_month0 jd = QDate_month GregorianCalendar jd"
  "QDate_day0 jd = QDate_day GregorianCalendar jd"
  by (simp_all add: QDate_year0_def QDate_month0_def QDate_day0_def QDate_year_def QDate_month_def
      QDate_day_def Gregorian_partsFromDate Let_def)

lemma Gregorian_parts:
  assumes "QDate_isValid jd"
  obtains y m d where "Gregorian_partsFromJulian jd = YearMonthDay y m d"
    "Gregorian_julianFromParts y m d = Some jd" "y \<noteq> 0" "1 \<le> m" "m \<le> 12" "1 \<le> d"
  using greg.date_parts [of jd] assms unfolding QDate_isValid_def by (simp only: Gregorian_cal) blast

lemma monthLength_eq: "y \<noteq> 0 \<Longrightarrow> Gregorian_monthLength m y = Roman_daysInMonth Gregorian_isLeapYear m y"
  by (auto simp: Gregorian_monthLength_def Roman_daysInMonth_def Gregorian_isLeapYear_def)

lemma fixedDate0_eq:
  assumes "y \<noteq> 0" "1 \<le> m" "m \<le> 12" "1 \<le> d"
  shows "fixedDate0 (YearMonthDay y m d) = fixedDate (YearMonthDay y m d) GregorianCalendar"
  using greg.fixedDate_eq [OF assms] assms
  by (simp add: fixedDate0_def YearMonthDay_def QCalendar_dateFromParts_def monthLength_eq Let_def)

lemma back0_step:
  assumes "y \<noteq> 0" "in_int32 y" "in_int32 month"
  shows "addMonths0_back y month =
     (if month \<le> 0
      then let y' = year_of_serial (serial_year y - 1)
           in if in_int32 y' then addMonths0_back y' (month + 12) else Inl SignedOverflow
      else Inr (y, month))"
  using assms
  by (cases "y = 1")
    (auto simp: addMonths0_back.simps [of y] addMonths0_back.simps [of 0] addMonths0_back.simps [of 1]
      int_add_def in_int32_def year_of_serial_def serial_year_def Let_def)

lemma addMonths0_back_eq:
  assumes "y \<noteq> 0" "in_int32 y" "in_int32 month"
  shows "addMonths0_back y month = int_year (if month \<le> 0 then shift_month y month else (y, month))"
  using assms
proof (induction "nat (12 - month)" arbitrary: y month rule: less_induct)
  case less
  let ?y = "year_of_serial (serial_year y - 1)"
  consider "month > 0" | "month \<le> 0" "\<not> in_int32 ?y" | "month \<le> 0" "in_int32 ?y" by linarith
  then show ?case
  proof cases
    case 1
    then show ?thesis using back0_step [OF less.prems] less.prems by (simp add: int_year_def)
  next
    case 2
    then show ?thesis
      using back0_step [OF less.prems] shift_back_leaves_int [OF 2(1) less.prems(1,2) 2(2)]
      by (simp add: Let_def)
  next
    case 3
    have "addMonths0_back ?y (month + 12) =
        int_year (if month + 12 \<le> 0 then shift_month ?y (month + 12) else (?y, month + 12))"
      using 3 less.prems(3) by (intro less.hyps) (auto simp: in_int32_def)
    also have "(if month + 12 \<le> 0 then shift_month ?y (month + 12) else (?y, month + 12))
        = shift_month ?y (month + 12)"
      using 3 shift_month_id [of ?y "month + 12"] by simp
    also have "\<dots> = shift_month y month" by (rule shift_month_step) simp
    finally show ?thesis using back0_step [OF less.prems] 3 by simp
  qed
qed

lemma forward0_step:
  assumes "y \<noteq> 0" "in_int32 y" "in_int32 month"
  shows "addMonths0_forward y month =
     (if month > 12
      then let y' = year_of_serial (serial_year y + 1)
           in if in_int32 y' then addMonths0_forward y' (month - 12) else Inl SignedOverflow
      else Inr (y, month))"
  using assms
  by (cases "y = - 1")
    (auto simp: addMonths0_forward.simps [of y] addMonths0_forward.simps [of "- 1"]
      int_add_def in_int32_def year_of_serial_def serial_year_def Let_def)

lemma addMonths0_forward_eq:
  assumes "y \<noteq> 0" "in_int32 y" "in_int32 month" "1 \<le> month"
  shows "addMonths0_forward y month = int_year (shift_month y month)"
  using assms
proof (induction "nat month" arbitrary: y month rule: less_induct)
  case less
  let ?y = "year_of_serial (serial_year y + 1)"
  consider "month \<le> 12" | "month > 12" "\<not> in_int32 ?y" | "month > 12" "in_int32 ?y" by linarith
  then show ?case
  proof cases
    case 1
    then show ?thesis
      using forward0_step [OF less.prems(1-3)] shift_month_id [OF less.prems(1,4)] less.prems(2)
      by (simp add: int_year_def)
  next
    case 2
    then show ?thesis
      using forward0_step [OF less.prems(1-3)] shift_forward_leaves_int [OF 2(1) less.prems(1,2) 2(2)]
      by (simp add: Let_def)
  next
    case 3
    have "addMonths0_forward ?y (month - 12) = int_year (shift_month ?y (month - 12))"
      using 3 less.prems(3) by (intro less.hyps) (auto simp: in_int32_def)
    also have "shift_month ?y (month - 12) = shift_month y month"
      using shift_month_step [of y ?y "month - 12"] by simp
    finally show ?thesis using forward0_step [OF less.prems(1-3)] 3 by simp
  qed
qed

lemma addMonths0_loops:
  assumes "y \<noteq> 0" "in_int32 y" "in_int32 month"
  shows "(case addMonths0_back y month of Inl e \<Rightarrow> Inl e
          | Inr (year, month) \<Rightarrow> addMonths0_forward year month)
    = int_year (shift_month y month)"
proof (cases "month \<le> 0")
  case True
  obtain y' m' where s: "shift_month y month = (y', m')" by (cases "shift_month y month")
  then have r: "y' \<noteq> 0" "1 \<le> m'" "m' \<le> 12" using shift_month_range [OF s] by auto
  have m: "in_int32 m'" using r by (simp add: in_int32_def)
  show ?thesis
    using True s addMonths0_back_eq [OF assms] addMonths0_forward_eq [OF r(1) _ m r(2)] shift_month_id [OF r]
    by (simp add: int_year_pair)
next
  case False
  then show ?thesis
    using addMonths0_back_eq [OF assms] addMonths0_forward_eq [OF assms] assms(2) by (simp add: int_year_pair)
qed

lemma QDate_addMonths0_eq:
  assumes "Gregorian_julianFromParts y m d = Some jd" "QDate_isValid jd" "n \<noteq> 0"
  shows "QDate_addMonths0 jd n =
     (if in_int32 (m + n)
      then case int_year (shift_month y (m + n)) of Inl e \<Rightarrow> Inl e
           | Inr (year, month) \<Rightarrow> Inr (fixedDate0 (YearMonthDay year month d))
      else Inl SignedOverflow)"
proof -
  have r: "y \<noteq> 0" "1 \<le> m" "1 \<le> d" using greg.to_jd_month [of y m d jd] assms(1) by auto
  have p: "Gregorian_partsFromJulian jd = YearMonthDay y m d"
    using greg.partsFromDate_eq [of y m d jd] assms(1,2)
    by (simp add: QDate_isValid_def QCalendar_partsFromDate_def)
  have u: "YearMonthDay y m d\<lparr>ymd_year := a, ymd_month := b\<rparr> = YearMonthDay a b d"
    "ymd_year (YearMonthDay y m d) = y" "ymd_month (YearMonthDay y m d) = m" for a b
    by (simp_all add: YearMonthDay_def)
  show ?thesis
  proof (cases "in_int32 (m + n)")
    case False
    then show ?thesis
      using assms p greg.parts_isValid [OF r(2,3)] by (simp add: QDate_addMonths0_def u int_add_def)
  next
    case True
    have "QDate_addMonths0 jd n =
        (case (case addMonths0_back y (m + n) of Inl e \<Rightarrow> Inl e
               | Inr (year, month) \<Rightarrow> addMonths0_forward year month) of Inl e \<Rightarrow> Inl e
         | Inr (year, month) \<Rightarrow> Inr (fixedDate0 (YearMonthDay year month d)))"
      using True assms p greg.parts_isValid [OF r(2,3)]
      by (simp add: QDate_addMonths0_def u int_add_def split: sum.splits prod.splits)
    then show ?thesis
      using True by (simp only: addMonths0_loops [OF r(1) Gregorian_year_in_int [OF assms(1,2)] True] if_True)
  qed
qed

text \<open>C38: \<open>addMonths\<close> without a calendar computes what \<open>addMonths\<close> with the Gregorian calendar
  does, for every date, valid or not, and every number of months: the same date, or the same
  overflow of an \<open>int\<close>.\<close>

theorem addMonths_overloads_agree:
  "QDate_addMonths GregorianCalendar jd n = Some (QDate_addMonths0 jd n)"
proof (cases "QDate_isValid jd \<and> n \<noteq> 0")
  case False
  then show ?thesis by (auto simp: QDate_addMonths_def QDate_addMonths0_def)
next
  case True
  then obtain y m d where j: "Gregorian_julianFromParts y m d = Some jd" and r: "1 \<le> d"
    using Gregorian_parts by metis
  obtain y' m' where s: "shift_month y (m + n) = (y', m')" by (cases "shift_month y (m + n)")
  have r': "y' \<noteq> 0" "1 \<le> m'" "m' \<le> 12" using shift_month_range [OF s] by auto
  show ?thesis
    using greg.addMonths_eq [of y m d jd n] QDate_addMonths0_eq [OF j] True j s
      Gregorian_year_in_int [OF j]
    by (simp add: fixedDate0_eq [OF r' r] greg.fixedDate_eq [OF r' r] QDate_isValid_def int_year_pair)
qed

text \<open>C23: \<open>addYears\<close> and the field accessors without a calendar agree with the ones that take the
  Gregorian calendar, for every date, valid or not.\<close>

theorem accessor_overloads_agree:
  "QDate_addYears0 jd n = QDate_addYears GregorianCalendar jd n
   \<and> QDate_getDate jd = (QDate_year GregorianCalendar jd, QDate_month GregorianCalendar jd, QDate_day GregorianCalendar jd)
   \<and> (QDate_year0 jd, QDate_month0 jd, QDate_day0 jd) = QDate_getDate jd
   \<and> QDate_dayOfWeek0 jd = QDate_dayOfWeek GregorianCalendar jd
   \<and> QDate_daysInMonth0 jd = QDate_daysInMonth GregorianCalendar jd
   \<and> QDate_daysInYear0 jd = QDate_daysInYear GregorianCalendar jd"
proof (cases "QDate_isValid jd")
  case False
  then show ?thesis
    by (simp add: QDate_addYears0_def QDate_addYears_def QDate_getDate_def QDate_year_def QDate_month_def
        QDate_day_def QDate_year0_def QDate_month0_def QDate_day0_def QDate_dayOfWeek0_def QDate_dayOfWeek_def
        QDate_daysInMonth0_def QDate_daysInMonth_def QDate_daysInYear0_def QDate_daysInYear_def
        YearMonthDay_isValid_def YearMonthDay_none_def YearMonthDay_def Let_def)
next
  case True
  then obtain y m d where p: "Gregorian_partsFromJulian jd = YearMonthDay y m d"
    and j: "Gregorian_julianFromParts y m d = Some jd" and r: "y \<noteq> 0" "1 \<le> m" "m \<le> 12" "1 \<le> d"
    using Gregorian_parts by metis
  note v = greg.parts_isValid [OF r(2,4), of y]
  have s: "ymd_year (YearMonthDay y m d) = y" "ymd_month (YearMonthDay y m d) = m"
    "ymd_day (YearMonthDay y m d) = d" by (simp_all add: YearMonthDay_def)
  have u: "YearMonthDay y m d\<lparr>ymd_year := a\<rparr> = YearMonthDay a m d" for a
    by (simp add: YearMonthDay_def)
  let ?year = "\<lambda>year. if (y > 0) \<noteq> (year > 0) \<or> year = 0
                     then int_add year (if n > 0 then 1 else - 1) else Inr year"
  have y': "year' \<noteq> 0" if "int_add y n = Inr year" "?year year = Inr year'" for year year'
    using that r(1) by (auto simp: int_add_def split: if_splits)
  have "QDate_addYears0 jd n = QDate_addYears GregorianCalendar jd n"
  proof (cases "int_add y n")
    case (Inl e)
    then show ?thesis
      using True p v by (simp add: QDate_addYears0_def QDate_addYears_def Gregorian_partsFromDate s)
  next
    case (Inr year)
    have "QDate_addYears0 jd n =
        (case ?year year of Inl e \<Rightarrow> Inl e | Inr year \<Rightarrow> Inr (fixedDate0 (YearMonthDay year m d)))"
      using True v by (simp add: QDate_addYears0_def p s u Inr split: sum.splits)
    also have "\<dots> = (case ?year year of Inl e \<Rightarrow> Inl e
        | Inr year \<Rightarrow> Inr (fixedDate (YearMonthDay year m d) GregorianCalendar))"
    proof (cases "?year year")
      case (Inl e)
      show ?thesis unfolding Inl by simp
    next
      case r0: (Inr year')
      show ?thesis unfolding r0 using fixedDate0_eq [OF y' [OF Inr r0] r(2-4)] by simp
    qed
    also have "\<dots> = QDate_addYears GregorianCalendar jd n"
      using True v by (simp add: QDate_addYears_def Gregorian_partsFromDate p s u Inr split: sum.splits)
    finally show ?thesis .
  qed
  moreover have "cal_daysInYear GregorianCalendar y = (if Gregorian_leapTest y then 366 else 365)"
    using r(1) by (auto simp: GregorianCalendar_def backend_daysInYear_def backend_monthsInYear_def
        backend_isProleptic_def Gregorian_isLeapYear_def)
  ultimately show ?thesis
    using True p v r
    by (simp add: QDate_getDate_def QDate_year_def QDate_month_def
        QDate_day_def QDate_year0_def QDate_month0_def QDate_day0_def QDate_dayOfWeek0_def QDate_dayOfWeek_def
        QCalendar_dayOfWeek_def backend_dayOfWeek_def Gregorian_weekDayOfJulian_def
        QDate_daysInMonth0_def QDate_daysInMonth_def QDate_daysInYear0_def QDate_daysInYear_def
        Gregorian_partsFromDate s monthLength_eq)
qed

lemma Gregorian_int_year_range:
  assumes "Gregorian_julianFromParts y m d = Some jd" "in_int32 y"
  shows "QDate_isValid jd"
proof -
  have l: "1 \<le> d" "d \<le> Roman_daysInMonth Gregorian_isLeapYear m y"
    and jd: "jd = Gregorian_fromYear (march_year y m) + roman_mstart (march_month m) + d + Gregorian_BaseJd"
    using assms(1) by (auto simp: Gregorian_to_jd split: if_splits)
  from l have r: "y \<noteq> 0" "1 \<le> m" "m \<le> 12" by (auto simp: Roman_daysInMonth_eq split: if_splits)
  have ends: "minJd = Gregorian_fromYear (- (2 ^ 31)) + 307 + Gregorian_BaseJd"
    "maxJd = Gregorian_fromYear (2 ^ 31 - 1) + 306 + Gregorian_BaseJd"
    "Gregorian_fromYear (- (2 ^ 31)) + 307 \<le> Gregorian_fromYear (- (2 ^ 31) + 1)"
    "Gregorian_fromYear (2 ^ 31 - 2) + 400 \<le> Gregorian_fromYear (2 ^ 31 - 1) + 306"
    by (simp_all add: Gregorian_fromYear_def minJd_def maxJd_def Gregorian_BaseJd_def LeapDayGregorian1Bce_def)
  have ml: "march_month m < 10 \<Longrightarrow> roman_mstart (march_month m) + Roman_daysInMonth Gregorian_isLeapYear m y \<le> 306"
    "roman_mstart (march_month m) + Roman_daysInMonth Gregorian_isLeapYear m y \<le> 366"
    "0 \<le> roman_mstart (march_month m)" "10 \<le> march_month m \<Longrightarrow> 306 \<le> roman_mstart (march_month m)"
    using month_cases [OF r(2,3)] r(1)
    by (elim disjE; simp add: roman_mstart_def march_month_def Roman_daysInMonth_eq)+
  have y: "- (2 ^ 31) \<le> y" "y \<le> 2 ^ 31 - 1" using assms(2) by (simp_all add: in_int32_def)
  show ?thesis
  proof (cases "m < 3")
    case True
    then have "- (2 ^ 31) \<le> march_year y m" "march_year y m \<le> 2 ^ 31 - 2" "10 \<le> march_month m"
      using y r by (auto simp: march_year_def serial_year_def march_month_def)
    with Gregorian_fromYear_mono [OF this(1)] Gregorian_fromYear_mono [OF this(2)] ml l ends
    show ?thesis by (simp add: QDate_isValid_def jd)
  next
    case False
    then have "- (2 ^ 31) + 1 \<le> march_year y m" "march_year y m \<le> 2 ^ 31 - 1" "march_month m < 10"
      using y r by (auto simp: march_year_def serial_year_def march_month_def)
    with Gregorian_fromYear_mono [OF this(1)] Gregorian_fromYear_mono [OF this(2)] ml l ends
    show ?thesis by (simp add: QDate_isValid_def jd)
  qed
qed

text \<open>C36: the constructor and \<open>setDate\<close> that take year, month and day do not check the range of the
  day number, and need not: for every \<open>int\<close> year they agree with the constructor that takes the
  Gregorian calendar, and \<open>setDate\<close> returns whether the date is valid.\<close>

theorem ymd_constructors_agree:
  assumes "in_int32 y"
  shows "QDate_fromYmd y m d = QCalendar_dateFromParts GregorianCalendar y m d
    \<and> QDate_setDate y m d = (QDate_fromYmd y m d, QDate_isValid (QDate_fromYmd y m d))"
proof (cases "Gregorian_julianFromParts y m d")
  case None
  then show ?thesis
    by (simp add: QDate_fromYmd_def QDate_setDate_def QCalendar_dateFromParts_def QDate_null_def
        QDate_isValid_def nullJd_def minJd_def)
next
  case (Some jd)
  with Gregorian_int_year_range [OF Some assms] show ?thesis
    by (simp add: QDate_fromYmd_def QDate_setDate_def QCalendar_dateFromParts_def QDate_fromJulianDay_def
        QDate_isValid_def)
qed

theorem ymd_constructors_agree_witness:
  "QDate_fromYmd 1752 2 30 = nullJd \<and> QDate_setDate 1752 2 30 = (nullJd, False)"
proof -
  have "QDate_fromYmd 1752 2 30 = nullJd" by code_simp
  with ymd_constructors_agree [of 1752 2 30] show ?thesis
    by (simp add: in_int32_def QDate_isValid_def nullJd_def minJd_def)
qed


section \<open>QTime\<close>

lemma smod_nonneg: "0 \<le> a \<Longrightarrow> 0 < b \<Longrightarrow> a smod b = a mod (b::int)"
  using sdiv_nonneg [of a b] by (simp add: minus_mult_sdiv_eq_smod [symmetric] minus_mult_div_eq_mod [symmetric])

lemma to_uint32_less:
  assumes "in_int32 x" "n \<le> 2 ^ 31"
  shows "to_uint32 x < n \<longleftrightarrow> 0 \<le> x \<and> x < n"
proof (cases "0 \<le> x")
  case True
  then show ?thesis using assms by (simp add: in_int32_def to_uint32_id)
next
  case False
  have "x mod 2 ^ 32 = (x + 2 ^ 32) mod 2 ^ 32" by simp
  also have "\<dots> = x + 2 ^ 32" using assms False by (intro mod_pos_pos_trivial) (simp_all add: in_int32_def)
  finally show ?thesis using assms False by (simp add: to_uint32_def in_int32_def)
qed

lemma positional:
  fixes h m s ms :: int
  assumes "0 \<le> m" "m < 60" "0 \<le> s" "s < 60" "0 \<le> ms" "ms < 1000"
  defines "t \<equiv> ((h * 60 + m) * 60 + s) * 1000 + ms"
  shows "t div 3600000 = h" "t mod 3600000 div 60000 = m" "t div 1000 mod 60 = s" "t mod 1000 = ms"
proof -
  show "t div 3600000 = h" using assms(1-6) unfolding t_def by (subst div_eq_iff_between) simp_all
  have "t mod 3600000 = t - 3600000 * (t div 3600000)" by (simp add: minus_mult_div_eq_mod)
  then have "t mod 3600000 = (m * 60 + s) * 1000 + ms" unfolding \<open>t div 3600000 = h\<close> by (simp add: t_def)
  then show "t mod 3600000 div 60000 = m"
    using assms(1-6) by (subst div_eq_iff_between) simp_all
  have q: "t div 1000 = (h * 60 + m) * 60 + s" using assms(1-6) unfolding t_def by (subst div_eq_iff_between) simp_all
  show "t div 1000 mod 60 = s" unfolding q mod_mult_self3 using assms(3,4) by simp
  show "t mod 1000 = ms" unfolding t_def mod_mult_self3 using assms(5,6) by simp
qed

text \<open>C26: for \<open>int\<close> arguments \<open>setHMS\<close> succeeds exactly when each part is in its range, and the
  time then reads back hour, minute, second and millisecond; otherwise the time is null and every
  part reads \<open>- 1\<close>.\<close>

theorem setHMS_reads_back:
  assumes "in_int32 h" "in_int32 m" "in_int32 s" "in_int32 ms" "QTime_setHMS h m s ms = (t, ok)"
  shows "ok = (0 \<le> h \<and> h < 24 \<and> 0 \<le> m \<and> m < 60 \<and> 0 \<le> s \<and> s < 60 \<and> 0 \<le> ms \<and> ms < 1000)
    \<and> QTime_isValid t = ok
    \<and> (QTime_hour t, QTime_minute t, QTime_second t, QTime_msec t) = (if ok then (h, m, s, ms) else (- 1, - 1, - 1, - 1))"
proof (cases "0 \<le> h \<and> h < 24 \<and> 0 \<le> m \<and> m < 60 \<and> 0 \<le> s \<and> s < 60 \<and> 0 \<le> ms \<and> ms < 1000")
  case True
  then have "QTime_isValidParts h m s ms"
    using assms(1-4) by (simp add: QTime_isValidParts_def to_uint32_less time_units)
  then have t: "t = ((h * 60 + m) * 60 + s) * 1000 + ms" and ok
    using assms(5) by (simp_all add: QTime_setHMS_def time_units)
  have r: "0 \<le> t" "t < 86400000" using True unfolding t by simp_all
  have v: "QTime_isValid t" "QTime_ds t = t" using r by (simp_all add: QTime_isValid_def QTime_ds_def time_units)
  have p: "t div 3600000 = h" "t mod 3600000 div 60000 = m" "t div 1000 mod 60 = s" "t mod 1000 = ms"
    unfolding t using True by (blast intro: positional)+
  have "QTime_hour t = t div 3600000" "QTime_minute t = t mod 3600000 div 60000"
    "QTime_second t = t div 1000 mod 60" "QTime_msec t = t mod 1000"
    using v r by (simp_all add: QTime_hour_def QTime_minute_def QTime_second_def QTime_msec_def time_units
        sdiv_nonneg smod_nonneg)
  then have "(QTime_hour t, QTime_minute t, QTime_second t, QTime_msec t) = (h, m, s, ms)"
    by (simp only: p)
  with True v \<open>ok\<close> show ?thesis by simp
next
  case False
  then have "\<not> QTime_isValidParts h m s ms"
    using assms by (simp add: QTime_isValidParts_def to_uint32_less time_units)
  then have "t = NullTime" "\<not> ok" using assms by (simp_all add: QTime_setHMS_def)
  then show ?thesis
    using False by (auto simp: QTime_isValid_def QTime_hour_def QTime_minute_def QTime_second_def QTime_msec_def)
qed

theorem setHMS_reads_back_witness:
  "QTime_setHMS 23 59 58 7 = (86398007, True) \<and> QTime_minute 86398007 = 59 \<and> QTime_setHMS 24 0 0 0 = (- 1, False)"
proof -
  have a: "QTime_setHMS 23 59 58 7 = (86398007, True)" and b: "QTime_setHMS 24 0 0 0 = (- 1, False)" by code_simp+
  from setHMS_reads_back [OF _ _ _ _ a] show ?thesis using a b by (simp add: in_int32_def)
qed

lemma QTime_valid_ds: "QTime_isValid t \<Longrightarrow> QTime_ds t = t \<and> 0 \<le> t \<and> t < 86400000"
  by (simp add: QTime_isValid_def QTime_ds_def time_units)

lemma addMSecs_eq:
  assumes "QTime_isValid t" "in_int32 (t + ms)"
  shows "QTime_addMSecs t ms = (t + ms) mod 86400000"
proof -
  have "0 \<le> (t + ms) mod 86400000" "(t + ms) mod 86400000 < 86400000" by simp_all
  then show ?thesis
    using assms QTime_valid_ds [OF assms(1)]
    by (simp add: QTime_addMSecs_def to_int32_id in_int32_def cal_simps time_units)
qed

text \<open>C27: \<open>addSecs\<close> moves a valid time by any number of seconds, wrapping at midnight: the result
  is a valid time, the milliseconds of the second are unchanged, and \<open>msecsTo\<close> from the old time to
  the new one is the requested distance up to whole days.\<close>

theorem addSecs_wraps:
  assumes "QTime_isValid t"
  shows "QTime_isValid (QTime_addSecs t s)
    \<and> QTime_addSecs t s = (t + 1000 * s) mod 86400000
    \<and> (QTime_msecsTo t (QTime_addSecs t s) - 1000 * s) mod 86400000 = 0
    \<and> QTime_msec (QTime_addSecs t s) = QTime_msec t"
proof -
  note t = QTime_valid_ds [OF assms]
  define r where "r = s smod 86400"
  have q: "s = 86400 * (s sdiv 86400) + r" by (simp add: r_def mult_sdiv_smod_eq)
  have r: "- 86400 < r" "r < 86400"
    using abs_mod_less [of 86400 "\<bar>s\<bar>"] by (auto simp: r_def signed_modulo_int_def sgn_if)
  have "in_int32 (t + r * 1000)" using t r by (simp add: in_int32_def)
  then have a: "QTime_addSecs t s = (t + r * 1000) mod 86400000"
    using addMSecs_eq [OF assms] by (simp add: QTime_addSecs_def time_units r_def)
  have "t + 1000 * s = t + r * 1000 + 86400000 * (s sdiv 86400)" using q by simp
  then have e: "QTime_addSecs t s = (t + 1000 * s) mod 86400000"
    by (simp only: a mod_mult_self2)
  have v: "QTime_isValid (QTime_addSecs t s)" by (simp add: e QTime_isValid_def time_units)
  note t' = QTime_valid_ds [OF v]
  have "(QTime_msecsTo t (QTime_addSecs t s) - 1000 * s) mod 86400000
      = ((t + 1000 * s) mod 86400000 - (t + 1000 * s)) mod 86400000"
    using assms v t t' by (simp add: QTime_msecsTo_def e algebra_simps)
  also have "\<dots> = 0" by (simp add: mod_diff_left_eq)
  finally have d: "(QTime_msecsTo t (QTime_addSecs t s) - 1000 * s) mod 86400000 = 0" .
  have "(t + 1000 * s) mod 86400000 mod 1000 = (t + 1000 * s) mod 1000" by (rule mod_mod_cancel) simp
  then have "QTime_msec (QTime_addSecs t s) = QTime_msec t"
    using assms v t t' by (simp add: QTime_msec_def time_units smod_nonneg e)
  with v e d show ?thesis by blast
qed

theorem addSecs_wraps_witness:
  "QTime_addSecs 86399999 2 = 1999"
proof -
  have "QTime_isValid 86399999" by code_simp
  from addSecs_wraps [OF this, of 2] show ?thesis by simp
qed

text \<open>C39: \<open>addMSecs\<close> wraps at midnight as long as the sum of its two \<open>int\<close>s is an \<open>int\<close>. The range of
  its argument is not limited to that: two seconds before midnight, adding the largest \<open>int\<close>
  overflows and gives another time than the distance modulo a day.\<close>

theorem addMSecs_wraps_or_overflows:
  "(QTime_isValid t \<and> in_int32 (t + ms) \<longrightarrow> QTime_addMSecs t ms = (t + ms) mod 86400000)
   \<and> QTime_isValid 86398000 \<and> in_int32 (2 ^ 31 - 1)
   \<and> QTime_addMSecs 86398000 (2 ^ 31 - 1) \<noteq> (86398000 + (2 ^ 31 - 1)) mod 86400000"
proof -
  have "QTime_isValid 86398000" "in_int32 (2 ^ 31 - 1)"
    "QTime_addMSecs 86398000 (2 ^ 31 - 1) \<noteq> (86398000 + (2 ^ 31 - 1)) mod 86400000"
    by code_simp+
  then show ?thesis using addMSecs_eq by blast
qed

theorem addMSecs_wraps_witness: "QTime_addMSecs 0 (- 1) = 86399999"
  using addMSecs_wraps_or_overflows [of 0 "- 1"] by (simp add: QTime_isValid_def in_int32_def time_units)

section \<open>Milliseconds since 1970\<close>

lemma daysAndMillisOverflow_eq:
  assumes "0 \<le> days \<and> 0 \<le> ms \<or> days \<le> 0 \<and> ms \<le> 0"
  shows "daysAndMillisOverflow days ms =
    (if in_int64 (days * 86400000 + ms) then Some (days * 86400000 + ms) else None)"
proof -
  have "in_int64 (days * 86400000)" if "in_int64 (days * 86400000 + ms)"
    using that assms by (auto simp: in_int64_def)
  then show ?thesis
    by (auto simp: daysAndMillisOverflow_def qMulOverflow_def qAddOverflow_def time_units)
qed

text \<open>C40: \<open>timeToMSecs\<close> is the exact number of milliseconds since 1970 clamped to 64 bits, for every
  valid date and time: no intermediate overflow loses a representable result, on either side of the
  epoch.\<close>

theorem timeToMSecs_clamps:
  assumes "QDate_isValid date" "QTime_isValid time"
  defines "exact \<equiv> (date - 2440588) * 86400000 + time"
  shows "timeToMSecs date time = max (- (2 ^ 63)) (min (2 ^ 63 - 1) exact)"
proof -
  note t = QTime_valid_ds [OF assms(2)]
  define days where "days = date - 2440588"
  have e: "exact = days * 86400000 + time" by (simp add: exact_def days_def)
  show ?thesis
  proof (cases "days < 0 \<and> time > 0")
    case True
    have d: "daysAndMillisOverflow (days + 1) (time - 86400000) = (if in_int64 exact then Some exact else None)"
      using True t by (subst daysAndMillisOverflow_eq) (auto simp: e algebra_simps)
    have "exact < 0" using True t by (simp add: e)
    moreover have "\<not> in_int64 exact \<Longrightarrow> days + 1 < 0"
      using True t by (simp add: in_int64_def e)
    ultimately show ?thesis
      using True t d by (simp add: timeToMSecs_def days_def [symmetric] time_units in_int64_def)
  next
    case False
    then have s: "0 \<le> days \<and> 0 \<le> time \<or> days \<le> 0 \<and> time \<le> 0" using t by auto
    have d: "daysAndMillisOverflow days time = (if in_int64 exact then Some exact else None)"
      using daysAndMillisOverflow_eq [OF s] by (simp add: e)
    have "days < 0 \<Longrightarrow> exact < 0" "0 \<le> days \<Longrightarrow> 0 \<le> exact" using False t by (simp_all add: e)
    then show ?thesis
      using False t d by (auto simp: timeToMSecs_def days_def [symmetric] time_units in_int64_def)
  qed
qed

theorem timeToMSecs_clamps_witness:
  "timeToMSecs maxJd 0 = 2 ^ 63 - 1 \<and> timeToMSecs 2440587 86399999 = - 1"
proof -
  have v: "QDate_isValid maxJd" "QDate_isValid 2440587" "QTime_isValid 0" "QTime_isValid 86399999" by code_simp+
  from timeToMSecs_clamps [OF v(1,3)] timeToMSecs_clamps [OF v(2,4)] show ?thesis
    by (simp add: maxJd_def)
qed

text \<open>splitting milliseconds since 1970 into a date and a time and combining them again gives
  the same milliseconds, for every 64-bit value, and the time is valid.\<close>

theorem msecs_round_trip:
  assumes "in_int64 msecs"
  shows "QDate_isValid (msecsToDate msecs) \<and> QTime_isValid (msecsToTime msecs)
    \<and> timeToMSecs (msecsToDate msecs) (msecsToTime msecs) = msecs"
proof -
  define q r where "q = msecs div 86400000" and "r = msecs mod 86400000"
  have m: "msecs = q * 86400000 + r" and r: "0 \<le> r" "r < 86400000" by (simp_all add: q_def r_def)
  have q: "- 106751991168 \<le> q" "q \<le> 106751991168" using m r assms by (simp_all add: in_int64_def)
  have t: "msecsToTime msecs = r" using r by (simp add: msecsToTime_def time_units cal_simps to_int32_id r_def)
  have d: "msecsToDate msecs = q + 2440588"
    using q by (simp add: msecsToDate_def msecsToJulianDay_def QDate_fromJulianDay_def time_units
        cal_simps q_def minJd_def maxJd_def)
  have v: "QDate_isValid (q + 2440588)" "QTime_isValid r"
    using q r by (simp_all add: QDate_isValid_def QTime_isValid_def minJd_def maxJd_def time_units)
  have e: "timeToMSecs (q + 2440588) r = msecs"
  proof (cases "q < 0 \<and> r > 0")
    case True
    have "daysAndMillisOverflow (q + 1) (r - 86400000) = Some msecs"
      using True r assms by (subst daysAndMillisOverflow_eq) (auto simp: m algebra_simps)
    then show ?thesis using True by (simp add: timeToMSecs_def QTime_ds_def time_units)
  next
    case False
    have "daysAndMillisOverflow q r = Some msecs"
      using False r assms by (subst daysAndMillisOverflow_eq) (auto simp: m)
    moreover have "QTime_ds r = r" using r by (simp add: QTime_ds_def)
    ultimately show ?thesis using False by (auto simp: timeToMSecs_def time_units)
  qed
  show ?thesis using v e by (simp add: t d)
qed

theorem msecs_round_trip_witness:
  "msecsToDate (- 1) = 2440587 \<and> timeToMSecs 2440587 86399999 = - 1"
proof -
  have "msecsToDate (- 1) = 2440587" "msecsToTime (- 1) = 86399999" by code_simp+
  with msecs_round_trip [of "- 1"] show ?thesis by (simp add: in_int64_def)
qed

text \<open>C25: \<open>inDateTimeRange\<close> tells exactly whether the first, or the last, millisecond of a day is a
  64-bit number of milliseconds since 1970.\<close>

theorem inDateTimeRange_exact:
  assumes "in_int64 jd"
  shows "inDateTimeRange jd Start = in_int64 ((jd - 2440588) * 86400000)
    \<and> inDateTimeRange jd End = in_int64 ((jd - 2440588) * 86400000 + 86399999)"
proof -
  have b: "(2 ^ 63 - 1) sdiv 86400000 = (106751991167::int)" "(- (2 ^ 63)) sdiv 86400000 = (- 106751991167::int)"
    by (simp_all add: signed_divide_int_def)
  define d where "d = jd - 2440588"
  have "in_int64 (d * 86400000) \<longleftrightarrow> - 106751991167 \<le> d \<and> d \<le> 106751991167"
    "in_int64 (d * 86400000 + 86399999) \<longleftrightarrow> - 106751991168 \<le> d \<and> d < 106751991167"
    by (auto simp: in_int64_def)
  then show ?thesis
    unfolding d_def using assms b
    by (auto simp: inDateTimeRange_def time_units Let_def)
qed

theorem inDateTimeRange_exact_witness:
  "inDateTimeRange (2440588 + 106751991167) Start \<and> \<not> inDateTimeRange (2440588 + 106751991167) End"
  using inDateTimeRange_exact [of "2440588 + 106751991167"] by (simp add: in_int64_def)

section \<open>Years the system's time functions know\<close>

lemma system_tables:
  "list_all (\<lambda>i. list_all (\<lambda>t. serial_start (t ! i) = (if i = 0 then 7 else int i) \<and> Gregorian_leapTest (t ! i)
     \<and> 1902 \<le> t ! i \<and> t ! i \<le> 2037) [forLeapEarly, forLeapLate]) [0..<7]"
  "list_all (\<lambda>i. list_all (\<lambda>t. serial_start (t ! i) = (if i = 0 then 7 else int i) \<and> \<not> Gregorian_leapTest (t ! i)
     \<and> 1902 \<le> t ! i \<and> t ! i \<le> 2037) [regularEarly, regularLate]) [0..<7]"
  by code_simp+

text \<open>C28: \<open>systemTimeYearMatching\<close> returns a year within 32-bit \<open>time_t\<close> that starts on the same
  day of the week as the given year and is leap exactly when it is.\<close>

theorem systemTimeYearMatching_matches:
  assumes "year \<noteq> 0" "- 1700000000 \<le> year" "year \<le> 1700000000"
  defines "r \<equiv> systemTimeYearMatching year"
  shows "1902 \<le> r \<and> r \<le> 2037 \<and> Gregorian_leapTest r = Gregorian_leapTest year
    \<and> Gregorian_yearStartWeekDay r = Gregorian_yearStartWeekDay year"
proof -
  define w where "w = Gregorian_yearStartWeekDay year"
  have w: "1 \<le> w" "w \<le> 7"
    using yearStartWeekDay_serial [OF assms(1-3)] serial_start_range [of "serial_year year"] by (simp_all add: w_def)
  define i where "i = (if w = 7 then 0 else nat w)"
  have i: "i \<in> set [0..<7]" "(if i = 0 then 7 else int i) = w" using w by (auto simp: i_def)
  obtain t where t: "r = t ! i"
    "t \<in> set (if Gregorian_leapTest year then [forLeapEarly, forLeapLate] else [regularEarly, regularLate])"
    unfolding r_def systemTimeYearMatching_def Let_def i_def w_def by (auto split: if_splits)
  have "serial_start r = w \<and> Gregorian_leapTest r = Gregorian_leapTest year \<and> 1902 \<le> r \<and> r \<le> 2037"
    using t i system_tables [unfolded list_all_iff] by (cases "Gregorian_leapTest year") (metis)+
  moreover from this have "Gregorian_yearStartWeekDay r = serial_start r"
    using yearStartWeekDay_serial [of r] by (simp add: serial_year_def)
  ultimately show ?thesis by (simp add: w_def)
qed

theorem systemTimeYearMatching_matches_witness:
  "1902 \<le> systemTimeYearMatching 3000 \<and> systemTimeYearMatching 3000 \<le> 2037"
  using systemTimeYearMatching_matches [of 3000] by simp

end
