(* ===== verification/HpackBits.thy ===== *)
theory HpackBits
  imports Prelude "HOL-Library.Monad_Syntax" "HOL-Library.Code_Target_Nat"
begin

text \<open>
  The bit streams of \<open>src/network/access/http2/bitstreams.cpp\<close> and \<open>bitstreams_p.h\<close>: the
  output stream packs bits into bytes from the most significant bit, the input stream reads
  HPACK integers from any bit offset. A \<open>uchar\<close> is an \<open>8 word\<close>; bit offsets are \<open>nat\<close>.
\<close>

type_synonym bytes = "8 word list"

section \<open>BitOStream\<close>

record BitOStream =
  buffer :: bytes
  bitsSet :: nat

definition BitOStream_new :: "bytes \<Rightarrow> BitOStream" where
  "BitOStream_new b = \<lparr>buffer = b, bitsSet = 8 * length b\<rparr>"

definition BitOStream_writeBits :: "8 word \<Rightarrow> nat \<Rightarrow> BitOStream \<Rightarrow> BitOStream" where
  "BitOStream_writeBits bits bitLength s =
     (let count = bitsSet s mod 8;
          bits = push_bit (8 - bitLength) bits;
          (buf, count) =
            (if count \<noteq> 0
             then (butlast (buffer s) @ [last (buffer s) OR drop_bit count bits], 8 - count)
             else (buffer s, count));
          buf = (if bitLength > count then buf @ [push_bit count bits] else buf)
      in \<lparr>buffer = buf, bitsSet = bitsSet s + bitLength\<rparr>)"

text \<open>The loop that appends the seven-bit groups of what the prefix does not hold.\<close>

fun BitOStream_pushInt :: "nat \<Rightarrow> BitOStream \<Rightarrow> BitOStream" where
  "BitOStream_pushInt src s =
     (if src \<ge> 128
      then BitOStream_pushInt (src div 128)
             \<lparr>buffer = buffer s @ [word_of_nat (src mod 128 + 128)], bitsSet = bitsSet s + 8\<rparr>
      else \<lparr>buffer = buffer s @ [word_of_nat src], bitsSet = bitsSet s + 8\<rparr>)"

declare BitOStream_pushInt.simps [simp del]

definition BitOStream_writeInt :: "nat \<Rightarrow> BitOStream \<Rightarrow> BitOStream" where
  "BitOStream_writeInt src s =
     (let prefixLen = 8 - bitsSet s mod 8; fullPrefix = 2 ^ prefixLen - 1
      in if src < fullPrefix then BitOStream_writeBits (word_of_nat src) prefixLen s
         else BitOStream_pushInt (src - fullPrefix)
                (BitOStream_writeBits (word_of_nat fullPrefix) prefixLen s))"

definition BitOStream_clear :: "BitOStream \<Rightarrow> BitOStream" where
  "BitOStream_clear s = \<lparr>buffer = [], bitsSet = 0\<rparr>"

section \<open>BitIStream\<close>

datatype StreamError = NoError | NotEnoughData | CompressionError | InvalidInteger

text \<open>The bytes from \<open>first\<close> to \<open>last\<close>, the bit offset and the last error.\<close>

record BitIStream =
  octets :: bytes
  offset :: nat
  streamError :: StreamError

definition BitIStream_new :: "bytes \<Rightarrow> BitIStream" where
  "BitIStream_new b = \<lparr>octets = b, offset = 0, streamError = NoError\<rparr>"

definition BitIStream_bitLength :: "BitIStream \<Rightarrow> nat" where
  "BitIStream_bitLength s = length (octets s) * 8"

definition BitIStream_hasMoreBits :: "BitIStream \<Rightarrow> bool" where
  "BitIStream_hasMoreBits s \<longleftrightarrow> offset s < BitIStream_bitLength s"

definition BitIStream_setError :: "StreamError \<Rightarrow> BitIStream \<Rightarrow> BitIStream" where
  "BitIStream_setError e s = s\<lparr>streamError := e\<rparr>"

text \<open>The unsigned type \<open>T\<close> of \<open>peekBits\<close> is the word type; the bytes are those from \<open>srcByte\<close>.\<close>

fun peekBits_loop :: "bytes \<Rightarrow> nat \<Rightarrow> 'a::len word \<Rightarrow> bytes \<times> nat \<times> 'a word" where
  "peekBits_loop srcByte bitsToRead dst =
     (if bitsToRead > 8
      then peekBits_loop (tl srcByte) (bitsToRead - 8) (push_bit 8 dst OR ucast (hd srcByte))
      else (srcByte, bitsToRead, dst))"

declare peekBits_loop.simps [simp del]

definition BitIStream_peekBits :: "nat \<Rightarrow> nat \<Rightarrow> 'a::len word \<Rightarrow> BitIStream \<Rightarrow> nat \<times> 'a word" where
  "BitIStream_peekBits from len dst s =
     (if from \<ge> BitIStream_bitLength s \<or> len = 0 then (0, dst)
      else let len = min len (BitIStream_bitLength s - from);
               (srcByte, bitsToRead, dst) = peekBits_loop (drop (from div 8) (octets s)) (len + from mod 8) 0;
               dst = push_bit bitsToRead dst;
               dst = dst OR ucast (drop_bit (8 - bitsToRead) (hd srcByte));
               dst = push_bit (LENGTH('a) - len) dst
           in (len, dst))"

definition BitIStream_skipBits :: "nat \<Rightarrow> BitIStream \<Rightarrow> bool \<times> BitIStream" where
  "BitIStream_skipBits nBits s =
     (if nBits > BitIStream_bitLength s \<or> BitIStream_bitLength s - nBits < offset s then (False, s)
      else (True, s\<lparr>offset := offset s + nBits\<rparr>))"

definition BitIStream_rewindOffset :: "nat \<Rightarrow> BitIStream \<Rightarrow> bool \<times> BitIStream" where
  "BitIStream_rewindOffset nBits s =
     (if nBits > offset s then (False, s) else (True, s\<lparr>offset := offset s - nBits\<rparr>))"

text \<open>
  The loop of \<open>read(quint32 *)\<close>; \<open>newOffset\<close> is 32 bits wide and \<open>rounds\<close> counts down with
  \<open>octetPower = 28 - 7 * rounds\<close>. At 28 an octet with the continuation bit is above 15, an
  error, so there is no round after it.
\<close>

fun readInt_loop :: "bytes \<Rightarrow> nat \<Rightarrow> nat \<Rightarrow> nat \<Rightarrow> StreamError + nat \<times> nat" where
  "readInt_loop bs newOffset val rounds =
     (let octetPower = 28 - 7 * rounds
      in if newOffset \<ge> length bs * 8 then Inl NotEnoughData
         else let octet = bs ! (newOffset div 8)
              in if octetPower = 28 \<and> octet > 15 then Inl InvalidInteger
                 else let val = val + unat (octet AND 0x7f) * 2 ^ octetPower;
                          newOffset = (newOffset + 8) mod 2 ^ 32
                      in if octet AND 0x80 = 0 then Inr (val, newOffset)
                         else case rounds of
                                0 \<Rightarrow> Inl InvalidInteger
                              | Suc r \<Rightarrow> readInt_loop bs newOffset val r)"

declare readInt_loop.simps [simp del]

definition BitIStream_readInt :: "BitIStream \<Rightarrow> nat option \<times> BitIStream" where
  "BitIStream_readInt s =
     (if offset s \<ge> BitIStream_bitLength s then (None, BitIStream_setError NotEnoughData s)
      else let s = BitIStream_setError NoError s;
               prefixLen = 8 - offset s mod 8;
               fullPrefix = 2 ^ prefixLen - 1;
               prefix = unat (octets s ! (offset s div 8) AND word_of_nat fullPrefix)
           in if prefix < fullPrefix then (Some prefix, s\<lparr>offset := offset s + prefixLen\<rparr>)
              else case readInt_loop (octets s) ((offset s + prefixLen) mod 2 ^ 32) prefix 4 of
                     Inl e \<Rightarrow> (None, BitIStream_setError e s)
                   | Inr (val, newOffset) \<Rightarrow> (Some (val mod 2 ^ 32), s\<lparr>offset := newOffset\<rparr>))"

end
