(* ===== verification/HpackHuffman.thy ===== *)
theory HpackHuffman
  imports HpackBits
begin

text \<open>
  \<open>src/network/access/http2/huffman.cpp\<close>: the static code, the encoder and the table-driven
  decoder. An operation is in \<open>option\<close> where the code can index out of a table (undefined
  behaviour) or loop for ever: \<open>None\<close> is that outcome.
\<close>

section \<open>The static code\<close>

datatype CodeEntry = CodeEntry (ce_byteValue: nat) (ce_huffmanCode: "32 word") (ce_bitLength: nat)

definition staticHuffmanCodes_low :: "CodeEntry list" where
  "staticHuffmanCodes_low =
   [CodeEntry 0 0xffc00000 13, CodeEntry 1 0xffffb000 23, CodeEntry 2 0xfffffe20 28,
    CodeEntry 3 0xfffffe30 28, CodeEntry 4 0xfffffe40 28, CodeEntry 5 0xfffffe50 28,
    CodeEntry 6 0xfffffe60 28, CodeEntry 7 0xfffffe70 28, CodeEntry 8 0xfffffe80 28,
    CodeEntry 9 0xffffea00 24, CodeEntry 10 0xfffffff0 30, CodeEntry 11 0xfffffe90 28,
    CodeEntry 12 0xfffffea0 28, CodeEntry 13 0xfffffff4 30, CodeEntry 14 0xfffffeb0 28,
    CodeEntry 15 0xfffffec0 28, CodeEntry 16 0xfffffed0 28, CodeEntry 17 0xfffffee0 28,
    CodeEntry 18 0xfffffef0 28, CodeEntry 19 0xffffff00 28, CodeEntry 20 0xffffff10 28,
    CodeEntry 21 0xffffff20 28, CodeEntry 22 0xfffffff8 30, CodeEntry 23 0xffffff30 28,
    CodeEntry 24 0xffffff40 28, CodeEntry 25 0xffffff50 28, CodeEntry 26 0xffffff60 28,
    CodeEntry 27 0xffffff70 28, CodeEntry 28 0xffffff80 28, CodeEntry 29 0xffffff90 28,
    CodeEntry 30 0xffffffa0 28, CodeEntry 31 0xffffffb0 28, CodeEntry 32 0x50000000 6,
    CodeEntry 33 0xfe000000 10, CodeEntry 34 0xfe400000 10, CodeEntry 35 0xffa00000 12,
    CodeEntry 36 0xffc80000 13, CodeEntry 37 0x54000000 6, CodeEntry 38 0xf8000000 8,
    CodeEntry 39 0xff400000 11, CodeEntry 40 0xfe800000 10, CodeEntry 41 0xfec00000 10,
    CodeEntry 42 0xf9000000 8, CodeEntry 43 0xff600000 11, CodeEntry 44 0xfa000000 8,
    CodeEntry 45 0x58000000 6, CodeEntry 46 0x5c000000 6, CodeEntry 47 0x60000000 6,
    CodeEntry 48 0x00000000 5, CodeEntry 49 0x08000000 5, CodeEntry 50 0x10000000 5,
    CodeEntry 51 0x64000000 6, CodeEntry 52 0x68000000 6, CodeEntry 53 0x6c000000 6,
    CodeEntry 54 0x70000000 6, CodeEntry 55 0x74000000 6, CodeEntry 56 0x78000000 6,
    CodeEntry 57 0x7c000000 6, CodeEntry 58 0xb8000000 7, CodeEntry 59 0xfb000000 8,
    CodeEntry 60 0xfff80000 15, CodeEntry 61 0x80000000 6, CodeEntry 62 0xffb00000 12,
    CodeEntry 63 0xff000000 10, CodeEntry 64 0xffd00000 13, CodeEntry 65 0x84000000 6,
    CodeEntry 66 0xba000000 7, CodeEntry 67 0xbc000000 7, CodeEntry 68 0xbe000000 7,
    CodeEntry 69 0xc0000000 7, CodeEntry 70 0xc2000000 7, CodeEntry 71 0xc4000000 7,
    CodeEntry 72 0xc6000000 7, CodeEntry 73 0xc8000000 7, CodeEntry 74 0xca000000 7,
    CodeEntry 75 0xcc000000 7, CodeEntry 76 0xce000000 7, CodeEntry 77 0xd0000000 7,
    CodeEntry 78 0xd2000000 7, CodeEntry 79 0xd4000000 7, CodeEntry 80 0xd6000000 7,
    CodeEntry 81 0xd8000000 7, CodeEntry 82 0xda000000 7, CodeEntry 83 0xdc000000 7,
    CodeEntry 84 0xde000000 7, CodeEntry 85 0xe0000000 7, CodeEntry 86 0xe2000000 7,
    CodeEntry 87 0xe4000000 7, CodeEntry 88 0xfc000000 8, CodeEntry 89 0xe6000000 7,
    CodeEntry 90 0xfd000000 8, CodeEntry 91 0xffd80000 13, CodeEntry 92 0xfffe0000 19,
    CodeEntry 93 0xffe00000 13, CodeEntry 94 0xfff00000 14, CodeEntry 95 0x88000000 6,
    CodeEntry 96 0xfffa0000 15, CodeEntry 97 0x18000000 5, CodeEntry 98 0x8c000000 6,
    CodeEntry 99 0x20000000 5, CodeEntry 100 0x90000000 6, CodeEntry 101 0x28000000 5,
    CodeEntry 102 0x94000000 6, CodeEntry 103 0x98000000 6, CodeEntry 104 0x9c000000 6,
    CodeEntry 105 0x30000000 5, CodeEntry 106 0xe8000000 7, CodeEntry 107 0xea000000 7,
    CodeEntry 108 0xa0000000 6, CodeEntry 109 0xa4000000 6, CodeEntry 110 0xa8000000 6,
    CodeEntry 111 0x38000000 5, CodeEntry 112 0xac000000 6, CodeEntry 113 0xec000000 7,
    CodeEntry 114 0xb0000000 6, CodeEntry 115 0x40000000 5, CodeEntry 116 0x48000000 5,
    CodeEntry 117 0xb4000000 6, CodeEntry 118 0xee000000 7, CodeEntry 119 0xf0000000 7,
    CodeEntry 120 0xf2000000 7, CodeEntry 121 0xf4000000 7, CodeEntry 122 0xf6000000 7,
    CodeEntry 123 0xfffc0000 15, CodeEntry 124 0xff800000 11, CodeEntry 125 0xfff40000 14,
    CodeEntry 126 0xffe80000 13, CodeEntry 127 0xffffffc0 28]"

definition staticHuffmanCodes_high :: "CodeEntry list" where
  "staticHuffmanCodes_high =
   [CodeEntry 128 0xfffe6000 20, CodeEntry 129 0xffff4800 22, CodeEntry 130 0xfffe7000 20,
    CodeEntry 131 0xfffe8000 20, CodeEntry 132 0xffff4c00 22, CodeEntry 133 0xffff5000 22,
    CodeEntry 134 0xffff5400 22, CodeEntry 135 0xffffb200 23, CodeEntry 136 0xffff5800 22,
    CodeEntry 137 0xffffb400 23, CodeEntry 138 0xffffb600 23, CodeEntry 139 0xffffb800 23,
    CodeEntry 140 0xffffba00 23, CodeEntry 141 0xffffbc00 23, CodeEntry 142 0xffffeb00 24,
    CodeEntry 143 0xffffbe00 23, CodeEntry 144 0xffffec00 24, CodeEntry 145 0xffffed00 24,
    CodeEntry 146 0xffff5c00 22, CodeEntry 147 0xffffc000 23, CodeEntry 148 0xffffee00 24,
    CodeEntry 149 0xffffc200 23, CodeEntry 150 0xffffc400 23, CodeEntry 151 0xffffc600 23,
    CodeEntry 152 0xffffc800 23, CodeEntry 153 0xfffee000 21, CodeEntry 154 0xffff6000 22,
    CodeEntry 155 0xffffca00 23, CodeEntry 156 0xffff6400 22, CodeEntry 157 0xffffcc00 23,
    CodeEntry 158 0xffffce00 23, CodeEntry 159 0xffffef00 24, CodeEntry 160 0xffff6800 22,
    CodeEntry 161 0xfffee800 21, CodeEntry 162 0xfffe9000 20, CodeEntry 163 0xffff6c00 22,
    CodeEntry 164 0xffff7000 22, CodeEntry 165 0xffffd000 23, CodeEntry 166 0xffffd200 23,
    CodeEntry 167 0xfffef000 21, CodeEntry 168 0xffffd400 23, CodeEntry 169 0xffff7400 22,
    CodeEntry 170 0xffff7800 22, CodeEntry 171 0xfffff000 24, CodeEntry 172 0xfffef800 21,
    CodeEntry 173 0xffff7c00 22, CodeEntry 174 0xffffd600 23, CodeEntry 175 0xffffd800 23,
    CodeEntry 176 0xffff0000 21, CodeEntry 177 0xffff0800 21, CodeEntry 178 0xffff8000 22,
    CodeEntry 179 0xffff1000 21, CodeEntry 180 0xffffda00 23, CodeEntry 181 0xffff8400 22,
    CodeEntry 182 0xffffdc00 23, CodeEntry 183 0xffffde00 23, CodeEntry 184 0xfffea000 20,
    CodeEntry 185 0xffff8800 22, CodeEntry 186 0xffff8c00 22, CodeEntry 187 0xffff9000 22,
    CodeEntry 188 0xffffe000 23, CodeEntry 189 0xffff9400 22, CodeEntry 190 0xffff9800 22,
    CodeEntry 191 0xffffe200 23, CodeEntry 192 0xfffff800 26, CodeEntry 193 0xfffff840 26,
    CodeEntry 194 0xfffeb000 20, CodeEntry 195 0xfffe2000 19, CodeEntry 196 0xffff9c00 22,
    CodeEntry 197 0xffffe400 23, CodeEntry 198 0xffffa000 22, CodeEntry 199 0xfffff600 25,
    CodeEntry 200 0xfffff880 26, CodeEntry 201 0xfffff8c0 26, CodeEntry 202 0xfffff900 26,
    CodeEntry 203 0xfffffbc0 27, CodeEntry 204 0xfffffbe0 27, CodeEntry 205 0xfffff940 26,
    CodeEntry 206 0xfffff100 24, CodeEntry 207 0xfffff680 25, CodeEntry 208 0xfffe4000 19,
    CodeEntry 209 0xffff1800 21, CodeEntry 210 0xfffff980 26, CodeEntry 211 0xfffffc00 27,
    CodeEntry 212 0xfffffc20 27, CodeEntry 213 0xfffff9c0 26, CodeEntry 214 0xfffffc40 27,
    CodeEntry 215 0xfffff200 24, CodeEntry 216 0xffff2000 21, CodeEntry 217 0xffff2800 21,
    CodeEntry 218 0xfffffa00 26, CodeEntry 219 0xfffffa40 26, CodeEntry 220 0xffffffd0 28,
    CodeEntry 221 0xfffffc60 27, CodeEntry 222 0xfffffc80 27, CodeEntry 223 0xfffffca0 27,
    CodeEntry 224 0xfffec000 20, CodeEntry 225 0xfffff300 24, CodeEntry 226 0xfffed000 20,
    CodeEntry 227 0xffff3000 21, CodeEntry 228 0xffffa400 22, CodeEntry 229 0xffff3800 21,
    CodeEntry 230 0xffff4000 21, CodeEntry 231 0xffffe600 23, CodeEntry 232 0xffffa800 22,
    CodeEntry 233 0xffffac00 22, CodeEntry 234 0xfffff700 25, CodeEntry 235 0xfffff780 25,
    CodeEntry 236 0xfffff400 24, CodeEntry 237 0xfffff500 24, CodeEntry 238 0xfffffa80 26,
    CodeEntry 239 0xffffe800 23, CodeEntry 240 0xfffffac0 26, CodeEntry 241 0xfffffcc0 27,
    CodeEntry 242 0xfffffb00 26, CodeEntry 243 0xfffffb40 26, CodeEntry 244 0xfffffce0 27,
    CodeEntry 245 0xfffffd00 27, CodeEntry 246 0xfffffd20 27, CodeEntry 247 0xfffffd40 27,
    CodeEntry 248 0xfffffd60 27, CodeEntry 249 0xffffffe0 28, CodeEntry 250 0xfffffd80 27,
    CodeEntry 251 0xfffffda0 27, CodeEntry 252 0xfffffdc0 27, CodeEntry 253 0xfffffde0 27,
    CodeEntry 254 0xfffffe00 27, CodeEntry 255 0xfffffb80 26, CodeEntry 256 0xfffffffc 30]"

definition staticHuffmanCodeTable :: "CodeEntry list" where
  "staticHuffmanCodeTable = staticHuffmanCodes_low @ staticHuffmanCodes_high"

section \<open>Encoding\<close>

text \<open>The octets of a code, most significant first, each narrowed to a \<open>uchar\<close>.\<close>

definition write_huffman_code :: "CodeEntry \<Rightarrow> BitOStream \<Rightarrow> BitOStream" where
  "write_huffman_code code s =
     (let bitLength = ce_bitLength code;
          hc = drop_bit (32 - bitLength) (ce_huffmanCode code);
          (s, bitLength) = (if bitLength > 24
            then (BitOStream_writeBits (ucast (drop_bit 24 hc)) (bitLength - 24) s, 24) else (s, bitLength));
          (s, bitLength) = (if bitLength > 16
            then (BitOStream_writeBits (ucast (drop_bit 16 hc)) (bitLength - 16) s, 16) else (s, bitLength));
          (s, bitLength) = (if bitLength > 8
            then (BitOStream_writeBits (ucast (drop_bit 8 hc)) (bitLength - 8) s, 8) else (s, bitLength))
      in BitOStream_writeBits (ucast hc) bitLength s)"

text \<open>
  \<open>int(inputData[i])\<close> sign-extends a \<open>char\<close> (signed, as on x86): a byte from 128 on indexes
  before the table.
\<close>

fun huffman_encoded_bit_length :: "bytes \<Rightarrow> nat option" where
  "huffman_encoded_bit_length [] = Some 0"
| "huffman_encoded_bit_length (c # cs) =
     (if sint c < 0 then None
      else map_option (\<lambda>n. ce_bitLength (staticHuffmanCodeTable ! nat (sint c)) + n)
             (huffman_encoded_bit_length cs))"

fun huffman_encode_chars :: "bytes \<Rightarrow> BitOStream \<Rightarrow> BitOStream" where
  "huffman_encode_chars [] s = s"
| "huffman_encode_chars (c # cs) s =
     huffman_encode_chars cs (write_huffman_code (staticHuffmanCodeTable ! unat c) s)"

definition huffman_encode_string :: "bytes \<Rightarrow> BitOStream \<Rightarrow> BitOStream" where
  "huffman_encode_string inputData s =
     (let s = huffman_encode_chars inputData s
      in if bitsSet s mod 8 \<noteq> 0 then BitOStream_writeBits 0xff (8 - bitsSet s mod 8) s else s)"

section \<open>The decoder's tables\<close>

record PrefixTable =
  prefixLength :: nat
  indexLength :: nat
  pt_offset :: nat

record PrefixTableEntry =
  pe_bitLength :: nat
  nextTable :: nat
  pe_byteValue :: nat

record HuffmanDecoder =
  prefixTables :: "PrefixTable list"
  tableData :: "PrefixTableEntry list"
  minCodeLength :: nat

definition PrefixTable_size :: "PrefixTable \<Rightarrow> nat" where
  "PrefixTable_size t = 2 ^ indexLength t"

definition PrefixTableEntry_empty :: PrefixTableEntry where
  "PrefixTableEntry_empty = \<lparr>pe_bitLength = 0, nextTable = 0, pe_byteValue = 0\<rparr>"

definition rootPrefix :: nat where "rootPrefix = 9"
definition childPrefix :: nat where "childPrefix = 6"

definition tableEntry :: "HuffmanDecoder \<Rightarrow> PrefixTable \<Rightarrow> nat \<Rightarrow> PrefixTableEntry" where
  "tableEntry d t index = tableData d ! (pt_offset t + index)"

definition setTableEntry :: "PrefixTable \<Rightarrow> nat \<Rightarrow> PrefixTableEntry \<Rightarrow> HuffmanDecoder \<Rightarrow> HuffmanDecoder" where
  "setTableEntry t index entry d = d\<lparr>tableData := (tableData d)[pt_offset t + index := entry]\<rparr>"

definition addTable :: "nat \<Rightarrow> nat \<Rightarrow> HuffmanDecoder \<Rightarrow> nat \<times> HuffmanDecoder" where
  "addTable prefix index d =
     (let newTable = \<lparr>prefixLength = prefix, indexLength = index, pt_offset = length (tableData d)\<rparr>
      in (length (prefixTables d),
          d\<lparr>prefixTables := prefixTables d @ [newTable],
            tableData := tableData d @ replicate (PrefixTable_size newTable) PrefixTableEntry_empty\<rparr>))"

text \<open>The bits of a code, or of the input, that index a table.\<close>

definition entryIndex :: "PrefixTable \<Rightarrow> 32 word \<Rightarrow> nat" where
  "entryIndex t code = unat (drop_bit (32 - indexLength t) (push_bit (prefixLength t) code))"

text \<open>The \<open>while\<close> loop that finds the slot of one symbol.\<close>

partial_function (option) addSymbol :: "CodeEntry \<Rightarrow> nat \<Rightarrow> HuffmanDecoder \<Rightarrow> HuffmanDecoder option" where
  "addSymbol s tableIndex d =
     (let table = prefixTables d ! tableIndex;
          i = entryIndex table (ce_huffmanCode s);
          entry = tableEntry d table i;
          codedLength = prefixLength table + indexLength table
      in if codedLength < ce_bitLength s
         then if pe_bitLength entry = 0
              then let (next, d) = addTable codedLength (min childPrefix (ce_bitLength s - codedLength)) d;
                       entry = \<lparr>pe_bitLength = ce_bitLength s, nextTable = next, pe_byteValue = ce_byteValue s\<rparr>
                   in addSymbol s next (setTableEntry table i entry d)
              else addSymbol s (nextTable entry) d
         else Some (setTableEntry table i
                \<lparr>pe_bitLength = ce_bitLength s, nextTable = tableIndex, pe_byteValue = ce_byteValue s\<rparr> d))"

declare addSymbol.simps [code]

fun addSymbols :: "CodeEntry list \<Rightarrow> HuffmanDecoder \<Rightarrow> HuffmanDecoder option" where
  "addSymbols [] d = Some d"
| "addSymbols (s # ss) d = Option.bind (addSymbol s 0 d) (addSymbols ss)"

text \<open>Filling the holes behind the terminal entries of a table.\<close>

fun fillRange :: "PrefixTable \<Rightarrow> nat \<Rightarrow> PrefixTableEntry \<Rightarrow> nat \<Rightarrow> HuffmanDecoder \<Rightarrow> HuffmanDecoder" where
  "fillRange t j entry 0 d = d"
| "fillRange t j entry (Suc k) d = setTableEntry t (j + Suc k) entry (fillRange t j entry k d)"

function fillTable :: "PrefixTable \<Rightarrow> nat \<Rightarrow> HuffmanDecoder \<Rightarrow> HuffmanDecoder" where
  "fillTable t j d =
     (if j < PrefixTable_size t
      then let codedLength = prefixLength t + indexLength t; entry = tableEntry d t j
           in if pe_bitLength entry \<noteq> 0 \<and> pe_bitLength entry < codedLength
              then let range = 2 ^ (codedLength - pe_bitLength entry)
                   in fillTable t (j + range) (fillRange t j entry (range - 1) d)
              else fillTable t (j + 1) d
      else d)"
  by auto
termination
  by (relation "measure (\<lambda>(t, j, d). PrefixTable_size t - j)") (auto simp: diff_less_mono2)

declare fillTable.simps [simp del]

fun fillTables :: "PrefixTable list \<Rightarrow> HuffmanDecoder \<Rightarrow> HuffmanDecoder" where
  "fillTables [] d = d"
| "fillTables (t # ts) d = fillTables ts (fillTable t 0 d)"

text \<open>The order of the constructor's sort: longer codes first, larger symbols first.\<close>

definition symbol_before :: "CodeEntry \<Rightarrow> CodeEntry \<Rightarrow> bool" where
  "symbol_before code1 code2 =
     (if ce_bitLength code1 = ce_bitLength code2 then ce_byteValue code1 > ce_byteValue code2
      else ce_bitLength code1 > ce_bitLength code2)"

fun insert_symbol :: "CodeEntry \<Rightarrow> CodeEntry list \<Rightarrow> CodeEntry list" where
  "insert_symbol c [] = [c]"
| "insert_symbol c (d # ds) = (if symbol_before d c then d # insert_symbol c ds else c # d # ds)"

definition sort_symbols :: "CodeEntry list \<Rightarrow> CodeEntry list" where
  "sort_symbols cs = foldr insert_symbol cs []"

definition HuffmanDecoder_empty :: HuffmanDecoder where
  "HuffmanDecoder_empty = \<lparr>prefixTables = [], tableData = [], minCodeLength = 0\<rparr>"

definition HuffmanDecoder_new :: "HuffmanDecoder option" where
  "HuffmanDecoder_new =
     (let symbols = sort_symbols staticHuffmanCodeTable;
          d = HuffmanDecoder_empty\<lparr>minCodeLength := ce_bitLength (last symbols)\<rparr>;
          d = snd (addTable 0 rootPrefix d)
      in Option.bind (addSymbols symbols d) (\<lambda>d. Some (fillTables (prefixTables d) d)))"

section \<open>Decoding\<close>

definition padding_is_valid :: "32 word \<Rightarrow> nat \<Rightarrow> bool" where
  "padding_is_valid chunk nBits =
     (if nBits > 7 then False else drop_bit (32 - nBits) chunk = 2 ^ nBits - 1)"

text \<open>The loop from table to table; it does not end when the tables refer to each other in a cycle.\<close>

partial_function (option) lookup_code ::
    "HuffmanDecoder \<Rightarrow> 32 word \<Rightarrow> nat \<Rightarrow> PrefixTableEntry \<Rightarrow> PrefixTableEntry option" where
  "lookup_code d chunk tableIndex entry =
     (if nextTable entry = tableIndex then Some entry
      else let table = prefixTables d ! nextTable entry
           in lookup_code d chunk (nextTable entry) (tableEntry d table (entryIndex table chunk)))"

declare lookup_code.simps [code]

partial_function (option) decodeStream ::
    "HuffmanDecoder \<Rightarrow> BitIStream \<Rightarrow> bytes \<Rightarrow> (bool \<times> BitIStream \<times> bytes) option" where
  "decodeStream d s outputBuffer =
     (let (readBits, chunk) = BitIStream_peekBits (offset s) 32 (0 :: 32 word) s
      in if readBits = 0 then Some (\<not> BitIStream_hasMoreBits s, s, outputBuffer)
         else if readBits < minCodeLength d
         then Some (padding_is_valid chunk readBits, snd (BitIStream_skipBits readBits s), outputBuffer)
         else let table = prefixTables d ! 0
              in Option.bind (lookup_code d chunk 0 (tableEntry d table (entryIndex table chunk)))
                   (\<lambda>entry.
                      if pe_bitLength entry > readBits
                      then Some (padding_is_valid chunk readBits, snd (BitIStream_skipBits readBits s), outputBuffer)
                      else if pe_bitLength entry = 0 \<or> pe_byteValue entry = 256
                      then Some (False, snd (BitIStream_skipBits readBits s), outputBuffer)
                      else decodeStream d (snd (BitIStream_skipBits (pe_bitLength entry) s))
                             (outputBuffer @ [word_of_nat (pe_byteValue entry)])))"

declare decodeStream.simps [code]

definition huffman_decode_string :: "BitIStream \<Rightarrow> bytes \<Rightarrow> (bool \<times> BitIStream \<times> bytes) option" where
  "huffman_decode_string s outputBuffer =
     Option.bind HuffmanDecoder_new (\<lambda>decoder. decodeStream decoder s outputBuffer)"

section \<open>String literals\<close>

definition BitOStream_writeString :: "bytes \<Rightarrow> bool \<Rightarrow> BitOStream \<Rightarrow> BitOStream option" where
  "BitOStream_writeString src compressed s =
     (let byteLen = length src mod 2 ^ 32
      in do {
           (byteLen, s) \<leftarrow>
             (if compressed \<and> byteLen \<noteq> 0
              then map_option (\<lambda>bitLen. ((bitLen + 7) div 8 mod 2 ^ 32, BitOStream_writeBits 1 1 s))
                     (huffman_encoded_bit_length src)
              else Some (byteLen, BitOStream_writeBits 0 1 s));
           let s = BitOStream_writeInt byteLen s;
           Some (if compressed then huffman_encode_string src s
                 else s\<lparr>bitsSet := bitsSet s + length src * 8, buffer := buffer s @ src\<rparr>)
         })"

definition BitIStream_readString :: "bytes \<Rightarrow> BitIStream \<Rightarrow> (bool \<times> bytes \<times> BitIStream) option" where
  "BitIStream_readString dst s =
     (let oldOffset = offset s;
          (n, compressed) = BitIStream_peekBits (offset s) 1 (0 :: 8 word) s;
          (skipped, s') = BitIStream_skipBits 1 s
      in if n \<noteq> 1 \<or> \<not> skipped then Some (False, dst, BitIStream_setError NotEnoughData s)
         else let s = BitIStream_setError NoError s'
              in case BitIStream_readInt s of
                   (None, s) \<Rightarrow> Some (False, dst, s\<lparr>offset := oldOffset\<rparr>)
                 | (Some len, s) \<Rightarrow>
                     if len \<le> (BitIStream_bitLength s - offset s) div 8
                     then let src = take len (drop (offset s div 8) (octets s))
                          in if compressed = 0
                             then Some (True, src, s\<lparr>offset := offset s + len * 8\<rparr>)
                             else do {
                               (ok, _, dst) \<leftarrow> huffman_decode_string (BitIStream_new src) dst;
                               Some (if ok then (True, dst, s\<lparr>offset := offset s + len * 8\<rparr>)
                                     else (False, dst,
                                       (BitIStream_setError CompressionError s)\<lparr>offset := oldOffset\<rparr>))
                             }
                     else Some (False, dst, (BitIStream_setError NotEnoughData s)\<lparr>offset := oldOffset\<rparr>))"

end
