(* ===== verification/HpackStream.thy ===== *)
theory HpackStream
  imports HpackHuffman
begin

text \<open>
  What the bit streams do, in terms of the bits of a byte list counted from the most
  significant bit of the first byte: \<open>writeBits\<close> appends bits, \<open>peekBits\<close> reads them, and
  \<open>read\<close> recovers what \<open>write\<close> wrote, at every alignment.
\<close>

section \<open>The bits of a byte list\<close>

definition stream_bit :: "bytes \<Rightarrow> nat \<Rightarrow> bool" where
  "stream_bit b k = bit (b ! (k div 8)) (7 - k mod 8)"

definition ostream_bits :: "BitOStream \<Rightarrow> bool list" where
  "ostream_bits s = map (stream_bit (buffer s)) [0..<bitsSet s]"

definition ostream_ok :: "BitOStream \<Rightarrow> bool" where
  "ostream_ok s \<longleftrightarrow> length (buffer s) = (bitsSet s + 7) div 8
     \<and> (\<forall>k \<in> {bitsSet s..<8 * length (buffer s)}. \<not> stream_bit (buffer s) k)"

definition low_bits :: "nat \<Rightarrow> 8 word \<Rightarrow> bool list" where
  "low_bits n w = map (\<lambda>i. bit w (n - 1 - i)) [0..<n]"

lemma stream_bit_append:
  "stream_bit (a @ b) k = (if k < 8 * length a then stream_bit a k else stream_bit b (k - 8 * length a))"
proof -
  have "k div 8 < length a \<longleftrightarrow> k < 8 * length a" by (simp add: div_less_iff_less_mult mult.commute)
  moreover have "(k - 8 * length a) div 8 = k div 8 - length a" by simp
  moreover have "(k - 8 * length a) mod 8 = k mod 8" if "\<not> k < 8 * length a"
    using that by (metis mod_mult_self4 mult.commute le_add_diff_inverse not_less)
  ultimately show ?thesis by (auto simp: stream_bit_def nth_append)
qed

lemma stream_bit_single: "k < 8 \<Longrightarrow> stream_bit [w] k = bit w (7 - k)"
  by (simp add: stream_bit_def)

lemma stream_bit_Cons: "stream_bit (w # b) k = (if k < 8 then bit w (7 - k) else stream_bit b (k - 8))"
  using stream_bit_append [of "[w]" b k] stream_bit_single [of k w] by simp

lemma ostream_ok_new: "ostream_ok (BitOStream_new b)"
  by (simp add: ostream_ok_def BitOStream_new_def)

lemma ostream_bits_nth: "k < bitsSet s \<Longrightarrow> ostream_bits s ! k = stream_bit (buffer s) k"
  by (simp add: ostream_bits_def)

section \<open>Writing bits\<close>

lemma bit_byte_placed:
  assumes "n \<le> 8" "c \<le> 7" "j < 8"
  shows "bit (drop_bit c (push_bit (8 - n) w)) (7 - j) \<longleftrightarrow> c \<le> j \<and> j < c + n \<and> bit (w :: 8 word) (n - 1 - (j - c))"
proof -
  have "c + (7 - j) - (8 - n) = n - 1 - (j - c)" if "c \<le> j" "j < c + n" using that assms by linarith
  then show ?thesis using assms by (auto simp: bit_drop_bit_eq bit_push_bit_iff)
qed

lemma bit_byte_rest:
  assumes "n \<le> 8" "0 < c" "c \<le> 7" "j < 8" "8 < n + c"
  shows "bit (push_bit (8 - c) (push_bit (8 - n) w)) (7 - j) \<longleftrightarrow> j < n + c - 8 \<and> bit (w :: 8 word) (n - 1 - (j + 8 - c))"
proof -
  have "bit (push_bit (8 - c) (push_bit (8 - n) w)) (7 - j) \<longleftrightarrow> 16 - n - c \<le> 7 - j \<and> bit w (7 - j - (16 - n - c))"
    using assms by (auto simp: push_bit_push_bit bit_push_bit_iff add.commute)
  moreover have "16 - n - c \<le> 7 - j \<longleftrightarrow> j < n + c - 8" using assms by linarith
  moreover have "7 - j - (16 - n - c) = n - 1 - (j + 8 - c)" using assms by linarith
  ultimately show ?thesis by simp
qed

lemma writeBits_bit:
  fixes w :: "8 word"
  assumes ok: "ostream_ok s" and n: "n \<le> 8"
  defines "s' \<equiv> BitOStream_writeBits w n s"
  shows "bitsSet s' = bitsSet s + n"
    and "length (buffer s') = (bitsSet s' + 7) div 8"
    and "k < 8 * length (buffer s') \<Longrightarrow> stream_bit (buffer s') k =
          (if k < bitsSet s then stream_bit (buffer s) k
           else k < bitsSet s + n \<and> bit w (n - 1 - (k - bitsSet s)))"
proof -
  define c where "c = bitsSet s mod 8"
  define q where "q = bitsSet s div 8"
  have bs: "bitsSet s = 8 * q + c" by (simp add: c_def q_def)
  have c7: "c \<le> 7" by (simp add: c_def)
  have len: "length (buffer s) = (if c = 0 then q else q + 1)"
  proof -
    have "(8 * q + c + 7) div 8 = q + (c + 7) div 8" by (simp add: add.assoc)
    moreover have "(c + 7) div 8 = (if c = 0 then 0 else 1)" using c7 by (simp add: div_nat_eqI)
    ultimately show ?thesis using ok by (simp add: ostream_ok_def bs)
  qed
  have zero: "\<not> stream_bit (buffer s) k" if "bitsSet s \<le> k" "k < 8 * length (buffer s)" for k
    using ok that by (simp add: ostream_ok_def)
  show b': "bitsSet s' = bitsSet s + n" by (simp add: s'_def BitOStream_writeBits_def Let_def split: prod.splits)
  let ?bit = "(if k < bitsSet s then stream_bit (buffer s) k
           else k < bitsSet s + n \<and> bit w (n - 1 - (k - bitsSet s)))"
  have "length (buffer s') = (bitsSet s' + 7) div 8
    \<and> (k < 8 * length (buffer s') \<longrightarrow> stream_bit (buffer s') k = ?bit)"
  proof (cases "c = 0")
    case True
    have buf: "buffer s' = (if 0 < n then buffer s @ [push_bit (8 - n) w] else buffer s)"
      using True by (simp add: s'_def BitOStream_writeBits_def c_def)
    have l: "length (buffer s') = (bitsSet s' + 7) div 8"
      using True len n unfolding b' by (auto simp: buf bs)
    have "stream_bit (buffer s') k = ?bit" if k: "k < 8 * length (buffer s')"
    proof -
    have "8 * length (buffer s) = bitsSet s" using True len bs by simp
    moreover from this have "k - bitsSet s < 8" using k by (auto simp: buf split: if_splits)
    moreover from this have "bit (push_bit (8 - n) w) (7 - (k - bitsSet s))
        \<longleftrightarrow> k - bitsSet s < n \<and> bit w (n - 1 - (k - bitsSet s))"
      using bit_byte_placed [OF n, of 0 "k - bitsSet s" w] by simp
    ultimately show ?thesis
      using k by (cases "k < bitsSet s") (auto simp: buf stream_bit_append stream_bit_single)
    qed
    with l show ?thesis by blast
  next
    case False
    obtain b0 l where bl: "buffer s = b0 @ [l]" and b0: "length b0 = q"
      using len False by (cases "buffer s" rule: rev_cases) auto
    define l' where "l' = l OR drop_bit c (push_bit (8 - n) w)"
    have buf: "buffer s' = b0 @ [l'] @ (if 8 < n + c then [push_bit (8 - c) (push_bit (8 - n) w)] else [])"
      using False c7 by (auto simp: s'_def BitOStream_writeBits_def c_def [symmetric] bl l'_def Let_def)
    have l: "length (buffer s') = (bitsSet s' + 7) div 8"
      using False c7 n unfolding b' by (auto simp: buf bs b0)
    have "stream_bit (buffer s') k = ?bit" if k: "k < 8 * length (buffer s')"
    proof (cases "k < 8 * q")
      case True
      then show ?thesis by (simp add: buf bl b0 bs stream_bit_append)
    next
      case kq: False
      define j where "j = k - 8 * q"
      show ?thesis
      proof (cases "j < 8")
        case True
        have "stream_bit (buffer s') k = bit l' (7 - j)"
          using kq True b0 by (simp add: buf stream_bit_append stream_bit_Cons j_def)
        also have "\<dots> \<longleftrightarrow> bit l (7 - j) \<or> (c \<le> j \<and> j < c + n \<and> bit w (n - 1 - (j - c)))"
          using bit_byte_placed [OF n c7 True, of w] by (simp add: l'_def bit_or_iff)
        also have "bit l (7 - j) = stream_bit (buffer s) k"
          using kq True b0 by (simp add: bl stream_bit_append stream_bit_single j_def)
        finally show ?thesis
          using zero [of k] kq True False len by (auto simp: bs j_def)
      next
        case j8: False
        then have r: "8 < n + c" "j - 8 < 8" using k kq b0 by (auto simp: buf j_def split: if_splits)
        have "stream_bit (buffer s') k = bit (push_bit (8 - c) (push_bit (8 - n) w)) (7 - (j - 8))"
          using kq j8 b0 r by (simp add: buf stream_bit_append stream_bit_Cons j_def)
        also have "\<dots> \<longleftrightarrow> j - 8 < n + c - 8 \<and> bit w (n - 1 - (j - 8 + 8 - c))"
          using False by (intro bit_byte_rest [OF n _ c7 r(2,1)]) simp
        finally show ?thesis using kq j8 c7 r by (auto simp: bs j_def add_ac)
      qed
    qed
    with l show ?thesis by blast
  qed
  then show "length (buffer s') = (bitsSet s' + 7) div 8"
    and "k < 8 * length (buffer s') \<Longrightarrow> stream_bit (buffer s') k = ?bit" by blast+
qed

lemma writeBits_ok:
  assumes "ostream_ok s" "n \<le> 8"
  shows "ostream_ok (BitOStream_writeBits w n s)"
  using writeBits_bit [OF assms, where w = w] unfolding ostream_ok_def by auto

lemma writeBits_bits:
  assumes "ostream_ok s" "n \<le> 8"
  shows "ostream_bits (BitOStream_writeBits w n s) = ostream_bits s @ low_bits n w"
proof (rule nth_equalityI)
  note b = writeBits_bit [OF assms, where w = w]
  show "length (ostream_bits (BitOStream_writeBits w n s)) = length (ostream_bits s @ low_bits n w)"
    by (simp add: ostream_bits_def low_bits_def b(1))
  fix k
  assume "k < length (ostream_bits (BitOStream_writeBits w n s))"
  then have k: "k < bitsSet s + n" by (simp add: ostream_bits_def b(1))
  then have "k < 8 * length (buffer (BitOStream_writeBits w n s))" using b(1,2) by simp
  from b(3) [OF this] k
  show "ostream_bits (BitOStream_writeBits w n s) ! k = (ostream_bits s @ low_bits n w) ! k"
    by (simp add: ostream_bits_nth b(1) nth_append) (auto simp: ostream_bits_def low_bits_def)
qed


section \<open>Integers\<close>

text \<open>The octets after a full prefix: seven bits each, the lowest first.\<close>

fun int_octets :: "nat \<Rightarrow> nat list" where
  "int_octets n = (if n \<ge> 128 then (n mod 128 + 128) # int_octets (n div 128) else [n])"

declare int_octets.simps [simp del]

lemma pushInt_eq:
  "BitOStream_pushInt n s = \<lparr>buffer = buffer s @ map word_of_nat (int_octets n),
     bitsSet = bitsSet s + 8 * length (int_octets n)\<rparr>"
proof (induction n s rule: BitOStream_pushInt.induct)
  case (1 n s)
  then show ?case
    by (simp add: BitOStream_pushInt.simps [of n] int_octets.simps [of n])
qed

lemma octet_low: "x < 256 \<Longrightarrow> unat ((word_of_nat x :: 8 word) AND 0x7f) = x mod 128"
proof -
  assume "x < 256"
  then have "unat ((word_of_nat x :: 8 word) AND 0x7f) = x AND 127"
    by (simp add: unsigned_and_eq unat_of_nat)
  also have "(127 :: nat) = mask 7" by (simp add: mask_eq_exp_minus_1)
  finally show ?thesis by (simp add: take_bit_eq_mask [symmetric] take_bit_eq_mod)
qed

lemma octet_flag: "x < 256 \<Longrightarrow> (word_of_nat x :: 8 word) AND 0x80 = 0 \<longleftrightarrow> x < 128"
proof -
  assume x: "x < 256"
  have "(word_of_nat x :: 8 word) AND 0x80 = 0 \<longleftrightarrow> \<not> bit (word_of_nat x :: 8 word) 7"
    by (simp add: bit_iff_and_push_bit_not_eq_0 push_bit_eq_mult)
  also have "\<dots> \<longleftrightarrow> even (x div 128)" by (simp add: bit_of_nat_iff) (simp add: bit_iff_odd)
  also have "\<dots> \<longleftrightarrow> x < 128"
  proof (cases "x < 128")
    case False
    then have "x div 128 = 1" using x by (intro div_nat_eqI) simp_all
    then show ?thesis using False by simp
  qed simp
  finally show ?thesis .
qed

lemma octet_bits:
  assumes "n < 128"
  shows "unat ((word_of_nat (n + 128) :: 8 word) AND 0x7f) = n"
    and "unat ((word_of_nat n :: 8 word) AND 0x7f) = n"
    and "(word_of_nat n :: 8 word) AND 0x80 = 0"
    and "(word_of_nat (n + 128) :: 8 word) AND 0x80 \<noteq> 0"
  using assms octet_low [of "n + 128"] octet_low [of n] octet_flag [of n] octet_flag [of "n + 128"]
  by (simp_all only: of_nat_add) simp_all

lemma octet_large: "n < 16 \<Longrightarrow> \<not> (15 :: 8 word) < word_of_nat n"
  by (simp add: word_less_nat_alt unat_of_nat)

lemma readInt_loop_octets:
  assumes "8 * length (pre @ map word_of_nat (int_octets n) @ post) + 8 < 2 ^ 32"
    and "r \<le> 4" "n < 2 ^ (4 + 7 * r)"
  shows "readInt_loop (pre @ map word_of_nat (int_octets n) @ post) (8 * length pre) v r
    = Inr (v + n * 2 ^ (28 - 7 * r), 8 * (length pre + length (int_octets n)))"
  using assms
proof (induction r arbitrary: n pre v)
  case 0
  then have "int_octets n = [n]" by (simp add: int_octets.simps)
  then show ?case
    using 0 octet_bits [of n] octet_large [of n]
    by (simp add: readInt_loop.simps nth_append)
next
  case (Suc r)
  have p: "28 - 7 * Suc r = 21 - 7 * r" "21 - 7 * r \<noteq> (28 :: nat)"
    using diff_le_self [of 21 "7 * r"] by (simp, linarith)
  show ?case
  proof (cases "n < 128")
    case True
    then have "int_octets n = [n]" by (simp add: int_octets.simps)
    then show ?thesis
      using Suc.prems True octet_bits [of n]
      by (simp add: readInt_loop.simps nth_append p Let_def)
  next
    case False
    then have o: "int_octets n = (n mod 128 + 128) # int_octets (n div 128)"
      by (simp add: int_octets.simps [of n])
    define w :: "8 word" where "w = word_of_nat (n mod 128 + 128)"
    have w: "unat (w AND 0x7f) = n mod 128" "w AND 0x80 \<noteq> 0"
      using octet_bits [of "n mod 128"] by (simp_all add: w_def)
    have d: "n div 128 < 2 ^ (4 + 7 * r)"
    proof -
      have "n < 2 ^ (4 + 7 * r) * 128" using Suc.prems(3) by (simp add: power_add mult_ac)
      then show ?thesis by (simp add: div_less_iff_less_mult)
    qed
    let ?bs = "pre @ map word_of_nat (int_octets n) @ post"
    have bs: "?bs = (pre @ [w]) @ map word_of_nat (int_octets (n div 128)) @ post"
      by (simp add: o w_def)
    have sum: "n mod 128 * 2 ^ (21 - 7 * r) + n div 128 * 2 ^ (28 - 7 * r) = n * 2 ^ (21 - 7 * r)"
    proof -
      have e: "28 - 7 * r = (21 - 7 * r) + 7" using Suc.prems(2) by simp
      have "(2 :: nat) ^ 7 = 128" by simp
      have "n mod 128 * 2 ^ (21 - 7 * r) + n div 128 * 2 ^ (28 - 7 * r)
          = (n mod 128 + n div 128 * 128) * 2 ^ (21 - 7 * r)"
        unfolding e power_add \<open>(2 :: nat) ^ 7 = 128\<close> distrib_right by (simp only: mult_ac)
      then show ?thesis by simp
    qed
    have "readInt_loop ?bs (8 * length pre) v (Suc r)
        = readInt_loop ?bs (8 * length (pre @ [w])) (v + n mod 128 * 2 ^ (21 - 7 * r)) r"
      using Suc.prems w unfolding bs
      by (subst readInt_loop.simps) (simp add: nth_append p Let_def add.commute [of 8])
    also have "\<dots> = Inr (v + n mod 128 * 2 ^ (21 - 7 * r) + n div 128 * 2 ^ (28 - 7 * r),
        8 * (length (pre @ [w]) + length (int_octets (n div 128))))"
      unfolding bs using Suc.prems d by (intro Suc.IH) (simp_all add: o)
    finally show ?thesis by (simp add: o p add.assoc sum)
  qed
qed


lemma int_octets_length: "n < 2 ^ (4 + 7 * r) \<Longrightarrow> length (int_octets n) \<le> Suc r"
proof (induction r arbitrary: n)
  case 0
  then show ?case by (simp add: int_octets.simps)
next
  case (Suc r)
  have "n < 2 ^ (4 + 7 * r) * 128" using Suc.prems by (simp add: power_add mult_ac)
  then have "n div 128 < 2 ^ (4 + 7 * r)" by (simp add: div_less_iff_less_mult)
  from Suc.IH [OF this] show ?case by (simp add: int_octets.simps [of n])
qed

text \<open>The last byte after the bits up to a byte boundary are written: its low bits are the value.\<close>

lemma writeBits_to_boundary:
  assumes ok: "ostream_ok s" and p: "p = 8 - bitsSet s mod 8" and v: "v < 2 ^ p"
  defines "s' \<equiv> BitOStream_writeBits (word_of_nat v) p s"
  shows "bitsSet s' = 8 * length (buffer s')"
    and "length (buffer s') = bitsSet s div 8 + 1"
    and "unat (buffer s' ! (bitsSet s div 8) AND word_of_nat (2 ^ p - 1)) = v"
    and "ostream_ok s'"
    and "k < bitsSet s \<Longrightarrow> stream_bit (buffer s') k = stream_bit (buffer s) k"
proof -
  have p8: "p \<le> 8" "0 < p" using p by simp_all
  note w = writeBits_bit [OF ok p8(1), where w = "word_of_nat v", folded s'_def]
  define q c where "q = bitsSet s div 8" and "c = bitsSet s mod 8"
  have bs: "bitsSet s = 8 * q + c" by (simp add: q_def c_def)
  have c: "c < 8" "p = 8 - c" by (simp_all add: c_def p)
  have b': "bitsSet s' = 8 * (q + 1)" using w(1) c bs by simp
  show l: "length (buffer s') = bitsSet s div 8 + 1" using w(2) b' by (simp add: q_def)
  then show "bitsSet s' = 8 * length (buffer s')" by (simp add: b' q_def)
  show "ostream_ok s'" unfolding s'_def by (rule writeBits_ok [OF ok p8(1)])
  show "stream_bit (buffer s') k = stream_bit (buffer s) k" if k: "k < bitsSet s"
  proof -
    have "k < 8 * length (buffer s')" using k l bs c(1) unfolding q_def [symmetric] by linarith
    from w(3) [OF this] k show ?thesis by simp
  qed
  have "buffer s' ! q AND mask p = (word_of_nat v :: 8 word)"
  proof (rule bit_eqI)
    fix i
    show "bit (buffer s' ! q AND mask p) i = bit (word_of_nat v :: 8 word) i"
    proof (cases "i < p")
      case True
      have "stream_bit (buffer s') (8 * q + j) = bit (buffer s' ! q) (7 - j)" if "j < 8" for j
        using that by (simp add: stream_bit_def)
      from this [of "7 - i"] have "stream_bit (buffer s') (8 * q + (7 - i)) = bit (buffer s' ! q) i"
        using True p8 by simp
      moreover have k: "8 * q + (7 - i) < 8 * length (buffer s')" "bitsSet s \<le> 8 * q + (7 - i)"
        "8 * q + (7 - i) < bitsSet s + p"
        using True c l unfolding q_def [symmetric] bs by simp_all
      moreover have "p - 1 - (8 * q + (7 - i) - bitsSet s) = i" using True c unfolding bs by simp
      ultimately have "bit (buffer s' ! q) i \<longleftrightarrow> bit (word_of_nat v :: 8 word) i"
        using w(3) [OF k(1)] by simp
      moreover have "i < 8" using True p8 by simp
      ultimately show ?thesis using True by (simp add: bit_and_iff bit_mask_iff)
    next
      case False
      have "\<not> bit v i" using v False by (metis bit_nat_iff bit_take_bit_iff take_bit_nat_eq_self)
      then have "\<not> bit (word_of_nat v :: 8 word) i" by (simp add: bit_of_nat_iff)
      then show ?thesis using False by (simp add: bit_and_iff bit_mask_iff)
    qed
  qed
  moreover have "word_of_nat (2 ^ p - 1) = (mask p :: 8 word)"
    by (simp add: mask_eq_exp_minus_1 of_nat_diff)
  moreover have "v < 2 ^ 8" using v p8 power_increasing [of p 8 "2 :: nat"] by simp
  ultimately show "unat (buffer s' ! (bitsSet s div 8) AND word_of_nat (2 ^ p - 1)) = v"
    by (simp add: q_def [symmetric] unat_of_nat)
qed

lemma readInt_unfold:
  assumes "off < 8 * length bs" "p = 8 - off mod 8" "full = 2 ^ p - 1"
    and "x = unat (bs ! (off div 8) AND word_of_nat full)"
  shows "BitIStream_readInt \<lparr>octets = bs, offset = off, streamError = e\<rparr> =
    (if x < full then (Some x, \<lparr>octets = bs, offset = off + p, streamError = NoError\<rparr>)
     else case readInt_loop bs ((off + p) mod 2 ^ 32) x 4 of
            Inl e \<Rightarrow> (None, \<lparr>octets = bs, offset = off, streamError = e\<rparr>)
          | Inr (val, newOffset) \<Rightarrow> (Some (val mod 2 ^ 32), \<lparr>octets = bs, offset = newOffset, streamError = NoError\<rparr>))"
proof -
  have "\<not> off \<ge> length bs * 8" using assms(1) by simp
  then show ?thesis
    by (simp only: BitIStream_readInt_def BitIStream_bitLength_def BitIStream_setError_def Let_def
        BitIStream.simps if_False if_True BitIStream.update_convs assms(2-4) [symmetric])
qed

lemma writeInt_readInt:
  assumes ok: "ostream_ok s" and v: "v < 2 ^ 32"
    and len: "8 * length (buffer (BitOStream_writeInt v s) @ rest) + 8 < 2 ^ 32"
  shows "BitIStream_readInt \<lparr>octets = buffer (BitOStream_writeInt v s) @ rest, offset = bitsSet s, streamError = e\<rparr>
    = (Some v, \<lparr>octets = buffer (BitOStream_writeInt v s) @ rest,
         offset = bitsSet (BitOStream_writeInt v s), streamError = NoError\<rparr>)"
    and "bitsSet (BitOStream_writeInt v s) = 8 * length (buffer (BitOStream_writeInt v s))"
    and "ostream_ok (BitOStream_writeInt v s)"
    and "bitsSet s < bitsSet (BitOStream_writeInt v s)"
proof -
  define p where "p = 8 - bitsSet s mod 8"
  define full :: nat where "full = 2 ^ p - 1"
  define q where "q = bitsSet s div 8"
  have p: "p = 8 - bitsSet s mod 8" "0 < p" "p \<le> 8" by (simp_all add: p_def)
  have full: "full < 2 ^ p" "0 < full"
    using power_strict_increasing [of 0 p "2 :: nat"] p(2) by (simp_all add: full_def)
  define c where "c = bitsSet s mod 8"
  have "bitsSet s = 8 * q + c" "c < 8" by (simp_all add: q_def c_def)
  moreover from this have "c + (8 - c) = 8" by simp
  ultimately have bs: "bitsSet s + p = 8 * (q + 1)" unfolding p_def c_def [symmetric] by simp
  let ?A = "BitIStream_readInt \<lparr>octets = buffer (BitOStream_writeInt v s) @ rest, offset = bitsSet s, streamError = e\<rparr>
    = (Some v, \<lparr>octets = buffer (BitOStream_writeInt v s) @ rest,
         offset = bitsSet (BitOStream_writeInt v s), streamError = NoError\<rparr>)"
  have "?A \<and> bitsSet (BitOStream_writeInt v s) = 8 * length (buffer (BitOStream_writeInt v s))
    \<and> ostream_ok (BitOStream_writeInt v s) \<and> bitsSet s < bitsSet (BitOStream_writeInt v s)"
  proof (cases "v < full")
    case True
    define t where "t = BitOStream_writeBits (word_of_nat v) p s"
    have v: "v < 2 ^ p" using True full by simp
    note t = writeBits_to_boundary [OF ok p(1) v, folded t_def q_def full_def]
    have w: "BitOStream_writeInt v s = t"
      using True by (simp add: BitOStream_writeInt_def p_def [symmetric] full_def t_def Let_def)
    have "bitsSet s < 8 * length (buffer t)" using t(2) bs p by simp
    then show ?thesis
      using t True bs unfolding w
      by (simp add: readInt_unfold [OF _ p(1) full_def refl] q_def [symmetric] nth_append)
  next
    case False
    define t where "t = BitOStream_writeBits (word_of_nat full) p s"
    note t = writeBits_to_boundary [OF ok p(1) full(1), folded t_def q_def full_def]
    define n where "n = v - full"
    have w: "BitOStream_writeInt v s = \<lparr>buffer = buffer t @ map word_of_nat (int_octets n),
        bitsSet = bitsSet t + 8 * length (int_octets n)\<rparr>"
      using False by (simp add: BitOStream_writeInt_def p_def [symmetric] full_def t_def Let_def pushInt_eq n_def)
    have n: "n < 2 ^ (4 + 7 * 4)" using v by (simp add: n_def)
    have r: "readInt_loop (buffer t @ map word_of_nat (int_octets n) @ rest) (8 * length (buffer t)) full 4
        = Inr (full + n * 2 ^ (28 - 7 * 4), 8 * (length (buffer t) + length (int_octets n)))"
      using len n unfolding w by (intro readInt_loop_octets) simp_all
    have "bitsSet s < 8 * length (buffer t)" using t(2) bs p by simp
    moreover have "(bitsSet s + p) mod 2 ^ 32 = 8 * length (buffer t)"
      using t(2) bs len unfolding w by simp
    moreover have "ostream_ok (BitOStream_writeInt v s)"
      using t(1) unfolding w by (simp add: ostream_ok_def)
    moreover have "(full + n) mod 2 ^ 32 = v" using False v by (simp add: n_def)
    ultimately show ?thesis
      using t r unfolding w
      by (simp add: readInt_unfold [OF _ p(1) full_def refl] q_def [symmetric] nth_append)
  qed
  then show "BitIStream_readInt \<lparr>octets = buffer (BitOStream_writeInt v s) @ rest, offset = bitsSet s, streamError = e\<rparr>
    = (Some v, \<lparr>octets = buffer (BitOStream_writeInt v s) @ rest,
         offset = bitsSet (BitOStream_writeInt v s), streamError = NoError\<rparr>)"
    and "bitsSet (BitOStream_writeInt v s) = 8 * length (buffer (BitOStream_writeInt v s))"
    and "ostream_ok (BitOStream_writeInt v s)"
    and "bitsSet s < bitsSet (BitOStream_writeInt v s)" by blast+
qed


section \<open>Peeking bits\<close>

text \<open>The combined bits after the loop, lowest bit last read.\<close>

lemma peekBits_loop_bits:
  assumes "peekBits_loop bs n (dst :: 'a::len word) = (bs', n', dst')" "0 < n" "n \<le> 8 * length bs"
    and "i < LENGTH('a)"
  shows "n' \<le> 8 \<and> 0 < n' \<and> (bit (push_bit n' dst' OR ucast (drop_bit (8 - n') (hd bs'))) i
    \<longleftrightarrow> (if i < n then stream_bit bs (n - 1 - i) else bit dst (i - n)))"
  using assms
proof (induction bs n dst arbitrary: i rule: peekBits_loop.induct)
  case (1 bs n dst)
  obtain w ws where bs: "bs = w # ws" using "1.prems"(2,3) by (cases bs) auto
  show ?case
  proof (cases "8 < n")
    case True
    define d where "d = push_bit 8 dst OR ucast w"
    have l: "peekBits_loop ws (n - 8) d = (bs', n', dst')"
      using "1.prems"(1) True by (simp add: peekBits_loop.simps [of "w # ws"] bs d_def)
    have IH: "n' \<le> 8 \<and> 0 < n' \<and> (bit (push_bit n' dst' OR ucast (drop_bit (8 - n') (hd bs'))) i
      \<longleftrightarrow> (if i < n - 8 then stream_bit ws (n - 8 - 1 - i) else bit d (i - (n - 8))))"
      using "1.IH" True l "1.prems"(3,4) by (simp add: bs d_def)
    have "(if i < n - 8 then stream_bit ws (n - 8 - 1 - i) else bit d (i - (n - 8)))
        = (if i < n then stream_bit bs (n - 1 - i) else bit dst (i - n))"
    proof -
      consider "i < n - 8" | "n - 8 \<le> i" "i < n" | "n \<le> i" by linarith
      then show ?thesis
      proof cases
        case 1
        then have "n - 1 - i \<ge> 8" "n - 1 - i - 8 = n - 8 - 1 - i" "i < n" by simp_all
        then show ?thesis using 1 True by (simp add: bs stream_bit_Cons)
      next
        case 2
        define j where "j = i - (n - 8)"
        have j: "j < 8" "n - 1 - i = 7 - j" "j < LENGTH('a)" "7 - j < 8" "7 - (7 - j) = j" using 2 True "1.prems"(4) by (auto simp: j_def)
        have "bit d j = bit w j" using j by (simp add: d_def bit_or_iff bit_push_bit_iff bit_ucast_iff)
        then show ?thesis using 2 j by (simp add: bs stream_bit_Cons j_def [symmetric])
      next
        case 3
        define j where "j = i - (n - 8)"
        have j: "8 \<le> j" "j - 8 = i - n" "j < LENGTH('a)" "\<not> i < n - 8" "\<not> i < n" using 3 True "1.prems"(4) by (auto simp: j_def)
        have "bit d j = bit dst (j - 8)"
          using j bit_imp_le_length [of w j] by (auto simp: d_def bit_or_iff bit_push_bit_iff bit_ucast_iff)
        then show ?thesis using 3 True j by (simp add: j_def [symmetric])
      qed
    qed
    then show ?thesis using IH by simp
  next
    case False
    then have e: "bs' = bs" "n' = n" "dst' = dst"
      using "1.prems"(1) by (auto simp: peekBits_loop.simps [of "w # ws"] bs)
    have "bit (ucast (drop_bit (8 - n) w) :: 'a word) i \<longleftrightarrow> i < n \<and> bit w (8 - n + i)"
      using False "1.prems"(4) bit_imp_le_length [of w "8 - n + i"]
      by (auto simp: bit_ucast_iff bit_drop_bit_eq)
    moreover have "i < n \<Longrightarrow> 8 - n + i = 7 - (n - 1 - i)" using False by simp
    ultimately show ?thesis
      using False "1.prems"(2,4) by (auto simp: e bs bit_or_iff bit_push_bit_iff stream_bit_Cons)
  qed
qed

lemma peekBits_bits:
  assumes "0 < len" "len \<le> LENGTH('a::len)" "from + len \<le> 8 * length (octets s)"
  shows "\<exists>v :: 'a word. BitIStream_peekBits from len dst s = (len, v)
    \<and> (\<forall>i < LENGTH('a). bit v (LENGTH('a) - 1 - i) = (i < len \<and> stream_bit (octets s) (from + i)))"
proof -
  define bs where "bs = drop (from div 8) (octets s)"
  define n where "n = len + from mod 8"
  obtain bs' n' and dst' :: "'a word" where l: "peekBits_loop bs n 0 = (bs', n', dst')"
    by (cases "peekBits_loop bs n (0 :: 'a word)")
  define x where "x = push_bit n' dst' OR ucast (drop_bit (8 - n') (hd bs'))"
  define v where "v = push_bit (LENGTH('a) - len) x"
  define q c where "q = from div 8" and "c = from mod 8"
  have f: "from = 8 * q + c" "c < 8" by (simp_all add: q_def c_def)
  have n: "0 < n" "n \<le> 8 * length bs"
    using assms f unfolding n_def bs_def q_def [symmetric] c_def [symmetric] by simp_all
  have "BitIStream_peekBits from len dst s = (len, v)"
    using assms l by (simp add: BitIStream_peekBits_def BitIStream_bitLength_def min_def bs_def n_def v_def x_def Let_def)
  moreover have "bit v (LENGTH('a) - 1 - i) = (i < len \<and> stream_bit (octets s) (from + i))"
    if i: "i < LENGTH('a)" for i
  proof (cases "i < len")
    case False
    have "\<not> LENGTH('a) - len \<le> LENGTH('a) - 1 - i" using False i assms(1,2) by linarith
    then show ?thesis using False unfolding v_def bit_push_bit_iff by blast
  next
    case True
    have "LENGTH('a) - 1 - i - (LENGTH('a) - len) = len - 1 - i" using True assms(2) by linarith
    then have "bit v (LENGTH('a) - 1 - i) = bit x (len - 1 - i)"
      using True i assms(2) by (auto simp: v_def bit_push_bit_iff)
    also have "\<dots> = stream_bit bs (n - 1 - (len - 1 - i))"
    proof -
      have "len - 1 - i < n" "len - 1 - i < LENGTH('a)" using True assms(1,2) unfolding n_def by linarith+
      with peekBits_loop_bits [OF l n this(2)] show ?thesis unfolding x_def by simp
    qed
    also have "n - 1 - (len - 1 - i) = from mod 8 + i" using True by (simp add: n_def)
    also have "stream_bit bs (from mod 8 + i) = stream_bit (octets s) (from + i)"
    proof -
      have "length (take (from div 8) (octets s)) = from div 8"
        using assms(1,3) f unfolding q_def [symmetric] by simp
      then have "stream_bit (take q (octets s) @ bs) (8 * q + (c + i)) = stream_bit bs (c + i)"
        by (simp add: stream_bit_append q_def)
      moreover have "take q (octets s) @ bs = octets s" by (simp add: bs_def q_def)
      moreover have "8 * q + (c + i) = from + i" using f by simp
      ultimately show ?thesis unfolding c_def [symmetric] by (simp only:)
    qed
    finally show ?thesis using True by simp
  qed
  ultimately show ?thesis by blast
qed

end
