(* ===== verification/HpackTable.thy ===== *)
theory HpackTable
  imports HpackHuffman
begin

text \<open>
  \<open>src/network/access/http2/hpacktable.cpp\<close>: the static table and the dynamic table with its
  chunks and its search index. A chunk is a list of \<open>ChunkSize\<close> fields with an identity (the
  pointer the search index holds); the search index is the list of the keys of the
  \<open>std::set\<close> in its order. Sizes are \<open>nat\<close>; \<open>u32_diff\<close> is the unsigned difference.
\<close>

definition ascii :: "string \<Rightarrow> bytes" where
  "ascii s = map (\<lambda>c. word_of_nat (of_char c)) s"

definition u32_diff :: "nat \<Rightarrow> nat \<Rightarrow> nat" where
  "u32_diff a b = (a + 2 ^ 32 - b) mod 2 ^ 32"

record HeaderField =
  hf_name :: bytes
  hf_value :: bytes

definition HeaderField :: "bytes \<Rightarrow> bytes \<Rightarrow> HeaderField" where
  "HeaderField n v = \<lparr>hf_name = n, hf_value = v\<rparr>"

definition entry_size :: "bytes \<Rightarrow> bytes \<Rightarrow> nat option" where
  "entry_size name value =
     (let sum = length name + length value
      in if sum \<ge> 2 ^ 64 then None
         else if sum > 2 ^ 32 - 1 - 32 then None
         else Some (sum + 32))"

text \<open>\<open>memcmp\<close> compares bytes as unsigned; only the sign of its result is used.\<close>

fun memcmp :: "bytes \<Rightarrow> bytes \<Rightarrow> nat \<Rightarrow> int" where
  "memcmp (x # xs) (y # ys) n =
     (if n = 0 then 0
      else if x = y then memcmp xs ys (n - 1) else int (unat x) - int (unat y))"
| "memcmp _ _ n = 0"

text \<open>The smaller size and the difference of the sizes are narrowed to \<open>int\<close>.\<close>

definition compare :: "bytes \<Rightarrow> bytes \<Rightarrow> int" where
  "compare lhs rhs =
     (let minLen = to_int32 (int (min (length lhs) (length rhs)));
          cmp = (if minLen \<noteq> 0 then memcmp lhs rhs (nat (minLen mod 2 ^ 64)) else 0)
      in if cmp \<noteq> 0 then cmp else to_int32 (int (length lhs) - int (length rhs)))"

section \<open>The table\<close>

record SearchEntry =
  se_field :: HeaderField
  se_chunk :: "nat option"
  se_offset :: nat

record FieldLookupTable =
  maxTableSize :: nat
  tableCapacity :: nat
  chunks :: "(nat \<times> HeaderField list) list"
  useIndex :: bool
  searchIndex :: "SearchEntry list"
  nDynamic :: nat
  tbegin :: nat
  tend :: nat
  dataSize :: nat
  nextChunk :: nat

definition ChunkSize :: nat where "ChunkSize = 16"

definition FieldLookupTable_new :: "nat \<Rightarrow> bool \<Rightarrow> FieldLookupTable" where
  "FieldLookupTable_new maxSize use =
     \<lparr>maxTableSize = maxSize, tableCapacity = maxSize, chunks = [], useIndex = use, searchIndex = [],
      nDynamic = 0, tbegin = 0, tend = 0, dataSize = 0, nextChunk = 0\<rparr>"

fun indexOfChunk :: "(nat \<times> HeaderField list) list \<Rightarrow> nat \<Rightarrow> nat" where
  "indexOfChunk [] chunk = 0"
| "indexOfChunk (c # cs) chunk = (if fst c = chunk then 0 else Suc (indexOfChunk cs chunk))"

definition SearchEntry_less :: "FieldLookupTable \<Rightarrow> SearchEntry \<Rightarrow> SearchEntry \<Rightarrow> bool" where
  "SearchEntry_less t lhs rhs =
     (let cmp = compare (hf_name (se_field lhs)) (hf_name (se_field rhs))
      in if cmp \<noteq> 0 then cmp < 0
         else let cmp = compare (hf_value (se_field lhs)) (hf_value (se_field rhs))
              in if cmp \<noteq> 0 then cmp < 0
                 else case se_chunk lhs of
                        None \<Rightarrow> se_chunk rhs \<noteq> None
                      | Some leftChunk \<Rightarrow>
                          (case se_chunk rhs of
                             None \<Rightarrow> False
                           | Some rightChunk \<Rightarrow>
                               let leftChunkIndex = indexOfChunk (chunks t) leftChunk;
                                   rightChunkIndex = indexOfChunk (chunks t) rightChunk
                               in if leftChunkIndex \<noteq> rightChunkIndex then leftChunkIndex > rightChunkIndex
                                  else se_offset lhs > se_offset rhs))"

text \<open>The operations of \<open>std::set\<close> on the ordered list of its keys.\<close>

fun set_insert :: "('a \<Rightarrow> 'a \<Rightarrow> bool) \<Rightarrow> 'a \<Rightarrow> 'a list \<Rightarrow> 'a list" where
  "set_insert lt x [] = [x]"
| "set_insert lt x (y # ys) =
     (if lt y x then y # set_insert lt x ys else if lt x y then x # y # ys else y # ys)"

definition set_erase :: "('a \<Rightarrow> 'a \<Rightarrow> bool) \<Rightarrow> 'a \<Rightarrow> 'a list \<Rightarrow> 'a list" where
  "set_erase lt x ys = filter (\<lambda>y. lt y x \<or> lt x y) ys"

definition set_lower_bound :: "('a \<Rightarrow> 'a \<Rightarrow> bool) \<Rightarrow> 'a \<Rightarrow> 'a list \<Rightarrow> 'a option" where
  "set_lower_bound lt x ys = (case dropWhile (\<lambda>y. lt y x) ys of [] \<Rightarrow> None | y # _ \<Rightarrow> Some y)"

definition table_front :: "FieldLookupTable \<Rightarrow> HeaderField" where
  "table_front t = snd (chunks t ! 0) ! tbegin t"

definition table_back :: "FieldLookupTable \<Rightarrow> HeaderField" where
  "table_back t =
     (let absIndex = tend t - 1; chunkIndex = absIndex div ChunkSize; off = absIndex mod ChunkSize
      in snd (chunks t ! chunkIndex) ! off)"

definition frontKey :: "FieldLookupTable \<Rightarrow> SearchEntry" where
  "frontKey t = \<lparr>se_field = table_front t, se_chunk = Some (fst (hd (chunks t))), se_offset = tbegin t\<rparr>"

definition backKey :: "FieldLookupTable \<Rightarrow> SearchEntry" where
  "backKey t =
     (let absIndex = tend t - 1; off = absIndex mod ChunkSize; chunk = fst (chunks t ! (absIndex div ChunkSize))
      in \<lparr>se_field = table_back t, se_chunk = Some chunk, se_offset = off\<rparr>)"

definition evictEntry :: "FieldLookupTable \<Rightarrow> FieldLookupTable" where
  "evictEntry t =
     (if nDynamic t = 0 then t
      else let t1 = (if useIndex t
                     then t\<lparr>searchIndex := set_erase (SearchEntry_less t) (backKey t) (searchIndex t)\<rparr> else t);
               field = table_back t1;
               entrySize = (case entry_size (hf_name field) (hf_value field) of Some n \<Rightarrow> n | None \<Rightarrow> 0);
               t2 = t1\<lparr>dataSize := dataSize t1 - entrySize, nDynamic := nDynamic t1 - 1, tend := tend t1 - 1\<rparr>
           in if tend t2 = tbegin t2 then t2\<lparr>tend := ChunkSize, tbegin := ChunkSize\<rparr>
              else if tend t2 mod ChunkSize = 0 then t2\<lparr>chunks := butlast (chunks t2)\<rparr>
              else t2)"

definition clearDynamicTable :: "FieldLookupTable \<Rightarrow> FieldLookupTable" where
  "clearDynamicTable t =
     t\<lparr>searchIndex := [], chunks := [], tbegin := 0, tend := 0, nDynamic := 0, dataSize := 0\<rparr>"

lemma evictEntry_nDynamic: "nDynamic (evictEntry t) = nDynamic t - 1"
  by (simp add: evictEntry_def Let_def)

function evictFor :: "nat \<Rightarrow> FieldLookupTable \<Rightarrow> FieldLookupTable" where
  "evictFor entrySize t =
     (if nDynamic t \<noteq> 0 \<and> u32_diff (tableCapacity t) (dataSize t) < entrySize
      then evictFor entrySize (evictEntry t) else t)"
  by auto
termination
  by (relation "measure (\<lambda>(n, t). nDynamic t)") (auto simp: evictEntry_nDynamic)

declare evictFor.simps [simp del]

definition prependField :: "bytes \<Rightarrow> bytes \<Rightarrow> FieldLookupTable \<Rightarrow> bool \<times> FieldLookupTable" where
  "prependField name value t =
     (case entry_size name value of
        None \<Rightarrow> (False, t)
      | Some entrySize \<Rightarrow>
          if entrySize > tableCapacity t then (True, clearDynamicTable t)
          else let t = evictFor entrySize t;
                   t = (if tbegin t = 0
                        then t\<lparr>chunks := (nextChunk t, replicate ChunkSize (HeaderField [] [])) # chunks t,
                               nextChunk := nextChunk t + 1,
                               tend := tend t + ChunkSize, tbegin := ChunkSize\<rparr>
                        else t);
                   t = t\<lparr>tbegin := tbegin t - 1, dataSize := dataSize t + entrySize, nDynamic := nDynamic t + 1\<rparr>;
                   (c, fields) = hd (chunks t);
                   t = t\<lparr>chunks := (c, fields[tbegin t := HeaderField name value]) # tl (chunks t)\<rparr>
               in (True, if useIndex t
                         then t\<lparr>searchIndex := set_insert (SearchEntry_less t) (frontKey t) (searchIndex t)\<rparr>
                         else t))"

section \<open>The static table\<close>

definition staticPart :: "HeaderField list" where
  "staticPart =
   [HeaderField (ascii '':authority'') (ascii ''''),
    HeaderField (ascii '':method'') (ascii ''GET''),
    HeaderField (ascii '':method'') (ascii ''POST''),
    HeaderField (ascii '':path'') (ascii ''/''),
    HeaderField (ascii '':path'') (ascii ''/index.html''),
    HeaderField (ascii '':scheme'') (ascii ''http''),
    HeaderField (ascii '':scheme'') (ascii ''https''),
    HeaderField (ascii '':status'') (ascii ''200''),
    HeaderField (ascii '':status'') (ascii ''204''),
    HeaderField (ascii '':status'') (ascii ''206''),
    HeaderField (ascii '':status'') (ascii ''304''),
    HeaderField (ascii '':status'') (ascii ''400''),
    HeaderField (ascii '':status'') (ascii ''404''),
    HeaderField (ascii '':status'') (ascii ''500''),
    HeaderField (ascii ''accept-charset'') (ascii ''''),
    HeaderField (ascii ''accept-encoding'') (ascii ''gzip, deflate''),
    HeaderField (ascii ''accept-language'') (ascii ''''),
    HeaderField (ascii ''accept-ranges'') (ascii ''''),
    HeaderField (ascii ''accept'') (ascii ''''),
    HeaderField (ascii ''access-control-allow-origin'') (ascii ''''),
    HeaderField (ascii ''age'') (ascii ''''), HeaderField (ascii ''allow'') (ascii ''''),
    HeaderField (ascii ''authorization'') (ascii ''''),
    HeaderField (ascii ''cache-control'') (ascii ''''),
    HeaderField (ascii ''content-disposition'') (ascii ''''),
    HeaderField (ascii ''content-encoding'') (ascii ''''),
    HeaderField (ascii ''content-language'') (ascii ''''),
    HeaderField (ascii ''content-length'') (ascii ''''),
    HeaderField (ascii ''content-location'') (ascii ''''),
    HeaderField (ascii ''content-range'') (ascii ''''),
    HeaderField (ascii ''content-type'') (ascii ''''),
    HeaderField (ascii ''cookie'') (ascii ''''), HeaderField (ascii ''date'') (ascii ''''),
    HeaderField (ascii ''etag'') (ascii ''''), HeaderField (ascii ''expect'') (ascii ''''),
    HeaderField (ascii ''expires'') (ascii ''''), HeaderField (ascii ''from'') (ascii ''''),
    HeaderField (ascii ''host'') (ascii ''''), HeaderField (ascii ''if-match'') (ascii ''''),
    HeaderField (ascii ''if-modified-since'') (ascii ''''),
    HeaderField (ascii ''if-none-match'') (ascii ''''),
    HeaderField (ascii ''if-range'') (ascii ''''),
    HeaderField (ascii ''if-unmodified-since'') (ascii ''''),
    HeaderField (ascii ''last-modified'') (ascii ''''),
    HeaderField (ascii ''link'') (ascii ''''), HeaderField (ascii ''location'') (ascii ''''),
    HeaderField (ascii ''max-forwards'') (ascii ''''),
    HeaderField (ascii ''proxy-authenticate'') (ascii ''''),
    HeaderField (ascii ''proxy-authorization'') (ascii ''''),
    HeaderField (ascii ''range'') (ascii ''''), HeaderField (ascii ''referer'') (ascii ''''),
    HeaderField (ascii ''refresh'') (ascii ''''),
    HeaderField (ascii ''retry-after'') (ascii ''''),
    HeaderField (ascii ''server'') (ascii ''''), HeaderField (ascii ''set-cookie'') (ascii ''''),
    HeaderField (ascii ''strict-transport-security'') (ascii ''''),
    HeaderField (ascii ''transfer-encoding'') (ascii ''''),
    HeaderField (ascii ''user-agent'') (ascii ''''), HeaderField (ascii ''vary'') (ascii ''''),
    HeaderField (ascii ''via'') (ascii ''''),
    HeaderField (ascii ''www-authenticate'') (ascii '''')]"

definition acceptPos :: nat where "acceptPos = 18"

datatype CompareMode = nameOnly | nameAndValue

definition staticPredicate :: "CompareMode \<Rightarrow> HeaderField \<Rightarrow> HeaderField \<Rightarrow> bool" where
  "staticPredicate mode lhs rhs =
     (let cmp = compare (hf_name lhs) (hf_name rhs)
      in if cmp \<noteq> 0 then cmp < 0
         else if mode = nameAndValue then compare (hf_value lhs) (hf_value rhs) < 0
         else False)"

text \<open>\<open>std::lower_bound\<close> on a range that the predicate partitions: the first element not less.\<close>

definition lower_bound :: "('a \<Rightarrow> bool) \<Rightarrow> 'a list \<Rightarrow> nat" where
  "lower_bound lt xs = length (takeWhile lt xs)"

definition findInStaticPart :: "HeaderField \<Rightarrow> CompareMode \<Rightarrow> nat" where
  "findInStaticPart field mode =
     (if hf_name field = ascii ''accept''
      then if mode = nameAndValue \<and> hf_value field \<noteq> [] then length staticPart else acceptPos
      else let staticPos = lower_bound (\<lambda>e. staticPredicate mode e field) (take acceptPos staticPart)
           in if staticPos \<noteq> acceptPos then staticPos
              else acceptPos + 1
                   + lower_bound (\<lambda>e. staticPredicate mode e field) (drop (acceptPos + 1) staticPart))"

section \<open>Lookup\<close>

definition indexIsValid :: "FieldLookupTable \<Rightarrow> nat \<Rightarrow> bool" where
  "indexIsValid t index \<longleftrightarrow> index \<noteq> 0 \<and> index \<le> length staticPart + nDynamic t"

definition keyToIndex :: "FieldLookupTable \<Rightarrow> SearchEntry \<Rightarrow> nat" where
  "keyToIndex t key =
     (let chunkIndex = indexOfChunk (chunks t) (the (se_chunk key))
      in se_offset key + chunkIndex * ChunkSize - tbegin t + 1 + length staticPart)"

definition indexOf :: "bytes \<Rightarrow> bytes \<Rightarrow> FieldLookupTable \<Rightarrow> nat" where
  "indexOf name value t =
     (let field = HeaderField name value; staticPos = findInStaticPart field nameAndValue
      in if staticPos \<noteq> length staticPart \<and> hf_name (staticPart ! staticPos) = name
              \<and> hf_value (staticPart ! staticPos) = value
         then staticPos + 1
         else if \<not> useIndex t then 0
         else case set_lower_bound (SearchEntry_less t) \<lparr>se_field = field, se_chunk = None, se_offset = 0\<rparr>
                     (searchIndex t) of
                None \<Rightarrow> 0
              | Some found \<Rightarrow>
                  if hf_name (se_field found) = name \<and> hf_value (se_field found) = value
                  then keyToIndex t found else 0)"

definition indexOfName :: "bytes \<Rightarrow> FieldLookupTable \<Rightarrow> nat" where
  "indexOfName name t =
     (let field = HeaderField name []; staticPos = findInStaticPart field nameOnly
      in if staticPos \<noteq> length staticPart \<and> hf_name (staticPart ! staticPos) = name
         then staticPos + 1
         else if \<not> useIndex t then 0
         else case set_lower_bound (SearchEntry_less t) \<lparr>se_field = field, se_chunk = None, se_offset = 0\<rparr>
                     (searchIndex t) of
                None \<Rightarrow> 0
              | Some found \<Rightarrow> if hf_name (se_field found) = name then keyToIndex t found else 0)"

definition table_field :: "nat \<Rightarrow> FieldLookupTable \<Rightarrow> HeaderField option" where
  "table_field index t =
     (if \<not> indexIsValid t index then None
      else if index - 1 < length staticPart then Some (staticPart ! (index - 1))
      else let index = index - 1 - length staticPart + tbegin t;
               chunkIndex = index div ChunkSize;
               off = index mod ChunkSize
           in Some (snd (chunks t ! chunkIndex) ! off))"

definition table_fieldName :: "nat \<Rightarrow> FieldLookupTable \<Rightarrow> bytes option" where
  "table_fieldName index t = map_option hf_name (table_field index t)"

definition table_fieldValue :: "nat \<Rightarrow> FieldLookupTable \<Rightarrow> bytes option" where
  "table_fieldValue index t = map_option hf_value (table_field index t)"

definition numberOfEntries :: "FieldLookupTable \<Rightarrow> nat" where
  "numberOfEntries t = length staticPart + nDynamic t"

section \<open>Resizing\<close>

function evictToCapacity :: "FieldLookupTable \<Rightarrow> FieldLookupTable" where
  "evictToCapacity t =
     (if nDynamic t \<noteq> 0 \<and> dataSize t > tableCapacity t then evictToCapacity (evictEntry t) else t)"
  by auto
termination
  by (relation "measure nDynamic") (auto simp: evictEntry_nDynamic)

declare evictToCapacity.simps [simp del]

definition updateDynamicTableSize :: "nat \<Rightarrow> FieldLookupTable \<Rightarrow> bool \<times> FieldLookupTable" where
  "updateDynamicTableSize sz t =
     (if sz = 0 then (True, clearDynamicTable t)
      else if sz > maxTableSize t then (False, t)
      else (True, evictToCapacity (t\<lparr>tableCapacity := sz\<rparr>)))"

definition setMaxDynamicTableSize :: "nat \<Rightarrow> FieldLookupTable \<Rightarrow> FieldLookupTable" where
  "setMaxDynamicTableSize sz t = snd (updateDynamicTableSize sz (t\<lparr>maxTableSize := sz\<rparr>))"

end
