(* ===== verification/HpackTableRefine.thy ===== *)
theory HpackTableRefine
  imports HpackTable
begin

text \<open>
  The dynamic table is a list of fields, newest first (RFC 7541, 2.3.2): an abstraction of the
  chunked representation, its invariant, and the refinement of every operation. The search
  index only holds keys of live entries.
\<close>

section \<open>The abstract table\<close>

definition field_size :: "HeaderField \<Rightarrow> nat" where
  "field_size f = length (hf_name f) + length (hf_value f) + 32"

definition fields_size :: "HeaderField list \<Rightarrow> nat" where
  "fields_size fs = sum_list (map field_size fs)"

text \<open>Eviction from the back until the rest fits.\<close>

function fit :: "nat \<Rightarrow> HeaderField list \<Rightarrow> HeaderField list" where
  "fit cap fs = (if fs \<noteq> [] \<and> fields_size fs > cap then fit cap (butlast fs) else fs)"
  by auto
termination by (relation "measure (\<lambda>(cap, fs). length fs)") auto

declare fit.simps [simp del]

definition add_field :: "nat \<Rightarrow> HeaderField \<Rightarrow> HeaderField list \<Rightarrow> HeaderField list" where
  "add_field cap f fs = (if field_size f > cap then [] else f # fit (cap - field_size f) fs)"

lemma fit_size: "fields_size (fit cap fs) \<le> cap"
  by (induction cap fs rule: fit.induct) (subst fit.simps, auto simp: fields_size_def)

lemma fit_prefix: "\<exists>n. fit cap fs = take n fs"
proof (induction cap fs rule: fit.induct)
  case (1 cap fs)
  show ?case
  proof (cases "fs \<noteq> [] \<and> fields_size fs > cap")
    case True
    then obtain n where "fit cap (butlast fs) = take n (butlast fs)" using 1 by blast
    then show ?thesis using True by (auto simp: fit.simps [of cap fs] butlast_conv_take)
  next
    case False
    then have "fit cap fs = take (length fs) fs" by (subst fit.simps) auto
    then show ?thesis by blast
  qed
qed

lemma add_field_size: "fields_size (add_field cap f fs) \<le> cap"
  using fit_size [of "cap - field_size f" fs] by (auto simp: add_field_def fields_size_def)

section \<open>The abstraction and the invariant\<close>

definition field_at :: "FieldLookupTable \<Rightarrow> nat \<Rightarrow> HeaderField" where
  "field_at t p = snd (chunks t ! (p div ChunkSize)) ! (p mod ChunkSize)"

definition dyn :: "FieldLookupTable \<Rightarrow> HeaderField list" where
  "dyn t = map (field_at t) [tbegin t..<tend t]"

definition key_at :: "FieldLookupTable \<Rightarrow> nat \<Rightarrow> SearchEntry" where
  "key_at t p = \<lparr>se_field = field_at t p, se_chunk = Some (fst (chunks t ! (p div ChunkSize))),
     se_offset = p mod ChunkSize\<rparr>"

definition table_ok :: "FieldLookupTable \<Rightarrow> bool" where
  "table_ok t \<longleftrightarrow>
     (\<forall>c \<in> set (chunks t). length (snd c) = ChunkSize)
     \<and> distinct (map fst (chunks t)) \<and> (\<forall>c \<in> set (chunks t). fst c < nextChunk t)
     \<and> (if chunks t = [] then tbegin t = 0 \<and> tend t = 0
        else tbegin t \<le> ChunkSize \<and> ChunkSize * (length (chunks t) - 1) < tend t
             \<and> tend t \<le> ChunkSize * length (chunks t)
             \<and> (if tbegin t = ChunkSize then tend t = ChunkSize \<and> length (chunks t) = 1
                else tbegin t < tend t))
     \<and> nDynamic t = tend t - tbegin t
     \<and> dataSize t = fields_size (dyn t)
     \<and> dataSize t \<le> tableCapacity t \<and> tableCapacity t < 2 ^ 32
     \<and> (useIndex t \<longrightarrow> set (searchIndex t) \<subseteq> key_at t ` {tbegin t..<tend t})"

text \<open>The limit is not part of the invariant.\<close>

lemma table_ok_limit [simp]: "dyn (t\<lparr>maxTableSize := k\<rparr>) = dyn t" "table_ok (t\<lparr>maxTableSize := k\<rparr>) = table_ok t"
proof -
  have f: "field_at (t\<lparr>maxTableSize := k\<rparr>) = field_at t" "key_at (t\<lparr>maxTableSize := k\<rparr>) = key_at t"
    by (simp_all add: fun_eq_iff field_at_def key_at_def)
  then show d: "dyn (t\<lparr>maxTableSize := k\<rparr>) = dyn t" by (simp add: dyn_def)
  show "table_ok (t\<lparr>maxTableSize := k\<rparr>) = table_ok t" unfolding table_ok_def by (simp add: f d)
qed

lemma table_ok_new: "m < 2 ^ 32 \<Longrightarrow> table_ok (FieldLookupTable_new m u) \<and> dyn (FieldLookupTable_new m u) = []"
  by (simp add: table_ok_def FieldLookupTable_new_def dyn_def fields_size_def)

lemma entry_size_eq: "entry_size n v = Some k \<Longrightarrow> k = field_size (HeaderField n v)"
  by (auto simp: entry_size_def field_size_def HeaderField_def Let_def split: if_splits)

lemma entry_size_field: "field_size f < 2 ^ 32 \<Longrightarrow> entry_size (hf_name f) (hf_value f) = Some (field_size f)"
  by (simp add: entry_size_def field_size_def Let_def)

lemma dyn_length: "table_ok t \<Longrightarrow> length (dyn t) = nDynamic t"
  by (simp add: table_ok_def dyn_def)

lemma dyn_empty_iff: "table_ok t \<Longrightarrow> dyn t = [] \<longleftrightarrow> nDynamic t = 0"
  using dyn_length [of t] by auto

lemma clear_ok:
  assumes "table_ok t"
  shows "table_ok (clearDynamicTable t)" "dyn (clearDynamicTable t) = []"
  using assms by (auto simp: table_ok_def clearDynamicTable_def dyn_def fields_size_def)

lemma fields_size_butlast: "fs \<noteq> [] \<Longrightarrow> fields_size (butlast fs) = fields_size fs - field_size (last fs)"
  by (cases fs rule: rev_cases) (simp_all add: fields_size_def)

lemma last_fits: "fs \<noteq> [] \<Longrightarrow> field_size (last fs) \<le> fields_size fs"
  by (cases fs rule: rev_cases) (simp_all add: fields_size_def)

section \<open>Eviction\<close>

lemma table_back_last:
  assumes "table_ok t" "nDynamic t \<noteq> 0"
  shows "table_back t = last (dyn t)" "backKey t = key_at t (tend t - 1)"
proof -
  have "tbegin t < tend t" using assms by (auto simp: table_ok_def)
  then show "table_back t = last (dyn t)"
    by (simp add: table_back_def dyn_def field_at_def last_map Let_def)
  show "backKey t = key_at t (tend t - 1)"
    by (simp add: backKey_def key_at_def table_back_def field_at_def Let_def)
qed

lemma memcmp_refl [simp]: "memcmp xs xs n = 0"
proof (induction xs arbitrary: n)
  case Nil
  show ?case by simp
next
  case (Cons x xs)
  then show ?case by simp
qed

lemma compare_refl [simp]: "compare xs xs = 0"
  by (simp add: compare_def Let_def to_int32_id)

lemma compare_small:
  assumes "length lhs < 2 ^ 31" "length rhs < 2 ^ 31"
  shows "compare lhs rhs =
     (let minLen = min (length lhs) (length rhs);
          cmp = (if minLen \<noteq> 0 then memcmp lhs rhs minLen else 0)
      in if cmp \<noteq> 0 then cmp else int (length lhs) - int (length rhs))"
proof -
  have "to_int32 (int (min (length lhs) (length rhs))) = int (min (length lhs) (length rhs))"
    "to_int32 (int (length lhs) - int (length rhs)) = int (length lhs) - int (length rhs)"
    using assms by (simp_all add: to_int32_id)
  moreover have "nat (int (min (length lhs) (length rhs)) mod 2 ^ 64) = min (length lhs) (length rhs)"
    using assms by (subst mod_pos_pos_trivial) auto
  ultimately show ?thesis by (simp add: compare_def Let_def)
qed

lemma SearchEntry_irrefl: "\<not> SearchEntry_less t e e"
  by (simp add: SearchEntry_less_def split: option.splits)

lemma set_erase_subset: "set (set_erase lt x ys) \<subseteq> set ys"
  by (auto simp: set_erase_def)

lemma set_erase_gone: "\<not> lt x x \<Longrightarrow> x \<notin> set (set_erase lt x ys)"
  by (auto simp: set_erase_def)

lemma set_insert_subset: "set (set_insert lt x ys) \<subseteq> insert x (set ys)"
  by (induction ys) auto

text \<open>Keys name their position.\<close>

lemma key_at_inj:
  assumes "table_ok t" "p < tend t" "q < tend t" "key_at t p = key_at t q"
  shows "p = q"
proof -
  have r: "p div ChunkSize < length (chunks t)" "q div ChunkSize < length (chunks t)"
    using assms by (auto simp: table_ok_def div_less_iff_less_mult ChunkSize_def mult.commute split: if_splits)
  have "p mod ChunkSize = q mod ChunkSize" "fst (chunks t ! (p div ChunkSize)) = fst (chunks t ! (q div ChunkSize))"
    using assms(4) by (simp_all add: key_at_def)
  moreover have "distinct (map fst (chunks t))" using assms(1) by (simp add: table_ok_def)
  ultimately have "p div ChunkSize = q div ChunkSize"
    using r by (simp add: distinct_conv_nth) metis
  with \<open>p mod ChunkSize = q mod ChunkSize\<close> show ?thesis by (metis div_mult_mod_eq)
qed

lemma evictEntry_ok:
  assumes ok: "table_ok t" and n: "nDynamic t \<noteq> 0"
  shows "table_ok (evictEntry t) \<and> dyn (evictEntry t) = butlast (dyn t)
    \<and> tableCapacity (evictEntry t) = tableCapacity t \<and> maxTableSize (evictEntry t) = maxTableSize t
    \<and> useIndex (evictEntry t) = useIndex t"
proof -
  define sx where "sx = (if useIndex t then set_erase (SearchEntry_less t) (backKey t) (searchIndex t) else searchIndex t)"
  define t2 where "t2 = t\<lparr>searchIndex := sx, dataSize := dataSize t - field_size (last (dyn t)),
    nDynamic := nDynamic t - 1, tend := tend t - 1\<rparr>"
  have be: "tbegin t < tend t" using ok n by (auto simp: table_ok_def)
  have ne: "dyn t \<noteq> []" using dyn_empty_iff [OF ok] n by simp
  have c: "chunks t \<noteq> []" using ok n by (auto simp: table_ok_def)
  have sz: "dataSize t = fields_size (dyn t)" "dataSize t \<le> tableCapacity t" "tableCapacity t < 2 ^ 32"
    using ok by (simp_all add: table_ok_def)
  have "field_size (last (dyn t)) < 2 ^ 32" using last_fits [OF ne] sz by linarith
  note es = entry_size_field [OF this]
  have tb: "table_back (t\<lparr>searchIndex := y\<rparr>) = last (dyn t)" for y
    using table_back_last(1) [OF ok n] by (simp add: table_back_def)
  have ev: "evictEntry t = (if tend t2 = tbegin t2 then t2\<lparr>tend := ChunkSize, tbegin := ChunkSize\<rparr>
              else if tend t2 mod ChunkSize = 0 then t2\<lparr>chunks := butlast (chunks t2)\<rparr> else t2)"
    using n tb [of "searchIndex t"] tb [of sx] es
    by (auto simp: evictEntry_def t2_def sx_def Let_def)
  have dyn2: "map (field_at t) [tbegin t..<tend t - 1] = butlast (dyn t)"
    using be by (simp add: dyn_def butlast_conv_take take_map)
  have size2: "dataSize t2 = fields_size (butlast (dyn t))"
    using fields_size_butlast [OF ne] sz by (simp add: t2_def)
  have cap2: "dataSize t2 \<le> tableCapacity t" using sz by (simp add: t2_def)
  have keys2: "set sx \<subseteq> key_at t ` {tbegin t..<tend t - 1}" if u: "useIndex t"
  proof
    fix e assume "e \<in> set sx"
    then have e: "e \<in> set (searchIndex t)" "e \<noteq> backKey t"
      using u set_erase_subset [of "SearchEntry_less t" "backKey t" "searchIndex t"]
        set_erase_gone [of "SearchEntry_less t" "backKey t" "searchIndex t", OF SearchEntry_irrefl]
      by (auto simp: sx_def)
    then obtain p where p: "e = key_at t p" "tbegin t \<le> p" "p < tend t"
      using ok u by (auto simp: table_ok_def)
    then have "p \<noteq> tend t - 1" using e(2) table_back_last(2) [OF ok n] by auto
    with p show "e \<in> key_at t ` {tbegin t..<tend t - 1}" by auto
  qed
  show ?thesis
  proof (cases "tend t - 1 = tbegin t")
    case True
    then have "dyn (evictEntry t) = []" "butlast (dyn t) = []"
      using dyn2 by (simp_all add: ev t2_def dyn_def)
    moreover have "tend t - 1 < ChunkSize \<and> length (chunks t) = 1"
      using ok True be c by (auto simp: table_ok_def ChunkSize_def split: if_splits)
    ultimately show ?thesis
      using ok True c size2 cap2 keys2
      by (auto simp: table_ok_def ev t2_def fields_size_def dyn_def ChunkSize_def)
  next
    case False
    then have b: "tbegin t < ChunkSize" "tbegin t < tend t - 1"
      using ok be c by (auto simp: table_ok_def split: if_splits)
    show ?thesis
    proof (cases "(tend t - 1) mod ChunkSize = 0")
      case True
      define m where "m = (tend t - 1) div ChunkSize"
      have m: "tend t - 1 = ChunkSize * m" using True by (auto simp: m_def ChunkSize_def)
      have cm: "length (chunks t) = m + 1"
        using ok c m be by (auto simp: table_ok_def ChunkSize_def split: if_splits)
      have inner: "p div ChunkSize < m" if "p < tend t - 1" for p
        using that m by (simp add: div_less_iff_less_mult ChunkSize_def mult.commute)
      have same: "field_at (evictEntry t) p = field_at t p" "key_at (evictEntry t) p = key_at t p"
        if "p < tend t - 1" for p
        using inner [OF that] cm True False
        by (simp_all add: ev t2_def field_at_def key_at_def nth_butlast)
      have be': "tbegin (evictEntry t) = tbegin t" "tend (evictEntry t) = tend t - 1"
        using True False by (simp_all add: ev t2_def)
      have "dyn (evictEntry t) = butlast (dyn t)"
        unfolding dyn2 [symmetric] dyn_def [of "evictEntry t"] be' by (rule map_cong) (simp_all add: same)
      moreover have "key_at (evictEntry t) ` {tbegin t..<tend t - 1} = key_at t ` {tbegin t..<tend t - 1}"
        by (rule image_cong) (simp_all add: same)
      moreover have m0: "m \<noteq> 0" using m b by (cases m) auto
      moreover have f: "chunks (evictEntry t) = butlast (chunks t)" "nDynamic (evictEntry t) = nDynamic t - 1"
        "dataSize (evictEntry t) = fields_size (butlast (dyn t))" "tableCapacity (evictEntry t) = tableCapacity t"
        "maxTableSize (evictEntry t) = maxTableSize t" "useIndex (evictEntry t) = useIndex t"
        "searchIndex (evictEntry t) = sx" "nextChunk (evictEntry t) = nextChunk t"
        using True False size2 by (simp_all add: ev t2_def)
      moreover have "butlast (chunks t) \<noteq> []" "length (butlast (chunks t)) = m"
        using cm m0 by (auto simp: length_greater_0_conv [symmetric] simp del: length_greater_0_conv)
      moreover have "distinct (map fst (butlast (chunks t)))"
        "\<forall>c \<in> set (butlast (chunks t)). length (snd c) = ChunkSize \<and> fst c < nextChunk t"
        using ok by (auto simp: table_ok_def map_butlast distinct_butlast dest: in_set_butlastD)
      moreover have "nDynamic t = tend t - tbegin t" using ok by (simp add: table_ok_def)
      moreover have "ChunkSize * (m - 1) < tend t - 1 \<and> tend t - 1 \<le> ChunkSize * m"
        using m m0 by (simp add: ChunkSize_def)
      ultimately show ?thesis
        using be' b cap2 keys2 sz(3) size2 unfolding table_ok_def by simp
    next
      case no: False
      have same: "field_at (evictEntry t) p = field_at t p" "key_at (evictEntry t) p = key_at t p" for p
        using no False by (simp_all add: ev t2_def field_at_def key_at_def)
      have be': "tbegin (evictEntry t) = tbegin t" "tend (evictEntry t) = tend t - 1"
        using no False by (simp_all add: ev t2_def)
      have "dyn (evictEntry t) = butlast (dyn t)"
        unfolding dyn2 [symmetric] dyn_def [of "evictEntry t"] be' by (rule map_cong) (simp_all add: same)
      moreover have "ChunkSize * (length (chunks t) - 1) < tend t - 1"
      proof -
        have "ChunkSize * (length (chunks t) - 1) \<le> tend t - 1" using ok c by (auto simp: table_ok_def)
        moreover have "tend t - 1 \<noteq> ChunkSize * (length (chunks t) - 1)" using no by auto
        ultimately show ?thesis by simp
      qed
      ultimately show ?thesis
        using ok no False c size2 cap2 keys2 b same
        by (auto simp: table_ok_def ev t2_def)
    qed
  qed
qed


lemma u32_diff_eq: "b \<le> a \<Longrightarrow> a < 2 ^ 32 \<Longrightarrow> u32_diff a b = a - b"
proof -
  assume a: "b \<le> a" "a < 2 ^ 32"
  then have "a + 2 ^ 32 - b = (a - b) + 2 ^ 32" by simp
  then have "u32_diff a b = ((a - b) + 2 ^ 32) mod 2 ^ 32" by (simp only: u32_diff_def)
  also have "\<dots> = (a - b) mod 2 ^ 32" by (rule mod_add_self2)
  finally show ?thesis using a by simp
qed

lemma evictFor_ok:
  assumes "table_ok t" "k \<le> tableCapacity t"
  shows "table_ok (evictFor k t) \<and> dyn (evictFor k t) = fit (tableCapacity t - k) (dyn t)
    \<and> tableCapacity (evictFor k t) = tableCapacity t \<and> maxTableSize (evictFor k t) = maxTableSize t
    \<and> useIndex (evictFor k t) = useIndex t"
  using assms
proof (induction k t rule: evictFor.induct)
  case (1 k t)
  have sz: "dataSize t = fields_size (dyn t)" "dataSize t \<le> tableCapacity t" "tableCapacity t < 2 ^ 32"
    using "1.prems" by (simp_all add: table_ok_def)
  have c: "nDynamic t \<noteq> 0 \<and> u32_diff (tableCapacity t) (dataSize t) < k
      \<longleftrightarrow> dyn t \<noteq> [] \<and> fields_size (dyn t) > tableCapacity t - k"
    using dyn_empty_iff [OF "1.prems"(1)] "1.prems"(2) sz by (auto simp: u32_diff_eq)
  show ?case
  proof (cases "nDynamic t \<noteq> 0 \<and> u32_diff (tableCapacity t) (dataSize t) < k")
    case True
    note e = evictEntry_ok [OF "1.prems"(1) conjunct1 [OF True]]
    have "fit (tableCapacity t - k) (dyn t) = fit (tableCapacity t - k) (butlast (dyn t))"
      using True c by (subst fit.simps) simp
    moreover have "evictFor k t = evictFor k (evictEntry t)" using True by (subst evictFor.simps) simp
    ultimately show ?thesis using "1.IH" [OF True] e "1.prems"(2) by simp
  next
    case False
    then have "evictFor k t = t" by (subst evictFor.simps) (simp only: if_False)
    moreover have "fit (tableCapacity t - k) (dyn t) = dyn t" using False c by (subst fit.simps) auto
    ultimately show ?thesis using "1.prems" by simp
  qed
qed

text \<open>While evicting to a smaller capacity the data may exceed it: the invariant of the bound.\<close>

lemma table_ok_capacity:
  "table_ok t \<Longrightarrow> fields_size (dyn t) \<le> c \<Longrightarrow> c < 2 ^ 32 \<Longrightarrow>
   table_ok (t\<lparr>tableCapacity := c\<rparr>) \<and> dyn (t\<lparr>tableCapacity := c\<rparr>) = dyn t"
proof -
  assume "table_ok t" "fields_size (dyn t) \<le> c" "c < 2 ^ 32"
  moreover have "field_at (t\<lparr>tableCapacity := c\<rparr>) = field_at t" "key_at (t\<lparr>tableCapacity := c\<rparr>) = key_at t"
    by (simp_all add: fun_eq_iff field_at_def key_at_def)
  ultimately show ?thesis by (auto simp: table_ok_def dyn_def)
qed

lemma evictEntry_capacity: "evictEntry (t\<lparr>tableCapacity := c\<rparr>) = (evictEntry t)\<lparr>tableCapacity := c\<rparr>"
proof -
  have b: "table_back (t\<lparr>tableCapacity := c, searchIndex := sx\<rparr>) = table_back t"
    "table_back (t\<lparr>searchIndex := sx\<rparr>) = table_back t"
    "table_back (t\<lparr>tableCapacity := c\<rparr>) = table_back t" "backKey (t\<lparr>tableCapacity := c\<rparr>) = backKey t"
    "SearchEntry_less (t\<lparr>tableCapacity := c\<rparr>) = SearchEntry_less t" for sx
    by (auto simp: fun_eq_iff table_back_def backKey_def SearchEntry_less_def Let_def split: option.splits)
  show ?thesis by (simp add: evictEntry_def b Let_def)
qed

lemma evictToCapacity_ok:
  assumes "table_ok t" "c < 2 ^ 32"
  shows "table_ok (evictToCapacity (t\<lparr>tableCapacity := c\<rparr>))
    \<and> dyn (evictToCapacity (t\<lparr>tableCapacity := c\<rparr>)) = fit c (dyn t)
    \<and> tableCapacity (evictToCapacity (t\<lparr>tableCapacity := c\<rparr>)) = c
    \<and> maxTableSize (evictToCapacity (t\<lparr>tableCapacity := c\<rparr>)) = maxTableSize t
    \<and> useIndex (evictToCapacity (t\<lparr>tableCapacity := c\<rparr>)) = useIndex t"
  using assms(1)
proof (induction "nDynamic t" arbitrary: t rule: less_induct)
  case less
  let ?t = "t\<lparr>tableCapacity := c\<rparr>"
  have d: "dataSize t = fields_size (dyn t)" using less.prems by (simp add: table_ok_def)
  have cond: "nDynamic ?t \<noteq> 0 \<and> dataSize ?t > tableCapacity ?t \<longleftrightarrow> dyn t \<noteq> [] \<and> fields_size (dyn t) > c"
    using dyn_empty_iff [OF less.prems] d by simp
  show ?case
  proof (cases "nDynamic t \<noteq> 0 \<and> dataSize t > c")
    case True
    note e = evictEntry_ok [OF less.prems conjunct1 [OF True]]
    have "evictToCapacity ?t = evictToCapacity (evictEntry ?t)" using True by (subst evictToCapacity.simps) simp
    also have "\<dots> = evictToCapacity ((evictEntry t)\<lparr>tableCapacity := c\<rparr>)" by (simp only: evictEntry_capacity)
    finally have "evictToCapacity ?t = evictToCapacity ((evictEntry t)\<lparr>tableCapacity := c\<rparr>)" .
    moreover have "nDynamic (evictEntry t) < nDynamic t" using True by (simp add: evictEntry_nDynamic)
    moreover have "fit c (dyn t) = fit c (butlast (dyn t))" using True cond by (subst fit.simps) simp
    ultimately show ?thesis using less.hyps [of "evictEntry t"] e by simp
  next
    case False
    then have "evictToCapacity ?t = ?t" by (subst evictToCapacity.simps) (rule if_not_P, simp)
    moreover have "fields_size (dyn t) \<le> c"
      using False cond by (cases "dyn t = []") (auto simp: fields_size_def)
    moreover from this have "fit c (dyn t) = dyn t" by (subst fit.simps) simp
    ultimately show ?thesis using table_ok_capacity [OF less.prems, of c] assms(2) by simp
  qed
qed

section \<open>Insertion\<close>

text \<open>Making room for one more field in front: a new chunk when the first one is full.\<close>

definition make_room :: "FieldLookupTable \<Rightarrow> FieldLookupTable" where
  "make_room t = (if tbegin t = 0
     then t\<lparr>chunks := (nextChunk t, replicate ChunkSize (HeaderField [] [])) # chunks t,
            nextChunk := nextChunk t + 1, tend := tend t + ChunkSize, tbegin := ChunkSize\<rparr>
     else t)"

lemma make_room_positions:
  assumes "table_ok t"
  defines "s \<equiv> (if tbegin t = 0 then ChunkSize else 0)"
  shows "tbegin (make_room t) = tbegin t + s" "tend (make_room t) = tend t + s"
    and "field_at (make_room t) (p + s) = field_at t p" "key_at (make_room t) (p + s) = key_at t p"
    and "chunks (make_room t) \<noteq> []" "0 < tbegin (make_room t)" "tbegin (make_room t) \<le> ChunkSize"
    and "tend (make_room t) - tbegin (make_room t) = nDynamic t"
    and "\<forall>c \<in> set (chunks (make_room t)). length (snd c) = ChunkSize \<and> fst c < nextChunk (make_room t)"
    and "distinct (map fst (chunks (make_room t)))"
    and "ChunkSize * (length (chunks (make_room t)) - 1) < tend (make_room t)"
    and "tend (make_room t) \<le> ChunkSize * length (chunks (make_room t))"
    and "tbegin (make_room t) \<le> tend (make_room t)"
proof -
  have c: "(q + 16) div 16 = Suc (q div 16)" "(q + 16) mod 16 = q mod 16" for q :: nat by simp_all
  show "tbegin (make_room t) = tbegin t + s" "tend (make_room t) = tend t + s"
    "0 < tbegin (make_room t)"
    by (simp_all add: make_room_def s_def ChunkSize_def)
  show "field_at (make_room t) (p + s) = field_at t p" "key_at (make_room t) (p + s) = key_at t p"
    by (simp_all add: make_room_def s_def field_at_def key_at_def ChunkSize_def c)
  show "chunks (make_room t) \<noteq> []" "tbegin (make_room t) \<le> ChunkSize"
    and "tend (make_room t) - tbegin (make_room t) = nDynamic t"
    and "\<forall>c \<in> set (chunks (make_room t)). length (snd c) = ChunkSize \<and> fst c < nextChunk (make_room t)"
    and "distinct (map fst (chunks (make_room t)))"
    and "tbegin (make_room t) \<le> tend (make_room t)"
    using assms(1) by (auto simp: make_room_def table_ok_def less_Suc_eq split: if_splits)
  show "ChunkSize * (length (chunks (make_room t)) - 1) < tend (make_room t)"
    and "tend (make_room t) \<le> ChunkSize * length (chunks (make_room t))"
    using assms(1) by (cases "chunks t"; auto simp: make_room_def table_ok_def ChunkSize_def split: if_splits)+
qed


definition insert_front :: "HeaderField \<Rightarrow> nat \<Rightarrow> FieldLookupTable \<Rightarrow> FieldLookupTable" where
  "insert_front f k t =
     (let t = t\<lparr>tbegin := tbegin t - 1, dataSize := dataSize t + k, nDynamic := nDynamic t + 1\<rparr>;
          (c, fields) = hd (chunks t);
          t = t\<lparr>chunks := (c, fields[tbegin t := f]) # tl (chunks t)\<rparr>
      in if useIndex t
         then t\<lparr>searchIndex := set_insert (SearchEntry_less t) (frontKey t) (searchIndex t)\<rparr> else t)"

lemma prependField_steps:
  "prependField n v t = (case entry_size n v of
      None \<Rightarrow> (False, t)
    | Some k \<Rightarrow> if k > tableCapacity t then (True, clearDynamicTable t)
                else (True, insert_front (HeaderField n v) k (make_room (evictFor k t))))"
  by (simp add: prependField_def insert_front_def make_room_def Let_def split: option.splits prod.splits)

lemma insert_front_ok:
  assumes ok: "table_ok t" and k: "k = field_size f" "fields_size (dyn t) + k \<le> tableCapacity t"
  shows "table_ok (insert_front f k (make_room t)) \<and> dyn (insert_front f k (make_room t)) = f # dyn t
    \<and> tableCapacity (insert_front f k (make_room t)) = tableCapacity t
    \<and> maxTableSize (insert_front f k (make_room t)) = maxTableSize t
    \<and> useIndex (insert_front f k (make_room t)) = useIndex t"
proof -
  define r where "r = make_room t"
  define s where "s = (if tbegin t = 0 then ChunkSize else 0)"
  note m = make_room_positions [OF ok, folded r_def s_def]
  obtain c0 fl cs where ch: "chunks r = (c0, fl) # cs" using m(5) by (cases "chunks r") auto
  have fl: "length fl = ChunkSize" using m(9) ch by simp
  define r1 where "r1 = r\<lparr>tbegin := tbegin r - 1, dataSize := dataSize r + k, nDynamic := nDynamic r + 1,
    chunks := (c0, fl[tbegin r - 1 := f]) # cs\<rparr>"
  define r2 where "r2 = insert_front f k r"
  have r2: "r2 = (if useIndex r then r1\<lparr>searchIndex := set_insert (SearchEntry_less r1) (frontKey r1) (searchIndex r)\<rparr> else r1)"
    by (simp add: r2_def insert_front_def ch r1_def Let_def)
  have same: "tableCapacity r = tableCapacity t" "maxTableSize r = maxTableSize t" "useIndex r = useIndex t"
    "dataSize r = dataSize t" "nDynamic r = nDynamic t" "searchIndex r = searchIndex t"
    by (simp_all add: r_def make_room_def)
  have b: "tbegin r - 1 < ChunkSize" "(tbegin r - 1) div ChunkSize = 0" "(tbegin r - 1) mod ChunkSize = tbegin r - 1"
    using m(6,7) by (simp_all add: ChunkSize_def)
  have f2: "chunks r2 = (c0, fl[tbegin r - 1 := f]) # cs" "tbegin r2 = tbegin r - 1" "tend r2 = tend r"
    "nDynamic r2 = nDynamic r + 1" "dataSize r2 = dataSize r + k" "tableCapacity r2 = tableCapacity r"
    "maxTableSize r2 = maxTableSize r" "useIndex r2 = useIndex r" "nextChunk r2 = nextChunk r"
    by (simp_all add: r2 r1_def)
  have front: "field_at r2 (tbegin r - 1) = f"
    using b fl by (simp add: field_at_def f2)
  have rest: "field_at r2 p = field_at r p" "key_at r2 p = key_at r p" if "tbegin r \<le> p" for p
  proof -
    have "p div ChunkSize = 0 \<Longrightarrow> p mod ChunkSize \<noteq> tbegin r - 1"
      using that m(6) by (auto simp: ChunkSize_def)
    then show "field_at r2 p = field_at r p"
      by (cases "p div ChunkSize") (simp_all add: field_at_def f2 ch)
    then show "key_at r2 p = key_at r p"
      by (cases "p div ChunkSize") (simp_all add: key_at_def f2 ch)
  qed
  have "[tbegin r2..<tend r2] = (tbegin r - 1) # [tbegin r..<tend r]"
    using m(6,13) by (simp add: f2 upt_conv_Cons)
  then have "dyn r2 = f # map (field_at r) [tbegin r..<tend r]"
    by (simp add: dyn_def front [simplified] rest)
  also have "map (field_at r) [tbegin r..<tend r] = dyn t"
  proof -
    have "[tbegin r..<tend r] = map (\<lambda>p. p + s) [tbegin t..<tend t]"
      by (rule nth_equalityI) (simp_all add: m(1,2))
    then show ?thesis by (simp add: dyn_def comp_def m(3))
  qed
  finally have d: "dyn r2 = f # dyn t" .
  have key_front: "frontKey r1 = key_at r2 (tbegin r - 1)"
    using b by (simp add: frontKey_def key_at_def table_front_def field_at_def f2 r1_def)
  have keys: "set (searchIndex r2) \<subseteq> key_at r2 ` {tbegin r2..<tend r2}" if "useIndex r2"
  proof -
    have "set (searchIndex t) \<subseteq> key_at t ` {tbegin t..<tend t}"
      using ok that by (simp add: table_ok_def f2 same)
    also have "\<dots> = key_at r2 ` {tbegin r..<tend r}"
    proof -
      have "{tbegin r..<tend r} = (\<lambda>p. p + s) ` {tbegin t..<tend t}" using m(1,2) by simp
      then have "key_at r2 ` {tbegin r..<tend r} = (\<lambda>p. key_at r2 (p + s)) ` {tbegin t..<tend t}"
        by (simp only: image_image)
      also have "\<dots> = key_at t ` {tbegin t..<tend t}"
        using m(1,4) by (intro image_cong) (simp_all add: rest)
      finally show ?thesis by simp
    qed
    finally have "set (searchIndex t) \<subseteq> key_at r2 ` {tbegin r..<tend r}" .
    moreover have "set (searchIndex r2) \<subseteq> insert (frontKey r1) (set (searchIndex t))"
    proof -
      have "useIndex r" using that by (simp add: f2)
      then show ?thesis
        using set_insert_subset [of "SearchEntry_less r1" "frontKey r1" "searchIndex r"] same(6)
        by (simp add: r2)
    qed
    moreover have "{tbegin r2..<tend r2} = insert (tbegin r - 1) {tbegin r..<tend r}"
      using m(6,13) by (auto simp: f2)
    ultimately show ?thesis unfolding key_front by auto
  qed
  have "\<forall>c \<in> set (chunks r2). length (snd c) = ChunkSize \<and> fst c < nextChunk r2"
    "distinct (map fst (chunks r2))" using m(9,10) by (simp_all add: f2 ch)
  moreover have "length (chunks r2) = length (chunks r)" by (simp add: f2 ch)
  moreover have "dataSize r2 = fields_size (dyn r2)" "dataSize r2 \<le> tableCapacity r2" "tableCapacity r2 < 2 ^ 32"
    using ok k d by (simp_all add: f2 same table_ok_def fields_size_def)
  moreover have "nDynamic r2 = tend r2 - tbegin r2" using m(6,8,13) by (simp add: f2 same)
  ultimately have "table_ok r2"
    using keys m(6,7,11,12,13) b(1) unfolding table_ok_def by (simp add: f2)
  then show ?thesis using d f2 same by (simp add: r2_def r_def)
qed

lemma prependField_ok:
  assumes ok: "table_ok t" and e: "entry_size n v = Some k"
  defines "t' \<equiv> snd (prependField n v t)"
  shows "fst (prependField n v t) \<and> table_ok t' \<and> dyn t' = add_field (tableCapacity t) (HeaderField n v) (dyn t)
    \<and> tableCapacity t' = tableCapacity t \<and> maxTableSize t' = maxTableSize t \<and> useIndex t' = useIndex t"
proof -
  have k: "k = field_size (HeaderField n v)" by (rule entry_size_eq [OF e])
  show ?thesis
  proof (cases "k > tableCapacity t")
    case True
    then show ?thesis
      using clear_ok [OF ok] e k by (simp add: t'_def prependField_steps add_field_def clearDynamicTable_def)
  next
    case False
    note v = evictFor_ok [OF ok, of k]
    have "fields_size (dyn (evictFor k t)) + k \<le> tableCapacity (evictFor k t)"
      using v False fit_size [of "tableCapacity t - k" "dyn t"] by auto
    from insert_front_ok [OF _ k this] v False show ?thesis
      by (simp add: t'_def prependField_steps e add_field_def k)
  qed
qed

lemma updateSize_ok:
  assumes "table_ok t" "sz < 2 ^ 32"
  defines "t' \<equiv> snd (updateDynamicTableSize sz t)"
  shows "fst (updateDynamicTableSize sz t) = (sz \<le> maxTableSize t)"
    and "table_ok t'"
    and "dyn t' = (if sz \<le> maxTableSize t then fit sz (dyn t) else dyn t)"
    and "maxTableSize t' = maxTableSize t" "useIndex t' = useIndex t"
    and "sz \<noteq> 0 \<Longrightarrow> tableCapacity t' = (if sz \<le> maxTableSize t then sz else tableCapacity t)"
proof -
  have "fit 0 (dyn t) = []"
  proof -
    have "fields_size (fit 0 (dyn t)) = 0" using fit_size [of 0 "dyn t"] by simp
    then show ?thesis by (cases "fit 0 (dyn t)") (simp_all add: fields_size_def field_size_def)
  qed
  then show "fst (updateDynamicTableSize sz t) = (sz \<le> maxTableSize t)" "table_ok t'"
    "dyn t' = (if sz \<le> maxTableSize t then fit sz (dyn t) else dyn t)"
    "maxTableSize t' = maxTableSize t" "useIndex t' = useIndex t"
    "sz \<noteq> 0 \<Longrightarrow> tableCapacity t' = (if sz \<le> maxTableSize t then sz else tableCapacity t)"
    using evictToCapacity_ok [OF assms(1,2)] clear_ok [OF assms(1)] assms(1)
    by (auto simp: t'_def updateDynamicTableSize_def clearDynamicTable_def)
qed

section \<open>Lookup\<close>

lemma table_field_eq:
  assumes "table_ok t"
  shows "table_field i t = (if i = 0 then None
     else if i \<le> length staticPart then Some (staticPart ! (i - 1))
     else if i - 1 - length staticPart < length (dyn t) then Some (dyn t ! (i - 1 - length staticPart))
     else None)"
proof -
  have l: "length (dyn t) = nDynamic t" using dyn_length [OF assms] .
  have "dyn t ! j = field_at t (j + tbegin t)" if "j < nDynamic t" for j
    using that assms by (simp add: dyn_def table_ok_def add.commute)
  then show ?thesis
    using l by (auto simp: table_field_def indexIsValid_def field_at_def Let_def)
qed

lemma indexOfChunk_nth: "distinct (map fst cs) \<Longrightarrow> j < length cs \<Longrightarrow> indexOfChunk cs (fst (cs ! j)) = j"
proof (induction cs arbitrary: j)
  case (Cons c cs)
  show ?case
  proof (cases j)
    case (Suc k)
    then have "fst (cs ! k) \<in> fst ` set cs" using Cons.prems by simp
    moreover have "fst c \<notin> fst ` set cs" using Cons.prems(1) by simp
    ultimately have "fst c \<noteq> fst (cs ! k)" by metis
    then show ?thesis using Suc Cons by simp
  qed simp
qed simp

lemma keyToIndex_field:
  assumes ok: "table_ok t" and p: "tbegin t \<le> p" "p < tend t"
  shows "table_field (keyToIndex t (key_at t p)) t = Some (field_at t p)" "keyToIndex t (key_at t p) \<noteq> 0"
proof -
  have "p div ChunkSize < length (chunks t)"
    using ok p by (auto simp: table_ok_def div_less_iff_less_mult ChunkSize_def mult.commute split: if_splits)
  then have "indexOfChunk (chunks t) (the (se_chunk (key_at t p))) = p div ChunkSize"
    using ok indexOfChunk_nth [of "chunks t" "p div ChunkSize"] by (simp add: key_at_def table_ok_def)
  moreover have "p mod ChunkSize + p div ChunkSize * ChunkSize = p" by simp
  ultimately have k: "keyToIndex t (key_at t p) = p - tbegin t + 1 + length staticPart"
    by (simp add: keyToIndex_def Let_def) (simp add: key_at_def)
  have "length (dyn t) = tend t - tbegin t" "p - tbegin t < tend t - tbegin t"
    using p by (simp_all add: dyn_def)
  then show "table_field (keyToIndex t (key_at t p)) t = Some (field_at t p)" "keyToIndex t (key_at t p) \<noteq> 0"
    using p unfolding table_field_eq [OF ok] k by (simp_all add: dyn_def)
qed

lemma lower_bound_member: "set_lower_bound lt x ys = Some y \<Longrightarrow> y \<in> set ys"
proof -
  assume "set_lower_bound lt x ys = Some y"
  then have "y \<in> set (dropWhile (\<lambda>y. lt y x) ys)" by (auto simp: set_lower_bound_def split: list.splits)
  then show ?thesis by (rule set_dropWhileD)
qed

lemma staticPart_length [simp]: "length staticPart = 61"
  by (simp add: staticPart_def)

lemma findInStaticPart_bound: "findInStaticPart f m \<le> 61"
proof -
  have "lower_bound p (drop (acceptPos + 1) staticPart) \<le> 42" for p
    using length_takeWhile_le [of p "drop (acceptPos + 1) staticPart"] by (simp add: lower_bound_def acceptPos_def)
  moreover have "lower_bound p (take acceptPos staticPart) \<le> 18" for p
    using length_takeWhile_le [of p "take acceptPos staticPart"] by (simp add: lower_bound_def acceptPos_def)
  moreover have "x \<le> 18 \<Longrightarrow> y \<le> 42 \<Longrightarrow> (if x \<noteq> 18 then x else 18 + 1 + y) \<le> (61 :: nat)" for x y by simp
  ultimately show ?thesis unfolding findInStaticPart_def Let_def acceptPos_def by (simp del: One_nat_def)
qed

text \<open>What the search finds is there.\<close>

lemma indexed_key:
  assumes ok: "table_ok t" and "useIndex t"
    and "set_lower_bound (SearchEntry_less t) key (searchIndex t) = Some e"
  shows "table_field (keyToIndex t e) t = Some (se_field e)" "keyToIndex t e \<noteq> 0"
proof -
  have "e \<in> set (searchIndex t)" using lower_bound_member [OF assms(3)] .
  then obtain p where p: "e = key_at t p" "tbegin t \<le> p" "p < tend t"
    using ok assms(2) by (auto simp: table_ok_def)
  then show "table_field (keyToIndex t e) t = Some (se_field e)" "keyToIndex t e \<noteq> 0"
    using keyToIndex_field [OF ok p(2,3)] by (simp_all add: key_at_def)
qed

lemma indexOf_field:
  assumes ok: "table_ok t" and i: "indexOf n v t \<noteq> 0"
  shows "table_field (indexOf n v t) t = Some (HeaderField n v)"
proof -
  let ?pos = "findInStaticPart (HeaderField n v) nameAndValue"
  show ?thesis
  proof (cases "?pos \<noteq> length staticPart \<and> hf_name (staticPart ! ?pos) = n \<and> hf_value (staticPart ! ?pos) = v")
    case True
    then have "indexOf n v t = ?pos + 1" by (simp add: indexOf_def Let_def)
    moreover have "?pos < 61" using True findInStaticPart_bound [of "HeaderField n v" nameAndValue] by simp
    moreover have "staticPart ! ?pos = HeaderField n v" using True by (simp add: HeaderField_def)
    ultimately show ?thesis by (simp add: table_field_eq [OF ok])
  next
    case False
    then show ?thesis
      using i indexed_key [OF ok]
      by (auto simp: indexOf_def HeaderField_def Let_def split: option.splits if_splits)
  qed
qed

lemma indexOfName_field:
  assumes ok: "table_ok t" and i: "indexOfName n t \<noteq> 0"
  shows "table_fieldName (indexOfName n t) t = Some n"
proof -
  let ?pos = "findInStaticPart (HeaderField n []) nameOnly"
  show ?thesis
  proof (cases "?pos \<noteq> length staticPart \<and> hf_name (staticPart ! ?pos) = n")
    case True
    then have "indexOfName n t = ?pos + 1" by (simp add: indexOfName_def Let_def)
    moreover have "?pos < 61" using True findInStaticPart_bound [of "HeaderField n []" nameOnly] by simp
    ultimately show ?thesis using True by (simp add: table_fieldName_def table_field_eq [OF ok])
  next
    case False
    then show ?thesis
      using i indexed_key [OF ok]
      by (auto simp: indexOfName_def table_fieldName_def Let_def split: option.splits if_splits)
  qed
qed

section \<open>The contract of the header table\<close>

text \<open>The index space of RFC 7541, 2.3.3: the static table, then the dynamic table.\<close>

definition spec_field :: "nat \<Rightarrow> HeaderField list \<Rightarrow> HeaderField option" where
  "spec_field i fs =
     (if i = 0 then None
      else if i \<le> length (staticPart @ fs) then Some ((staticPart @ fs) ! (i - 1)) else None)"

locale header_table =
  fixes inv :: "'t \<Rightarrow> bool" and content :: "'t \<Rightarrow> HeaderField list"
    and capacity :: "'t \<Rightarrow> nat" and limit :: "'t \<Rightarrow> nat"
    and prepend :: "bytes \<Rightarrow> bytes \<Rightarrow> 't \<Rightarrow> bool \<times> 't" and resize :: "nat \<Rightarrow> 't \<Rightarrow> bool \<times> 't"
    and look :: "nat \<Rightarrow> 't \<Rightarrow> HeaderField option"
    and find_pair :: "bytes \<Rightarrow> bytes \<Rightarrow> 't \<Rightarrow> nat" and find_nm :: "bytes \<Rightarrow> 't \<Rightarrow> nat"
  assumes prepend_inv: "inv t \<Longrightarrow> inv (snd (prepend n v t))"
    and prepend_flag: "inv t \<Longrightarrow> fst (prepend n v t) \<longleftrightarrow> entry_size n v \<noteq> None"
    and prepend_content: "inv t \<Longrightarrow> content (snd (prepend n v t)) =
          (if entry_size n v = None then content t else add_field (capacity t) (HeaderField n v) (content t))"
    and prepend_capacity: "inv t \<Longrightarrow> capacity (snd (prepend n v t)) = capacity t"
    and prepend_limit: "inv t \<Longrightarrow> limit (snd (prepend n v t)) = limit t"
    and resize_inv: "inv t \<Longrightarrow> k < 2 ^ 32 \<Longrightarrow> inv (snd (resize k t))"
    and resize_flag: "inv t \<Longrightarrow> k < 2 ^ 32 \<Longrightarrow> fst (resize k t) \<longleftrightarrow> k \<le> limit t"
    and resize_content: "inv t \<Longrightarrow> k < 2 ^ 32 \<Longrightarrow> k \<le> limit t \<Longrightarrow>
          content (snd (resize k t)) = fit k (content t)"
    and resize_capacity: "inv t \<Longrightarrow> k < 2 ^ 32 \<Longrightarrow> k \<le> limit t \<Longrightarrow>
          capacity (snd (resize k t)) = (if k = 0 then capacity t else k)"
    and resize_limit: "inv t \<Longrightarrow> k < 2 ^ 32 \<Longrightarrow> limit (snd (resize k t)) = limit t"
    and look_content: "inv t \<Longrightarrow> look i t = spec_field i (content t)"
    and content_size: "inv t \<Longrightarrow> fields_size (content t) \<le> capacity t \<and> capacity t < 2 ^ 32"
    and find_pair_sound: "inv t \<Longrightarrow> find_pair n v t \<noteq> 0 \<Longrightarrow> look (find_pair n v t) t = Some (HeaderField n v)"
    and find_nm_sound: "inv t \<Longrightarrow> find_nm n t \<noteq> 0 \<Longrightarrow> \<exists>v. look (find_nm n t) t = Some (HeaderField n v)"
begin

text \<open>Two tables in lockstep: what a peer sees of them.\<close>

definition lockstep :: "'t \<Rightarrow> 't \<Rightarrow> bool" where
  "lockstep t u \<longleftrightarrow> inv t \<and> inv u \<and> content t = content u \<and> capacity t = capacity u"

lemma lockstep_prepend:
  "lockstep t u \<Longrightarrow> lockstep (snd (prepend n v t)) (snd (prepend n v u))
    \<and> fst (prepend n v t) = fst (prepend n v u)"
  by (simp add: lockstep_def prepend_inv prepend_flag prepend_content prepend_capacity)

lemma lockstep_resize:
  "lockstep t u \<Longrightarrow> k < 2 ^ 32 \<Longrightarrow> k \<le> limit t \<Longrightarrow> k \<le> limit u \<Longrightarrow>
    lockstep (snd (resize k t)) (snd (resize k u)) \<and> fst (resize k t) \<and> fst (resize k u)"
  by (simp add: lockstep_def resize_inv resize_flag resize_content resize_capacity)

lemma lockstep_look: "lockstep t u \<Longrightarrow> look i t = look i u"
  by (simp add: lockstep_def look_content)

lemma lockstep_find_pair:
  "lockstep t u \<Longrightarrow> find_pair n v t \<noteq> 0 \<Longrightarrow> look (find_pair n v t) u = Some (HeaderField n v)"
  using lockstep_look [of t u] find_pair_sound [of t n v] by (simp add: lockstep_def)

lemma lockstep_find_nm:
  "lockstep t u \<Longrightarrow> find_nm n t \<noteq> 0 \<Longrightarrow> \<exists>v. look (find_nm n t) u = Some (HeaderField n v)"
  using lockstep_look [of t u] find_nm_sound [of t n] by (simp add: lockstep_def)

text \<open>An index that names a field fits in 32 bits.\<close>

lemma index_bound:
  assumes "inv t" "look i t = Some f"
  shows "i < 2 ^ 32"
proof -
  have "32 * length fs \<le> fields_size fs" for fs
    by (induction fs) (simp_all add: fields_size_def field_size_def)
  then have "32 * length (content t) < 2 ^ 32" using content_size [OF assms(1)] le_trans by fastforce
  then show ?thesis using assms by (auto simp: look_content spec_field_def split: if_splits)
qed

end

interpretation lookup_table: header_table table_ok dyn tableCapacity maxTableSize prependField
  updateDynamicTableSize table_field indexOf indexOfName
proof
  fix t n v assume ok: "table_ok t"
  have none: "entry_size n v = None \<Longrightarrow> prependField n v t = (False, t)" by (simp add: prependField_def)
  show "table_ok (snd (prependField n v t))" "fst (prependField n v t) \<longleftrightarrow> entry_size n v \<noteq> None"
    "dyn (snd (prependField n v t)) =
      (if entry_size n v = None then dyn t else add_field (tableCapacity t) (HeaderField n v) (dyn t))"
    "tableCapacity (snd (prependField n v t)) = tableCapacity t"
    "maxTableSize (snd (prependField n v t)) = maxTableSize t"
    using prependField_ok [OF ok, of n v] none ok by (cases "entry_size n v"; simp)+
next
  fix t k assume ok: "table_ok t" and k: "k < (2 :: nat) ^ 32"
  note u = updateSize_ok [OF ok k]
  show "table_ok (snd (updateDynamicTableSize k t))" by (rule u(2))
  show "fst (updateDynamicTableSize k t) \<longleftrightarrow> k \<le> maxTableSize t" by (rule u(1))
  show "maxTableSize (snd (updateDynamicTableSize k t)) = maxTableSize t" by (rule u(4))
  show "dyn (snd (updateDynamicTableSize k t)) = fit k (dyn t)" if "k \<le> maxTableSize t"
    using u(3) that by simp
  show "tableCapacity (snd (updateDynamicTableSize k t)) = (if k = 0 then tableCapacity t else k)"
    if "k \<le> maxTableSize t"
    using u(6) that by (auto simp: updateDynamicTableSize_def clearDynamicTable_def)
next
  fix t i assume ok: "table_ok t"
  show "table_field i t = spec_field i (dyn t)"
    by (auto simp: table_field_eq [OF ok] spec_field_def nth_append)
next
  fix t :: FieldLookupTable assume ok: "table_ok t"
  then show "fields_size (dyn t) \<le> tableCapacity t \<and> tableCapacity t < 2 ^ 32"
    by (simp add: table_ok_def)
next
  fix t n v assume "table_ok t" "indexOf n v t \<noteq> 0"
  then show "table_field (indexOf n v t) t = Some (HeaderField n v)" by (rule indexOf_field)
next
  fix t n assume "table_ok t" "indexOfName n t \<noteq> 0"
  from indexOfName_field [OF this] obtain f where f: "table_field (indexOfName n t) t = Some f" "hf_name f = n"
    by (auto simp: table_fieldName_def)
  then have "f = HeaderField n (hf_value f)" by (simp add: HeaderField_def)
  with f show "\<exists>v. table_field (indexOfName n t) t = Some (HeaderField n v)" by metis
qed

end
