(* ===== verification/Hpack.thy ===== *)
theory Hpack
  imports HpackTable
begin

text \<open>
  \<open>src/network/access/http2/hpack.cpp\<close>: the encoder and the decoder of HPACK header blocks.
  Each step returns the flag the code returns with the new encoder or decoder and stream;
  \<open>None\<close> is undefined behaviour or a loop that does not end, as in the Huffman coder.
\<close>

fun header_size_from :: "HeaderField list \<Rightarrow> nat \<Rightarrow> nat option" where
  "header_size_from [] acc = Some acc"
| "header_size_from (f # fs) acc =
     (case entry_size (hf_name f) (hf_value f) of
        None \<Rightarrow> None
      | Some delta \<Rightarrow> if 2 ^ 32 - 1 - acc < delta then None else header_size_from fs (acc + delta))"

definition header_size :: "HeaderField list \<Rightarrow> nat option" where
  "header_size header = header_size_from header 0"

datatype BitPattern = BitPattern (bp_value: "8 word") (bp_bitLength: nat)

definition Indexed :: BitPattern where "Indexed = BitPattern 1 1"
definition LiteralIncrementalIndexing :: BitPattern where "LiteralIncrementalIndexing = BitPattern 1 2"
definition LiteralNoIndexing :: BitPattern where "LiteralNoIndexing = BitPattern 0 4"
definition LiteralNeverIndexing :: BitPattern where "LiteralNeverIndexing = BitPattern 1 4"
definition SizeUpdate :: BitPattern where "SizeUpdate = BitPattern 1 3"

definition write_bit_pattern :: "BitPattern \<Rightarrow> BitOStream \<Rightarrow> BitOStream" where
  "write_bit_pattern p s = BitOStream_writeBits (bp_value p) (bp_bitLength p) s"

definition read_bit_pattern :: "BitPattern \<Rightarrow> BitIStream \<Rightarrow> bool \<times> BitIStream" where
  "read_bit_pattern p s =
     (let (bitsRead, chunk) = BitIStream_peekBits (offset s) (bp_bitLength p) (0 :: 8 word) s
      in if bitsRead \<noteq> bp_bitLength p then (False, s)
         else if drop_bit (8 - bitsRead) chunk \<noteq> bp_value p then (False, s)
         else (True, snd (BitIStream_skipBits (bp_bitLength p) s)))"

definition is_request_pseudo_header :: "bytes \<Rightarrow> bool" where
  "is_request_pseudo_header name \<longleftrightarrow>
     name = ascii '':method'' \<or> name = ascii '':scheme'' \<or> name = ascii '':authority'' \<or> name = ascii '':path''"

section \<open>Encoder\<close>

record Encoder =
  enc_table :: FieldLookupTable
  compressStrings :: bool

definition Encoder_new :: "nat \<Rightarrow> bool \<Rightarrow> Encoder" where
  "Encoder_new sz compress =
     \<lparr>enc_table = FieldLookupTable_new sz True, compressStrings = compress\<rparr>"

definition encodeIndexedField :: "nat \<Rightarrow> BitOStream \<Rightarrow> BitOStream" where
  "encodeIndexedField index s = BitOStream_writeInt index (write_bit_pattern Indexed s)"

definition encodeLiteralName ::
    "BitPattern \<Rightarrow> bytes \<Rightarrow> bytes \<Rightarrow> bool \<Rightarrow> Encoder \<Rightarrow> BitOStream \<Rightarrow> (bool \<times> Encoder \<times> BitOStream) option" where
  "encodeLiteralName fieldType name value withCompression e s =
     (if bitsSet s mod 8 \<noteq> 0 then Some (False, e, s)
      else let e = (if fieldType = LiteralIncrementalIndexing
                    then e\<lparr>enc_table := snd (prependField name value (enc_table e))\<rparr> else e);
               s = BitOStream_writeInt 0 (write_bit_pattern fieldType s)
           in do {
                s \<leftarrow> BitOStream_writeString name withCompression s;
                s \<leftarrow> BitOStream_writeString value withCompression s;
                Some (True, e, s)
              })"

definition encodeLiteralIndex ::
    "BitPattern \<Rightarrow> nat \<Rightarrow> bytes \<Rightarrow> bool \<Rightarrow> Encoder \<Rightarrow> BitOStream \<Rightarrow> (bool \<times> Encoder \<times> BitOStream) option" where
  "encodeLiteralIndex fieldType nameIndex value withCompression e s =
     (let name = (case table_fieldName nameIndex (enc_table e) of Some n \<Rightarrow> n | None \<Rightarrow> []);
          e = (if fieldType = LiteralIncrementalIndexing
               then e\<lparr>enc_table := snd (prependField name value (enc_table e))\<rparr> else e);
          s = BitOStream_writeInt nameIndex (write_bit_pattern fieldType s)
      in do {
           s \<leftarrow> BitOStream_writeString value withCompression s;
           Some (True, e, s)
         })"

definition encodeHeaderField ::
    "HeaderField \<Rightarrow> Encoder \<Rightarrow> BitOStream \<Rightarrow> (bool \<times> Encoder \<times> BitOStream) option" where
  "encodeHeaderField field e s =
     (let index = indexOf (hf_name field) (hf_value field) (enc_table e)
      in if index \<noteq> 0 then Some (True, e, encodeIndexedField index s)
         else let index = indexOfName (hf_name field) (enc_table e)
              in if index \<noteq> 0
                 then encodeLiteralIndex LiteralIncrementalIndexing index (hf_value field) (compressStrings e) e s
                 else encodeLiteralName LiteralIncrementalIndexing (hf_name field) (hf_value field)
                        (compressStrings e) e s)"

definition encodeMethod ::
    "HeaderField \<Rightarrow> Encoder \<Rightarrow> BitOStream \<Rightarrow> (bool \<times> Encoder \<times> BitOStream) option" where
  "encodeMethod field e s =
     (let index = indexOf (hf_name field) (hf_value field) (enc_table e)
      in if index \<noteq> 0 then Some (True, e, encodeIndexedField index s)
         else let index = indexOfName (hf_name field) (enc_table e)
              in encodeLiteralIndex LiteralIncrementalIndexing index (hf_value field) (compressStrings e) e s)"

text \<open>The names the request loop looks for, each with its flag.\<close>

definition request_headerNames :: "bytes list" where
  "request_headerNames = [ascii '':authority'', ascii '':scheme'', ascii '':path'']"

fun find_name :: "bytes list \<Rightarrow> bytes \<Rightarrow> nat option" where
  "find_name [] name = None"
| "find_name (n # ns) name = (if name = n then Some 0 else map_option Suc (find_name ns name))"

fun requestPseudoHeaders ::
    "HeaderField list \<Rightarrow> bool \<Rightarrow> bool list \<Rightarrow> Encoder \<Rightarrow> BitOStream \<Rightarrow> (bool \<times> Encoder \<times> BitOStream) option" where
  "requestPseudoHeaders [] methodFound headerFound e s =
     Some (methodFound \<and> headerFound ! 1 \<and> headerFound ! 2, e, s)"
| "requestPseudoHeaders (field # rest) methodFound headerFound e s =
     (if hf_name field = ascii '':status'' then Some (False, e, s)
      else if hf_name field = ascii '':method''
      then if methodFound then Some (False, e, s)
           else do {
             (ok, e, s) \<leftarrow> encodeMethod field e s;
             if \<not> ok then Some (False, e, s) else requestPseudoHeaders rest True headerFound e s
           }
      else if hf_name field = ascii ''cookie'' then requestPseudoHeaders rest methodFound headerFound e s
      else case find_name request_headerNames (hf_name field) of
             None \<Rightarrow> requestPseudoHeaders rest methodFound headerFound e s
           | Some j \<Rightarrow>
               if headerFound ! j then Some (False, e, s)
               else do {
                 (ok, e, s) \<leftarrow> encodeHeaderField field e s;
                 if \<not> ok then Some (False, e, s)
                 else requestPseudoHeaders rest methodFound (headerFound[j := True]) e s
               })"

definition encodeRequestPseudoHeaders ::
    "HeaderField list \<Rightarrow> Encoder \<Rightarrow> BitOStream \<Rightarrow> (bool \<times> Encoder \<times> BitOStream) option" where
  "encodeRequestPseudoHeaders header e s = requestPseudoHeaders header False [False, False, False] e s"

fun responsePseudoHeaders ::
    "HeaderField list \<Rightarrow> bool \<Rightarrow> Encoder \<Rightarrow> BitOStream \<Rightarrow> (bool \<times> Encoder \<times> BitOStream) option" where
  "responsePseudoHeaders [] statusFound e s = Some (statusFound, e, s)"
| "responsePseudoHeaders (field # rest) statusFound e s =
     (if is_request_pseudo_header (hf_name field) then Some (False, e, s)
      else if hf_name field = ascii '':status''
      then if statusFound then Some (False, e, s)
           else do {
             (ok, e, s) \<leftarrow> encodeHeaderField field e s;
             if \<not> ok then Some (False, e, s) else responsePseudoHeaders rest True e s
           }
      else responsePseudoHeaders rest statusFound e s)"

definition encodeResponsePseudoHeaders ::
    "HeaderField list \<Rightarrow> Encoder \<Rightarrow> BitOStream \<Rightarrow> (bool \<times> Encoder \<times> BitOStream) option" where
  "encodeResponsePseudoHeaders header e s = responsePseudoHeaders header False e s"

text \<open>The loop over the other fields.\<close>

fun encodeFields ::
    "(bytes \<Rightarrow> bool) \<Rightarrow> HeaderField list \<Rightarrow> Encoder \<Rightarrow> BitOStream \<Rightarrow> (bool \<times> Encoder \<times> BitOStream) option" where
  "encodeFields skip [] e s = Some (True, e, s)"
| "encodeFields skip (field # rest) e s =
     (if skip (hf_name field) then encodeFields skip rest e s
      else do {
        (ok, e, s) \<leftarrow> encodeHeaderField field e s;
        if \<not> ok then Some (False, e, s) else encodeFields skip rest e s
      })"

definition encodeRequest ::
    "HeaderField list \<Rightarrow> Encoder \<Rightarrow> BitOStream \<Rightarrow> (bool \<times> Encoder \<times> BitOStream) option" where
  "encodeRequest header e s =
     (if length header = 0 then Some (False, e, s)
      else do {
        (ok, e, s) \<leftarrow> encodeRequestPseudoHeaders header e s;
        if \<not> ok then Some (False, e, s) else encodeFields is_request_pseudo_header header e s
      })"

definition encodeResponse ::
    "HeaderField list \<Rightarrow> Encoder \<Rightarrow> BitOStream \<Rightarrow> (bool \<times> Encoder \<times> BitOStream) option" where
  "encodeResponse header e s =
     (if length header = 0 then Some (False, e, s)
      else do {
        (ok, e, s) \<leftarrow> encodeResponsePseudoHeaders header e s;
        if \<not> ok then Some (False, e, s) else encodeFields (\<lambda>n. n = ascii '':status'') header e s
      })"

definition encodeSizeUpdate :: "nat \<Rightarrow> Encoder \<Rightarrow> BitOStream \<Rightarrow> bool \<times> Encoder \<times> BitOStream" where
  "encodeSizeUpdate newSize e s =
     (let (ok, t) = updateDynamicTableSize newSize (enc_table e)
      in if \<not> ok then (False, e\<lparr>enc_table := t\<rparr>, s)
         else (True, e\<lparr>enc_table := t\<rparr>, BitOStream_writeInt newSize (write_bit_pattern SizeUpdate s)))"

definition Encoder_dynamicTableSize :: "Encoder \<Rightarrow> nat" where
  "Encoder_dynamicTableSize e = dataSize (enc_table e)"

definition Encoder_setMaxDynamicTableSize :: "nat \<Rightarrow> Encoder \<Rightarrow> Encoder" where
  "Encoder_setMaxDynamicTableSize sz e = e\<lparr>enc_table := setMaxDynamicTableSize sz (enc_table e)\<rparr>"

definition Encoder_setCompressStrings :: "bool \<Rightarrow> Encoder \<Rightarrow> Encoder" where
  "Encoder_setCompressStrings compress e = e\<lparr>compressStrings := compress\<rparr>"

section \<open>Decoder\<close>

record Decoder =
  dec_header :: "HeaderField list"
  dec_table :: FieldLookupTable

definition Decoder_new :: "nat \<Rightarrow> Decoder" where
  "Decoder_new sz = \<lparr>dec_header = [], dec_table = FieldLookupTable_new sz False\<rparr>"

definition Decoder_dynamicTableSize :: "Decoder \<Rightarrow> nat" where
  "Decoder_dynamicTableSize d = dataSize (dec_table d)"

definition Decoder_setMaxDynamicTableSize :: "nat \<Rightarrow> Decoder \<Rightarrow> Decoder" where
  "Decoder_setMaxDynamicTableSize sz d = d\<lparr>dec_table := setMaxDynamicTableSize sz (dec_table d)\<rparr>"

definition processDecodedField :: "BitPattern \<Rightarrow> bytes \<Rightarrow> bytes \<Rightarrow> Decoder \<Rightarrow> bool \<times> Decoder" where
  "processDecodedField fieldType name value d =
     (let (ok, d) = (if fieldType = LiteralIncrementalIndexing
                     then let (ok, t) = prependField name value (dec_table d) in (ok, d\<lparr>dec_table := t\<rparr>)
                     else (True, d))
      in if \<not> ok then (False, d) else (True, d\<lparr>dec_header := dec_header d @ [HeaderField name value]\<rparr>))"

definition decodeIndexedField :: "Decoder \<Rightarrow> BitIStream \<Rightarrow> bool \<times> Decoder \<times> BitIStream" where
  "decodeIndexedField d s =
     (case BitIStream_readInt s of
        (None, s) \<Rightarrow> (False, d, s)
      | (Some index, s) \<Rightarrow>
          if index = 0 then (False, d, s)
          else case table_field index (dec_table d) of
                 None \<Rightarrow> (False, d, s)
               | Some f \<Rightarrow> let (ok, d) = processDecodedField Indexed (hf_name f) (hf_value f) d in (ok, d, s))"

definition decodeSizeUpdate :: "Decoder \<Rightarrow> BitIStream \<Rightarrow> bool \<times> Decoder \<times> BitIStream" where
  "decodeSizeUpdate d s =
     (case BitIStream_readInt s of
        (None, s) \<Rightarrow> (False, d, s)
      | (Some maxSize, s) \<Rightarrow>
          let (ok, t) = updateDynamicTableSize maxSize (dec_table d) in (ok, d\<lparr>dec_table := t\<rparr>, s))"

definition decodeLiteralField ::
    "BitPattern \<Rightarrow> Decoder \<Rightarrow> BitIStream \<Rightarrow> (bool \<times> Decoder \<times> BitIStream) option" where
  "decodeLiteralField fieldType d s =
     (case BitIStream_readInt s of
        (None, s) \<Rightarrow> Some (False, d, s)
      | (Some index, s) \<Rightarrow> do {
          (ok, name, s) \<leftarrow>
            (if index = 0 then BitIStream_readString [] s
             else case table_fieldName index (dec_table d) of
                    None \<Rightarrow> Some (False, [], s)
                  | Some name \<Rightarrow> Some (True, name, s));
          if \<not> ok then Some (False, d, s)
          else do {
            (ok, value, s) \<leftarrow> BitIStream_readString [] s;
            if \<not> ok then Some (False, d, s)
            else let (ok, d) = processDecodedField fieldType name value d in Some (ok, d, s)
          }
        })"

text \<open>The loop of \<open>decodeHeaderFields\<close>.\<close>

partial_function (option) decodeFields :: "Decoder \<Rightarrow> BitIStream \<Rightarrow> (bool \<times> Decoder \<times> BitIStream) option" where
  "decodeFields d s =
     (if fst (read_bit_pattern Indexed s)
      then let (ok, d, s) = decodeIndexedField d (snd (read_bit_pattern Indexed s))
           in if ok then decodeFields d s else Some (False, d, s)
      else if fst (read_bit_pattern LiteralIncrementalIndexing s)
      then Option.bind (decodeLiteralField LiteralIncrementalIndexing d
               (snd (read_bit_pattern LiteralIncrementalIndexing s)))
             (\<lambda>(ok, d, s). if ok then decodeFields d s else Some (False, d, s))
      else if fst (read_bit_pattern LiteralNoIndexing s)
      then Option.bind (decodeLiteralField LiteralNoIndexing d (snd (read_bit_pattern LiteralNoIndexing s)))
             (\<lambda>(ok, d, s). if ok then decodeFields d s else Some (False, d, s))
      else if fst (read_bit_pattern LiteralNeverIndexing s)
      then Option.bind (decodeLiteralField LiteralNeverIndexing d (snd (read_bit_pattern LiteralNeverIndexing s)))
             (\<lambda>(ok, d, s). if ok then decodeFields d s else Some (False, d, s))
      else if fst (read_bit_pattern SizeUpdate s)
      then let (ok, d, s) = decodeSizeUpdate d (snd (read_bit_pattern SizeUpdate s))
           in if ok then decodeFields d s else Some (False, d, s)
      else Some (BitIStream_bitLength s = offset s, d, s))"

declare decodeFields.simps [code]

definition decodeHeaderFields :: "Decoder \<Rightarrow> BitIStream \<Rightarrow> (bool \<times> Decoder \<times> BitIStream) option" where
  "decodeHeaderFields d s = decodeFields (d\<lparr>dec_header := []\<rparr>) s"

end
