(* ===== verification/HpackCodec.thy ===== *)
theory HpackCodec
  imports HpackStream HpackTableRefine Hpack "HOL-Library.Sublist"
begin

text \<open>
  What the encoder writes the decoder reads: representations and string literals on byte
  boundaries, the contract of the header table as a locale, and header blocks as sequences
  of representations.
\<close>

section \<open>Byte-aligned streams\<close>

definition aligned :: "BitOStream \<Rightarrow> bool" where
  "aligned s \<longleftrightarrow> bitsSet s = 8 * length (buffer s)"

lemma aligned_ok: "aligned s \<Longrightarrow> ostream_ok s"
  by (simp add: aligned_def ostream_ok_def)

lemma aligned_new: "aligned (BitOStream_new b)"
  by (simp add: aligned_def BitOStream_new_def)

lemma writeBits_bitsSet: "bitsSet (BitOStream_writeBits w n s) = bitsSet s + n"
  by (simp add: BitOStream_writeBits_def Let_def)

lemma bytes_for_bits: "(b :: nat) mod 8 \<noteq> 0 \<Longrightarrow> b div 8 < (b + 7) div 8"
proof -
  assume "b mod 8 \<noteq> 0"
  define q c where "q = b div 8" and "c = b mod 8"
  have "b = 8 * q + c" "c \<noteq> 0" using \<open>b mod 8 \<noteq> 0\<close> by (simp_all add: q_def c_def)
  then have "8 * (q + 1) \<le> b + 7" by simp
  then have "q + 1 \<le> (b + 7) div 8" by (simp add: less_eq_div_iff_mult_less_eq mult.commute)
  then show ?thesis by (simp only: q_def)
qed

lemma bytes_before: "ostream_ok s \<Longrightarrow> bitsSet s div 8 \<le> length (buffer s)"
  unfolding ostream_ok_def by (metis div_le_mono le_add1)

lemma writeBits_take:
  assumes "ostream_ok s"
  shows "take (bitsSet s div 8) (buffer (BitOStream_writeBits w n s)) = take (bitsSet s div 8) (buffer s)"
proof (cases "bitsSet s mod 8 = 0")
  case True
  then show ?thesis using bytes_before [OF assms] by (simp add: BitOStream_writeBits_def Let_def)
next
  case False
  have "bitsSet s div 8 < length (buffer s)"
    using bytes_for_bits [OF False] assms by (simp only: ostream_ok_def)
  then have "bitsSet s div 8 \<le> length (buffer s) - 1" by simp
  then show ?thesis using False by (simp add: BitOStream_writeBits_def Let_def take_butlast butlast_conv_take)
qed

lemma writeInt_take:
  assumes "ostream_ok s"
  shows "take (bitsSet s div 8) (buffer (BitOStream_writeInt v s)) = take (bitsSet s div 8) (buffer s)"
proof -
  have "bitsSet s div 8 \<le> length (buffer (BitOStream_writeBits w (8 - bitsSet s mod 8) s))" for w
  proof -
    have "bitsSet s div 8 \<le> bitsSet (BitOStream_writeBits w (8 - bitsSet s mod 8) s) div 8"
      by (rule div_le_mono) (simp only: writeBits_bitsSet le_add1)
    also have "\<dots> \<le> length (buffer (BitOStream_writeBits w (8 - bitsSet s mod 8) s))"
      by (intro bytes_before writeBits_ok assms diff_le_self)
    finally show ?thesis .
  qed
  then show ?thesis
    using writeBits_take [OF assms] by (auto simp: BitOStream_writeInt_def Let_def pushInt_eq)
qed

text \<open>The bits before the integer stay, also those of the byte the prefix fills.\<close>

lemma writeInt_bits:
  assumes ok: "ostream_ok s" and k: "k < bitsSet s"
  shows "stream_bit (buffer (BitOStream_writeInt v s)) k = stream_bit (buffer s) k"
proof -
  define p where "p = 8 - bitsSet s mod 8"
  have fin: "stream_bit (buffer t @ b) k = stream_bit (buffer s) k"
    if "t = BitOStream_writeBits (word_of_nat x) p s" "x < 2 ^ p" for t b x
  proof -
    note w = writeBits_to_boundary [OF ok p_def that(2), folded that(1)]
    have "p \<le> 8" by (simp add: p_def)
    then have "k < 8 * length (buffer t)"
      using k w(1) writeBits_bit(1) [OF ok, of p "word_of_nat x"] that(1) by simp
    then show ?thesis using w(5) [OF k] by (simp add: stream_bit_append)
  qed
  have full: "(2 :: nat) ^ p - 1 < 2 ^ p" by simp
  show ?thesis
  proof (cases "v < 2 ^ p - 1")
    case True
    then show ?thesis
      using fin [OF refl, of v "[]"] by (simp add: BitOStream_writeInt_def p_def [symmetric] Let_def)
  next
    case False
    then show ?thesis
      using fin [OF refl full] by (simp add: BitOStream_writeInt_def p_def [symmetric] Let_def pushInt_eq)
  qed
qed

lemma writeInt_aligned:
  assumes ok: "ostream_ok s"
  shows "aligned (BitOStream_writeInt v s)" "bitsSet s < bitsSet (BitOStream_writeInt v s)"
proof -
  define p where "p = 8 - bitsSet s mod 8"
  have p0: "0 < p" by (simp add: p_def)
  have fin: "bitsSet t = 8 * length (buffer t) \<and> bitsSet s < bitsSet t"
    if "t = BitOStream_writeBits (word_of_nat x) p s" "x < 2 ^ p" for t x
    using writeBits_to_boundary(1) [OF ok p_def that(2), folded that(1)] writeBits_bitsSet [of _ p s] p0
    by (simp add: that(1))
  have full: "(2 :: nat) ^ p - 1 < 2 ^ p" by simp
  have "bitsSet (BitOStream_writeInt v s) = 8 * length (buffer (BitOStream_writeInt v s))
      \<and> bitsSet s < bitsSet (BitOStream_writeInt v s)"
  proof (cases "v < 2 ^ p - 1")
    case True
    then have "v < 2 ^ p" by linarith
    then show ?thesis using True fin [OF refl, of v] by (simp add: BitOStream_writeInt_def p_def [symmetric] Let_def)
  next
    case False
    then show ?thesis
      using fin [OF refl full] by (simp add: BitOStream_writeInt_def p_def [symmetric] Let_def pushInt_eq)
  qed
  then show "aligned (BitOStream_writeInt v s)" "bitsSet s < bitsSet (BitOStream_writeInt v s)"
    by (simp_all add: aligned_def)
qed

section \<open>A bit pattern and an integer\<close>

lemma pattern_aligned:
  fixes w :: "8 word" and v :: nat
  assumes a: "aligned s" and n: "0 < n" "n < 8"
  defines "t \<equiv> BitOStream_writeInt v (BitOStream_writeBits w n s)"
  shows "aligned t" "prefix (buffer s) (buffer t)" "bitsSet s < bitsSet t"
proof -
  define u where "u = BitOStream_writeBits w n s"
  have n8: "n \<le> 8" using n by simp
  have ok: "ostream_ok u" unfolding u_def by (rule writeBits_ok [OF aligned_ok [OF a] n8])
  have tu: "t = BitOStream_writeInt v u" by (simp add: t_def u_def)
  show "aligned t" "bitsSet s < bitsSet t"
    using writeInt_aligned [OF ok, of v] writeBits_bitsSet [of w n s] by (simp_all add: tu u_def)
  have d: "bitsSet u div 8 = length (buffer s)" using a n by (simp add: aligned_def u_def writeBits_bitsSet)
  have "take (length (buffer s)) (buffer t) = take (length (buffer s)) (buffer u)"
    using writeInt_take [OF ok, of v] by (simp add: tu d)
  also have "\<dots> = buffer s"
    using writeBits_take [OF aligned_ok [OF a], of w n] a by (simp add: aligned_def u_def)
  finally show "prefix (buffer s) (buffer t)" by (metis take_is_prefix)
qed

text \<open>A representation starts with a pattern of fewer than eight bits and an integer.\<close>

lemma pattern_int:
  fixes w :: "8 word"
  assumes a: "aligned s" and n: "0 < n" "n < 8" and v: "v < 2 ^ 32"
  defines "t \<equiv> BitOStream_writeInt v (BitOStream_writeBits w n s)"
  assumes len: "8 * length (buffer t @ rest) + 8 < 2 ^ 32"
  shows "\<forall>i < n. stream_bit (buffer t @ rest) (bitsSet s + i) = bit w (n - 1 - i)"
    and "BitIStream_readInt \<lparr>octets = buffer t @ rest, offset = bitsSet s + n, streamError = e\<rparr>
      = (Some v, \<lparr>octets = buffer t @ rest, offset = bitsSet t, streamError = NoError\<rparr>)"
proof -
  define u where "u = BitOStream_writeBits w n s"
  have n8: "n \<le> 8" using n by simp
  note wb = writeBits_bit [OF aligned_ok [OF a] n8, where w = w, folded u_def]
  have ok: "ostream_ok u" unfolding u_def by (rule writeBits_ok [OF aligned_ok [OF a] n8])
  have tu: "t = BitOStream_writeInt v u" by (simp add: t_def u_def)
  note wi = writeInt_readInt [OF ok v, folded tu, OF len]
  show "BitIStream_readInt \<lparr>octets = buffer t @ rest, offset = bitsSet s + n, streamError = e\<rparr>
      = (Some v, \<lparr>octets = buffer t @ rest, offset = bitsSet t, streamError = NoError\<rparr>)"
    using wi(1) wb(1) by simp
  show "\<forall>i < n. stream_bit (buffer t @ rest) (bitsSet s + i) = bit w (n - 1 - i)"
  proof (intro allI impI)
    fix i assume i: "i < n"
    have "bitsSet s + i < 8 * length (buffer t)" using i wb(1) wi(2,4) by simp
    then have "stream_bit (buffer t @ rest) (bitsSet s + i) = stream_bit (buffer t) (bitsSet s + i)"
      by (simp add: stream_bit_append)
    also have "\<dots> = stream_bit (buffer u) (bitsSet s + i)"
      using i wb(1) by (simp add: tu writeInt_bits [OF ok])
    also have "\<dots> = bit w (n - 1 - i)"
    proof -
      have "bitsSet s + i < 8 * length (buffer u)" using i wb(1,2) a by (simp add: aligned_def)
      from wb(3) [OF this] show ?thesis using i by simp
    qed
    finally show "stream_bit (buffer t @ rest) (bitsSet s + i) = bit w (n - 1 - i)" .
  qed
qed

text \<open>Reading a pattern succeeds exactly when its bits are next.\<close>

lemma read_pattern:
  fixes w :: "8 word" and e :: StreamError
  assumes "0 < n" "n \<le> 8" "off + n \<le> 8 * length bs" "unat w < 2 ^ n"
  defines "s \<equiv> \<lparr>octets = bs, offset = off, streamError = e\<rparr>"
  shows "read_bit_pattern (BitPattern w n) s =
    (if \<forall>i < n. stream_bit bs (off + i) = bit w (n - 1 - i)
     then (True, \<lparr>octets = bs, offset = off + n, streamError = e\<rparr>) else (False, s))"
proof -
  obtain v :: "8 word" where v: "BitIStream_peekBits off n 0 s = (n, v)"
    and b: "\<forall>i < 8. bit v (7 - i) = (i < n \<and> stream_bit bs (off + i))"
    using peekBits_bits [where 'a = 8, of n off s] assms by (auto simp: s_def)
  have "drop_bit (8 - n) v = w \<longleftrightarrow> (\<forall>i < n. stream_bit bs (off + i) = bit w (n - 1 - i))"
  proof
    assume w: "drop_bit (8 - n) v = w"
    show "\<forall>i < n. stream_bit bs (off + i) = bit w (n - 1 - i)"
    proof (intro allI impI)
      fix i assume i: "i < n"
      then have "8 - n + (n - 1 - i) = 7 - i" using assms(2) by simp
      then have "bit w (n - 1 - i) = bit v (7 - i)" unfolding w [symmetric] by (simp add: bit_drop_bit_eq)
      also have "\<dots> = stream_bit bs (off + i)" using b i assms(2) by simp
      finally show "stream_bit bs (off + i) = bit w (n - 1 - i)" by simp
    qed
  next
    assume st: "\<forall>i < n. stream_bit bs (off + i) = bit w (n - 1 - i)"
    show "drop_bit (8 - n) v = w"
    proof (rule bit_word_eqI)
      fix k assume "k < LENGTH(8)"
      show "bit (drop_bit (8 - n) v) k = bit w k"
      proof (cases "k < n")
        case True
        then have "8 - n + k = 7 - (n - 1 - k)" "n - 1 - (n - 1 - k) = k" "n - 1 - k < 8" "n - 1 - k < n"
          using assms(2) by simp_all
        then have "bit v (8 - n + k) = bit w k" using b st by metis
        then show ?thesis by (simp add: bit_drop_bit_eq)
      next
        case False
        have "\<not> bit v (8 - n + k)" using False by (auto dest: bit_imp_le_length)
        moreover have "\<not> bit w k"
        proof -
          have "(2 :: nat) ^ n \<le> 2 ^ k" using False by simp
          then have "unat w div 2 ^ k = 0" using assms(4) by (simp del: power_increasing_iff)
          moreover have "bit w k \<longleftrightarrow> bit (unat w) k" by (simp add: bit_unsigned_iff bit_imp_le_length)
          ultimately show ?thesis by (simp add: bit_iff_odd [of "unat w"])
        qed
        ultimately show ?thesis by (simp add: bit_drop_bit_eq)
      qed
    qed
  qed
  then show ?thesis
    using v assms(3)
    by (auto simp: read_bit_pattern_def s_def BitIStream_skipBits_def BitIStream_bitLength_def)
qed

lemma read_pattern_end:
  assumes "0 < bp_bitLength p" "BitIStream_bitLength s \<le> offset s"
  shows "read_bit_pattern p s = (False, s)"
  using assms by (simp add: read_bit_pattern_def BitIStream_peekBits_def)

section \<open>String literals without compression\<close>

lemma writeString_aligned:
  assumes a: "aligned s" and w: "BitOStream_writeString src False s = Some t"
  shows "aligned t" "prefix (buffer s) (buffer t)" "length src < length (buffer t)"
proof -
  define u where "u = BitOStream_writeInt (length src mod 2 ^ 32) (BitOStream_writeBits 0 1 s)"
  have t: "t = \<lparr>buffer = buffer u @ src, bitsSet = bitsSet u + length src * 8\<rparr>"
    using w by (auto simp: BitOStream_writeString_def u_def Let_def intro: BitOStream.equality)
  have one: "(1 :: nat) < 8" by simp
  note p = pattern_aligned [OF a zero_less_one one, of "length src mod 2 ^ 32" 0, folded u_def]
  show "aligned t" using p(1) by (simp add: t aligned_def)
  show "prefix (buffer s) (buffer t)" using p(2) by (simp add: t)
  show "length src < length (buffer t)" using p(1,3) a by (auto simp: t aligned_def)
qed

lemma string_round_trip:
  assumes a: "aligned s" and w: "BitOStream_writeString src False s = Some t"
    and len: "8 * length (buffer t @ rest) + 8 < 2 ^ 32"
  shows "BitIStream_readString dst \<lparr>octets = buffer t @ rest, offset = bitsSet s, streamError = e\<rparr>
      = Some (True, src, \<lparr>octets = buffer t @ rest, offset = bitsSet t, streamError = NoError\<rparr>)"
proof -
  define u where "u = BitOStream_writeInt (length src mod 2 ^ 32) (BitOStream_writeBits 0 1 s)"
  have t: "t = \<lparr>buffer = buffer u @ src, bitsSet = bitsSet u + length src * 8\<rparr>"
    using w by (auto simp: BitOStream_writeString_def u_def Let_def intro: BitOStream.equality)
  have l: "length src < 2 ^ 32" using len by (simp add: t)
  have v: "length src mod 2 ^ 32 < 2 ^ 32" by simp
  have ulen: "8 * length (buffer u @ (src @ rest)) + 8 < 2 ^ 32" using len by (simp add: t)
  have b: "buffer t @ rest = buffer u @ (src @ rest)" by (simp add: t)
  have one: "(1 :: nat) < 8" by simp
  note p = pattern_aligned [OF a zero_less_one one, of "length src mod 2 ^ 32" 0, folded u_def]
    pattern_int [OF a zero_less_one one v, where w = 0, folded u_def, OF ulen]
  have bl: "bitsSet u = 8 * length (buffer u)" using p(1) by (simp add: aligned_def)
  define si where "si = \<lparr>octets = buffer t @ rest, offset = bitsSet s, streamError = e\<rparr>"
  have more: "bitsSet s + 1 \<le> 8 * length (octets si)" using p(3) bl by (simp add: si_def b)
  obtain x :: "8 word" where x: "BitIStream_peekBits (bitsSet s) 1 0 si = (1, x)"
    and xb: "\<forall>i < 8. bit x (7 - i) = (i < 1 \<and> stream_bit (octets si) (bitsSet s + i))"
    using peekBits_bits [where 'a = 8, OF zero_less_one _ more] by auto
  have "\<not> stream_bit (octets si) (bitsSet s)" using p(4) by (simp add: si_def b)
  then have "\<not> bit x k" if "k < 8" for k using xb [rule_format, of "7 - k"] that by (cases "k = 7") auto
  then have x0: "x = 0" by (intro bit_word_eqI) simp
  have sk: "BitIStream_skipBits 1 si = (True, si\<lparr>offset := bitsSet s + 1\<rparr>)"
    using more by (auto simp: BitIStream_skipBits_def BitIStream_bitLength_def si_def)
  have rd: "BitIStream_readInt (BitIStream_setError NoError (si\<lparr>offset := bitsSet s + 1\<rparr>))
      = (Some (length src), \<lparr>octets = buffer t @ rest, offset = bitsSet u, streamError = NoError\<rparr>)"
    using p(5) [of NoError] l by (simp add: si_def b BitIStream_setError_def)
  have "BitIStream_bitLength \<lparr>octets = buffer t @ rest, offset = bitsSet u, streamError = NoError\<rparr> - bitsSet u
      = 8 * (length src + length rest)"
    by (simp add: BitIStream_bitLength_def t bl)
  moreover have "take (length src) (drop (bitsSet u div 8) (buffer t @ rest)) = src" by (simp add: t bl)
  ultimately have "BitIStream_readString dst si
      = Some (True, src, \<lparr>octets = buffer t @ rest, offset = bitsSet u + length src * 8, streamError = NoError\<rparr>)"
    using x sk rd by (simp add: BitIStream_readString_def si_def x0)
  then show "BitIStream_readString dst \<lparr>octets = buffer t @ rest, offset = bitsSet s, streamError = e\<rparr>
      = Some (True, src, \<lparr>octets = buffer t @ rest, offset = bitsSet t, streamError = NoError\<rparr>)"
    by (simp add: si_def t)
qed

section \<open>The patterns of the representations\<close>

lemma read_first:
  fixes w :: "8 word" and e :: StreamError
  assumes "aligned s" "n = bp_bitLength p" "0 < n" "n < 8" "v < 2 ^ 32"
  defines "t \<equiv> BitOStream_writeInt v (write_bit_pattern p s)"
  assumes len: "8 * length (buffer t @ rest) + 8 < 2 ^ 32"
    and m: "0 < m" "m < 8" "unat w < 2 ^ m"
  defines "si \<equiv> \<lparr>octets = buffer t @ rest, offset = bitsSet s, streamError = e\<rparr>"
  shows "\<not> (\<forall>i < min m n. bit w (m - 1 - i) = bit (bp_value p) (n - 1 - i)) \<Longrightarrow>
      read_bit_pattern (BitPattern w m) si = (False, si)"
    and "w = bp_value p \<Longrightarrow> m = n \<Longrightarrow>
      read_bit_pattern (BitPattern w m) si = (True, \<lparr>octets = buffer t @ rest, offset = bitsSet s + n, streamError = e\<rparr>)"
proof -
  have t: "t = BitOStream_writeInt v (BitOStream_writeBits (bp_value p) n s)"
    by (simp add: t_def write_bit_pattern_def assms(2))
  note p = pattern_int [OF assms(1,3,4,5), where w = "bp_value p" and rest = rest, folded t, OF len]
  have al: "aligned t" "bitsSet s < bitsSet t"
    using pattern_aligned [OF assms(1,3,4), of v "bp_value p"] by (simp_all add: t)
  have "bitsSet s + 8 \<le> 8 * length (buffer t)" using al assms(1) by (simp add: aligned_def)
  then have more: "bitsSet s + m \<le> 8 * length (buffer t @ rest)" using m by simp
  note r = read_pattern [OF m(1) _ more m(3), of e, folded si_def]
  show "\<not> (\<forall>i < min m n. bit w (m - 1 - i) = bit (bp_value p) (n - 1 - i)) \<Longrightarrow>
      read_bit_pattern (BitPattern w m) si = (False, si)"
    using p(1) r m(2) by auto
  show "w = bp_value p \<Longrightarrow> m = n \<Longrightarrow>
      read_bit_pattern (BitPattern w m) si = (True, \<lparr>octets = buffer t @ rest, offset = bitsSet s + n, streamError = e\<rparr>)"
    using p(1) r m(2) by auto
qed

section \<open>Header fields\<close>

text \<open>
  Encoder and decoder agree on the dynamic table. With a capacity below \<open>2 ^ 31\<close> no name from
  the table and value from the wire together overflow the size of an entry.
\<close>

definition synced :: "Encoder \<Rightarrow> Decoder \<Rightarrow> bool" where
  "synced e d \<longleftrightarrow> table_ok (enc_table e) \<and> table_ok (dec_table d)
     \<and> dyn (enc_table e) = dyn (dec_table d) \<and> tableCapacity (enc_table e) = tableCapacity (dec_table d)
     \<and> tableCapacity (enc_table e) < 2 ^ 31"

lemma synced_lockstep:
  "synced e d \<longleftrightarrow> lookup_table.lockstep (enc_table e) (dec_table d) \<and> tableCapacity (enc_table e) < 2 ^ 31"
  by (auto simp: synced_def lookup_table.lockstep_def)

lemma synced_new: "m < 2 ^ 31 \<Longrightarrow> synced (Encoder_new m c) (Decoder_new m)"
  using table_ok_new [of m True] table_ok_new [of m False]
  by (simp add: synced_def Encoder_new_def Decoder_new_def) (simp add: FieldLookupTable_new_def)

text \<open>
  One representation went from \<open>s\<close> to \<open>t\<close>: the decoder at the end of \<open>s\<close> goes on at the end of
  \<open>t\<close>, in step with the encoder, with the fields \<open>fs\<close> more.
\<close>

definition transmits ::
    "Encoder \<Rightarrow> BitOStream \<Rightarrow> HeaderField list \<Rightarrow> Encoder \<Rightarrow> BitOStream \<Rightarrow> bool" where
  "transmits e s fs e' t \<longleftrightarrow>
     aligned t \<and> prefix (buffer s) (buffer t) \<and> compressStrings e' = compressStrings e
     \<and> maxTableSize (enc_table e') = maxTableSize (enc_table e)
     \<and> (\<forall>d err rest. synced e d \<longrightarrow> 8 * length (buffer t @ rest) + 8 < 2 ^ 32 \<longrightarrow>
          (\<exists>d' err'. decodeFields d \<lparr>octets = buffer t @ rest, offset = bitsSet s, streamError = err\<rparr>
              = decodeFields d' \<lparr>octets = buffer t @ rest, offset = bitsSet t, streamError = err'\<rparr>
            \<and> synced e' d' \<and> dec_header d' = dec_header d @ fs
            \<and> maxTableSize (dec_table d') = maxTableSize (dec_table d)))"

lemma transmits_nothing: "aligned s \<Longrightarrow> transmits e s [] e s"
  by (auto simp: transmits_def)

lemma transmits_append:
  assumes "transmits e s fs e1 s1" "transmits e1 s1 gs e2 s2"
  shows "transmits e s (fs @ gs) e2 s2"
proof -
  obtain w where w: "buffer s2 = buffer s1 @ w" using assms(2) by (auto simp: transmits_def prefix_def)
  have "\<exists>d' err'. decodeFields d \<lparr>octets = buffer s2 @ rest, offset = bitsSet s, streamError = err\<rparr>
              = decodeFields d' \<lparr>octets = buffer s2 @ rest, offset = bitsSet s2, streamError = err'\<rparr>
            \<and> synced e2 d' \<and> dec_header d' = dec_header d @ fs @ gs
            \<and> maxTableSize (dec_table d') = maxTableSize (dec_table d)"
    if d: "synced e d" and len: "8 * length (buffer s2 @ rest) + 8 < 2 ^ 32" for d err rest
  proof -
    have "8 * length (buffer s1 @ (w @ rest)) + 8 < 2 ^ 32" using len w by simp
    with assms(1) d obtain d1 err1 where
      one: "decodeFields d \<lparr>octets = buffer s1 @ (w @ rest), offset = bitsSet s, streamError = err\<rparr>
        = decodeFields d1 \<lparr>octets = buffer s1 @ (w @ rest), offset = bitsSet s1, streamError = err1\<rparr>"
        "synced e1 d1" "dec_header d1 = dec_header d @ fs"
        "maxTableSize (dec_table d1) = maxTableSize (dec_table d)"
      unfolding transmits_def by blast
    with assms(2) len obtain d2 err2 where
      "decodeFields d1 \<lparr>octets = buffer s2 @ rest, offset = bitsSet s1, streamError = err1\<rparr>
        = decodeFields d2 \<lparr>octets = buffer s2 @ rest, offset = bitsSet s2, streamError = err2\<rparr>"
        "synced e2 d2" "dec_header d2 = dec_header d1 @ gs"
        "maxTableSize (dec_table d2) = maxTableSize (dec_table d1)"
      unfolding transmits_def by blast
    with one show ?thesis by (auto simp: w)
  qed
  then show ?thesis using assms by (auto simp: transmits_def)
qed

lemma field_nonzero: "table_field i t = Some f \<Longrightarrow> i \<noteq> 0"
  by (auto simp: table_field_def indexIsValid_def split: if_splits)

lemma HeaderField_collapse [simp]: "HeaderField (hf_name f) (hf_value f) = f"
  by (simp add: HeaderField_def)

lemma hf_HeaderField [simp]: "hf_name (HeaderField n v) = n" "hf_value (HeaderField n v) = v"
  by (simp_all add: HeaderField_def)

lemma pattern_fields [simp]:
  "bp_value Indexed = 1" "bp_bitLength Indexed = 1"
  "bp_value LiteralIncrementalIndexing = 1" "bp_bitLength LiteralIncrementalIndexing = 2"
  "bp_value SizeUpdate = 1" "bp_bitLength SizeUpdate = 3"
  "Indexed \<noteq> LiteralIncrementalIndexing"
  by (simp_all add: Indexed_def LiteralIncrementalIndexing_def SizeUpdate_def)

lemma transmits_indexed:
  assumes a: "aligned s" and f: "table_ok (enc_table e)" "table_field i (enc_table e) = Some f"
  shows "transmits e s [f] e (encodeIndexedField i s)"
proof -
  define t where "t = encodeIndexedField i s"
  have t: "t = BitOStream_writeInt i (write_bit_pattern Indexed s)" by (simp add: t_def encodeIndexedField_def)
  have t': "t = BitOStream_writeInt i (BitOStream_writeBits 1 1 s)" by (simp add: t write_bit_pattern_def)
  have i: "i < 2 ^ 32" by (rule lookup_table.index_bound [OF f])
  have i0: "i \<noteq> 0" by (rule field_nonzero [OF f(2)])
  have small: "(1 :: nat) < 8" by simp
  have "\<exists>d' err'. decodeFields d \<lparr>octets = buffer t @ rest, offset = bitsSet s, streamError = err\<rparr>
        = decodeFields d' \<lparr>octets = buffer t @ rest, offset = bitsSet t, streamError = err'\<rparr>
      \<and> synced e d' \<and> dec_header d' = dec_header d @ [f] \<and> maxTableSize (dec_table d') = maxTableSize (dec_table d)"
    if d: "synced e d" and len: "8 * length (buffer t @ rest) + 8 < 2 ^ 32" for d err rest
  proof -
    let ?s = "\<lparr>octets = buffer t @ rest, offset = bitsSet s, streamError = err\<rparr>"
    note p = pattern_int [OF a zero_less_one small i, where w = 1, folded t', OF len]
    have r: "read_bit_pattern Indexed ?s = (True, ?s\<lparr>offset := bitsSet s + 1\<rparr>)"
      using read_first(2) [OF a _ zero_less_one small i, where p = Indexed and m = 1 and w = 1, folded t, OF _ len]
      by (simp add: Indexed_def)
    have look: "table_field i (dec_table d) = Some f"
      using d f lookup_table.lockstep_look [of "enc_table e" "dec_table d" i] by (simp add: synced_lockstep)
    define d' where "d' = d\<lparr>dec_header := dec_header d @ [f]\<rparr>"
    have "decodeFields d ?s
        = decodeFields d' \<lparr>octets = buffer t @ rest, offset = bitsSet t, streamError = NoError\<rparr>"
      using p(2) [of err] look i0
      by (subst decodeFields.simps) (simp add: r decodeIndexedField_def processDecodedField_def d'_def)
    moreover have "synced e d'" using d by (simp add: synced_def d'_def)
    ultimately show ?thesis unfolding d'_def by force
  qed
  then show ?thesis
    using pattern_aligned [OF a zero_less_one small, of i 1] unfolding transmits_def t_def [symmetric] t' by blast
qed

text \<open>A literal field: the pattern, the index or zero and the name, the value.\<close>

lemma name_bound:
  assumes "synced e d" "table_field i (dec_table d) = Some f"
  shows "length (hf_name f) < 2 ^ 31"
proof -
  have st: "length (hf_name g) < 2 ^ 31" if "g \<in> set staticPart" for g
  proof -
    have "length (ascii n) = length n" for n by (simp add: ascii_def)
    moreover have "\<forall>g \<in> set staticPart. length (hf_name g) \<le> 27"
      unfolding staticPart_def by (simp only: list.set ball_simps hf_HeaderField calculation) simp
    ultimately show ?thesis using that by fastforce
  qed
  have dy: "length (hf_name g) < 2 ^ 31" if "g \<in> set (dyn (dec_table d))" for g
  proof -
    have "field_size g \<le> fields_size (dyn (dec_table d))"
      unfolding fields_size_def using that by (intro member_le_sum_list) auto
    also have "\<dots> < 2 ^ 31" using assms(1) by (simp add: synced_def table_ok_def)
    finally show ?thesis by (simp add: field_size_def)
  qed
  have "table_ok (dec_table d)" using assms(1) by (simp add: synced_def)
  with assms(2) st dy show ?thesis
    by (auto simp: table_field_eq split: if_splits)
qed

lemma synced_prepend:
  assumes "synced e d"
  shows "synced (e\<lparr>enc_table := snd (prependField n v (enc_table e))\<rparr>)
      (d\<lparr>dec_header := h, dec_table := snd (prependField n v (dec_table d))\<rparr>)"
    and "fst (prependField n v (dec_table d)) = (entry_size n v \<noteq> None)"
    and "maxTableSize (snd (prependField n v (dec_table d))) = maxTableSize (dec_table d)"
    and "maxTableSize (snd (prependField n v (enc_table e))) = maxTableSize (enc_table e)"
proof -
  have ok: "table_ok (enc_table e)" "table_ok (dec_table d)" using assms by (simp_all add: synced_def)
  show "synced (e\<lparr>enc_table := snd (prependField n v (enc_table e))\<rparr>)
      (d\<lparr>dec_header := h, dec_table := snd (prependField n v (dec_table d))\<rparr>)"
    using assms lookup_table.lockstep_prepend [of "enc_table e" "dec_table d" n v]
    by (simp add: synced_lockstep lookup_table.prepend_capacity [OF ok(1)])
qed (use assms in \<open>simp_all add: synced_def lookup_table.prepend_flag lookup_table.prepend_limit\<close>)

lemma processDecodedField_literal:
  assumes "synced e d" "length n + length v < 2 ^ 32 - 32"
  defines "d' \<equiv> d\<lparr>dec_header := dec_header d @ [HeaderField n v],
      dec_table := snd (prependField n v (dec_table d))\<rparr>"
  shows "processDecodedField LiteralIncrementalIndexing n v d = (True, d')"
    and "synced (e\<lparr>enc_table := snd (prependField n v (enc_table e))\<rparr>) d'"
    and "maxTableSize (dec_table d') = maxTableSize (dec_table d)"
proof -
  have "entry_size n v \<noteq> None" using assms(2) by (simp add: entry_size_def Let_def)
  then have "fst (prependField n v (dec_table d))" using synced_prepend(2) [OF assms(1), of n v] by simp
  then show "processDecodedField LiteralIncrementalIndexing n v d = (True, d')"
    by (simp add: processDecodedField_def d'_def split_def Let_def)
  show "synced (e\<lparr>enc_table := snd (prependField n v (enc_table e))\<rparr>) d'"
    unfolding d'_def by (rule synced_prepend(1) [OF assms(1)])
  show "maxTableSize (dec_table d') = maxTableSize (dec_table d)"
    using synced_prepend(3) [OF assms(1)] by (simp add: d'_def)
qed

text \<open>The decoder takes the branch of the literal with incremental indexing.\<close>

lemma decode_literal_branch:
  assumes a: "aligned s" and v: "v < 2 ^ 32"
  defines "t \<equiv> BitOStream_writeInt v (write_bit_pattern LiteralIncrementalIndexing s)"
  assumes len: "8 * length (buffer t @ rest) + 8 < 2 ^ 32"
  shows "decodeFields d \<lparr>octets = buffer t @ rest, offset = bitsSet s, streamError = err\<rparr> =
      Option.bind (decodeLiteralField LiteralIncrementalIndexing d
          \<lparr>octets = buffer t @ rest, offset = bitsSet s + 2, streamError = err\<rparr>)
        (\<lambda>(ok, d, s). if ok then decodeFields d s else Some (False, d, s))"
    and "BitIStream_readInt \<lparr>octets = buffer t @ rest, offset = bitsSet s + 2, streamError = err\<rparr>
      = (Some v, \<lparr>octets = buffer t @ rest, offset = bitsSet t, streamError = NoError\<rparr>)"
proof -
  have n: "(0 :: nat) < 2" "(2 :: nat) < 8" "(1 :: nat) < 8" by simp_all
  note r = read_first [OF a _ n(1,2) v, where p = LiteralIncrementalIndexing, folded t_def, OF _ len]
  have i: "read_bit_pattern Indexed \<lparr>octets = buffer t @ rest, offset = bitsSet s, streamError = err\<rparr>
      = (False, \<lparr>octets = buffer t @ rest, offset = bitsSet s, streamError = err\<rparr>)"
    using r(1) [of 1 1] n by (simp add: Indexed_def)
  have l: "read_bit_pattern LiteralIncrementalIndexing \<lparr>octets = buffer t @ rest, offset = bitsSet s, streamError = err\<rparr>
      = (True, \<lparr>octets = buffer t @ rest, offset = bitsSet s + 2, streamError = err\<rparr>)"
    using r(2) [of 2 1] n by (simp add: LiteralIncrementalIndexing_def)
  show "decodeFields d \<lparr>octets = buffer t @ rest, offset = bitsSet s, streamError = err\<rparr> =
      Option.bind (decodeLiteralField LiteralIncrementalIndexing d
          \<lparr>octets = buffer t @ rest, offset = bitsSet s + 2, streamError = err\<rparr>)
        (\<lambda>(ok, d, s). if ok then decodeFields d s else Some (False, d, s))"
    by (subst decodeFields.simps) (simp add: i l)
  have t: "t = BitOStream_writeInt v (BitOStream_writeBits 1 2 s)" by (simp add: t_def write_bit_pattern_def)
  show "BitIStream_readInt \<lparr>octets = buffer t @ rest, offset = bitsSet s + 2, streamError = err\<rparr>
      = (Some v, \<lparr>octets = buffer t @ rest, offset = bitsSet t, streamError = NoError\<rparr>)"
    using pattern_int(2) [OF a n(1,2) v, where w = 1, folded t, OF len] .
qed

lemma transmits_literal_index:
  assumes a: "aligned s" and c: "\<not> compressStrings e"
    and i: "table_ok (enc_table e)" "table_field i (enc_table e) = Some f"
    and enc: "encodeLiteralIndex LiteralIncrementalIndexing i v False e s = Some (ok, e', s')"
  shows "ok \<and> transmits e s [HeaderField (hf_name f) v] e' s'"
proof -
  define t where "t = BitOStream_writeInt i (write_bit_pattern LiteralIncrementalIndexing s)"
  have nm: "table_fieldName i (enc_table e) = Some (hf_name f)" using i(2) by (simp add: table_fieldName_def)
  have e': "e' = e\<lparr>enc_table := snd (prependField (hf_name f) v (enc_table e))\<rparr>" "ok"
    and w: "BitOStream_writeString v False t = Some s'"
    using enc nm by (auto simp: encodeLiteralIndex_def t_def Let_def split: bind_splits)
  have i32: "i < 2 ^ 32" and i0: "i \<noteq> 0"
    using lookup_table.index_bound [OF i] field_nonzero [OF i(2)] .
  have tt: "t = BitOStream_writeInt i (BitOStream_writeBits 1 2 s)" by (simp add: t_def write_bit_pattern_def)
  have "(0 :: nat) < 2" "(2 :: nat) < 8" by simp_all
  note pa = pattern_aligned [OF a this, of i 1, folded tt]
  note sa = writeString_aligned [OF pa(1) w]
  have "\<exists>d' err'. decodeFields d \<lparr>octets = buffer s' @ rest, offset = bitsSet s, streamError = err\<rparr>
        = decodeFields d' \<lparr>octets = buffer s' @ rest, offset = bitsSet s', streamError = err'\<rparr>
      \<and> synced e' d' \<and> dec_header d' = dec_header d @ [HeaderField (hf_name f) v]
      \<and> maxTableSize (dec_table d') = maxTableSize (dec_table d)"
    if d: "synced e d" and len: "8 * length (buffer s' @ rest) + 8 < 2 ^ 32" for d err rest
  proof -
    obtain w' where w': "buffer s' = buffer t @ w'" using sa(2) by (auto simp: prefix_def)
    have len': "8 * length (buffer t @ (w' @ rest)) + 8 < 2 ^ 32" using len w' by simp
    note br = decode_literal_branch(1) [OF a i32, folded t_def, OF len', of d err]
      decode_literal_branch(2) [OF a i32, folded t_def, OF len', of err]
    note sr = string_round_trip [OF pa(1) w len, of "[]" NoError]
    have look: "table_field i (dec_table d) = Some f"
      using d i lookup_table.lockstep_look [of "enc_table e" "dec_table d" i] by (simp add: synced_lockstep)
    have "length (hf_name f) + length v < 2 ^ 32 - 32"
      using name_bound [OF d look] sa(3) len by simp
    note pr = processDecodedField_literal [OF d this]
    from br sr look i0 pr show ?thesis
      by (intro exI) (auto simp: w' decodeLiteralField_def table_fieldName_def e')
  qed
  then show ?thesis
    using pa sa e' synced_prepend(4) i(1) unfolding transmits_def
    by (auto simp: lookup_table.prepend_limit intro: prefix_order.trans)
qed

lemma transmits_literal_name:
  assumes a: "aligned s" and ok: "table_ok (enc_table e)"
    and enc: "encodeLiteralName LiteralIncrementalIndexing n v False e s = Some (res, e', s')"
  shows "res \<and> transmits e s [HeaderField n v] e' s'"
proof -
  define t where "t = BitOStream_writeInt 0 (write_bit_pattern LiteralIncrementalIndexing s)"
  obtain t2 where e': "e' = e\<lparr>enc_table := snd (prependField n v (enc_table e))\<rparr>" "res"
    and w: "BitOStream_writeString n False t = Some t2" "BitOStream_writeString v False t2 = Some s'"
    using enc a by (auto simp: encodeLiteralName_def t_def aligned_def Let_def split: bind_splits)
  have tt: "t = BitOStream_writeInt 0 (BitOStream_writeBits 1 2 s)" by (simp add: t_def write_bit_pattern_def)
  have two: "(0 :: nat) < 2" "(2 :: nat) < 8" and z: "(0 :: nat) < 2 ^ 32" by simp_all
  note pa = pattern_aligned [OF a two, of 0 1, folded tt]
  note sa = writeString_aligned [OF pa(1) w(1)]
  note sb = writeString_aligned [OF sa(1) w(2)]
  have "\<exists>d' err'. decodeFields d \<lparr>octets = buffer s' @ rest, offset = bitsSet s, streamError = err\<rparr>
        = decodeFields d' \<lparr>octets = buffer s' @ rest, offset = bitsSet s', streamError = err'\<rparr>
      \<and> synced e' d' \<and> dec_header d' = dec_header d @ [HeaderField n v]
      \<and> maxTableSize (dec_table d') = maxTableSize (dec_table d)"
    if d: "synced e d" and len: "8 * length (buffer s' @ rest) + 8 < 2 ^ 32" for d err rest
  proof -
    obtain w1 w2 where w1: "buffer t2 = buffer t @ w1" and w2: "buffer s' = buffer t2 @ w2"
      using sa(2) sb(2) by (auto simp: prefix_def)
    have len': "8 * length (buffer t @ (w1 @ w2 @ rest)) + 8 < 2 ^ 32"
      "8 * length (buffer t2 @ (w2 @ rest)) + 8 < 2 ^ 32"
      using len w1 w2 by simp_all
    note br = decode_literal_branch(1) [OF a z, folded t_def, OF len'(1), of d err]
      decode_literal_branch(2) [OF a z, folded t_def, OF len'(1), of err]
    note sr = string_round_trip [OF pa(1) w(1) len'(2), of "[]" NoError]
      string_round_trip [OF sa(1) w(2) len, of "[]" NoError]
    have "length n < length (buffer t2)" "length v < length (buffer s')" "length (buffer t2) \<le> length (buffer s')"
      using sa(3) sb(3) w2 by simp_all
    then have "length n + length v < 2 ^ 32 - 32" using len by simp
    note pr = processDecodedField_literal [OF d this]
    from br sr pr show ?thesis by (intro exI) (auto simp: w1 w2 decodeLiteralField_def e')
  qed
  then show ?thesis
    using pa sa sb e' ok unfolding transmits_def
    by (auto simp: lookup_table.prepend_limit intro: prefix_order.trans)
qed

lemma encodeHeaderField_transmits:
  assumes "aligned s" "\<not> compressStrings e" "table_ok (enc_table e)"
    and enc: "encodeHeaderField f e s = Some (ok, e', s')"
  shows "ok \<and> transmits e s [f] e' s'"
proof (cases "indexOf (hf_name f) (hf_value f) (enc_table e) = 0")
  case False
  from lookup_table.find_pair_sound [OF assms(3) this]
  have "table_field (indexOf (hf_name f) (hf_value f) (enc_table e)) (enc_table e) = Some f" by simp
  from transmits_indexed [OF assms(1,3) this] enc False show ?thesis by (auto simp: encodeHeaderField_def Let_def)
next
  case no: True
  show ?thesis
  proof (cases "indexOfName (hf_name f) (enc_table e) = 0")
    case True
    then show ?thesis
      using no enc assms(2) transmits_literal_name [OF assms(1,3), of "hf_name f" "hf_value f" ok e' s']
      by (simp add: encodeHeaderField_def Let_def)
  next
    case False
    from lookup_table.find_nm_sound [OF assms(3) False] obtain v where
      v: "table_field (indexOfName (hf_name f) (enc_table e)) (enc_table e) = Some (HeaderField (hf_name f) v)" ..
    show ?thesis
      using no False enc assms(2) transmits_literal_index [OF assms(1,2,3) v, of "hf_value f" ok e' s']
      by (simp add: encodeHeaderField_def Let_def)
  qed
qed

text \<open>What a transmission needs, and leaves for the next one.\<close>

definition ready :: "Encoder \<Rightarrow> BitOStream \<Rightarrow> bool" where
  "ready e s \<longleftrightarrow> aligned s \<and> \<not> compressStrings e \<and> table_ok (enc_table e)"

lemma encodeHeaderField_ready:
  assumes r: "ready e s" and enc: "encodeHeaderField f e s = Some (ok, e', s')"
  shows "ok" "transmits e s [f] e' s'" "ready e' s'"
proof -
  have r: "aligned s" "\<not> compressStrings e" "table_ok (enc_table e)" using r by (simp_all add: ready_def)
  show t: "ok" "transmits e s [f] e' s'" using encodeHeaderField_transmits [OF r enc] by simp_all
  have p: "table_ok (snd (prependField n v (enc_table e)))" for n v by (rule lookup_table.prepend_inv [OF r(3)])
  have "table_ok (enc_table e')"
    using r p enc
    by (auto simp: encodeHeaderField_def encodeLiteralIndex_def encodeLiteralName_def Let_def
        split: if_splits bind_splits)
  then show "ready e' s'" using t(2) r(2) by (simp add: ready_def transmits_def)
qed

section \<open>Header blocks\<close>

lemma encodeFields_transmits:
  assumes "ready e s" "encodeFields skip fs e s = Some (ok, e', s')"
  shows "ok \<and> transmits e s (filter (\<lambda>f. \<not> skip (hf_name f)) fs) e' s' \<and> ready e' s'"
  using assms
proof (induction skip fs e s rule: encodeFields.induct)
  case (1 skip e s)
  then show ?case by (simp add: transmits_nothing ready_def)
next
  case (2 skip f fs e s)
  show ?case
  proof (cases "skip (hf_name f)")
    case True
    then show ?thesis using 2 by simp
  next
    case False
    then obtain ok1 e1 s1 where h: "encodeHeaderField f e s = Some (ok1, e1, s1)"
      using "2.prems"(2) by (auto split: bind_splits)
    note r = encodeHeaderField_ready [OF "2.prems"(1) h]
    have "encodeFields skip fs e1 s1 = Some (ok, e', s')" using "2.prems"(2) False h r(1) by simp
    from "2.IH"(2) [OF False h refl refl _ r(3) this] r(1,2) False show ?thesis
      using transmits_append [OF r(2)] by fastforce
  qed
qed

lemma indexOfName_method: "indexOfName (ascii '':method'') t = 2"
  by (simp add: indexOfName_def findInStaticPart_def lower_bound_def staticPart_def acceptPos_def
      staticPredicate_def compare_small HeaderField_def ascii_def Let_def)

lemma encodeMethod_field: "hf_name f = ascii '':method'' \<Longrightarrow> encodeMethod f e s = encodeHeaderField f e s"
  by (simp add: encodeMethod_def encodeHeaderField_def indexOfName_method Let_def)

text \<open>Without compression the encoder always returns.\<close>

lemma encodeHeaderField_total:
  assumes "ready e s"
  shows "\<exists>e' s'. encodeHeaderField f e s = Some (True, e', s') \<and> ready e' s' \<and> transmits e s [f] e' s'"
proof -
  have "\<exists>t. BitOStream_writeString src False u = Some t" for src u
    by (simp add: BitOStream_writeString_def Let_def)
  then obtain W where W: "BitOStream_writeString src False u = Some (W src u)" for src u by metis
  have c: "compressStrings e = False" "bitsSet s mod 8 = 0" using assms by (simp_all add: ready_def aligned_def)
  have "encodeHeaderField f e s \<noteq> None"
    by (auto simp: encodeHeaderField_def encodeLiteralIndex_def encodeLiteralName_def c W Let_def)
  then obtain ok e' s' where "encodeHeaderField f e s = Some (ok, e', s')" by auto
  from encodeHeaderField_ready [OF assms this] this show ?thesis by auto
qed

lemma encodeFields_total:
  "ready e s \<Longrightarrow> \<exists>e' s'. encodeFields skip fs e s = Some (True, e', s')"
proof (induction fs arbitrary: e s)
  case (Cons f fs)
  obtain e1 s1 where "encodeHeaderField f e s = Some (True, e1, s1)" "ready e1 s1"
    using encodeHeaderField_total [OF Cons.prems, of f] by blast
  then show ?case using Cons.IH Cons.prems by simp
qed simp

subsection \<open>Requests\<close>

lemma ascii_inject [simp]: "ascii a = ascii b \<longleftrightarrow> a = b"
proof -
  have "inj (\<lambda>c. word_of_nat (of_char c) :: 8 word)"
  proof (rule injI)
    fix c d :: char assume "(word_of_nat (of_char c) :: 8 word) = word_of_nat (of_char d)"
    then have "unat (word_of_nat (of_char c) :: 8 word) = unat (word_of_nat (of_char d) :: 8 word)" by simp
    then have "(of_char c :: nat) mod 256 = of_char d mod 256" by (simp add: unat_of_nat take_bit_eq_mod)
    then show "c = d" by simp
  qed
  then show ?thesis unfolding ascii_def by (rule inj_map_eq_map)
qed

lemma pseudo_names:
  "ascii '':status'' \<noteq> ascii '':method''" "ascii ''cookie'' \<noteq> ascii '':method''"
  "\<not> is_request_pseudo_header (ascii '':status'')" "\<not> is_request_pseudo_header (ascii ''cookie'')"
  "is_request_pseudo_header (ascii '':method'')"
  by (simp_all add: is_request_pseudo_header_def)

lemma find_pseudo:
  "find_name request_headerNames n =
    (if n = ascii '':authority'' then Some 0 else if n = ascii '':scheme'' then Some 1
     else if n = ascii '':path'' then Some 2 else None)"
  by (simp add: request_headerNames_def)

definition occurs :: "bytes \<Rightarrow> HeaderField list \<Rightarrow> nat" where
  "occurs n fs = length (filter (\<lambda>f. hf_name f = n) fs)"

lemma occurs_simps [simp]:
  "occurs n [] = 0" "occurs n (f # fs) = of_bool (hf_name f = n) + occurs n fs"
  by (simp_all add: occurs_def)

text \<open>The pseudo-headers of RFC 7540, 8.1.2.3, given the flags of those already seen.\<close>

definition request_complete :: "HeaderField list \<Rightarrow> bool \<Rightarrow> bool list \<Rightarrow> bool" where
  "request_complete fs m found \<longleftrightarrow>
     occurs (ascii '':status'') fs = 0
     \<and> occurs (ascii '':method'') fs + of_bool m = 1
     \<and> occurs (ascii '':authority'') fs + of_bool (found ! 0) \<le> 1
     \<and> occurs (ascii '':scheme'') fs + of_bool (found ! 1) = 1
     \<and> occurs (ascii '':path'') fs + of_bool (found ! 2) = 1"

lemma requestPseudoHeaders_ok:
  assumes "ready e s" "length found = 3"
  shows "\<exists>e' s'. requestPseudoHeaders fs m found e s = Some (request_complete fs m found, e', s')
    \<and> ready e' s' \<and> (request_complete fs m found \<longrightarrow>
        transmits e s (filter (\<lambda>f. is_request_pseudo_header (hf_name f)) fs) e' s')"
  using assms
proof (induction fs arbitrary: m found e s)
  case Nil
  then show ?case by (auto simp: request_complete_def transmits_nothing ready_def)
next
  case (Cons f fs)
  let ?n = "hf_name f"
  obtain e1 s1 where h: "encodeHeaderField f e s = Some (True, e1, s1)" "ready e1 s1" "transmits e s [f] e1 s1"
    using encodeHeaderField_total [OF Cons.prems(1), of f] by blast
  have next_ok: "\<exists>e' s'. requestPseudoHeaders fs m' found' e1 s1 = Some (request_complete fs m' found', e', s')
      \<and> ready e' s' \<and> (request_complete fs m' found' \<longrightarrow>
          transmits e s (f # filter (\<lambda>f. is_request_pseudo_header (hf_name f)) fs) e' s')"
    if "length found' = 3" for m' found'
    using Cons.IH [OF h(2) that, of m'] transmits_append [OF h(3)] by fastforce
  consider (status) "?n = ascii '':status''" | (is_method) "?n = ascii '':method''" | (cookie) "?n = ascii ''cookie''"
    | (pseudo) j where "find_name request_headerNames ?n = Some j" "?n \<noteq> ascii '':status''"
        "?n \<noteq> ascii '':method''" "?n \<noteq> ascii ''cookie''"
    | (other) "find_name request_headerNames ?n = None" "?n \<noteq> ascii '':status''"
        "?n \<noteq> ascii '':method''" "?n \<noteq> ascii ''cookie''"
    by fastforce
  then show ?case
  proof cases
    case status
    then show ?thesis using Cons.prems(1) by (auto simp: request_complete_def)
  next
    case is_method
    then show ?thesis
    proof (cases m)
      case True
      then show ?thesis using is_method pseudo_names Cons.prems(1) by (auto simp: request_complete_def)
    next
      case False
      have "request_complete (f # fs) m found = request_complete fs True found"
        using is_method False by (simp add: request_complete_def)
      then show ?thesis
        using is_method False pseudo_names next_ok [OF Cons.prems(2), of True] h(1) by (simp add: encodeMethod_field)
    qed
  next
    case cookie
    have "request_complete (f # fs) m found = request_complete fs m found"
      using cookie by (simp add: request_complete_def)
    moreover have "requestPseudoHeaders (f # fs) m found e s = requestPseudoHeaders fs m found e s"
      using cookie by simp
    ultimately show ?thesis using Cons.IH [OF Cons.prems, of m] cookie pseudo_names by simp
  next
    case other
    have "request_complete (f # fs) m found = request_complete fs m found"
      using other by (auto simp: request_complete_def find_pseudo split: if_splits)
    moreover have "\<not> is_request_pseudo_header ?n"
      using other by (auto simp: is_request_pseudo_header_def find_pseudo split: if_splits)
    ultimately show ?thesis using Cons.IH [OF Cons.prems, of m] other by simp
  next
    case (pseudo j)
    have j: "j < 3" "is_request_pseudo_header ?n"
      using pseudo by (auto simp: find_pseudo is_request_pseudo_header_def split: if_splits)
    have rc: "request_complete (f # fs) m found \<longleftrightarrow> \<not> found ! j \<and> request_complete fs m (found[j := True])"
      using pseudo Cons.prems(2)
      by (cases "found ! j") (auto simp: request_complete_def find_pseudo split: if_splits)
    show ?thesis
    proof (cases "found ! j")
      case True
      then show ?thesis using rc pseudo Cons.prems(1) by auto
    next
      case False
      then show ?thesis using rc pseudo j next_ok [of "found[j := True]" m] Cons.prems(2) h(1) by simp
    qed
  qed
qed

definition valid_request :: "HeaderField list \<Rightarrow> bool" where
  "valid_request h \<longleftrightarrow> h \<noteq> [] \<and> request_complete h False [False, False, False]"

lemma encodeRequest_ok:
  assumes "ready e s"
  shows "\<exists>e' s'. encodeRequest h e s = Some (valid_request h, e', s')
    \<and> (valid_request h \<longrightarrow> ready e' s' \<and> transmits e s
         (filter (\<lambda>f. is_request_pseudo_header (hf_name f)) h
          @ filter (\<lambda>f. \<not> is_request_pseudo_header (hf_name f)) h) e' s')"
proof (cases "h = []")
  case True
  then show ?thesis by (simp add: encodeRequest_def valid_request_def)
next
  case False
  let ?v = "request_complete h False [False, False, False]"
  obtain e1 s1 where p: "encodeRequestPseudoHeaders h e s = Some (?v, e1, s1)" "ready e1 s1"
      "?v \<longrightarrow> transmits e s (filter (\<lambda>f. is_request_pseudo_header (hf_name f)) h) e1 s1"
    using requestPseudoHeaders_ok [OF assms, of "[False, False, False]" h False]
    by (auto simp: encodeRequestPseudoHeaders_def)
  obtain e2 s2 where f: "encodeFields is_request_pseudo_header h e1 s1 = Some (True, e2, s2)"
    using encodeFields_total [OF p(2)] by blast
  note t = encodeFields_transmits [OF p(2) f]
  show ?thesis
  proof (cases ?v)
    case True
    then show ?thesis
      using False p f t transmits_append by (auto simp: encodeRequest_def valid_request_def)
  next
    case no: False
    then show ?thesis using False p by (simp add: encodeRequest_def valid_request_def)
  qed
qed

subsection \<open>Responses\<close>

definition response_complete :: "HeaderField list \<Rightarrow> bool \<Rightarrow> bool" where
  "response_complete fs found \<longleftrightarrow>
     (\<forall>f \<in> set fs. \<not> is_request_pseudo_header (hf_name f))
     \<and> occurs (ascii '':status'') fs + of_bool found = 1"

lemma responsePseudoHeaders_ok:
  assumes "ready e s"
  shows "\<exists>e' s'. responsePseudoHeaders fs found e s = Some (response_complete fs found, e', s')
    \<and> ready e' s' \<and> (response_complete fs found \<longrightarrow>
        transmits e s (filter (\<lambda>f. hf_name f = ascii '':status'') fs) e' s')"
  using assms
proof (induction fs arbitrary: found e s)
  case Nil
  then show ?case by (auto simp: response_complete_def transmits_nothing ready_def)
next
  case (Cons f fs)
  let ?n = "hf_name f"
  obtain e1 s1 where h: "encodeHeaderField f e s = Some (True, e1, s1)" "ready e1 s1" "transmits e s [f] e1 s1"
    using encodeHeaderField_total [OF Cons.prems(1), of f] by blast
  consider (request) "is_request_pseudo_header ?n" | (status) "?n = ascii '':status''"
    | (other) "\<not> is_request_pseudo_header ?n" "?n \<noteq> ascii '':status''"
    by blast
  then show ?case
  proof cases
    case request
    then show ?thesis using Cons.prems by (auto simp: response_complete_def)
  next
    case status
    show ?thesis
    proof (cases found)
      case True
      then show ?thesis using status pseudo_names Cons.prems by (auto simp: response_complete_def)
    next
      case False
      then have "response_complete (f # fs) found = response_complete fs True"
        using status pseudo_names by (simp add: response_complete_def)
      then show ?thesis
        using status pseudo_names False h(1) Cons.IH [OF h(2), of True] transmits_append [OF h(3)] by fastforce
    qed
  next
    case other
    then have "response_complete (f # fs) found = response_complete fs found"
      by (auto simp: response_complete_def)
    then show ?thesis using other Cons.IH [OF Cons.prems, of found] by simp
  qed
qed

definition valid_response :: "HeaderField list \<Rightarrow> bool" where
  "valid_response h \<longleftrightarrow> h \<noteq> [] \<and> response_complete h False"

lemma encodeResponse_ok:
  assumes "ready e s"
  shows "\<exists>e' s'. encodeResponse h e s = Some (valid_response h, e', s')
    \<and> (valid_response h \<longrightarrow> ready e' s' \<and> transmits e s
         (filter (\<lambda>f. hf_name f = ascii '':status'') h @ filter (\<lambda>f. hf_name f \<noteq> ascii '':status'') h) e' s')"
proof (cases "h = []")
  case True
  then show ?thesis by (simp add: encodeResponse_def valid_response_def)
next
  case False
  obtain e1 s1 where p: "encodeResponsePseudoHeaders h e s = Some (response_complete h False, e1, s1)" "ready e1 s1"
      "response_complete h False \<longrightarrow> transmits e s (filter (\<lambda>f. hf_name f = ascii '':status'') h) e1 s1"
    using responsePseudoHeaders_ok [OF assms, of h False] by (auto simp: encodeResponsePseudoHeaders_def)
  obtain e2 s2 where f: "encodeFields (\<lambda>n. n = ascii '':status'') h e1 s1 = Some (True, e2, s2)"
    using encodeFields_total [OF p(2)] by blast
  note t = encodeFields_transmits [OF p(2) f]
  show ?thesis
  proof (cases "response_complete h False")
    case True
    then show ?thesis
      using False p f t transmits_append by (auto simp: encodeResponse_def valid_response_def)
  next
    case no: False
    then show ?thesis using False p by (simp add: encodeResponse_def valid_response_def)
  qed
qed

section \<open>Whole blocks\<close>

lemma decodeFields_end:
  assumes "offset s = BitIStream_bitLength s"
  shows "decodeFields d s = Some (True, d, s)"
proof -
  have "read_bit_pattern p s = (False, s)" if "0 < bp_bitLength p" for p
    using read_pattern_end that assms by simp
  then have "\<not> fst (read_bit_pattern p s)" if "p \<in> {Indexed, LiteralIncrementalIndexing, LiteralNoIndexing,
      LiteralNeverIndexing, SizeUpdate}" for p
    using that by (auto simp: Indexed_def LiteralIncrementalIndexing_def LiteralNoIndexing_def
        LiteralNeverIndexing_def SizeUpdate_def)
  then show ?thesis using assms by (subst decodeFields.simps) simp
qed

lemma transmits_decode:
  assumes "transmits e (BitOStream_new []) fs e' s'" "synced e d" "length (buffer s') < 2 ^ 28"
  shows "\<exists>d' i. decodeHeaderFields d (BitIStream_new (buffer s')) = Some (True, d', i)
    \<and> dec_header d' = fs \<and> synced e' d'"
proof -
  have "synced e (d\<lparr>dec_header := []\<rparr>)" using assms(2) by (simp add: synced_def)
  moreover have "8 * length (buffer s' @ []) + 8 < 2 ^ 32" using assms(3) by simp
  ultimately obtain d' err where
    "decodeFields (d\<lparr>dec_header := []\<rparr>) \<lparr>octets = buffer s', offset = 0, streamError = NoError\<rparr>
      = decodeFields d' \<lparr>octets = buffer s', offset = bitsSet s', streamError = err\<rparr>"
    and d': "synced e' d'" "dec_header d' = fs"
    using assms(1) [unfolded transmits_def, THEN conjunct2, THEN conjunct2, THEN conjunct2, THEN conjunct2,
        rule_format, of "d\<lparr>dec_header := []\<rparr>" "[]" NoError]
    by (auto simp: BitOStream_new_def)
  moreover have "bitsSet s' = 8 * length (buffer s')" using assms(1) by (simp add: transmits_def aligned_def)
  ultimately have "decodeHeaderFields d (BitIStream_new (buffer s'))
      = Some (True, d', \<lparr>octets = buffer s', offset = bitsSet s', streamError = err\<rparr>)"
    by (simp add: decodeHeaderFields_def BitIStream_new_def decodeFields_end BitIStream_bitLength_def)
  with d' show ?thesis by blast
qed

end
