(* ===== verification/HpackProps.thy ===== *)
theory HpackProps
  imports HpackCodec
begin

text \<open>
  The properties of the HPACK layer: what an encoder sends its peer decodes, the tables of both
  ends stay in step and within their capacity, and the cases where the code departs from its
  documentation.
\<close>

section \<open>Concrete blocks\<close>

lemma static_found:
  "findInStaticPart (HeaderField (ascii '':method'') (ascii ''GET'')) nameAndValue = 1"
  "findInStaticPart (HeaderField (ascii '':scheme'') (ascii ''https'')) nameAndValue = 6"
  "findInStaticPart (HeaderField (ascii '':path'') (ascii ''/'')) nameAndValue = 3"
  "findInStaticPart (HeaderField (ascii '':status'') (ascii ''200'')) nameAndValue = 7"
  by code_simp+

lemma static_hits:
  "indexOf (ascii '':method'') (ascii ''GET'') t = 2"
  "indexOf (ascii '':scheme'') (ascii ''https'') t = 7"
  "indexOf (ascii '':path'') (ascii ''/'') t = 4"
  "indexOf (ascii '':status'') (ascii ''200'') t = 8"
proof -
  have "staticPart ! 1 = HeaderField (ascii '':method'') (ascii ''GET'')"
    "staticPart ! 6 = HeaderField (ascii '':scheme'') (ascii ''https'')"
    "staticPart ! 3 = HeaderField (ascii '':path'') (ascii ''/'')"
    "staticPart ! 7 = HeaderField (ascii '':status'') (ascii ''200'')"
    by (simp_all add: staticPart_def)
  then show "indexOf (ascii '':method'') (ascii ''GET'') t = 2"
    "indexOf (ascii '':scheme'') (ascii ''https'') t = 7"
    "indexOf (ascii '':path'') (ascii ''/'') t = 4"
    "indexOf (ascii '':status'') (ascii ''200'') t = 8"
    by (simp_all only: indexOf_def Let_def static_found) simp_all
qed

definition get_request :: "HeaderField list" where
  "get_request = [HeaderField (ascii '':method'') (ascii ''GET''),
     HeaderField (ascii '':scheme'') (ascii ''https''), HeaderField (ascii '':path'') (ascii ''/'')]"

lemma encode_get_request: "encodeRequest get_request (Encoder_new m c) (BitOStream_new []) =
    Some (True, Encoder_new m c, \<lparr>buffer = [0x82, 0x87, 0x84], bitsSet = 24\<rparr>)"
proof -
  have "encodeIndexedField 2 (BitOStream_new []) = \<lparr>buffer = [0x82], bitsSet = 8\<rparr>"
    "encodeIndexedField 7 \<lparr>buffer = [0x82], bitsSet = 8\<rparr> = \<lparr>buffer = [0x82, 0x87], bitsSet = 16\<rparr>"
    "encodeIndexedField 4 \<lparr>buffer = [0x82, 0x87], bitsSet = 16\<rparr> = \<lparr>buffer = [0x82, 0x87, 0x84], bitsSet = 24\<rparr>"
    by code_simp+
  then show ?thesis
    by (simp add: get_request_def encodeRequest_def encodeRequestPseudoHeaders_def find_pseudo
        encodeMethod_field encodeHeaderField_def static_hits is_request_pseudo_header_def)
qed

lemma encode_ok_response:
  "encodeResponse [HeaderField (ascii '':status'') (ascii ''200'')] (Encoder_new m c) (BitOStream_new []) =
    Some (True, Encoder_new m c, \<lparr>buffer = [0x88], bitsSet = 8\<rparr>)"
proof -
  have "encodeIndexedField 8 (BitOStream_new []) = \<lparr>buffer = [0x88], bitsSet = 8\<rparr>" by code_simp
  then show ?thesis
    by (simp add: encodeResponse_def encodeResponsePseudoHeaders_def encodeHeaderField_def static_hits
        is_request_pseudo_header_def)
qed

section \<open>Header blocks\<close>

text \<open>C8: A request block that the encoder writes without string compression is decoded by a peer in
  step with it to the pseudo-headers followed by the other fields, in their order, and leaves
  the two in step for the next block.\<close>

theorem request_round_trip:
  assumes "synced e d" "\<not> compressStrings e"
    and "encodeRequest h e (BitOStream_new []) = Some (True, e', s)" "length (buffer s) < 2 ^ 28"
  shows "\<exists>d' i. decodeHeaderFields d (BitIStream_new (buffer s)) = Some (True, d', i)
    \<and> dec_header d' = filter (\<lambda>f. is_request_pseudo_header (hf_name f)) h
        @ filter (\<lambda>f. \<not> is_request_pseudo_header (hf_name f)) h
    \<and> synced e' d'"
proof -
  have "ready e (BitOStream_new [])" using assms(1,2) by (simp add: ready_def aligned_new synced_def)
  from encodeRequest_ok [OF this, of h] assms(3) have
    "transmits e (BitOStream_new []) (filter (\<lambda>f. is_request_pseudo_header (hf_name f)) h
        @ filter (\<lambda>f. \<not> is_request_pseudo_header (hf_name f)) h) e' s"
    by auto
  from transmits_decode [OF this assms(1,4)] show ?thesis .
qed

lemma request_round_trip_witness:
  "\<exists>d' i. decodeHeaderFields (Decoder_new 4096) (BitIStream_new [0x82, 0x87, 0x84]) = Some (True, d', i)
    \<and> dec_header d' = get_request \<and> synced (Encoder_new 4096 False) d'"
proof -
  have "\<not> compressStrings (Encoder_new 4096 False)" by (simp add: Encoder_new_def)
  from request_round_trip [OF synced_new this encode_get_request] show ?thesis
    by (simp add: get_request_def is_request_pseudo_header_def)
qed

text \<open>C23: A response block round-trips the same way: \<open>:status\<close> first, then the other fields.\<close>

theorem response_round_trip:
  assumes "synced e d" "\<not> compressStrings e"
    and "encodeResponse h e (BitOStream_new []) = Some (True, e', s)" "length (buffer s) < 2 ^ 28"
  shows "\<exists>d' i. decodeHeaderFields d (BitIStream_new (buffer s)) = Some (True, d', i)
    \<and> dec_header d' = filter (\<lambda>f. hf_name f = ascii '':status'') h @ filter (\<lambda>f. hf_name f \<noteq> ascii '':status'') h
    \<and> synced e' d'"
proof -
  have "ready e (BitOStream_new [])" using assms(1,2) by (simp add: ready_def aligned_new synced_def)
  from encodeResponse_ok [OF this, of h] assms(3) have
    "transmits e (BitOStream_new [])
       (filter (\<lambda>f. hf_name f = ascii '':status'') h @ filter (\<lambda>f. hf_name f \<noteq> ascii '':status'') h) e' s"
    by auto
  from transmits_decode [OF this assms(1,4)] show ?thesis .
qed

lemma response_round_trip_witness:
  "\<exists>d' i. decodeHeaderFields (Decoder_new 4096) (BitIStream_new [0x88]) = Some (True, d', i)
    \<and> dec_header d' = [HeaderField (ascii '':status'') (ascii ''200'')] \<and> synced (Encoder_new 4096 False) d'"
proof -
  have "\<not> compressStrings (Encoder_new 4096 False)" by (simp add: Encoder_new_def)
  from response_round_trip [OF synced_new this encode_ok_response] show ?thesis by simp
qed

text \<open>C27: \<open>encodeRequest\<close> returns true exactly on a non-empty list of fields without \<open>:status\<close>, with
  one \<open>:method\<close>, one \<open>:scheme\<close>, one \<open>:path\<close> and at most one \<open>:authority\<close>.\<close>

theorem encodeRequest_accepts:
  assumes "table_ok (enc_table e)" "\<not> compressStrings e"
  shows "\<exists>e' s. encodeRequest h e (BitOStream_new []) =
    Some (h \<noteq> [] \<and> occurs (ascii '':status'') h = 0 \<and> occurs (ascii '':method'') h = 1
            \<and> occurs (ascii '':scheme'') h = 1 \<and> occurs (ascii '':path'') h = 1
            \<and> occurs (ascii '':authority'') h \<le> 1, e', s)"
proof -
  have "ready e (BitOStream_new [])" using assms by (simp add: ready_def aligned_new)
  from encodeRequest_ok [OF this, of h] show ?thesis
    by (auto simp: valid_request_def request_complete_def conj_ac)
qed

lemma encodeRequest_accepts_witness:
  "\<exists>e' s. encodeRequest (get_request @ [HeaderField (ascii '':status'') (ascii ''200'')])
     (Encoder_new 4096 False) (BitOStream_new []) = Some (False, e', s)"
  using encodeRequest_accepts [of "Encoder_new 4096 False" "get_request @ [HeaderField (ascii '':status'') (ascii ''200'')]"]
    table_ok_new [of 4096 True]
  by (simp add: Encoder_new_def get_request_def occurs_def)

section \<open>Dynamic table size updates\<close>

text \<open>The pattern \<open>001\<close> is not the start of another representation.\<close>

lemma decode_size_branch:
  assumes a: "aligned s" and v: "v < 2 ^ 32"
  defines "t \<equiv> BitOStream_writeInt v (write_bit_pattern SizeUpdate s)"
  assumes len: "8 * length (buffer t @ rest) + 8 < 2 ^ 32"
  shows "decodeFields d \<lparr>octets = buffer t @ rest, offset = bitsSet s, streamError = err\<rparr> =
    (let (ok, t') = updateDynamicTableSize v (dec_table d);
         i = \<lparr>octets = buffer t @ rest, offset = bitsSet t, streamError = NoError\<rparr>
     in if ok then decodeFields (d\<lparr>dec_table := t'\<rparr>) i else Some (False, d\<lparr>dec_table := t'\<rparr>, i))"
proof -
  let ?s = "\<lparr>octets = buffer t @ rest, offset = bitsSet s, streamError = err\<rparr>"
  have n: "(0 :: nat) < 3" "(3 :: nat) < 8" by simp_all
  note r = read_first [OF a _ n(1,2) v, where p = SizeUpdate and e = err, folded t_def, OF _ len]
  have i: "read_bit_pattern Indexed ?s = (False, ?s)"
    using r(1) [of 1 1] n by (simp add: Indexed_def)
  have l: "read_bit_pattern LiteralIncrementalIndexing ?s = (False, ?s)"
  proof -
    have "\<not> (\<forall>i < 2. bit (1 :: 8 word) (2 - 1 - i) = bit (1 :: 8 word) (3 - 1 - i))"
      by (auto intro!: exI [of _ "1 :: nat"])
    then show ?thesis using r(1) [of 2 1] by (simp add: LiteralIncrementalIndexing_def)
  qed
  have no: "\<not> (\<forall>i < 3. bit (0 :: 8 word) (4 - 1 - i) = bit (1 :: 8 word) (3 - 1 - i))"
    "\<not> (\<forall>i < 3. bit (1 :: 8 word) (4 - 1 - i) = bit (1 :: 8 word) (3 - 1 - i))"
    by (auto intro!: exI [of _ "2 :: nat"])
  have m: "read_bit_pattern LiteralNoIndexing ?s = (False, ?s)"
    "read_bit_pattern LiteralNeverIndexing ?s = (False, ?s)"
    using r(1) [of 4 0] r(1) [of 4 1] no by (simp_all add: LiteralNoIndexing_def LiteralNeverIndexing_def)
  have u: "read_bit_pattern SizeUpdate ?s = (True, ?s\<lparr>offset := bitsSet s + 3\<rparr>)"
    using r(2) [of 3 1] by (simp add: SizeUpdate_def)
  have t: "t = BitOStream_writeInt v (BitOStream_writeBits 1 3 s)" by (simp add: t_def write_bit_pattern_def)
  note ri = pattern_int(2) [OF a n v, where w = 1, folded t, OF len, of err]
  show ?thesis
    by (subst decodeFields.simps) (simp add: i l m u ri decodeSizeUpdate_def split_def Let_def)
qed

text \<open>C36: A size update the encoder sends resizes both tables alike, evicting the same fields, and
  the two stay in step for the blocks that follow.\<close>

theorem size_update_in_step:
  assumes "synced e d" "k < 2 ^ 31" "k \<le> maxTableSize (dec_table d)"
    and "encodeSizeUpdate k e (BitOStream_new []) = (True, e', s)" "length (buffer s) < 2 ^ 28"
  shows "\<exists>d' i. decodeHeaderFields d (BitIStream_new (buffer s)) = Some (True, d', i)
    \<and> dec_header d' = [] \<and> synced e' d' \<and> dyn (enc_table e') = fit k (dyn (enc_table e))"
proof -
  have k: "k < 2 ^ 32" using assms(2) by simp
  have e: "table_ok (enc_table e)" "table_ok (dec_table d)" using assms(1) by (simp_all add: synced_def)
  have ke: "k \<le> maxTableSize (enc_table e)"
    using assms(4) lookup_table.resize_flag [OF e(1) k] by (auto simp: encodeSizeUpdate_def split_def Let_def)
  have s: "s = BitOStream_writeInt k (write_bit_pattern SizeUpdate (BitOStream_new []))"
    and e': "e' = e\<lparr>enc_table := snd (updateDynamicTableSize k (enc_table e))\<rparr>"
    using assms(4) by (auto simp: encodeSizeUpdate_def split_def Let_def split: if_splits)
  have n: "(0 :: nat) < 3" "(3 :: nat) < 8" by simp_all
  have al: "aligned s"
    unfolding s write_bit_pattern_def pattern_fields by (rule pattern_aligned [OF aligned_new n])
  define d' where "d' = d\<lparr>dec_header := [], dec_table := snd (updateDynamicTableSize k (dec_table d))\<rparr>"
  have ls: "lookup_table.lockstep (enc_table e') (dec_table d')" "fst (updateDynamicTableSize k (dec_table d))"
    using lookup_table.lockstep_resize [OF _ k ke assms(3)] assms(1) by (simp_all add: synced_lockstep e' d'_def)
  have "8 * length (buffer s @ []) + 8 < 2 ^ 32" using assms(5) by simp
  from decode_size_branch [OF aligned_new [of "[]"] k, folded s, OF this, of "d\<lparr>dec_header := []\<rparr>" NoError] ls(2)
  have "decodeHeaderFields d (BitIStream_new (buffer s))
      = decodeFields d' \<lparr>octets = buffer s, offset = bitsSet s, streamError = NoError\<rparr>"
    by (simp add: decodeHeaderFields_def BitIStream_new_def BitOStream_new_def d'_def split_def Let_def)
  also have "\<dots> = Some (True, d', \<lparr>octets = buffer s, offset = bitsSet s, streamError = NoError\<rparr>)"
    using al by (intro decodeFields_end) (simp add: aligned_def BitIStream_bitLength_def)
  finally have "decodeHeaderFields d (BitIStream_new (buffer s))
      = Some (True, d', \<lparr>octets = buffer s, offset = bitsSet s, streamError = NoError\<rparr>)" .
  moreover have "tableCapacity (enc_table e') < 2 ^ 31"
    using assms(1,2) lookup_table.resize_capacity [OF e(1) k ke] by (simp add: e' synced_def)
  moreover have "dyn (enc_table e') = fit k (dyn (enc_table e))"
    using lookup_table.resize_content [OF e(1) k ke] by (simp add: e')
  ultimately show ?thesis using ls(1) by (auto simp: synced_lockstep d'_def)
qed

lemma size_update_in_step_witness:
  "\<exists>d' i. decodeHeaderFields (Decoder_new 4096) (BitIStream_new [0x3f, 0x45]) = Some (True, d', i)
    \<and> dec_header d' = [] \<and> synced (Encoder_new 4096 False\<lparr>enc_table := (FieldLookupTable_new 4096 True)\<lparr>tableCapacity := 100\<rparr>\<rparr>) d'"
proof -
  have w: "encodeSizeUpdate 100 (Encoder_new 4096 False) (BitOStream_new []) =
    (True, Encoder_new 4096 False\<lparr>enc_table := (FieldLookupTable_new 4096 True)\<lparr>tableCapacity := 100\<rparr>\<rparr>,
      \<lparr>buffer = [0x3f, 0x45], bitsSet = 16\<rparr>)"
    by (simp add: encodeSizeUpdate_def updateDynamicTableSize_def Encoder_new_def FieldLookupTable_new_def
        evictToCapacity.simps BitOStream_writeInt_def write_bit_pattern_def BitOStream_writeBits_def
        BitOStream_new_def BitOStream_pushInt.simps)
  have "maxTableSize (dec_table (Decoder_new 4096)) = 4096" by (simp add: Decoder_new_def FieldLookupTable_new_def)
  with size_update_in_step [OF synced_new _ _ w] show ?thesis by fastforce
qed

section \<open>The tables\<close>

text \<open>C9: Prepending a field refines the abstract table: the entry goes to the front, entries leave at
  the back until the sizes fit the capacity, and an entry larger than the capacity empties the table.\<close>

theorem prependField_refines:
  assumes "table_ok t" "length n + length v < 2 ^ 32 - 32"
  shows "fst (prependField n v t) \<and> table_ok (snd (prependField n v t))
    \<and> dyn (snd (prependField n v t)) =
        (if field_size (HeaderField n v) > tableCapacity t then []
         else HeaderField n v # fit (tableCapacity t - field_size (HeaderField n v)) (dyn t))"
proof -
  have "entry_size n v \<noteq> None" using assms(2) by (simp add: entry_size_def Let_def)
  then show ?thesis
    using lookup_table.prepend_flag [OF assms(1)] lookup_table.prepend_inv [OF assms(1)]
      lookup_table.prepend_content [OF assms(1)] by (auto simp: add_field_def)
qed

lemma prependField_refines_witness:
  "dyn (snd (prependField [1] [2] (FieldLookupTable_new 40 True))) = [HeaderField [1] [2]]"
  using prependField_refines [of "FieldLookupTable_new 40 True" "[1]" "[2]"] table_ok_new [of 40 True]
  by (simp add: FieldLookupTable_new_def field_size_def fit.simps)

text \<open>The operations of the table, and the tables a sequence of them leads to.\<close>

datatype TableOp = PrependField bytes bytes | UpdateSize nat | SetMaxSize nat | EvictEntry | Clear

fun table_step :: "FieldLookupTable \<Rightarrow> TableOp \<Rightarrow> FieldLookupTable" where
  "table_step t (PrependField n v) = snd (prependField n v t)"
| "table_step t (UpdateSize k) = snd (updateDynamicTableSize k t)"
| "table_step t (SetMaxSize k) = setMaxDynamicTableSize k t"
| "table_step t EvictEntry = evictEntry t"
| "table_step t Clear = clearDynamicTable t"

inductive table_reaches :: "FieldLookupTable \<Rightarrow> FieldLookupTable \<Rightarrow> bool" where
  start: "table_reaches t t"
| step: "table_reaches t u \<Longrightarrow> (\<And>k. op = UpdateSize k \<or> op = SetMaxSize k \<Longrightarrow> k < 2 ^ 32) \<Longrightarrow>
    table_reaches t (table_step u op)"

lemma table_step_ok:
  assumes "table_ok t" "\<And>k. op = UpdateSize k \<or> op = SetMaxSize k \<Longrightarrow> k < 2 ^ 32"
  shows "table_ok (table_step t op)"
proof (cases op)
  case (PrependField n v)
  then show ?thesis using lookup_table.prepend_inv [OF assms(1)] by simp
next
  case (UpdateSize k)
  then show ?thesis using lookup_table.resize_inv assms by simp
next
  case (SetMaxSize k)
  then show ?thesis
    using lookup_table.resize_inv [of "t\<lparr>maxTableSize := k\<rparr>" k] assms by (simp add: setMaxDynamicTableSize_def)
next
  case EvictEntry
  show ?thesis
  proof (cases "nDynamic t = 0")
    case True
    then show ?thesis using EvictEntry assms(1) by (simp add: evictEntry_def)
  next
    case False
    then show ?thesis using EvictEntry evictEntry_ok [OF assms(1)] by simp
  qed
next
  case Clear
  then show ?thesis using clear_ok [OF assms(1)] by simp
qed

text \<open>C10: In every table that operations lead to from a new one, the recorded size is that of the
  entries and within the capacity, the entries are counted, every index up to the count has a
  field and no other has, and each key of the search index is that of a live entry.\<close>

theorem table_invariant:
  assumes "table_reaches (FieldLookupTable_new m u) t" "m < 2 ^ 32"
  shows "dataSize t = fields_size (dyn t) \<and> dataSize t \<le> tableCapacity t
    \<and> nDynamic t = length (dyn t) \<and> (table_field i t \<noteq> None) = (0 < i \<and> i \<le> numberOfEntries t)
    \<and> (useIndex t \<longrightarrow> (\<forall>k \<in> set (searchIndex t). table_field (keyToIndex t k) t = Some (se_field k)))"
proof -
  have ok: "table_ok t"
    using assms(1)
  proof (induction "FieldLookupTable_new m u" t rule: table_reaches.induct)
    case start
    show ?case using table_ok_new [OF assms(2)] by simp
  qed (rule table_step_ok)
  have "table_field (keyToIndex t k) t = Some (se_field k)" if u: "useIndex t" and k: "k \<in> set (searchIndex t)" for k
  proof -
    obtain p where p: "k = key_at t p" "tbegin t \<le> p" "p < tend t"
      using ok u k by (auto simp: table_ok_def)
    then show ?thesis using keyToIndex_field(1) [OF ok p(2,3)] by (simp add: key_at_def)
  qed
  moreover have "(table_field i t \<noteq> None) = (0 < i \<and> i \<le> numberOfEntries t)"
    using dyn_length [OF ok] by (auto simp: table_field_eq [OF ok] numberOfEntries_def)
  ultimately show ?thesis using ok dyn_length [OF ok] by (simp add: table_ok_def)
qed

lemma table_invariant_witness:
  "nDynamic (table_step (FieldLookupTable_new 64 True) (PrependField [1] [2])) =
   length (dyn (table_step (FieldLookupTable_new 64 True) (PrependField [1] [2])))"
proof -
  have "table_reaches (FieldLookupTable_new 64 True) (table_step (FieldLookupTable_new 64 True) (PrependField [1] [2]))"
    by (rule table_reaches.step [OF table_reaches.start]) simp
  from table_invariant [OF this] show ?thesis by simp
qed

text \<open>C30: A limit of zero empties the table but leaves its capacity: the next field is indexed although
  the header allows no capacity above \<open>maxTableSize\<close>.\<close>

theorem setMaxDynamicTableSize_zero:
  assumes "table_ok t" "length n + length v + 32 \<le> tableCapacity t"
  defines "t' \<equiv> setMaxDynamicTableSize 0 t"
  shows "maxTableSize t' = 0 \<and> dyn t' = [] \<and> tableCapacity t' = tableCapacity t
    \<and> dyn (snd (prependField n v t')) = [HeaderField n v]"
proof -
  have ok: "table_ok (t\<lparr>maxTableSize := 0\<rparr>)" using assms(1) by simp
  have t': "t' = clearDynamicTable (t\<lparr>maxTableSize := 0\<rparr>)"
    by (simp add: t'_def setMaxDynamicTableSize_def updateDynamicTableSize_def)
  note c = clear_ok [OF ok, folded t']
  have cap: "tableCapacity t' = tableCapacity t" "maxTableSize t' = 0"
    by (simp_all add: t' clearDynamicTable_def)
  have "entry_size n v \<noteq> None" using assms(1,2) by (simp add: entry_size_def table_ok_def Let_def)
  then have "dyn (snd (prependField n v t')) = [HeaderField n v]"
    using lookup_table.prepend_content [OF c(1)] c(2) cap assms(2)
    by (simp add: add_field_def field_size_def fit.simps)
  then show ?thesis using c cap by simp
qed

lemma setMaxDynamicTableSize_zero_witness:
  "dyn (snd (prependField [1] [2] (setMaxDynamicTableSize 0 (FieldLookupTable_new 4096 True)))) = [HeaderField [1] [2]]"
  using setMaxDynamicTableSize_zero [of "FieldLookupTable_new 4096 True" "[1]" "[2]"] table_ok_new [of 4096 True]
  by (simp add: FieldLookupTable_new_def)

section \<open>Bits, integers and strings\<close>

text \<open>C8: \<open>writeBits\<close> appends the low bits of its argument to the bits written so far, whatever the
  alignment, and the unused bits of the last byte stay zero.\<close>

theorem writeBits_appends:
  assumes "ostream_ok s" "n \<le> 8"
  shows "ostream_bits (BitOStream_writeBits w n s) = ostream_bits s @ low_bits n w
    \<and> ostream_ok (BitOStream_writeBits w n s)"
  using writeBits_bits [OF assms] writeBits_ok [OF assms] by simp

lemma writeBits_appends_witness:
  "ostream_bits (BitOStream_writeBits 5 3 (BitOStream_new [])) = [True, False, True]"
  using writeBits_appends [of "BitOStream_new []" 3 5]
  by (simp add: ostream_ok_def BitOStream_new_def ostream_bits_def low_bits_def upt_rec)

text \<open>C28: \<open>read\<close> recovers every 32-bit integer \<open>write\<close> put at any bit offset, and stops where the
  writer stopped, at a byte boundary.\<close>

theorem int_round_trip:
  assumes "ostream_ok s" "v < 2 ^ 32" "length (buffer (BitOStream_writeInt v s) @ rest) < 2 ^ 28"
  shows "BitIStream_readInt \<lparr>octets = buffer (BitOStream_writeInt v s) @ rest, offset = bitsSet s, streamError = e\<rparr>
    = (Some v, \<lparr>octets = buffer (BitOStream_writeInt v s) @ rest,
         offset = 8 * length (buffer (BitOStream_writeInt v s)), streamError = NoError\<rparr>)"
  using writeInt_readInt(1) [OF assms(1,2), of rest e] writeInt_readInt(2) [OF assms(1,2), of rest] assms(3) by simp

lemma int_round_trip_witness:
  "BitIStream_readInt \<lparr>octets = [0x1f, 0x9a, 0x0a], offset = 3, streamError = NoError\<rparr>
    = (Some 1337, \<lparr>octets = [0x1f, 0x9a, 0x0a], offset = 24, streamError = NoError\<rparr>)"
proof -
  have w: "buffer (BitOStream_writeInt 1337 (BitOStream_writeBits 0 3 (BitOStream_new []))) = [0x1f, 0x9a, 0x0a]"
    "bitsSet (BitOStream_writeBits 0 3 (BitOStream_new [])) = 3"
    by code_simp+
  have "ostream_ok (BitOStream_writeBits 0 3 (BitOStream_new []))" by (intro writeBits_ok ostream_ok_new) simp
  from int_round_trip [OF this, where v = 1337 and rest = "[]" and e = NoError, unfolded w] show ?thesis by simp
qed

text \<open>C10: \<open>read\<close> accepts an integer above 32 bits and returns it modulo \<open>2 ^ 32\<close>, where its comment
  says that what does not fit is an error.\<close>

theorem readInt_truncates:
  "BitIStream_readInt (BitIStream_new [0xff, 0xff, 0xff, 0xff, 0xff, 0x0f])
    = (Some 254, \<lparr>octets = [0xff, 0xff, 0xff, 0xff, 0xff, 0x0f], offset = 48, streamError = NoError\<rparr>)"
  by code_simp

lemma byte_negative: "sint (c :: 8 word) < 0 \<longleftrightarrow> \<not> c < 128"
proof -
  have "sint c < 0 \<longleftrightarrow> bit c 7" using bit_last_iff [of c] by simp
  also have "\<dots> \<longleftrightarrow> odd (unat c div 128)" by (simp add: bit_unsigned_iff flip: bit_iff_odd [of "unat c" 7, simplified])
  also have "\<dots> \<longleftrightarrow> \<not> unat c < 128"
  proof -
    have "unat c < 256" using unsigned_less [of c] by simp
    then have "unat c div 128 < 2" by (simp add: div_less_iff_less_mult)
    then have "odd (unat c div 128) \<longleftrightarrow> unat c div 128 \<noteq> 0" by (auto simp: less_2_cases_iff)
    then show ?thesis by (simp add: div_eq_0_iff)
  qed
  also have "\<dots> \<longleftrightarrow> \<not> c < 128" by (simp add: word_less_nat_alt)
  finally show ?thesis .
qed

text \<open>C31: The bit length of a Huffman-coded string is defined exactly when all its bytes are below
  128: the \<open>char\<close> that indexes the code table is signed.\<close>

theorem huffman_bit_length_ascii:
  "huffman_encoded_bit_length bs \<noteq> None \<longleftrightarrow> list_all (\<lambda>b. b < 128) bs"
  by (induction bs) (simp_all add: byte_negative)

end
