(* ===== verification/Http2Frames.thy ===== *)
theory Http2Frames
  imports HpackBits
begin

unbundle bit_operations_syntax

text \<open>
  \<open>src/network/access/http2/http2frames.cpp\<close>: HTTP/2 frames, their reader and their writer. A frame
  is its bytes; sizes computed in \<open>quint32\<close> are \<open>32 word\<close>. A socket to read from is the bytes it
  has received; a socket to write to has a bounded send buffer and refuses what does not fit.
\<close>

section \<open>Protocol constants\<close>

datatype FrameType = DATA | HEADERS | PRIORITY | RST_STREAM | SETTINGS | PUSH_PROMISE | PING | GOAWAY
  | WINDOW_UPDATE | CONTINUATION | LAST_FRAME_TYPE

definition FrameTypes :: "FrameType list" where
  "FrameTypes = [DATA, HEADERS, PRIORITY, RST_STREAM, SETTINGS, PUSH_PROMISE, PING, GOAWAY, WINDOW_UPDATE,
     CONTINUATION, LAST_FRAME_TYPE]"

fun FrameType_code :: "FrameType \<Rightarrow> 8 word" where
  "FrameType_code DATA = 0"
| "FrameType_code HEADERS = 1"
| "FrameType_code PRIORITY = 2"
| "FrameType_code RST_STREAM = 3"
| "FrameType_code SETTINGS = 4"
| "FrameType_code PUSH_PROMISE = 5"
| "FrameType_code PING = 6"
| "FrameType_code GOAWAY = 7"
| "FrameType_code WINDOW_UPDATE = 8"
| "FrameType_code CONTINUATION = 9"
| "FrameType_code LAST_FRAME_TYPE = 10"

type_synonym FrameFlags = "8 word"

definition EMPTY :: FrameFlags where "EMPTY = 0"
definition ACK :: FrameFlags where "ACK = 1"
definition END_STREAM :: FrameFlags where "END_STREAM = 1"
definition END_HEADERS :: FrameFlags where "END_HEADERS = 4"
definition PADDED :: FrameFlags where "PADDED = 8"
definition PRIORITY_FLAG :: FrameFlags where "PRIORITY_FLAG = 0x20"

definition testFlag :: "FrameFlags \<Rightarrow> FrameFlags \<Rightarrow> bool" where
  "testFlag i flags = (if flags \<noteq> 0 then i AND flags = flags else i = 0)"

definition frameHeaderSize :: nat where "frameHeaderSize = 9"
definition maxPayloadSize :: nat where "maxPayloadSize = 2 ^ 24 - 1"

datatype FrameStatus = protocolError | sizeError | incompleteFrame | goodFrame

fun fromBigEndian :: "bytes \<Rightarrow> nat" where
  "fromBigEndian bs = foldl (\<lambda>n b. 256 * n + unat b) 0 bs"

fun toBigEndian :: "nat \<Rightarrow> nat \<Rightarrow> bytes" where
  "toBigEndian n v = map (\<lambda>i. word_of_nat (v div 256 ^ i)) (rev [0..<n])"

text \<open>\<open>std::vector::resize\<close>, and a write into the vector.\<close>

definition resize :: "nat \<Rightarrow> bytes \<Rightarrow> bytes" where
  "resize n b = take n b @ replicate (n - length b) 0"

definition overwrite :: "bytes \<Rightarrow> nat \<Rightarrow> bytes \<Rightarrow> bytes" where
  "overwrite b i c = take i b @ c @ drop (i + length c) b"

section \<open>Frame\<close>

record Frame =
  fr_buffer :: bytes

definition Frame_new :: Frame where
  "Frame_new = \<lparr>fr_buffer = replicate frameHeaderSize 0\<rparr>"

definition Frame_type :: "Frame \<Rightarrow> FrameType" where
  "Frame_type f =
     (if fr_buffer f ! 3 \<ge> FrameType_code LAST_FRAME_TYPE then LAST_FRAME_TYPE
      else FrameTypes ! unat (fr_buffer f ! 3))"

definition Frame_streamID :: "Frame \<Rightarrow> nat" where
  "Frame_streamID f = fromBigEndian (take 4 (drop 5 (fr_buffer f)))"

definition Frame_flags :: "Frame \<Rightarrow> FrameFlags" where
  "Frame_flags f = fr_buffer f ! 4"

definition Frame_payloadSize :: "Frame \<Rightarrow> nat" where
  "Frame_payloadSize f =
     unat (fr_buffer f ! 0) * 2 ^ 16 + unat (fr_buffer f ! 1) * 2 ^ 8 + unat (fr_buffer f ! 2)"

definition Frame_padding :: "Frame \<Rightarrow> nat" where
  "Frame_padding f =
     (if \<not> testFlag (Frame_flags f) PADDED then 0
      else case Frame_type f of
             DATA \<Rightarrow> unat (fr_buffer f ! frameHeaderSize)
           | PUSH_PROMISE \<Rightarrow> unat (fr_buffer f ! frameHeaderSize)
           | HEADERS \<Rightarrow> unat (fr_buffer f ! frameHeaderSize)
           | _ \<Rightarrow> 0)"

text \<open>The stream and the weight, where the code returns true.\<close>

definition Frame_priority :: "Frame \<Rightarrow> (nat \<times> 8 word) option" where
  "Frame_priority f =
     (if length (fr_buffer f) \<le> frameHeaderSize then None
      else let src = frameHeaderSize;
               src = (if Frame_type f = HEADERS \<and> testFlag (Frame_flags f) PADDED then src + 1 else src)
           in if Frame_type f = HEADERS \<and> testFlag (Frame_flags f) PRIORITY_FLAG \<or> Frame_type f = PRIORITY
              then Some (fromBigEndian (take 4 (drop src (fr_buffer f))), fr_buffer f ! (src + 4))
              else None)"

definition Frame_validateHeader :: "Frame \<Rightarrow> FrameStatus" where
  "Frame_validateHeader f =
     (let framePayloadSize = Frame_payloadSize f
      in if framePayloadSize > maxPayloadSize then sizeError
         else case Frame_type f of
                SETTINGS \<Rightarrow>
                  if (if testFlag (Frame_flags f) ACK then framePayloadSize \<noteq> 0 else framePayloadSize mod 6 \<noteq> 0)
                  then sizeError else goodFrame
              | PRIORITY \<Rightarrow> if framePayloadSize \<noteq> 5 then sizeError else goodFrame
              | PING \<Rightarrow> if framePayloadSize \<noteq> 8 then sizeError else goodFrame
              | GOAWAY \<Rightarrow> if framePayloadSize < 8 then sizeError else goodFrame
              | RST_STREAM \<Rightarrow> if framePayloadSize \<noteq> 4 then sizeError else goodFrame
              | WINDOW_UPDATE \<Rightarrow> if framePayloadSize \<noteq> 4 then sizeError else goodFrame
              | PUSH_PROMISE \<Rightarrow> if framePayloadSize < 4 then sizeError else goodFrame
              | _ \<Rightarrow> goodFrame)"

definition Frame_validatePayload :: "Frame \<Rightarrow> FrameStatus" where
  "Frame_validatePayload f =
     (if Frame_type f = LAST_FRAME_TYPE then goodFrame
      else let sz = Frame_payloadSize f;
               frameFlags = Frame_flags f;
               pad = unat (fr_buffer f ! frameHeaderSize);
               padded = testFlag frameFlags PADDED
           in if Frame_type f = DATA \<or> Frame_type f = HEADERS
              then if padded \<and> (sz = 0 \<or> sz < pad) then sizeError
                   else let sz = (if padded then sz - pad else sz)
                        in if Frame_type f = HEADERS \<and> testFlag frameFlags PRIORITY_FLAG \<and> sz < 5
                           then sizeError else goodFrame
              else if Frame_type f = PUSH_PROMISE
              then if padded \<and> (sz = 0 \<or> sz < pad) then sizeError
                   else let sz = (if padded then sz - pad else sz)
                        in if sz < 4 then sizeError else goodFrame
              else goodFrame)"

definition Frame_dataSize :: "Frame \<Rightarrow> 32 word" where
  "Frame_dataSize f =
     (let sz = of_nat (Frame_payloadSize f);
          sz = (if testFlag (Frame_flags f) PADDED then sz - of_nat (Frame_padding f + 1) else sz)
      in if Frame_priority f \<noteq> None then sz - 5 else sz)"

definition Frame_hpackBlockSize :: "Frame \<Rightarrow> 32 word" where
  "Frame_hpackBlockSize f =
     (if Frame_type f = PUSH_PROMISE then Frame_dataSize f - 4 else Frame_dataSize f)"

text \<open>An index into the frame's bytes; \<open>None\<close> is the null pointer.\<close>

definition Frame_dataBegin :: "Frame \<Rightarrow> nat option" where
  "Frame_dataBegin f =
     (if length (fr_buffer f) \<le> frameHeaderSize then None
      else let src = frameHeaderSize;
               src = (if testFlag (Frame_flags f) PADDED then src + 1 else src)
           in Some (if Frame_priority f \<noteq> None then src + 5 else src))"

definition Frame_hpackBlockBegin :: "Frame \<Rightarrow> nat option" where
  "Frame_hpackBlockBegin f =
     (if Frame_type f = PUSH_PROMISE then map_option (\<lambda>i. i + 4) (Frame_dataBegin f) else Frame_dataBegin f)"

section \<open>FrameReader\<close>

record FrameReader =
  rd_offset :: nat
  rd_frame :: Frame

definition FrameReader_new :: FrameReader where
  "FrameReader_new = \<lparr>rd_offset = 0, rd_frame = Frame_new\<rparr>"

text \<open>\<open>QAbstractSocket::read\<close> returns at most the bytes that have arrived.\<close>

definition FrameReader_readHeader :: "FrameReader \<Rightarrow> bytes \<Rightarrow> bool \<times> FrameReader \<times> bytes" where
  "FrameReader_readHeader r socket =
     (let buf = fr_buffer (rd_frame r);
          buf = (if length buf < frameHeaderSize then resize frameHeaderSize buf else buf);
          n = frameHeaderSize - rd_offset r;
          r = r\<lparr>rd_frame := \<lparr>fr_buffer = overwrite buf (rd_offset r) (take n socket)\<rparr>,
                rd_offset := rd_offset r + length (take n socket)\<rparr>
      in (rd_offset r = frameHeaderSize, r, drop n socket))"

definition FrameReader_readPayload :: "FrameReader \<Rightarrow> bytes \<Rightarrow> bool \<times> FrameReader \<times> bytes" where
  "FrameReader_readPayload r socket =
     (let buf = fr_buffer (rd_frame r);
          n = length buf - rd_offset r;
          r = r\<lparr>rd_frame := \<lparr>fr_buffer = overwrite buf (rd_offset r) (take n socket)\<rparr>,
                rd_offset := rd_offset r + length (take n socket)\<rparr>
      in (rd_offset r = length buf, r, drop n socket))"

definition FrameReader_readRest :: "FrameReader \<Rightarrow> bytes \<Rightarrow> FrameStatus \<times> FrameReader \<times> bytes" where
  "FrameReader_readRest r socket =
     (let (done, r, socket) =
        (if rd_offset r < length (fr_buffer (rd_frame r)) then FrameReader_readPayload r socket
         else (True, r, socket))
      in if \<not> done then (incompleteFrame, r, socket)
         else (Frame_validatePayload (rd_frame r), r\<lparr>rd_offset := 0\<rparr>, socket))"

definition FrameReader_read :: "FrameReader \<Rightarrow> bytes \<Rightarrow> FrameStatus \<times> FrameReader \<times> bytes" where
  "FrameReader_read r socket =
     (if rd_offset r < frameHeaderSize
      then let (ok, r, socket) = FrameReader_readHeader r socket
           in if \<not> ok then (incompleteFrame, r, socket)
              else let status = Frame_validateHeader (rd_frame r)
                   in if status \<noteq> goodFrame then (status, r, socket)
                      else if maxPayloadSize < Frame_payloadSize (rd_frame r) then (sizeError, r, socket)
                      else FrameReader_readRest
                             (r\<lparr>rd_frame := \<lparr>fr_buffer =
                                 resize (Frame_payloadSize (rd_frame r) + frameHeaderSize) (fr_buffer (rd_frame r))\<rparr>\<rparr>)
                             socket
      else FrameReader_readRest r socket)"

section \<open>FrameWriter\<close>

text \<open>The writer is its frame.\<close>

definition FrameWriter_setPayloadSize :: "nat \<Rightarrow> Frame \<Rightarrow> Frame" where
  "FrameWriter_setPayloadSize sz f =
     f\<lparr>fr_buffer := (fr_buffer f)[0 := word_of_nat (sz div 2 ^ 16), 1 := word_of_nat (sz div 2 ^ 8),
                                  2 := word_of_nat sz]\<rparr>"

definition FrameWriter_updatePayloadSize :: "Frame \<Rightarrow> Frame" where
  "FrameWriter_updatePayloadSize f = FrameWriter_setPayloadSize (length (fr_buffer f) - frameHeaderSize) f"

definition FrameWriter_setOutboundFrame :: "Frame \<Rightarrow> Frame \<Rightarrow> Frame" where
  "FrameWriter_setOutboundFrame newFrame w = FrameWriter_updatePayloadSize newFrame"

definition FrameWriter_start :: "FrameType \<Rightarrow> FrameFlags \<Rightarrow> nat \<Rightarrow> Frame \<Rightarrow> Frame" where
  "FrameWriter_start type flags streamID f =
     f\<lparr>fr_buffer := overwrite
         ((resize frameHeaderSize (fr_buffer f))[0 := 0, 1 := 0, 2 := 0, 3 := FrameType_code type, 4 := flags])
         5 (toBigEndian 4 streamID)\<rparr>"

definition FrameWriter_new :: "FrameType \<Rightarrow> FrameFlags \<Rightarrow> nat \<Rightarrow> Frame" where
  "FrameWriter_new type flags streamID = FrameWriter_start type flags streamID Frame_new"

definition FrameWriter_setType :: "FrameType \<Rightarrow> Frame \<Rightarrow> Frame" where
  "FrameWriter_setType type f = f\<lparr>fr_buffer := (fr_buffer f)[3 := FrameType_code type]\<rparr>"

definition FrameWriter_setFlags :: "FrameFlags \<Rightarrow> Frame \<Rightarrow> Frame" where
  "FrameWriter_setFlags flags f = f\<lparr>fr_buffer := (fr_buffer f)[4 := flags]\<rparr>"

definition FrameWriter_addFlag :: "FrameFlags \<Rightarrow> Frame \<Rightarrow> Frame" where
  "FrameWriter_addFlag flag f = FrameWriter_setFlags (Frame_flags f OR flag) f"

definition FrameWriter_append :: "bytes \<Rightarrow> Frame \<Rightarrow> Frame" where
  "FrameWriter_append bs f = FrameWriter_updatePayloadSize (f\<lparr>fr_buffer := fr_buffer f @ bs\<rparr>)"

definition FrameWriter_appendInt :: "nat \<Rightarrow> nat \<Rightarrow> Frame \<Rightarrow> Frame" where
  "FrameWriter_appendInt width val f = FrameWriter_append (toBigEndian width val) f"

definition FrameWriter_appendByte :: "8 word \<Rightarrow> Frame \<Rightarrow> Frame" where
  "FrameWriter_appendByte val f = FrameWriter_updatePayloadSize (f\<lparr>fr_buffer := fr_buffer f @ [val]\<rparr>)"

text \<open>The sending side of a socket: what it has taken and how much more it takes.\<close>

record Socket =
  sent :: bytes
  room :: nat

definition Socket_write :: "bytes \<Rightarrow> Socket \<Rightarrow> nat \<times> Socket" where
  "Socket_write bs s =
     (let bs = take (room s) bs in (length bs, \<lparr>sent = sent s @ bs, room = room s - length bs\<rparr>))"

definition FrameWriter_write :: "Frame \<Rightarrow> Socket \<Rightarrow> bool \<times> Socket" where
  "FrameWriter_write f socket =
     (let (nWritten, socket) = Socket_write (fr_buffer f) socket
      in (nWritten = length (fr_buffer f), socket))"

text \<open>The loop over the CONTINUATION frames; with a limit of zero it sends empty frames for
  as long as the socket takes them.\<close>

partial_function (option) writeHEADERS_loop ::
    "Frame \<Rightarrow> nat \<Rightarrow> bytes \<Rightarrow> nat \<Rightarrow> Socket \<Rightarrow> (bool \<times> Socket) option" where
  "writeHEADERS_loop continuationWriter sizeLimit buf off socket =
     (if off = length buf then Some (True, socket)
      else let chunkSize = min sizeLimit (length buf - off);
               w = (if chunkSize + off = length buf then FrameWriter_addFlag END_HEADERS continuationWriter
                    else continuationWriter);
               w = FrameWriter_setPayloadSize chunkSize w;
               (ok, socket) = FrameWriter_write w socket
           in if \<not> ok then Some (False, socket)
              else let (written, socket) = Socket_write (take chunkSize (drop off buf)) socket
                   in if written \<noteq> chunkSize then Some (False, socket)
                      else writeHEADERS_loop w sizeLimit buf (off + chunkSize) socket)"

declare writeHEADERS_loop.simps [code]

definition FrameWriter_writeHEADERS :: "nat \<Rightarrow> Frame \<Rightarrow> Socket \<Rightarrow> (bool \<times> Frame \<times> Socket) option" where
  "FrameWriter_writeHEADERS sizeLimit f socket =
     (let sizeLimit = (if sizeLimit > maxPayloadSize then maxPayloadSize else sizeLimit)
      in if length (fr_buffer f) - frameHeaderSize \<le> sizeLimit
         then let f = FrameWriter_updatePayloadSize (FrameWriter_addFlag END_HEADERS f);
                  (ok, socket) = FrameWriter_write f socket
              in Some (ok, f, socket)
         else let f = FrameWriter_setFlags (Frame_flags f AND NOT END_HEADERS) f;
                  f = FrameWriter_setPayloadSize sizeLimit f;
                  firstChunkSize = frameHeaderSize + sizeLimit;
                  (written, socket) = Socket_write (take firstChunkSize (fr_buffer f)) socket
              in if written \<noteq> firstChunkSize then Some (False, f, socket)
                 else map_option (\<lambda>(ok, socket). (ok, f, socket))
                        (writeHEADERS_loop (FrameWriter_new CONTINUATION EMPTY (Frame_streamID f)) sizeLimit
                           (fr_buffer f) firstChunkSize socket))"

partial_function (option) writeDATA_loop ::
    "nat \<Rightarrow> bytes \<Rightarrow> nat \<Rightarrow> Frame \<Rightarrow> Socket \<Rightarrow> (bool \<times> Frame \<times> Socket) option" where
  "writeDATA_loop sizeLimit src off f socket =
     (if off = length src then Some (True, f, socket)
      else let chunkSize = min (length src - off) sizeLimit;
               f = FrameWriter_setPayloadSize chunkSize f;
               (ok, socket) = FrameWriter_write f socket
           in if \<not> ok then Some (False, f, socket)
              else let (written, socket) =
                     (if chunkSize \<noteq> 0 then Socket_write (take chunkSize (drop off src)) socket
                      else (chunkSize, socket))
                   in if written \<noteq> chunkSize then Some (False, f, socket)
                      else writeDATA_loop sizeLimit src (off + chunkSize) f socket)"

declare writeDATA_loop.simps [code]

definition FrameWriter_writeDATA :: "nat \<Rightarrow> bytes \<Rightarrow> Frame \<Rightarrow> Socket \<Rightarrow> (bool \<times> Frame \<times> Socket) option" where
  "FrameWriter_writeDATA sizeLimit src f socket =
     writeDATA_loop (if sizeLimit > maxPayloadSize then maxPayloadSize else sizeLimit) src 0 f socket"

end
