(* ===== verification/Http2FramesProps.thy ===== *)
theory Http2FramesProps
  imports Http2Frames
begin

text \<open>
  Frames on the wire: the bytes of a frame as a function of its fields, the reader under any
  fragmentation of its input, the frames a writer splits a block into, and the extent of the
  data of a validated frame.
\<close>

section \<open>The bytes of a frame\<close>

definition frame_bytes :: "FrameType \<Rightarrow> FrameFlags \<Rightarrow> nat \<Rightarrow> bytes \<Rightarrow> bytes" where
  "frame_bytes ty fl sid p = toBigEndian 3 (length p) @ [FrameType_code ty, fl] @ toBigEndian 4 sid @ p"

declare toBigEndian.simps [simp del] fromBigEndian.simps [simp del]

lemma toBigEndian_3: "toBigEndian 3 v = [word_of_nat (v div 2 ^ 16), word_of_nat (v div 2 ^ 8), word_of_nat v]"
  by (simp add: toBigEndian.simps upt_rec)

lemma toBigEndian_4: "toBigEndian 4 v =
    [word_of_nat (v div 2 ^ 24), word_of_nat (v div 2 ^ 16), word_of_nat (v div 2 ^ 8), word_of_nat v]"
  by (simp add: toBigEndian.simps upt_rec)

lemma unat_byte: "unat (word_of_nat n :: 8 word) = n mod 256"
  by (simp add: unat_of_nat take_bit_eq_mod)

lemma base256: "v < 256 * m \<Longrightarrow> (v :: nat) div 256 < m"
  by (simp add: div_less_iff_less_mult mult.commute)

lemma fromBigEndian_4: "v < 2 ^ 32 \<Longrightarrow> fromBigEndian (toBigEndian 4 v) = v"
proof -
  assume "v < 2 ^ 32"
  then have "v div 256 < 2 ^ 24" by (intro base256) simp
  then have "v div 256 div 256 < 2 ^ 16" by (intro base256) simp
  then have "v div 256 div 256 div 256 < 2 ^ 8" by (intro base256) simp
  moreover have "v div 2 ^ 16 = v div 256 div 256" "v div 2 ^ 24 = v div 256 div 256 div 256"
    by (simp_all add: div_mult2_eq [symmetric])
  ultimately show ?thesis
    unfolding toBigEndian_4 fromBigEndian.simps by (simp add: unat_byte)
qed


lemma frame_bytes_eq:
  "frame_bytes ty fl sid p =
    word_of_nat (length p div 2 ^ 16) # word_of_nat (length p div 2 ^ 8) # word_of_nat (length p)
    # FrameType_code ty # fl # toBigEndian 4 sid @ p"
  by (simp add: frame_bytes_def toBigEndian_3)

lemma FrameType_code_known: "ty \<noteq> LAST_FRAME_TYPE \<Longrightarrow> \<not> FrameType_code ty \<ge> 10"
  by (cases ty) (simp_all add: word_le_nat_alt)

lemma FrameTypes_nth: "FrameTypes ! unat (FrameType_code ty) = ty"
  by (cases ty) (simp_all add: FrameTypes_def)

lemma frame_fields:
  assumes "fr_buffer f = frame_bytes ty fl sid p"
  shows "Frame_type f = ty" "Frame_flags f = fl"
    and "sid < 2 ^ 32 \<Longrightarrow> Frame_streamID f = sid"
    and "length p \<le> maxPayloadSize \<Longrightarrow> Frame_payloadSize f = length p"
proof -
  note b = assms [unfolded frame_bytes_eq]
  show "Frame_type f = ty" "Frame_flags f = fl"
    using FrameType_code_known [of ty] FrameTypes_nth [of ty]
    by (auto simp: Frame_type_def Frame_flags_def b)
  show "Frame_streamID f = sid" if "sid < 2 ^ 32"
  proof -
    have "take 4 (drop 5 (fr_buffer f)) = toBigEndian 4 sid" by (simp add: b toBigEndian_4)
    then show ?thesis using fromBigEndian_4 [OF that] by (simp add: Frame_streamID_def)
  qed
  show "Frame_payloadSize f = length p" if l: "length p \<le> maxPayloadSize"
  proof -
    have "length p < 2 ^ 24" using l by (simp add: maxPayloadSize_def)
    then have "length p div 256 < 2 ^ 16" by (intro base256) simp
    then have "length p div 256 div 256 < 2 ^ 8" by (intro base256) simp
    moreover have "length p div 2 ^ 16 = length p div 256 div 256" by (simp add: div_mult2_eq [symmetric])
    moreover have "(n div 256 div 256) * 65536 + n div 256 mod 256 * 256 + n mod 256 = n" for n :: nat
    proof -
      have "n = n div 256 * 256 + n mod 256" "n div 256 = n div 256 div 256 * 256 + n div 256 mod 256"
        by (simp_all only: div_mult_mod_eq)
      then show ?thesis by linarith
    qed
    ultimately show ?thesis by (simp add: Frame_payloadSize_def b unat_byte)
  qed
qed

section \<open>Building frames\<close>


text \<open>A header with a payload size that need not be that of the bytes that follow.\<close>

definition header_bytes :: "nat \<Rightarrow> FrameType \<Rightarrow> FrameFlags \<Rightarrow> nat \<Rightarrow> bytes" where
  "header_bytes n ty fl sid = toBigEndian 3 n @ [FrameType_code ty, fl] @ toBigEndian 4 sid"

lemma frame_bytes_header: "frame_bytes ty fl sid p = header_bytes (length p) ty fl sid @ p"
  by (simp add: frame_bytes_def header_bytes_def)

lemma header_bytes_length [simp]: "length (header_bytes n ty fl sid) = 9"
  by (simp add: header_bytes_def toBigEndian_3 toBigEndian_4)

lemma header_bytes_eq: "header_bytes n ty fl sid =
    word_of_nat (n div 2 ^ 16) # word_of_nat (n div 2 ^ 8) # word_of_nat n # FrameType_code ty # fl # toBigEndian 4 sid"
  by (simp add: header_bytes_def toBigEndian_3)

lemma header_ops:
  assumes b: "fr_buffer f = header_bytes n ty fl sid @ p"
  shows "fr_buffer (FrameWriter_setPayloadSize m f) = header_bytes m ty fl sid @ p"
    and "fr_buffer (FrameWriter_setFlags fl' f) = header_bytes n ty fl' sid @ p"
    and "fr_buffer (FrameWriter_addFlag g f) = header_bytes n ty (fl OR g) sid @ p"
    and "fr_buffer (FrameWriter_setType ty' f) = header_bytes n ty' fl sid @ p"
    and "fr_buffer (FrameWriter_updatePayloadSize f) = frame_bytes ty fl sid p"
    and "fr_buffer (FrameWriter_append q f) = frame_bytes ty fl sid (p @ q)"
    and "Frame_flags f = fl"
    and "sid < 2 ^ 32 \<Longrightarrow> Frame_streamID f = sid"
proof -
  note b' = b [unfolded header_bytes_eq]
  show sp: "fr_buffer (FrameWriter_setPayloadSize m f) = header_bytes m ty fl sid @ p"
    by (simp add: FrameWriter_setPayloadSize_def b' header_bytes_eq)
  show "fr_buffer (FrameWriter_setFlags fl' f) = header_bytes n ty fl' sid @ p"
    by (simp add: FrameWriter_setFlags_def b' header_bytes_eq)
  show fl: "Frame_flags f = fl" by (simp add: Frame_flags_def b')
  show "fr_buffer (FrameWriter_addFlag g f) = header_bytes n ty (fl OR g) sid @ p"
    by (simp add: FrameWriter_addFlag_def fl) (simp add: FrameWriter_setFlags_def b' header_bytes_eq)
  show "fr_buffer (FrameWriter_setType ty' f) = header_bytes n ty' fl sid @ p"
    by (simp add: FrameWriter_setType_def b' header_bytes_eq)
  show "fr_buffer (FrameWriter_updatePayloadSize f) = frame_bytes ty fl sid p"
    by (simp add: FrameWriter_updatePayloadSize_def FrameWriter_setPayloadSize_def b' header_bytes_eq
        frame_bytes_header frameHeaderSize_def toBigEndian_4)
  show "fr_buffer (FrameWriter_append q f) = frame_bytes ty fl sid (p @ q)"
    by (simp add: FrameWriter_append_def FrameWriter_updatePayloadSize_def FrameWriter_setPayloadSize_def b'
        header_bytes_eq frame_bytes_header frameHeaderSize_def toBigEndian_4)
  show "Frame_streamID f = sid" if "sid < 2 ^ 32"
  proof -
    have "take 4 (drop 5 (fr_buffer f)) = toBigEndian 4 sid" by (simp add: b' toBigEndian_4)
    then show ?thesis using fromBigEndian_4 [OF that] by (simp add: Frame_streamID_def)
  qed
qed

section \<open>Splitting a block\<close>

lemma Socket_write_fits:
  "length bs \<le> room s \<Longrightarrow> Socket_write bs s = (length bs, \<lparr>sent = sent s @ bs, room = room s - length bs\<rparr>)"
  by (simp add: Socket_write_def)




text \<open>The same for DATA frames, which keep the type, flags and stream of the writer.\<close>

function chunked :: "nat \<Rightarrow> bytes \<Rightarrow> bytes list" where
  "chunked lim p = (if lim = 0 \<or> p = [] then [] else take lim p # chunked lim (drop lim p))"
  by auto
termination by (relation "measure (\<lambda>(lim, p). length p)") auto

declare chunked.simps [simp del]

lemma chunked_pieces:
  "0 < lim \<Longrightarrow> concat (chunked lim p) = p \<and> (\<forall>c \<in> set (chunked lim p). c \<noteq> [] \<and> length c \<le> lim)"
proof (induction lim p rule: chunked.induct)
  case (1 lim p)
  show ?case
  proof (cases "p = []")
    case True
    then show ?thesis by (simp add: chunked.simps)
  next
    case False
    with 1 have "concat (chunked lim (drop lim p)) = drop lim p"
      "\<forall>c \<in> set (chunked lim (drop lim p)). c \<noteq> [] \<and> length c \<le> lim" by auto
    then show ?thesis using False "1.prems" by (simp add: chunked.simps [of lim p])
  qed
qed


lemma writeDATA_loop_sends:
  assumes "0 < lim" "10 * length q \<le> room s"
    and "fr_buffer w = header_bytes n ty fl sid"
  shows "\<exists>w' s'. writeDATA_loop lim (pre @ q) (length pre) w s = Some (True, w', s')
    \<and> sent s' = sent s @ concat (map (frame_bytes ty fl sid) (chunked lim q))"
  using assms
proof (induction lim q arbitrary: pre n w s rule: chunked.induct)
  case (1 lim q)
  show ?case
  proof (cases "q = []")
    case True
    then show ?thesis by (subst writeDATA_loop.simps) (simp add: chunked.simps)
  next
    case False
    define m where "m = min (length q) lim"
    define w' where "w' = FrameWriter_setPayloadSize m w"
    have w': "fr_buffer w' = header_bytes m ty fl sid"
      using header_ops(1) [of w n ty fl sid "[]"] "1.prems"(3) by (simp add: w'_def)
    have lq: "1 \<le> length q" "m \<le> length q" "0 < m" "take m q = take lim q" "drop m q = drop lim q"
      using "1.prems"(1) False by (auto simp: m_def Suc_le_eq min_def)
    define s1 where "s1 = \<lparr>sent = sent s @ fr_buffer w', room = room s - 9\<rparr>"
    define s2 where "s2 = \<lparr>sent = sent s @ frame_bytes ty fl sid (take lim q), room = room s - 9 - m\<rparr>"
    have wr: "FrameWriter_write w' s = (True, s1)"
      using "1.prems"(2) lq by (simp add: FrameWriter_write_def Socket_write_fits w' s1_def)
    have wr2: "Socket_write (take m q) s1 = (m, s2)"
      using "1.prems"(2) lq
      by (simp add: Socket_write_fits s1_def s2_def w' frame_bytes_header m_def min.commute flip: lq(4))
    have ne: "length pre \<noteq> length (pre @ q)" using False by simp
    have m': "min (length (pre @ q) - length pre) lim = m" "m \<noteq> 0" using lq by (simp_all add: m_def)
    have step: "writeDATA_loop lim (pre @ q) (length pre) w s
        = writeDATA_loop lim (pre @ q) (length pre + m) w' s2"
      using ne wr wr2 m'
      by (subst writeDATA_loop.simps) (simp add: w'_def [symmetric] Let_def del: length_append)
    have "10 * length (drop lim q) \<le> room s2"
      using "1.prems"(1,2) lq by (cases "length q \<le> lim") (simp_all add: s2_def m_def)
    then obtain w'' s' where
      "writeDATA_loop lim ((pre @ take m q) @ drop m q) (length (pre @ take m q)) w' s2 = Some (True, w'', s')"
      "sent s' = sent s2 @ concat (map (frame_bytes ty fl sid) (chunked lim (drop m q)))"
      using "1.IH" [of s2 w' m "pre @ take m q"] "1.prems"(1) False w' lq(5) by auto
    moreover have "length (pre @ take m q) = length pre + m" "(pre @ take m q) @ drop m q = pre @ q"
      using lq(2) by simp_all
    ultimately have "writeDATA_loop lim (pre @ q) (length pre) w s = Some (True, w'', s')"
      using step by (simp only:)
    moreover have "sent s' = sent s @ concat (map (frame_bytes ty fl sid) (chunked lim q))"
      using \<open>sent s' = _\<close> lq(5) "1.prems"(1) False by (simp add: s2_def chunked.simps [of lim q])
    ultimately show ?thesis by blast
  qed
qed

section \<open>Reading\<close>

text \<open>The header is the first nine bytes.\<close>

lemma header_only:
  assumes "take 9 (fr_buffer f) = take 9 (fr_buffer g)" "9 \<le> length (fr_buffer f)" "9 \<le> length (fr_buffer g)"
  shows "Frame_payloadSize f = Frame_payloadSize g" "Frame_validateHeader f = Frame_validateHeader g"
proof -
  have n: "fr_buffer f ! i = fr_buffer g ! i" if "i < 9" for i
    using assms that by (metis nth_take)
  show ps: "Frame_payloadSize f = Frame_payloadSize g" by (simp add: Frame_payloadSize_def n)
  have t: "Frame_type f = Frame_type g" "Frame_flags f = Frame_flags g"
    by (simp_all add: Frame_type_def Frame_flags_def n)
  show "Frame_validateHeader f = Frame_validateHeader g" by (simp only: Frame_validateHeader_def ps t)
qed

text \<open>The bytes of one frame with a valid header.\<close>

definition whole_frame :: "bytes \<Rightarrow> bool" where
  "whole_frame b \<longleftrightarrow> 9 \<le> length b \<and> length b = Frame_payloadSize \<lparr>fr_buffer = b\<rparr> + 9
     \<and> length b \<le> maxPayloadSize + 9 \<and> Frame_validateHeader \<lparr>fr_buffer = b\<rparr> = goodFrame"

text \<open>A reader that has taken the bytes \<open>pre\<close> of the frame \<open>b\<close>.\<close>

definition reading :: "FrameReader \<Rightarrow> bytes \<Rightarrow> bytes \<Rightarrow> bool" where
  "reading r b pre \<longleftrightarrow> rd_offset r = length pre \<and> (\<exists>rest. b = pre @ rest)
     \<and> take (length pre) (fr_buffer (rd_frame r)) = pre
     \<and> (if length pre < 9 then 9 \<le> length (fr_buffer (rd_frame r))
        else length (fr_buffer (rd_frame r)) = length b)"

lemma overwrite_take:
  assumes "length pre + length c \<le> length buf" "take (length pre) buf = pre"
  shows "take (length pre + length c) (overwrite buf (length pre) c) = pre @ c"
    and "length (overwrite buf (length pre) c) = length buf"
  using assms by (simp_all add: overwrite_def)

lemma readRest_step:
  assumes r: "reading r b pre" "9 \<le> length pre" and c: "take (length b - length pre) c = take (length c) (drop (length pre) b)"
  shows "length c < length b - length pre \<Longrightarrow>
      \<exists>r'. FrameReader_readRest r c = (incompleteFrame, r', []) \<and> reading r' b (pre @ c)"
    and "length b - length pre \<le> length c \<Longrightarrow>
      FrameReader_readRest r c = (Frame_validatePayload \<lparr>fr_buffer = b\<rparr>,
        \<lparr>rd_offset = 0, rd_frame = \<lparr>fr_buffer = b\<rparr>\<rparr>, drop (length b - length pre) c)"
proof -
  define buf where "buf = fr_buffer (rd_frame r)"
  define k where "k = length b - length pre"
  obtain rest where b: "b = pre @ rest" using r(1) by (auto simp: reading_def)
  have k: "k = length rest" by (simp add: k_def b)
  have off: "rd_offset r = length pre" "length buf = length b" "take (length pre) buf = pre"
    using r by (simp_all add: reading_def buf_def)
  have fr: "\<lparr>fr_buffer = fr_buffer f\<rparr> = f" for f :: Frame by simp
  show "\<exists>r'. FrameReader_readRest r c = (incompleteFrame, r', []) \<and> reading r' b (pre @ c)"
    if l: "length c < length b - length pre"
  proof -
    have tk: "take k c = c" "drop k c = []" using l by (simp_all add: k_def)
    have cr: "c = take (length c) rest" using c tk by (simp add: b k)
    have fit: "length pre + length c \<le> length buf" using l off by simp
    have lt: "length pre < length b" "length pre + length c \<noteq> length b" using l by simp_all
    define r' where "r' = r\<lparr>rd_frame := \<lparr>fr_buffer = overwrite buf (length pre) c\<rparr>, rd_offset := length pre + length c\<rparr>"
    have "FrameReader_readRest r c = (incompleteFrame, r', [])"
      using lt off tk by (simp add: FrameReader_readRest_def FrameReader_readPayload_def buf_def [symmetric]
          k_def [symmetric] r'_def Let_def)
    moreover have "b = (pre @ c) @ drop (length c) rest" using cr b by (metis append_assoc append_take_drop_id)
    then have "reading r' b (pre @ c)"
      using r(2) overwrite_take [OF fit off(3)] off by (auto simp: reading_def r'_def)
    ultimately show ?thesis by blast
  qed
  show "FrameReader_readRest r c = (Frame_validatePayload \<lparr>fr_buffer = b\<rparr>,
        \<lparr>rd_offset = 0, rd_frame = \<lparr>fr_buffer = b\<rparr>\<rparr>, drop (length b - length pre) c)"
    if l: "length b - length pre \<le> length c"
  proof (cases "rest = []")
    case True
    then have "buf = b" using off b by simp
    then have "rd_frame r = \<lparr>fr_buffer = b\<rparr>" by (simp add: buf_def)
    then show ?thesis using True b off by (simp add: FrameReader_readRest_def)
  next
    case False
    have tk: "take k c = rest" using c l by (simp add: b k)
    have "overwrite buf (length pre) rest = b"
      using off by (simp add: overwrite_def b)
    then show ?thesis
      using False off tk l
      by (simp add: FrameReader_readRest_def FrameReader_readPayload_def buf_def [symmetric] k_def [symmetric]
          b k Let_def)
  qed
qed

lemma read_step:
  assumes b: "whole_frame b" and r: "reading r b pre"
    and c: "take (length b - length pre) c = take (length c) (drop (length pre) b)"
  shows "length c < length b - length pre \<Longrightarrow>
      \<exists>r'. FrameReader_read r c = (incompleteFrame, r', []) \<and> reading r' b (pre @ c)"
    and "length b - length pre \<le> length c \<Longrightarrow>
      FrameReader_read r c = (Frame_validatePayload \<lparr>fr_buffer = b\<rparr>,
        \<lparr>rd_offset = 0, rd_frame = \<lparr>fr_buffer = b\<rparr>\<rparr>, drop (length b - length pre) c)"
proof -
  define buf where "buf = fr_buffer (rd_frame r)"
  obtain rest where br: "b = pre @ rest" using r by (auto simp: reading_def)
  have off: "rd_offset r = length pre" "take (length pre) buf = pre" using r by (simp_all add: reading_def buf_def)
  have nine: "9 \<le> length b" using b by (simp add: whole_frame_def)
  have "(length c < length b - length pre \<longrightarrow>
      (\<exists>r'. FrameReader_read r c = (incompleteFrame, r', []) \<and> reading r' b (pre @ c)))
    \<and> (length b - length pre \<le> length c \<longrightarrow>
      FrameReader_read r c = (Frame_validatePayload \<lparr>fr_buffer = b\<rparr>,
        \<lparr>rd_offset = 0, rd_frame = \<lparr>fr_buffer = b\<rparr>\<rparr>, drop (length b - length pre) c))"
  proof (cases "length pre < 9")
    case False
    then have "FrameReader_read r c = FrameReader_readRest r c"
      using off by (simp add: FrameReader_read_def frameHeaderSize_def)
    then show ?thesis using readRest_step [OF r _ c] False by simp
  next
    case True
    define n where "n = 9 - length pre"
    have len: "9 \<le> length buf" using r True by (simp add: reading_def buf_def)
    define h where "h = overwrite buf (length pre) (take n c)"
    have rh: "FrameReader_readHeader r c =
        (length pre + length (take n c) = 9,
         \<lparr>rd_offset = length pre + length (take n c), rd_frame = \<lparr>fr_buffer = h\<rparr>\<rparr>, drop n c)"
      using off len by (simp add: FrameReader_readHeader_def frameHeaderSize_def buf_def [symmetric] n_def h_def Let_def)
    have fit: "length pre + length (take n c) \<le> length buf" using len True by (simp add: n_def)
    note h = overwrite_take [OF fit off(2), folded h_def]
    have cr: "take (length rest) c = take (length c) rest" using c by (simp add: br)
    show ?thesis
    proof (cases "length c < n")
      case short: True
      then have tk: "take n c = c" "drop n c = []" by simp_all
      have l: "length c < length b - length pre" using short nine by (simp add: n_def)
      have ne: "length pre + length c \<noteq> 9" using short True by (simp add: n_def)
      define r' where "r' = \<lparr>rd_offset = length pre + length c, rd_frame = \<lparr>fr_buffer = h\<rparr>\<rparr>"
      have rd: "FrameReader_read r c = (incompleteFrame, r', [])"
        using rh ne True off tk by (simp add: FrameReader_read_def frameHeaderSize_def r'_def)
      have "c = take (length c) rest" using cr l by (simp add: br)
      then have "b = (pre @ c) @ drop (length c) rest" using br by (metis append_assoc append_take_drop_id)
      moreover have "length pre + length c < 9" using short True by (simp add: n_def)
      ultimately have "reading r' b (pre @ c)" using h tk len by (auto simp: reading_def r'_def)
      with rd l show ?thesis by simp
    next
      case long: False
      then have tl: "length (take n c) = n" by simp
      have pn: "length pre + n = 9" using True by (simp add: n_def)
      have nr: "n \<le> length rest" using nine pn br by simp
      have "take n c = take n (take (length rest) c)" using nr by simp
      also have "\<dots> = take n rest" using cr long by (simp add: min_absorb1)
      finally have tr: "take n c = take n rest" .
      have pre': "pre @ take n c = take 9 b" using tr pn by (simp add: br take_append n_def)
      have t9: "take 9 h = take 9 b" using h(1) tl pn pre' by simp
      have l9: "9 \<le> length h" using h(2) len by simp
      define g where "g = resize (length b) h"
      have vh: "Frame_validateHeader \<lparr>fr_buffer = h\<rparr> = goodFrame" "Frame_payloadSize \<lparr>fr_buffer = h\<rparr> + 9 = length b"
        "\<not> maxPayloadSize < Frame_payloadSize \<lparr>fr_buffer = h\<rparr>"
        using header_only [of "\<lparr>fr_buffer = h\<rparr>" "\<lparr>fr_buffer = b\<rparr>"] t9 l9 nine b by (simp_all add: whole_frame_def)
      define r1 where "r1 = \<lparr>rd_offset = 9, rd_frame = \<lparr>fr_buffer = g\<rparr>\<rparr>"
      have rd: "FrameReader_read r c = FrameReader_readRest r1 (drop n c)"
        using rh tl pn vh True off by (simp add: FrameReader_read_def frameHeaderSize_def r1_def g_def)
      have tg: "take 9 g = take 9 b"
        using t9 nine l9 by (simp add: g_def resize_def take_append min_absorb1)
      have "length g = length b" by (simp add: g_def resize_def)
      then have r1: "reading r1 b (pre @ take n c)"
        using tg tl pn pre' nine unfolding reading_def r1_def
        by (auto intro: exI [of _ "drop 9 b"] simp del: append_assoc)
      have l1: "length (pre @ take n c) = 9" using tl pn by simp
      have "take (length b - 9) (drop n c) = take (length (drop n c)) (drop 9 b)"
      proof -
        have "length b - 9 + n = length rest" using pn br nr by simp
        then have "take (length b - 9) (drop n c) = drop n (take (length rest) c)" by (simp add: take_drop)
        also have "\<dots> = drop n (take (length c) rest)" by (simp add: cr)
        also have "\<dots> = take (length c - n) (drop n rest)" by (simp add: drop_take)
        finally show ?thesis using True by (simp add: br n_def)
      qed
      then have "take (length b - length (pre @ take n c)) (drop n c)
          = take (length (drop n c)) (drop (length (pre @ take n c)) b)" by (simp only: l1)
      note rs = readRest_step [OF r1 _ this, unfolded l1]
      have sw: "length (drop n c) < length b - 9 \<longleftrightarrow> length c < length b - length pre"
        "length b - 9 \<le> length (drop n c) \<longleftrightarrow> length b - length pre \<le> length c"
        "n + (length b - 9) = length b - length pre"
        using long pn nine by auto
      show ?thesis using rd rs sw by (simp add: add.commute)
    qed
  qed
  then show "length c < length b - length pre \<Longrightarrow>
      \<exists>r'. FrameReader_read r c = (incompleteFrame, r', []) \<and> reading r' b (pre @ c)"
    and "length b - length pre \<le> length c \<Longrightarrow>
      FrameReader_read r c = (Frame_validatePayload \<lparr>fr_buffer = b\<rparr>,
        \<lparr>rd_offset = 0, rd_frame = \<lparr>fr_buffer = b\<rparr>\<rparr>, drop (length b - length pre) c)"
    by blast+
qed

section \<open>Properties\<close>

text \<open>One read for each arrival of bytes.\<close>

fun arrivals :: "FrameReader \<Rightarrow> bytes \<Rightarrow> bytes list \<Rightarrow> FrameStatus list \<times> FrameReader \<times> bytes" where
  "arrivals r socket [] = ([], r, socket)"
| "arrivals r socket (c # cs) =
     (let (status, r, socket) = FrameReader_read r (socket @ c);
          (statuses, r, socket) = arrivals r socket cs
      in (status # statuses, r, socket))"

lemma arrivals_complete:
  assumes "whole_frame b" "reading r b pre" "pre @ concat cs @ fin = b" "fin \<noteq> []"
  shows "arrivals r [] (cs @ [fin @ beyond]) =
    (replicate (length cs) incompleteFrame @ [Frame_validatePayload \<lparr>fr_buffer = b\<rparr>],
     \<lparr>rd_offset = 0, rd_frame = \<lparr>fr_buffer = b\<rparr>\<rparr>, beyond)"
  using assms(2,3)
proof (induction cs arbitrary: r pre)
  case Nil
  then have "drop (length pre) b = fin" "length b - length pre = length fin" by auto
  then show ?case
    using read_step(2) [OF assms(1) Nil.prems(1), of "fin @ beyond"] by simp
next
  case (Cons c cs)
  have d: "drop (length pre) b = c @ concat cs @ fin" using Cons.prems(2) by auto
  have l: "length b - length pre = length c + length (concat cs) + length fin" using Cons.prems(2) by auto
  have "length c < length b - length pre" using l assms(4) by simp
  moreover have "take (length b - length pre) c = take (length c) (drop (length pre) b)" using d l by simp
  ultimately obtain r' where r': "FrameReader_read r c = (incompleteFrame, r', [])" "reading r' b (pre @ c)"
    using read_step(1) [OF assms(1) Cons.prems(1)] by blast
  have "(pre @ c) @ concat cs @ fin = b" using Cons.prems(2) by simp
  from Cons.IH [OF r'(2) this] r'(1) show ?case by simp
qed

text \<open>C6: However the bytes of a frame with a valid header are cut into arrivals, every read before the
  last returns \<open>incompleteFrame\<close>, the last returns the verdict on the payload with the whole
  frame in the reader, the bytes behind it stay in the socket and the reader is ready again.\<close>

theorem reader_any_fragmentation:
  assumes "whole_frame b" "rd_offset r = 0" "9 \<le> length (fr_buffer (rd_frame r))"
    and "concat cs @ fin = b" "fin \<noteq> []"
  shows "arrivals r [] (cs @ [fin @ beyond]) =
    (replicate (length cs) incompleteFrame @ [Frame_validatePayload \<lparr>fr_buffer = b\<rparr>],
     \<lparr>rd_offset = 0, rd_frame = \<lparr>fr_buffer = b\<rparr>\<rparr>, beyond)"
proof -
  have "reading r b []" using assms(2,3) by (simp add: reading_def)
  from arrivals_complete [OF assms(1) this] assms(4,5) show ?thesis by simp
qed

lemma reader_any_fragmentation_witness:
  "arrivals FrameReader_new [] [[0, 0], [2, 0, 0, 0, 0, 0], [1, 7], [8, 9]] =
    ([incompleteFrame, incompleteFrame, incompleteFrame, goodFrame],
     \<lparr>rd_offset = 0, rd_frame = \<lparr>fr_buffer = [0, 0, 2, 0, 0, 0, 0, 0, 1, 7, 8]\<rparr>\<rparr>, [9])"
proof -
  define b :: bytes where "b = [0, 0, 2, 0, 0, 0, 0, 0, 1, 7, 8]"
  have "whole_frame b" "Frame_validatePayload \<lparr>fr_buffer = b\<rparr> = goodFrame" unfolding b_def by code_simp+
  with reader_any_fragmentation [of b FrameReader_new "[[0, 0], [2, 0, 0, 0, 0, 0], [1, 7]]" "[8]" "[9]"]
  show ?thesis by (simp add: FrameReader_new_def Frame_new_def frameHeaderSize_def b_def)
qed





text \<open>C32: With a limit above zero and room in the socket, \<open>writeDATA\<close> returns and sends its data, in order, as
  frames that all have the type, the flags and the stream the writer has, none empty and none above
  the limit: it sets END_STREAM on none, the writer's flags are those of every frame.\<close>

theorem writeDATA_splits:
  assumes "fr_buffer f = frame_bytes ty fl sid []" "0 < lim" "10 * length src \<le> room s"
  shows "\<exists>f' s' cs. FrameWriter_writeDATA lim src f s = Some (True, f', s')
    \<and> sent s' = sent s @ concat (map (frame_bytes ty fl sid) cs)
    \<and> concat cs = src \<and> (\<forall>c \<in> set cs. c \<noteq> [] \<and> length c \<le> lim \<and> length c \<le> maxPayloadSize)"
proof -
  define m where "m = (if lim > maxPayloadSize then maxPayloadSize else lim)"
  have m: "0 < m" "m \<le> lim" "m \<le> maxPayloadSize" using assms(2) by (auto simp: m_def maxPayloadSize_def)
  have "fr_buffer f = header_bytes 0 ty fl sid" using assms(1) by (simp add: frame_bytes_header)
  from writeDATA_loop_sends [OF m(1) assms(3) this, of "[]"] obtain f' s' where
    "writeDATA_loop m src 0 f s = Some (True, f', s')"
    "sent s' = sent s @ concat (map (frame_bytes ty fl sid) (chunked m src))" by auto
  with chunked_pieces [OF m(1), of src] m show ?thesis
    unfolding FrameWriter_writeDATA_def m_def [symmetric]
    by (intro exI [of _ f'] exI [of _ s'] exI [of _ "chunked m src"]) auto
qed

lemma writeDATA_splits_witness:
  "\<exists>f' s' cs. FrameWriter_writeDATA 2 [1, 2, 3] \<lparr>fr_buffer = frame_bytes DATA 0 5 []\<rparr> \<lparr>sent = [], room = 100\<rparr>
      = Some (True, f', s')
    \<and> sent s' = concat (map (frame_bytes DATA 0 5) cs) \<and> concat cs = [1, 2, 3]"
  using writeDATA_splits [of "\<lparr>fr_buffer = frame_bytes DATA 0 5 []\<rparr>" DATA 0 5 2 "[1, 2, 3]" "\<lparr>sent = [], room = 100\<rparr>"]
  by (simp add: frame_bytes_def) metis

text \<open>The byte behind the header, and the fields of the frame that the sizes depend on.\<close>

lemma frame_first:
  assumes "fr_buffer f = frame_bytes ty fl sid p" "p \<noteq> []"
  shows "fr_buffer f ! 9 = p ! 0" "length (fr_buffer f) > 9"
  using assms by (simp_all add: frame_bytes_header nth_append)

text \<open>C33: When a DATA or HEADERS frame has room for the padding length, the padding and the priority its
  flags announce, it is accepted: the priority, if it is a HEADERS frame that announces one, is the five
  bytes behind the padding length, the data begin right behind both, and their size is what the
  payload has besides the padding length, the padding and the priority.\<close>

theorem frame_data_extent:
  assumes f: "fr_buffer f = frame_bytes ty fl sid p" and ty: "ty = DATA \<or> ty = HEADERS"
    and len: "p \<noteq> []" "length p \<le> maxPayloadSize"
  defines "at \<equiv> if testFlag fl PADDED then 1 else 0"
    and "pad \<equiv> if testFlag fl PADDED then unat (p ! 0) else 0"
    and "prio \<equiv> if ty = HEADERS \<and> testFlag fl PRIORITY_FLAG then 5 else 0"
  assumes fits: "at + prio + pad \<le> length p"
  shows "Frame_validatePayload f = goodFrame \<and> Frame_padding f = pad
    \<and> Frame_priority f = (if prio = 0 then None else Some (fromBigEndian (take 4 (drop at p)), p ! (at + 4)))
    \<and> Frame_dataBegin f = Some (9 + at + prio)
    \<and> unat (Frame_dataSize f) = length p - (at + prio + pad)"
proof -
  note fld = frame_fields(1,2) [OF f] frame_fields(4) [OF f len(2)]
  note fst = frame_first [OF f len(1)]
  have good: "Frame_validatePayload f = goodFrame"
    using ty len(1) fits
    by (auto simp: Frame_validatePayload_def fld fst frameHeaderSize_def at_def pad_def prio_def Let_def split: if_splits)
  have pos: "drop (9 + k) (fr_buffer f) = drop k p" "fr_buffer f ! (9 + k) = p ! k" for k
    by (simp_all add: f frame_bytes_header nth_append)
  have prio: "Frame_priority f = (if prio = 0 then None else Some (fromBigEndian (take 4 (drop at p)), p ! (at + 4)))"
    using ty fst pos [of 0] pos [of 1] pos(2) [of 4] pos(2) [of 5]
    by (auto simp: Frame_priority_def fld frameHeaderSize_def prio_def at_def Let_def)
  then have none: "(Frame_priority f = None) = (prio = 0)" by simp
  have padding: "Frame_padding f = pad"
    using ty by (auto simp: Frame_padding_def fld fst frameHeaderSize_def pad_def)
  have p5: "prio = 0 \<or> prio = 5" by (simp add: prio_def)
  have ds: "Frame_dataSize f = of_nat (length p - (at + prio + pad))"
    using fits p5 unfolding Frame_dataSize_def fld none padding by (auto simp: Let_def of_nat_diff at_def pad_def)
  have "length p - (at + prio + pad) < 2 ^ 32" using len(2) by (simp add: maxPayloadSize_def)
  then have u: "unat (Frame_dataSize f) = length p - (at + prio + pad)" by (simp add: ds unat_of_nat take_bit_nat_eq_self)
  have "Frame_dataBegin f = Some (9 + at + prio)"
    using fst p5 unfolding Frame_dataBegin_def fld none by (auto simp: frameHeaderSize_def Let_def at_def)
  with good u prio padding show ?thesis by blast
qed

lemma frame_data_extent_witness:
  "Frame_dataBegin \<lparr>fr_buffer = frame_bytes HEADERS (PADDED OR PRIORITY_FLAG) 1 [1, 0, 0, 0, 3, 16, 7, 0]\<rparr> = Some 15
   \<and> unat (Frame_dataSize \<lparr>fr_buffer = frame_bytes HEADERS (PADDED OR PRIORITY_FLAG) 1 [1, 0, 0, 0, 3, 16, 7, 0]\<rparr>) = 1"
proof -
  have "testFlag (PADDED OR PRIORITY_FLAG) PADDED" "testFlag (PADDED OR PRIORITY_FLAG) PRIORITY_FLAG" by code_simp+
  with frame_data_extent [of "\<lparr>fr_buffer = frame_bytes HEADERS (PADDED OR PRIORITY_FLAG) 1 [1, 0, 0, 0, 3, 16, 7, 0]\<rparr>" HEADERS
      "PADDED OR PRIORITY_FLAG" 1 "[1, 0, 0, 0, 3, 16, 7, 0]"]
  show ?thesis by (simp add: maxPayloadSize_def)
qed

text \<open>C34: A DATA frame, or a HEADERS frame without a priority, whose padding is as long as its payload passes
  the validation, and the size of its data is then \<open>2 ^ 32 - 1\<close>.\<close>

theorem padding_fills_payload:
  assumes f: "fr_buffer f = frame_bytes ty fl sid p" and ty: "ty = DATA \<or> ty = HEADERS \<and> \<not> testFlag fl PRIORITY_FLAG"
    and len: "p \<noteq> []" "length p \<le> maxPayloadSize" and pad: "testFlag fl PADDED" "unat (p ! 0) = length p"
  shows "Frame_validatePayload f = goodFrame \<and> unat (Frame_dataSize f) = 2 ^ 32 - 1"
proof -
  note fld = frame_fields(1,2) [OF f] frame_fields(4) [OF f len(2)]
  note fst = frame_first [OF f len(1)]
  have "Frame_validatePayload f = goodFrame"
    using ty len(1) pad by (auto simp: Frame_validatePayload_def fld fst frameHeaderSize_def Let_def)
  moreover have "Frame_dataSize f = - 1"
    using ty pad
    by (auto simp: Frame_dataSize_def Frame_padding_def Frame_priority_def fld fst frameHeaderSize_def Let_def)
  moreover have "unat (- 1 :: 32 word) = 2 ^ 32 - 1" by (simp add: unsigned_minus_1_eq_mask mask_eq_exp_minus_1)
  ultimately show ?thesis by simp
qed

lemma padding_fills_payload_witness:
  "unat (Frame_dataSize \<lparr>fr_buffer = frame_bytes DATA PADDED 1 [1]\<rparr>) = 2 ^ 32 - 1"
  using padding_fills_payload [of "\<lparr>fr_buffer = frame_bytes DATA PADDED 1 [1]\<rparr>" DATA PADDED 1 "[1]"]
  by (simp add: PADDED_def testFlag_def maxPayloadSize_def)

text \<open>A SETTINGS frame with the bit of PADDED, which has no meaning there, is accepted, but the data of
  its parameters start one byte late and are not a multiple of the six bytes of a parameter.\<close>

theorem settings_with_padded_bit:
  assumes f: "fr_buffer f = frame_bytes SETTINGS PADDED sid p"
    and len: "p \<noteq> []" "length p mod 6 = 0" "length p \<le> maxPayloadSize"
  shows "Frame_validateHeader f = goodFrame \<and> Frame_validatePayload f = goodFrame
    \<and> Frame_dataBegin f = Some 10 \<and> unat (Frame_dataSize f) mod 6 = 5"
proof -
  note fld = frame_fields(1,2) [OF f] frame_fields(4) [OF f len(3)]
  note fst = frame_first [OF f len(1)]
  have t: "testFlag PADDED PADDED" "\<not> testFlag PADDED ACK" by (simp_all add: testFlag_def PADDED_def ACK_def)
  have ds: "Frame_dataSize f = of_nat (length p - 1)"
    using len(1) by (simp add: Frame_dataSize_def Frame_padding_def Frame_priority_def fld fst t Let_def Suc_le_eq)
  have "length p - 1 < 2 ^ 32" using len(3) by (simp add: maxPayloadSize_def)
  then have "unat (Frame_dataSize f) = length p - 1" by (simp add: ds unat_of_nat take_bit_nat_eq_self)
  moreover have "(length p - 1) mod 6 = 5"
  proof -
    obtain k where k: "length p = 6 * k" using len(2) by auto
    with len(1) obtain j where "k = Suc j" by (cases k) auto
    then show ?thesis using k by simp
  qed
  ultimately show ?thesis
    using len fst by (simp add: Frame_validateHeader_def Frame_validatePayload_def Frame_dataBegin_def
        Frame_priority_def fld t frameHeaderSize_def Let_def)
qed

lemma settings_with_padded_bit_witness:
  "Frame_validatePayload \<lparr>fr_buffer = frame_bytes SETTINGS PADDED 0 [0, 3, 0, 0, 0, 100]\<rparr> = goodFrame
    \<and> Frame_dataBegin \<lparr>fr_buffer = frame_bytes SETTINGS PADDED 0 [0, 3, 0, 0, 0, 100]\<rparr> = Some 10"
  using settings_with_padded_bit [of "\<lparr>fr_buffer = frame_bytes SETTINGS PADDED 0 [0, 3, 0, 0, 0, 100]\<rparr>" 0
      "[0, 3, 0, 0, 0, 100]"]
  by (simp add: maxPayloadSize_def)

end
