(* ===== verification/QRingBuffer.thy ===== *)
theory QRingBuffer
  imports HpackBits
begin

text \<open>
  \<open>src/corelib/tools/qringbuffer.cpp\<close> and \<open>qringbuffer_p.h\<close>: the byte queue of I/O devices, a list of
  chunks with a head and a tail offset into their arrays. Whether the array of a chunk has another
  owner is a flag of the chunk: \<open>append(const QByteArray &)\<close> takes it from its argument. The bytes of
  a new array are zero here; in the code they are not initialised.
\<close>

section \<open>QRingChunk\<close>

record QRingChunk =
  rc_chunk :: bytes
  headOffset :: nat
  tailOffset :: nat
  isShared :: bool

definition QRingChunk_alloc :: "nat \<Rightarrow> QRingChunk" where
  "QRingChunk_alloc alloc = \<lparr>rc_chunk = replicate alloc 0, headOffset = 0, tailOffset = 0, isShared = False\<rparr>"

definition QRingChunk_of :: "bytes \<Rightarrow> bool \<Rightarrow> QRingChunk" where
  "QRingChunk_of qba sh = \<lparr>rc_chunk = qba, headOffset = 0, tailOffset = length qba, isShared = sh\<rparr>"

definition QRingChunk_allocate :: "nat \<Rightarrow> QRingChunk \<Rightarrow> QRingChunk" where
  "QRingChunk_allocate alloc c =
     (if length (rc_chunk c) < alloc \<or> isShared c then c\<lparr>rc_chunk := replicate alloc 0, isShared := False\<rparr> else c)"

definition QRingChunk_size :: "QRingChunk \<Rightarrow> nat" where
  "QRingChunk_size c = tailOffset c - headOffset c"

definition QRingChunk_capacity :: "QRingChunk \<Rightarrow> nat" where
  "QRingChunk_capacity c = length (rc_chunk c)"

definition QRingChunk_available :: "QRingChunk \<Rightarrow> nat" where
  "QRingChunk_available c = length (rc_chunk c) - tailOffset c"

text \<open>The \<open>size()\<close> bytes behind \<open>data()\<close>.\<close>

definition QRingChunk_data :: "QRingChunk \<Rightarrow> bytes" where
  "QRingChunk_data c = take (QRingChunk_size c) (drop (headOffset c) (rc_chunk c))"

definition QRingChunk_detach :: "QRingChunk \<Rightarrow> QRingChunk" where
  "QRingChunk_detach c =
     c\<lparr>rc_chunk := QRingChunk_data c, headOffset := 0, tailOffset := QRingChunk_size c, isShared := False\<rparr>"

text \<open>The non-constant \<open>data()\<close>, for writing.\<close>

definition QRingChunk_writable :: "QRingChunk \<Rightarrow> QRingChunk" where
  "QRingChunk_writable c = (if isShared c then QRingChunk_detach c else c)"

definition QRingChunk_advance :: "int \<Rightarrow> QRingChunk \<Rightarrow> QRingChunk" where
  "QRingChunk_advance off c = c\<lparr>headOffset := nat (int (headOffset c) + off)\<rparr>"

definition QRingChunk_grow :: "int \<Rightarrow> QRingChunk \<Rightarrow> QRingChunk" where
  "QRingChunk_grow off c = c\<lparr>tailOffset := nat (int (tailOffset c) + off)\<rparr>"

definition QRingChunk_assign :: "bytes \<Rightarrow> bool \<Rightarrow> QRingChunk \<Rightarrow> QRingChunk" where
  "QRingChunk_assign qba sh c = c\<lparr>rc_chunk := qba, headOffset := 0, tailOffset := length qba, isShared := sh\<rparr>"

definition QRingChunk_reset :: "QRingChunk \<Rightarrow> QRingChunk" where
  "QRingChunk_reset c = c\<lparr>headOffset := 0, tailOffset := 0\<rparr>"

text \<open>A chunk with a null array, which is never detached.\<close>

definition QRingChunk_empty :: QRingChunk where
  "QRingChunk_empty = \<lparr>rc_chunk = [], headOffset = 0, tailOffset = 0, isShared = True\<rparr>"

definition QRingChunk_toByteArray :: "QRingChunk \<Rightarrow> bytes" where
  "QRingChunk_toByteArray c =
     (if headOffset c \<noteq> 0 \<or> tailOffset c \<noteq> length (rc_chunk c)
      then if isShared c then take (QRingChunk_size c) (drop (headOffset c) (rc_chunk c))
           else drop (headOffset c) (take (tailOffset c) (rc_chunk c))
      else rc_chunk c)"

text \<open>A write of \<open>bs\<close> at \<open>data() + i\<close>.\<close>

definition QRingChunk_poke :: "nat \<Rightarrow> bytes \<Rightarrow> QRingChunk \<Rightarrow> QRingChunk" where
  "QRingChunk_poke i bs c =
     (let at = headOffset c + i
      in c\<lparr>rc_chunk := take at (rc_chunk c) @ bs @ drop (at + length bs) (rc_chunk c)\<rparr>)"

section \<open>QRingBuffer\<close>

record QRingBuffer =
  buffers :: "QRingChunk list"
  bufferSize :: nat
  basicBlockSize :: nat

definition QRingBuffer_new :: "nat \<Rightarrow> QRingBuffer" where
  "QRingBuffer_new growth = \<lparr>buffers = [], bufferSize = 0, basicBlockSize = growth\<rparr>"

definition ring_setChunkSize :: "nat \<Rightarrow> QRingBuffer \<Rightarrow> QRingBuffer" where
  "ring_setChunkSize n s = s\<lparr>basicBlockSize := n\<rparr>"

definition ring_nextDataBlockSize :: "QRingBuffer \<Rightarrow> nat" where
  "ring_nextDataBlockSize s = (if bufferSize s = 0 then 0 else QRingChunk_size (hd (buffers s)))"

definition ring_readPointer :: "QRingBuffer \<Rightarrow> bytes option" where
  "ring_readPointer s = (if bufferSize s = 0 then None else Some (QRingChunk_data (hd (buffers s))))"

fun readPointerAtPosition_loop :: "nat \<Rightarrow> QRingChunk list \<Rightarrow> bytes option" where
  "readPointerAtPosition_loop pos [] = None"
| "readPointerAtPosition_loop pos (chunk # cs) =
     (if QRingChunk_size chunk > pos then Some (drop pos (QRingChunk_data chunk))
      else readPointerAtPosition_loop (pos - QRingChunk_size chunk) cs)"

text \<open>The readable bytes from the position on, whose number is the out parameter.\<close>

definition ring_readPointerAtPosition :: "nat \<Rightarrow> QRingBuffer \<Rightarrow> bytes option" where
  "ring_readPointerAtPosition pos s = readPointerAtPosition_loop pos (buffers s)"

definition ring_clear :: "QRingBuffer \<Rightarrow> QRingBuffer" where
  "ring_clear s = (if buffers s = [] then s else s\<lparr>buffers := [QRingChunk_empty], bufferSize := 0\<rparr>)"

function ring_free :: "nat \<Rightarrow> QRingBuffer \<Rightarrow> QRingBuffer" where
  "ring_free n s =
     (if n > 0
      then case buffers s of
             [] \<Rightarrow> s
           | chunk # cs \<Rightarrow>
               if cs = [] \<or> QRingChunk_size chunk > n
               then if bufferSize s = n
                    then if QRingChunk_capacity chunk \<le> basicBlockSize s \<and> \<not> isShared chunk
                         then s\<lparr>buffers := QRingChunk_reset chunk # cs, bufferSize := 0\<rparr>
                         else ring_clear s
                    else s\<lparr>buffers := QRingChunk_advance (int n) chunk # cs, bufferSize := bufferSize s - n\<rparr>
               else ring_free (n - QRingChunk_size chunk)
                      (s\<lparr>bufferSize := bufferSize s - QRingChunk_size chunk, buffers := cs\<rparr>)
      else s)"
  by auto
termination by (relation "measure (\<lambda>(n, s). length (buffers s))") auto

declare ring_free.simps [simp del]

function ring_chop :: "nat \<Rightarrow> QRingBuffer \<Rightarrow> QRingBuffer" where
  "ring_chop n s =
     (if n > 0 \<and> buffers s \<noteq> []
      then let chunk = last (buffers s)
           in if length (buffers s) = 1 \<or> QRingChunk_size chunk > n
              then if bufferSize s = n
                   then if QRingChunk_capacity chunk \<le> basicBlockSize s \<and> \<not> isShared chunk
                        then s\<lparr>buffers := butlast (buffers s) @ [QRingChunk_reset chunk], bufferSize := 0\<rparr>
                        else ring_clear s
                   else s\<lparr>buffers := butlast (buffers s) @ [QRingChunk_grow (- int n) chunk],
                          bufferSize := bufferSize s - n\<rparr>
              else ring_chop (n - QRingChunk_size chunk)
                     (s\<lparr>bufferSize := bufferSize s - QRingChunk_size chunk, buffers := butlast (buffers s)\<rparr>)
      else s)"
  by auto
termination by (relation "measure (\<lambda>(n, s). length (buffers s))") auto

declare ring_chop.simps [simp del]

definition ring_truncate :: "nat \<Rightarrow> QRingBuffer \<Rightarrow> QRingBuffer" where
  "ring_truncate pos s = ring_chop (bufferSize s - pos) s"

definition map_last :: "('a \<Rightarrow> 'a) \<Rightarrow> 'a list \<Rightarrow> 'a list" where
  "map_last f xs = butlast xs @ [f (last xs)]"

definition map_first :: "('a \<Rightarrow> 'a) \<Rightarrow> 'a list \<Rightarrow> 'a list" where
  "map_first f xs = f (hd xs) # tl xs"

text \<open>The buffer and the offset of the returned pointer from the \<open>data()\<close> of the last chunk.\<close>

definition ring_reserve :: "nat \<Rightarrow> QRingBuffer \<Rightarrow> nat \<times> QRingBuffer" where
  "ring_reserve n s =
     (let chunkSize = max (basicBlockSize s) n;
          (bs, tail) =
            (if bufferSize s = 0
             then (if buffers s = [] then [QRingChunk_alloc chunkSize]
                   else map_first (QRingChunk_allocate chunkSize) (buffers s), 0)
             else let chunk = last (buffers s)
                  in if basicBlockSize s = 0 \<or> isShared chunk \<or> n > QRingChunk_available chunk
                     then (buffers s @ [QRingChunk_alloc chunkSize], 0)
                     else (buffers s, QRingChunk_size chunk))
      in (tail, s\<lparr>buffers := map_last (\<lambda>c. QRingChunk_writable (QRingChunk_grow (int n) c)) bs,
                  bufferSize := bufferSize s + n\<rparr>))"

definition ring_reserveFront :: "nat \<Rightarrow> QRingBuffer \<Rightarrow> QRingBuffer" where
  "ring_reserveFront n s =
     (let chunkSize = max (basicBlockSize s) n;
          fresh = (\<lambda>c. QRingChunk_advance (int chunkSize - int n) (QRingChunk_grow (int chunkSize) c));
          bs =
            (if bufferSize s = 0
             then map_first fresh
                    (if buffers s = [] then [QRingChunk_alloc chunkSize]
                     else map_first (QRingChunk_allocate chunkSize) (buffers s))
             else let chunk = hd (buffers s)
                  in if basicBlockSize s = 0 \<or> isShared chunk \<or> n > headOffset chunk
                     then fresh (QRingChunk_alloc chunkSize) # buffers s
                     else map_first (QRingChunk_advance (- int n)) (buffers s))
      in s\<lparr>buffers := map_first QRingChunk_writable bs, bufferSize := bufferSize s + n\<rparr>)"

definition ring_append :: "bytes \<Rightarrow> QRingBuffer \<Rightarrow> QRingBuffer" where
  "ring_append bs s =
     (if bs = [] then s
      else let (tail, s) = ring_reserve (length bs) s
           in s\<lparr>buffers := map_last (QRingChunk_poke tail bs) (buffers s)\<rparr>)"

text \<open>Both overloads for \<open>QByteArray\<close>: the flag tells whether the argument has another owner.\<close>

definition ring_appendArray :: "bytes \<Rightarrow> bool \<Rightarrow> QRingBuffer \<Rightarrow> QRingBuffer" where
  "ring_appendArray qba sh s =
     (if bufferSize s \<noteq> 0 \<or> buffers s = []
      then s\<lparr>buffers := buffers s @ [QRingChunk_of qba sh], bufferSize := bufferSize s + length qba\<rparr>
      else s\<lparr>buffers := map_last (QRingChunk_assign qba sh) (buffers s), bufferSize := bufferSize s + length qba\<rparr>)"

definition ring_putChar :: "8 word \<Rightarrow> QRingBuffer \<Rightarrow> QRingBuffer" where
  "ring_putChar c s =
     (let (tail, s) = ring_reserve 1 s in s\<lparr>buffers := map_last (QRingChunk_poke tail [c]) (buffers s)\<rparr>)"

definition ring_ungetChar :: "8 word \<Rightarrow> QRingBuffer \<Rightarrow> QRingBuffer" where
  "ring_ungetChar c s =
     (let s = ring_reserveFront 1 s in s\<lparr>buffers := map_first (QRingChunk_poke 0 [c]) (buffers s)\<rparr>)"

definition ring_getChar :: "QRingBuffer \<Rightarrow> int \<times> QRingBuffer" where
  "ring_getChar s =
     (case ring_readPointer s of
        None \<Rightarrow> (-1, s)
      | Some p \<Rightarrow> (uint (hd p), ring_free 1 s))"

fun memchr :: "bytes \<Rightarrow> 8 word \<Rightarrow> nat \<Rightarrow> nat option" where
  "memchr (x # xs) c (Suc n) = (if x = c then Some 0 else map_option Suc (memchr xs c n))"
| "memchr xs c n = None"

fun indexOf_loop :: "8 word \<Rightarrow> int \<Rightarrow> int \<Rightarrow> QRingChunk list \<Rightarrow> int \<Rightarrow> int" where
  "indexOf_loop c maxLength pos [] index = -1"
| "indexOf_loop c maxLength pos (chunk # cs) index =
     (let nextBlockIndex = min (index + int (QRingChunk_size chunk)) maxLength
      in if nextBlockIndex > 0
         then let (p, index) = (if index < 0 then (drop (nat (- index)) (QRingChunk_data chunk), 0)
                                else (QRingChunk_data chunk, index))
              in case memchr p c (nat (nextBlockIndex - index)) of
                   Some k \<Rightarrow> int k + index + pos
                 | None \<Rightarrow> if nextBlockIndex = maxLength then -1
                            else indexOf_loop c maxLength pos cs nextBlockIndex
         else indexOf_loop c maxLength pos cs nextBlockIndex)"

definition ring_indexOf :: "8 word \<Rightarrow> int \<Rightarrow> int \<Rightarrow> QRingBuffer \<Rightarrow> int" where
  "ring_indexOf c maxLength pos s =
     (if maxLength = 0 then -1 else indexOf_loop c maxLength pos (buffers s) (- pos))"

definition ring_canReadLine :: "QRingBuffer \<Rightarrow> bool" where
  "ring_canReadLine s \<longleftrightarrow> ring_indexOf 10 (int (bufferSize s)) 0 s \<ge> 0"

text \<open>The loop of \<open>read(char *, qint64)\<close>; it makes no progress on an empty first chunk.\<close>

partial_function (option) read_loop :: "nat \<Rightarrow> bytes \<Rightarrow> QRingBuffer \<Rightarrow> (bytes \<times> QRingBuffer) option" where
  "read_loop bytesToRead data s =
     (if length data < bytesToRead
      then let n = min (bytesToRead - length data) (ring_nextDataBlockSize s)
           in read_loop bytesToRead (data @ take n (the (ring_readPointer s))) (ring_free n s)
      else Some (data, s))"

declare read_loop.simps [code]

definition ring_read :: "nat \<Rightarrow> QRingBuffer \<Rightarrow> (bytes \<times> QRingBuffer) option" where
  "ring_read maxLength s = read_loop (min (bufferSize s) maxLength) [] s"

definition ring_readBlock :: "QRingBuffer \<Rightarrow> bytes \<times> QRingBuffer" where
  "ring_readBlock s =
     (if bufferSize s = 0 then ([], s)
      else (QRingChunk_toByteArray (hd (buffers s)),
            s\<lparr>bufferSize := bufferSize s - QRingChunk_size (hd (buffers s)), buffers := tl (buffers s)\<rparr>))"

fun peek_loop :: "nat \<Rightarrow> QRingChunk list \<Rightarrow> nat \<Rightarrow> bytes \<Rightarrow> bytes" where
  "peek_loop maxLength [] pos data = data"
| "peek_loop maxLength (chunk # cs) pos data =
     (if length data = maxLength then data
      else if pos < QRingChunk_size chunk
      then let blockLength = min (QRingChunk_size chunk - pos) (maxLength - length data)
           in peek_loop maxLength cs 0 (data @ take blockLength (drop pos (QRingChunk_data chunk)))
      else peek_loop maxLength cs (pos - QRingChunk_size chunk) data)"

definition ring_peek :: "nat \<Rightarrow> nat \<Rightarrow> QRingBuffer \<Rightarrow> bytes" where
  "ring_peek maxLength pos s = peek_loop maxLength (buffers s) pos []"

definition ring_skip :: "nat \<Rightarrow> QRingBuffer \<Rightarrow> nat \<times> QRingBuffer" where
  "ring_skip n s = (let bytesToSkip = min n (bufferSize s) in (bytesToSkip, ring_free bytesToSkip s))"

text \<open>The line without the terminator the code writes behind it.\<close>

definition ring_readLine :: "nat \<Rightarrow> QRingBuffer \<Rightarrow> (bytes \<times> QRingBuffer) option" where
  "ring_readLine maxLength s =
     (let maxLength = maxLength - 1;
          i = ring_indexOf 10 (int maxLength) 0 s
      in ring_read (if i \<ge> 0 then nat (i + 1) else maxLength) s)"

end
