(* ===== verification/QRingBufferRefine.thy ===== *)
theory QRingBufferRefine
  imports QRingBuffer
begin

text \<open>
  The ring buffer is a byte string: the abstraction of the chunks, the invariant that the
  assertions of the code rely on, and the refinement of every operation by one on lists.
\<close>

section \<open>Chunks\<close>

definition chunk_ok :: "QRingChunk \<Rightarrow> bool" where
  "chunk_ok c \<longleftrightarrow> headOffset c \<le> tailOffset c \<and> tailOffset c \<le> length (rc_chunk c)"

lemmas chunk_defs = QRingChunk_alloc_def QRingChunk_of_def QRingChunk_allocate_def QRingChunk_capacity_def
  QRingChunk_available_def QRingChunk_advance_def QRingChunk_grow_def QRingChunk_assign_def
  QRingChunk_reset_def QRingChunk_empty_def

lemma data_length [simp]: "chunk_ok c \<Longrightarrow> length (QRingChunk_data c) = QRingChunk_size c"
  by (auto simp: chunk_ok_def QRingChunk_data_def QRingChunk_size_def)

lemma data_Nil_iff [simp]: "chunk_ok c \<Longrightarrow> QRingChunk_data c = [] \<longleftrightarrow> QRingChunk_size c = 0"
  using data_length [of c] by (cases "QRingChunk_data c") auto

lemma data_alt: "chunk_ok c \<Longrightarrow> QRingChunk_data c = drop (headOffset c) (take (tailOffset c) (rc_chunk c))"
  by (simp add: chunk_ok_def QRingChunk_data_def QRingChunk_size_def take_drop)

lemma chunk_of [simp]:
  "chunk_ok (QRingChunk_of b sh)" "QRingChunk_data (QRingChunk_of b sh) = b" "QRingChunk_size (QRingChunk_of b sh) = length b"
  by (simp_all add: chunk_ok_def QRingChunk_of_def QRingChunk_data_def QRingChunk_size_def)

lemma chunk_assign [simp]: "QRingChunk_assign b sh c = QRingChunk_of b sh"
  by (simp add: chunk_defs)

lemma chunk_zero [simp]:
  "chunk_ok QRingChunk_empty" "QRingChunk_size QRingChunk_empty = 0" "QRingChunk_data QRingChunk_empty = []"
  "chunk_ok (QRingChunk_reset c)" "QRingChunk_size (QRingChunk_reset c) = 0" "QRingChunk_data (QRingChunk_reset c) = []"
  "tailOffset QRingChunk_empty = 0" "tailOffset (QRingChunk_reset c) = 0"
  by (simp_all add: chunk_ok_def chunk_defs QRingChunk_data_def QRingChunk_size_def)

lemma chunk_advance:
  assumes "chunk_ok c" "n \<le> QRingChunk_size c"
  shows "chunk_ok (QRingChunk_advance (int n) c)"
    and "QRingChunk_size (QRingChunk_advance (int n) c) = QRingChunk_size c - n"
    and "QRingChunk_data (QRingChunk_advance (int n) c) = drop n (QRingChunk_data c)"
  using assms
  by (auto simp: chunk_ok_def QRingChunk_advance_def QRingChunk_data_def QRingChunk_size_def nat_int_add drop_take add.commute)

lemma chunk_shrink:
  assumes "chunk_ok c" "n \<le> QRingChunk_size c"
  shows "chunk_ok (QRingChunk_grow (- int n) c)"
    and "QRingChunk_size (QRingChunk_grow (- int n) c) = QRingChunk_size c - n"
    and "QRingChunk_data (QRingChunk_grow (- int n) c) = take (QRingChunk_size c - n) (QRingChunk_data c)"
proof -
  have t: "nat (int (tailOffset c) + - int n) = tailOffset c - n"
    using assms by (simp add: nat_diff_distrib' flip: nat_minus_as_int)
  show "chunk_ok (QRingChunk_grow (- int n) c)"
    and "QRingChunk_size (QRingChunk_grow (- int n) c) = QRingChunk_size c - n"
    and "QRingChunk_data (QRingChunk_grow (- int n) c) = take (QRingChunk_size c - n) (QRingChunk_data c)"
    using assms unfolding QRingChunk_grow_def t
    by (auto simp: chunk_ok_def QRingChunk_data_def QRingChunk_size_def min_def add.commute)
qed

text \<open>Room behind the tail is filled by \<open>grow\<close> and a write there; room before the head by \<open>advance\<close>.\<close>

lemma chunk_fill_back:
  assumes "chunk_ok c" "length bs \<le> QRingChunk_available c" "\<not> isShared c" "bs \<noteq> []"
  shows "let c' = QRingChunk_poke (QRingChunk_size c) bs (QRingChunk_writable (QRingChunk_grow (int (length bs)) c))
    in chunk_ok c' \<and> QRingChunk_data c' = QRingChunk_data c @ bs \<and> \<not> isShared c'"
  using assms
  by (auto simp: chunk_ok_def QRingChunk_available_def QRingChunk_poke_def QRingChunk_writable_def QRingChunk_grow_def
      QRingChunk_data_def QRingChunk_size_def nat_int_add Let_def drop_take)

lemma chunk_fill_front:
  assumes "chunk_ok c" "length bs \<le> headOffset c" "\<not> isShared c"
  shows "let c' = QRingChunk_poke 0 bs (QRingChunk_writable (QRingChunk_advance (- int (length bs)) c))
    in chunk_ok c' \<and> QRingChunk_data c' = bs @ QRingChunk_data c \<and> \<not> isShared c'"
proof -
  have h: "nat (int (headOffset c) + - int (length bs)) = headOffset c - length bs"
    using assms by (simp add: nat_diff_distrib' flip: nat_minus_as_int)
  show ?thesis
    using assms unfolding QRingChunk_advance_def h
    by (auto simp: chunk_ok_def QRingChunk_poke_def QRingChunk_writable_def QRingChunk_data_def QRingChunk_size_def Let_def)
qed

lemma chunk_fresh:
  "chunk_ok (QRingChunk_alloc k)" "QRingChunk_data (QRingChunk_alloc k) = []" "QRingChunk_available (QRingChunk_alloc k) = k"
  "QRingChunk_size (QRingChunk_alloc k) = 0" "\<not> isShared (QRingChunk_alloc k)" "tailOffset (QRingChunk_alloc k) = 0"
  by (simp_all add: chunk_ok_def chunk_defs QRingChunk_data_def QRingChunk_size_def)

lemma chunk_allocate:
  assumes "chunk_ok c" "tailOffset c = 0"
  shows "chunk_ok (QRingChunk_allocate k c)" "QRingChunk_data (QRingChunk_allocate k c) = []"
    "k \<le> QRingChunk_available (QRingChunk_allocate k c)" "QRingChunk_size (QRingChunk_allocate k c) = 0"
    "\<not> isShared (QRingChunk_allocate k c)" "tailOffset (QRingChunk_allocate k c) = 0"
  using assms by (auto simp: chunk_ok_def chunk_defs QRingChunk_data_def QRingChunk_size_def)

text \<open>A chunk without bytes that opens at its far end, for a write at the front.\<close>

lemma chunk_open_front:
  assumes "chunk_ok c" "tailOffset c = 0" "k \<le> QRingChunk_available c" "\<not> isShared c" "length bs \<le> k"
  shows "let c' = QRingChunk_poke 0 bs (QRingChunk_writable (QRingChunk_advance (int k - int (length bs)) (QRingChunk_grow (int k) c)))
    in chunk_ok c' \<and> QRingChunk_data c' = bs \<and> \<not> isShared c'"
proof -
  have "nat (int k - int (length bs)) = k - length bs" using assms by simp
  then show ?thesis
    using assms
    by (auto simp: chunk_ok_def QRingChunk_available_def QRingChunk_poke_def QRingChunk_writable_def QRingChunk_grow_def
        QRingChunk_advance_def QRingChunk_data_def QRingChunk_size_def Let_def)
qed

lemma toByteArray_data [simp]: "chunk_ok c \<Longrightarrow> QRingChunk_toByteArray c = QRingChunk_data c"
  by (auto simp: QRingChunk_toByteArray_def data_alt) (simp_all add: QRingChunk_data_def QRingChunk_size_def take_drop chunk_ok_def)

lemma detach_data: "chunk_ok c \<Longrightarrow> QRingChunk_data (QRingChunk_detach c) = QRingChunk_data c \<and> chunk_ok (QRingChunk_detach c)"
  by (auto simp: QRingChunk_detach_def chunk_ok_def QRingChunk_data_def QRingChunk_size_def)

section \<open>The abstraction and the invariant\<close>

definition content :: "QRingBuffer \<Rightarrow> bytes" where
  "content s = concat (map QRingChunk_data (buffers s))"

definition ring_ok :: "QRingBuffer \<Rightarrow> bool" where
  "ring_ok s \<longleftrightarrow>
     (\<forall>c \<in> set (buffers s). chunk_ok c) \<and> bufferSize s = length (content s)
     \<and> ((\<forall>c \<in> set (buffers s). QRingChunk_size c > 0) \<or> (\<exists>c. buffers s = [c] \<and> tailOffset c = 0))"

lemma new_content [simp]: "content (QRingBuffer_new g) = []" "ring_ok (QRingBuffer_new g)"
  by (simp_all add: content_def ring_ok_def QRingBuffer_new_def)

lemma setChunkSize_content [simp]:
  "content (ring_setChunkSize k s) = content s" "ring_ok (ring_setChunkSize k s) = ring_ok s"
  by (simp_all add: content_def ring_ok_def ring_setChunkSize_def)

lemma clear_content [simp]: "ring_ok s \<Longrightarrow> content (ring_clear s) = [] \<and> ring_ok (ring_clear s)"
  by (auto simp: content_def ring_ok_def ring_clear_def)

text \<open>A buffer with bytes has none in an empty chunk.\<close>

lemma tail0_size [simp]: "tailOffset c = 0 \<Longrightarrow> QRingChunk_size c = 0" "tailOffset c = 0 \<Longrightarrow> QRingChunk_data c = []"
  by (simp_all add: QRingChunk_size_def QRingChunk_data_def)

lemma ring_nonempty:
  assumes "ring_ok s" "bufferSize s \<noteq> 0"
  shows "buffers s \<noteq> []" "\<forall>c \<in> set (buffers s). QRingChunk_size c > 0"
  using assms by (auto simp: ring_ok_def content_def)

lemma ring_empty:
  assumes "ring_ok s" "bufferSize s = 0" "buffers s \<noteq> []"
  obtains c where "buffers s = [c]" "chunk_ok c" "tailOffset c = 0"
  using assms by (cases "buffers s") (auto simp: ring_ok_def content_def)

lemma ring_ok_build:
  assumes "\<forall>c \<in> set (buffers s). chunk_ok c \<and> QRingChunk_data c \<noteq> []" "bufferSize s = length (content s)"
  shows "ring_ok s"
  using assms by (auto simp: ring_ok_def)

section \<open>Consuming\<close>

lemma content_Cons: "buffers s = c # cs \<Longrightarrow> content s = QRingChunk_data c @ concat (map QRingChunk_data cs)"
  by (simp add: content_def)

lemma content_snoc: "buffers s = cs @ [c] \<Longrightarrow> content s = concat (map QRingChunk_data cs) @ QRingChunk_data c"
  by (simp add: content_def)

text \<open>What is left without the first or without the last chunk is a buffer again.\<close>

lemma ring_drop_first:
  assumes "ring_ok s" "buffers s = c # cs" "s' = s\<lparr>bufferSize := bufferSize s - QRingChunk_size c, buffers := cs\<rparr>"
  shows "ring_ok s'" "content s' = drop (QRingChunk_size c) (content s)"
  using assms by (auto simp: ring_ok_def content_def)

lemma ring_drop_last:
  assumes "ring_ok s" "buffers s = cs @ [c]" "s' = s\<lparr>bufferSize := bufferSize s - QRingChunk_size c, buffers := cs\<rparr>"
  shows "ring_ok s'" "content s' = take (bufferSize s - QRingChunk_size c) (content s)"
  using assms by (auto simp: ring_ok_def content_def)

lemma ring_free_refines:
  "ring_ok s \<Longrightarrow> n \<le> bufferSize s \<Longrightarrow> ring_ok (ring_free n s) \<and> content (ring_free n s) = drop n (content s)"
proof (induction n s rule: ring_free.induct)
  case (1 n s)
  show ?case
  proof (cases "n = 0 \<or> buffers s = []")
    case True
    then show ?thesis using 1(2,3) by (subst (1 2) ring_free.simps) (auto simp: content_def split: list.splits)
  next
    case False
    then obtain c cs where s: "buffers s = c # cs" by (cases "buffers s") auto
    have n: "n > 0" "bufferSize s \<noteq> 0" using False 1(3) by auto
    have ok: "chunk_ok c" "\<forall>c \<in> set (buffers s). QRingChunk_size c > 0 \<and> chunk_ok c"
      and len: "bufferSize s = length (content s)"
      using 1(2) s n ring_nonempty [OF 1(2)] by (auto simp: ring_ok_def)
    show ?thesis
    proof (cases "cs = [] \<or> QRingChunk_size c > n")
      case here: True
      show ?thesis
      proof (cases "bufferSize s = n")
        case all: True
        then have "cs = []" using here len s ok by (auto simp: content_Cons)
        then show ?thesis
          using all s n len here clear_content [OF 1(2)]
          by (subst (1 2) ring_free.simps) (auto simp: ring_ok_def content_def)
      next
        case part: False
        have le: "n < QRingChunk_size c" using here part len s ok 1(3) by (auto simp: content_Cons)
        then have "ring_free n s = s\<lparr>buffers := QRingChunk_advance (int n) c # cs, bufferSize := bufferSize s - n\<rparr>"
          using here part s n by (subst ring_free.simps) simp
        then show ?thesis
          using s n len le ok chunk_advance [OF ok(1), of n]
          by (fastforce intro!: ring_ok_build simp: content_def)
      qed
    next
      case rest: False
      let ?s = "s\<lparr>bufferSize := bufferSize s - QRingChunk_size c, buffers := cs\<rparr>"
      have "ring_free n s = ring_free (n - QRingChunk_size c) ?s"
        using rest s n by (subst ring_free.simps) simp
      moreover have "ring_ok ?s" "content ?s = drop (QRingChunk_size c) (content s)"
        using ring_drop_first [OF 1(2) s refl] by auto
      ultimately show ?thesis
        using 1(1) [OF n(1) s rest] 1(3) rest by simp
    qed
  qed
qed

lemma ring_chop_refines:
  "ring_ok s \<Longrightarrow> n \<le> bufferSize s
    \<Longrightarrow> ring_ok (ring_chop n s) \<and> content (ring_chop n s) = take (bufferSize s - n) (content s)"
proof (induction n s rule: ring_chop.induct)
  case (1 n s)
  show ?case
  proof (cases "n = 0 \<or> buffers s = []")
    case True
    then show ?thesis using 1(2,3) by (subst (1 2) ring_chop.simps) (auto simp: ring_ok_def content_def)
  next
    case False
    then obtain c cs where s: "buffers s = cs @ [c]" by (metis append_butlast_last_id)
    have n: "n > 0 \<and> buffers s \<noteq> []" "bufferSize s \<noteq> 0" using False 1(3) by auto
    have ok: "chunk_ok c" "\<forall>c \<in> set (buffers s). QRingChunk_size c > 0 \<and> chunk_ok c"
      and len: "bufferSize s = length (content s)"
      using 1(2) s n ring_nonempty [OF 1(2)] by (auto simp: ring_ok_def)
    have one: "length (buffers s) = 1 \<longleftrightarrow> cs = []" using s by simp
    show ?thesis
    proof (cases "cs = [] \<or> QRingChunk_size c > n")
      case here: True
      show ?thesis
      proof (cases "bufferSize s = n")
        case all: True
        then have "cs = []" using here len s ok by (auto simp: content_snoc)
        then show ?thesis
          using all s n len here clear_content [OF 1(2)]
          by (subst (1 2) ring_chop.simps) (auto simp: ring_ok_def content_def)
      next
        case part: False
        have le: "n < QRingChunk_size c" using here part len s ok 1(3) by (auto simp: content_snoc)
        then have "ring_chop n s = s\<lparr>buffers := cs @ [QRingChunk_grow (- int n) c], bufferSize := bufferSize s - n\<rparr>"
          using here part s n by (subst ring_chop.simps) simp
        then show ?thesis
          using s n len le ok chunk_shrink [OF ok(1), of n]
          by (fastforce intro!: ring_ok_build simp: content_def)
      qed
    next
      case rest: False
      let ?s = "s\<lparr>bufferSize := bufferSize s - QRingChunk_size c, buffers := cs\<rparr>"
      have "ring_chop n s = ring_chop (n - QRingChunk_size c) ?s"
        using rest s n by (subst ring_chop.simps) simp
      moreover have "ring_ok ?s" "content ?s = take (bufferSize s - QRingChunk_size c) (content s)"
        using ring_drop_last [OF 1(2) s refl] by auto
      moreover have "\<not> (length (buffers s) = 1 \<or> QRingChunk_size c > n)" "last (buffers s) = c" "butlast (buffers s) = cs"
        using rest s by auto
      ultimately show ?thesis
        using 1(1) [OF n(1)] 1(3) rest len by (auto simp: min_def)
    qed
  qed
qed

section \<open>Producing\<close>

lemma map_last_snoc [simp]: "map_last f (xs @ [x]) = xs @ [f x]" "map_last f [x] = [f x]"
  by (simp_all add: map_last_def)

lemma map_first_Cons [simp]: "map_first f (x # xs) = f x # xs"
  by (simp add: map_first_def)

text \<open>\<open>reserve\<close> picks a chunk at the end with room for the bytes and without another owner.\<close>

lemma ring_reserve_chunk:
  assumes ok: "ring_ok s" and n: "n > 0"
  obtains xs c where "ring_reserve n s =
      (QRingChunk_size c, s\<lparr>buffers := xs @ [QRingChunk_writable (QRingChunk_grow (int n) c)], bufferSize := bufferSize s + n\<rparr>)"
    "chunk_ok c" "n \<le> QRingChunk_available c" "\<not> isShared c"
    "content s = concat (map QRingChunk_data xs) @ QRingChunk_data c" "\<forall>x \<in> set xs. chunk_ok x \<and> QRingChunk_data x \<noteq> []"
proof (cases "bufferSize s = 0")
  case empty: True
  show ?thesis
  proof (cases "buffers s = []")
    case True
    then show ?thesis
      using empty n by (intro that [of "QRingChunk_alloc (max (basicBlockSize s) n)" "[]"])
        (auto simp: ring_reserve_def chunk_fresh content_def Let_def)
  next
    case False
    then obtain c where c: "buffers s = [c]" "chunk_ok c" "tailOffset c = 0" using ring_empty [OF ok empty] by blast
    have "max (basicBlockSize s) n \<le> QRingChunk_available (QRingChunk_allocate (max (basicBlockSize s) n) c)"
      using chunk_allocate [OF c(2,3)] by blast
    then show ?thesis
      using empty c n chunk_allocate [OF c(2,3), of "max (basicBlockSize s) n"]
      by (intro that [of "QRingChunk_allocate (max (basicBlockSize s) n) c" "[]"])
        (auto simp: ring_reserve_def content_def Let_def)
  qed
next
  case nonempty: False
  obtain xs c where s: "buffers s = xs @ [c]"
    using ring_nonempty(1) [OF ok nonempty] by (metis append_butlast_last_id)
  have all: "\<forall>x \<in> set (buffers s). chunk_ok x \<and> QRingChunk_data x \<noteq> []"
    using ring_nonempty [OF ok nonempty] ok by (auto simp: ring_ok_def)
  show ?thesis
  proof (cases "basicBlockSize s = 0 \<or> isShared c \<or> n > QRingChunk_available c")
    case True
    then show ?thesis
      using nonempty s all n
      by (intro that [of "QRingChunk_alloc (max (basicBlockSize s) n)" "buffers s"])
        (auto simp: ring_reserve_def chunk_fresh content_def Let_def map_last_def butlast_append)
  next
    case False
    then show ?thesis
      using nonempty s all n by (intro that [of c xs]) (auto simp: ring_reserve_def content_def Let_def)
  qed
qed

lemma reserve_fill:
  assumes "ring_ok s" "bs \<noteq> []" "ring_reserve (length bs) s = (tail, s')"
    "t = s'\<lparr>buffers := map_last (QRingChunk_poke tail bs) (buffers s')\<rparr>"
  shows "ring_ok t \<and> content t = content s @ bs"
proof -
  have n: "length bs > 0" using assms by simp
  obtain xs c where r: "ring_reserve (length bs) s =
      (QRingChunk_size c, s\<lparr>buffers := xs @ [QRingChunk_writable (QRingChunk_grow (int (length bs)) c)], bufferSize := bufferSize s + length bs\<rparr>)"
    and c: "chunk_ok c" "length bs \<le> QRingChunk_available c" "\<not> isShared c"
    and xs: "content s = concat (map QRingChunk_data xs) @ QRingChunk_data c" "\<forall>x \<in> set xs. chunk_ok x \<and> QRingChunk_data x \<noteq> []"
    by (rule ring_reserve_chunk [OF assms(1) n])
  define d where "d = QRingChunk_poke (QRingChunk_size c) bs (QRingChunk_writable (QRingChunk_grow (int (length bs)) c))"
  have d: "chunk_ok d" "QRingChunk_data d = QRingChunk_data c @ bs"
    using chunk_fill_back [OF c assms(2)] by (auto simp: d_def Let_def)
  have t: "buffers t = xs @ [d]" "bufferSize t = bufferSize s + length bs"
    using assms(3,4) r by (auto simp: d_def)
  have ct: "content t = content s @ bs" using t d xs by (simp add: content_def)
  have "ring_ok t"
  proof (rule ring_ok_build)
    show "\<forall>c \<in> set (buffers t). chunk_ok c \<and> QRingChunk_data c \<noteq> []"
      using t(1) xs(2) d assms(2) by auto
    show "bufferSize t = length (content t)" using t(2) ct assms(1) by (simp add: ring_ok_def)
  qed
  then show ?thesis using ct by blast
qed

lemma ring_append_refines: "ring_ok s \<Longrightarrow> ring_ok (ring_append bs s) \<and> content (ring_append bs s) = content s @ bs"
  using reserve_fill [of s bs] by (auto simp: ring_append_def split: prod.splits)

lemma ring_putChar_refines: "ring_ok s \<Longrightarrow> ring_ok (ring_putChar b s) \<and> content (ring_putChar b s) = content s @ [b]"
  using reserve_fill [of s "[b]"] by (auto simp: ring_putChar_def split: prod.splits)

lemma ring_appendArray_content:
  assumes "ring_ok s"
  shows "content (ring_appendArray qba sh s) = content s @ qba"
proof (cases "bufferSize s \<noteq> 0 \<or> buffers s = []")
  case False
  then obtain c where "buffers s = [c]" "tailOffset c = 0" using ring_empty [OF assms] by auto
  then show ?thesis using False assms by (simp add: ring_appendArray_def content_def ring_ok_def)
qed (simp add: ring_appendArray_def content_def)

lemma ring_appendArray_ok:
  assumes ok: "ring_ok s" and "qba \<noteq> [] \<or> bufferSize s = 0"
  shows "ring_ok (ring_appendArray qba sh s)"
proof (cases "qba = []")
  case True
  then have "bufferSize s = 0" using assms by simp
  moreover have "tailOffset (QRingChunk_of [] sh) = 0" by (simp add: QRingChunk_of_def)
  moreover have "content s = []" using calculation ok by (simp add: ring_ok_def)
  moreover have "buffers (ring_appendArray qba sh s) = [QRingChunk_of [] sh]"
  proof (cases "buffers s = []")
    case False
    then obtain c where "buffers s = [c]" using ring_empty [OF ok calculation(1)] by blast
    then show ?thesis using True calculation(1) by (simp add: ring_appendArray_def)
  qed (simp add: True ring_appendArray_def)
  moreover have "bufferSize (ring_appendArray qba sh s) = 0"
    using True calculation(1) by (simp add: ring_appendArray_def)
  ultimately show ?thesis
    using True ring_appendArray_content [OF ok] by (simp add: ring_ok_def)
next
  case False
  let ?t = "ring_appendArray qba sh s"
  have "bufferSize ?t = bufferSize s + length qba" by (simp add: ring_appendArray_def)
  then have "bufferSize ?t = length (content ?t)"
    using ok by (simp add: ring_appendArray_content [OF ok] ring_ok_def)
  moreover have "\<forall>c \<in> set (buffers ?t). chunk_ok c \<and> QRingChunk_data c \<noteq> []"
  proof (cases "bufferSize s \<noteq> 0 \<or> buffers s = []")
    case True
    then show ?thesis
      using False ok ring_nonempty [OF ok] by (auto simp: ring_appendArray_def ring_ok_def)
  next
    case empty: False
    then obtain c where "buffers s = [c]" using ring_empty [OF ok] by auto
    then show ?thesis using empty False by (auto simp: ring_appendArray_def)
  qed
  ultimately show ?thesis by (intro ring_ok_build)
qed

lemma reserveFront_fill:
  assumes ok: "ring_ok s" and bs: "bs \<noteq> []"
    and t: "t = (ring_reserveFront (length bs) s)\<lparr>buffers := map_first (QRingChunk_poke 0 bs) (buffers (ring_reserveFront (length bs) s))\<rparr>"
  shows "ring_ok t \<and> content t = bs @ content s"
proof -
  define k where "k = max (basicBlockSize s) (length bs)"
  define fresh where "fresh = (\<lambda>c. QRingChunk_poke 0 bs (QRingChunk_writable
    (QRingChunk_advance (int k - int (length bs)) (QRingChunk_grow (int k) c))))"
  define near where "near = (\<lambda>c. QRingChunk_poke 0 bs (QRingChunk_writable (QRingChunk_advance (- int (length bs)) c)))"
  note front = ring_reserveFront_def Let_def fresh_def near_def k_def
  have fresh: "chunk_ok (fresh c) \<and> QRingChunk_data (fresh c) = bs"
    if "chunk_ok c" "tailOffset c = 0" "k \<le> QRingChunk_available c" "\<not> isShared c" for c
    using chunk_open_front [OF that, of bs] unfolding fresh_def Let_def by (simp add: k_def)
  have size: "bufferSize t = bufferSize s + length bs" using t by (simp add: ring_reserveFront_def Let_def)
  have all: "\<forall>x \<in> set (buffers s). chunk_ok x \<and> QRingChunk_data x \<noteq> []" if "bufferSize s \<noteq> 0"
    using ring_nonempty [OF ok that] ok by (auto simp: ring_ok_def)
  have "\<exists>d cs. buffers t = d # cs \<and> chunk_ok d \<and> QRingChunk_data d \<noteq> [] \<and> QRingChunk_data d @ concat (map QRingChunk_data cs) = bs @ content s
    \<and> (\<forall>x \<in> set cs. chunk_ok x \<and> QRingChunk_data x \<noteq> [])"
  proof (cases "bufferSize s = 0")
    case empty: True
    then have c0: "content s = []" using ok by (simp add: ring_ok_def)
    have "\<exists>c. buffers t = [fresh c] \<and> chunk_ok c \<and> tailOffset c = 0 \<and> k \<le> QRingChunk_available c \<and> \<not> isShared c"
    proof (cases "buffers s = []")
      case True
      then have "buffers t = [fresh (QRingChunk_alloc k)]" using t empty by (simp add: front)
      then show ?thesis using chunk_fresh [of k] by (intro exI [of _ "QRingChunk_alloc k"]) simp
    next
      case False
      then obtain c where c: "buffers s = [c]" "chunk_ok c" "tailOffset c = 0" using ring_empty [OF ok empty] by blast
      then have "buffers t = [fresh (QRingChunk_allocate k c)]" using t empty by (simp add: front)
      then show ?thesis using chunk_allocate [OF c(2,3)] by blast
    qed
    then show ?thesis using fresh c0 bs by (auto simp del: data_Nil_iff)
  next
    case nonempty: False
    then obtain c cs where s: "buffers s = c # cs" using ring_nonempty(1) [OF ok] by (cases "buffers s") auto
    show ?thesis
    proof (cases "basicBlockSize s = 0 \<or> isShared c \<or> length bs > headOffset c")
      case True
      then have "buffers t = fresh (QRingChunk_alloc k) # buffers s" using t s nonempty by (auto simp: front)
      then show ?thesis using fresh [of "QRingChunk_alloc k"] chunk_fresh [of k] all [OF nonempty] bs by (simp add: content_def del: data_Nil_iff)
    next
      case False
      then have "buffers t = near c # cs" using t s nonempty by (simp add: front)
      moreover have "chunk_ok (near c) \<and> QRingChunk_data (near c) = bs @ QRingChunk_data c"
        using chunk_fill_front [of c bs] False all [OF nonempty] s by (simp add: near_def Let_def)
      ultimately show ?thesis using all [OF nonempty] s bs by (simp add: content_def del: data_Nil_iff)
    qed
  qed
  then obtain d cs where d: "buffers t = d # cs" "chunk_ok d" "QRingChunk_data d \<noteq> []"
    "QRingChunk_data d @ concat (map QRingChunk_data cs) = bs @ content s" "\<forall>x \<in> set cs. chunk_ok x \<and> QRingChunk_data x \<noteq> []"
    by blast
  have ct: "content t = bs @ content s" using d by (simp add: content_def)
  moreover have "bufferSize t = length (content t)" using size ct ok by (simp add: ring_ok_def)
  ultimately show ?thesis using d by (auto intro!: ring_ok_build simp del: data_Nil_iff)
qed

lemma ring_ungetChar_refines: "ring_ok s \<Longrightarrow> ring_ok (ring_ungetChar b s) \<and> content (ring_ungetChar b s) = b # content s"
  using reserveFront_fill [of s "[b]"] by (simp add: ring_ungetChar_def Let_def)

end
