(* ===== verification/QRingBufferQueries.thy ===== *)
theory QRingBufferQueries
  imports QRingBufferRefine "HOL-Library.Sublist"
begin

text \<open>
  Reading and searching the ring buffer, refined to lists: the loops over the chunks compute
  \<open>take\<close>, \<open>drop\<close> and \<open>takeWhile\<close> on the content.
\<close>

section \<open>Reading\<close>

lemma ring_head:
  assumes "ring_ok s" "bufferSize s \<noteq> 0"
  obtains p where "ring_readPointer s = Some p" "length p = ring_nextDataBlockSize s" "p \<noteq> []" "prefix p (content s)"
proof -
  obtain c cs where "buffers s = c # cs" using ring_nonempty(1) [OF assms] by (cases "buffers s") auto
  moreover have "chunk_ok c" "QRingChunk_size c > 0"
    using ring_nonempty [OF assms] assms(1) calculation by (auto simp: ring_ok_def)
  ultimately show ?thesis
    using assms that [of "QRingChunk_data c"]
    by (auto simp: ring_readPointer_def ring_nextDataBlockSize_def content_def)
qed

lemma read_loop_refines:
  assumes "ring_ok s" "length data \<le> n" "n - length data \<le> bufferSize s"
  shows "\<exists>s'. read_loop n data s = Some (data @ take (n - length data) (content s), s')
    \<and> ring_ok s' \<and> content s' = drop (n - length data) (content s)"
  using assms
proof (induction "n - length data" arbitrary: data s rule: less_induct)
  case less
  show ?case
  proof (cases "length data < n")
    case False
    then show ?thesis using less.prems by (subst read_loop.simps) auto
  next
    case True
    then have ne: "bufferSize s \<noteq> 0" using less.prems by linarith
    obtain p where p: "ring_readPointer s = Some p" "length p = ring_nextDataBlockSize s" "p \<noteq> []" "prefix p (content s)"
      using ring_head [OF less.prems(1) ne] .
    obtain rest where rest: "content s = p @ rest" using p(4) by (auto simp: prefix_def)
    define k where "k = min (n - length data) (length p)"
    have len: "bufferSize s = length (content s)" using less.prems(1) by (simp add: ring_ok_def)
    have k: "k \<le> bufferSize s" "k > 0" "k \<le> n - length data" using True p(3) len rest by (auto simp: k_def)
    have free: "ring_ok (ring_free k s)" "content (ring_free k s) = drop k (content s)"
      using ring_free_refines [OF less.prems(1) k(1)] by auto
    have size: "bufferSize (ring_free k s) = bufferSize s - k" using free len by (simp add: ring_ok_def)
    have tk: "take k p = take k (content s)" using rest by (simp add: k_def)
    define data' where "data' = data @ take k (content s)"
    have l': "length data' = length data + k" using k len by (simp add: data'_def)
    have step: "read_loop n data s = read_loop n data' (ring_free k s)"
      using True p tk by (subst read_loop.simps) (simp add: k_def data'_def Let_def)
    have bounds: "n - length data' < n - length data" "length data' \<le> n" "n - length data' \<le> bufferSize (ring_free k s)"
      using l' k True size less.prems by linarith+
    obtain s' where "read_loop n data' (ring_free k s) = Some (data' @ take (n - length data') (content (ring_free k s)), s')"
      "ring_ok s'" "content s' = drop (n - length data') (content (ring_free k s))"
      using less.hyps [of data' "ring_free k s"] bounds free(1) by blast
    moreover have "data' @ take (n - length data') (content (ring_free k s)) = data @ take (n - length data) (content s)"
      using l' k free take_add [of k "n - length data - k" "content s"] by (simp add: data'_def)
    moreover have "drop (n - length data') (content (ring_free k s)) = drop (n - length data) (content s)"
      using l' k free by simp
    ultimately show ?thesis using step by simp
  qed
qed

lemma ring_read_refines:
  assumes "ring_ok s"
  shows "\<exists>s'. ring_read n s = Some (take n (content s), s') \<and> ring_ok s' \<and> content s' = drop n (content s)"
  using read_loop_refines [OF assms, of "[]" "min (bufferSize s) n"] assms
  by (auto simp: ring_read_def ring_ok_def min_def split: if_splits)

lemma ring_readBlock_refines:
  assumes "ring_ok s" "ring_readBlock s = (bs, s')"
  shows "ring_ok s'" "content s = bs @ content s'" "bs = [] \<longleftrightarrow> content s = []"
proof -
  have "ring_ok s' \<and> content s = bs @ content s' \<and> (bs = [] \<longleftrightarrow> content s = [])"
  proof (cases "bufferSize s = 0")
    case True
    then show ?thesis using assms by (auto simp: ring_readBlock_def ring_ok_def)
  next
    case False
    obtain c cs where s: "buffers s = c # cs" using ring_nonempty(1) [OF assms(1) False] by (cases "buffers s") auto
    have c: "chunk_ok c" "QRingChunk_data c \<noteq> []"
      using ring_nonempty [OF assms(1) False] assms(1) s by (auto simp: ring_ok_def)
    then have "bs = QRingChunk_data c" "s' = s\<lparr>bufferSize := bufferSize s - QRingChunk_size c, buffers := cs\<rparr>"
      using assms(2) False s by (auto simp: ring_readBlock_def)
    then show ?thesis using ring_drop_first [OF assms(1) s] c s by (simp add: content_Cons)
  qed
  then show "ring_ok s'" "content s = bs @ content s'" "bs = [] \<longleftrightarrow> content s = []" by blast+
qed

lemma ring_getChar_refines:
  assumes "ring_ok s" "ring_getChar s = (c, s')"
  shows "ring_ok s' \<and> (case content s of [] \<Rightarrow> c = -1 \<and> s' = s | b # bs \<Rightarrow> c = uint b \<and> content s' = bs)"
proof (cases "bufferSize s = 0")
  case True
  then show ?thesis using assms by (auto simp: ring_getChar_def ring_readPointer_def ring_ok_def)
next
  case False
  then obtain p where p: "ring_readPointer s = Some p" "p \<noteq> []" "prefix p (content s)" using ring_head [OF assms(1)] by metis
  then obtain b bs where "content s = b # bs" "hd p = b" by (cases p) (auto simp: prefix_def)
  then show ?thesis using assms p False ring_free_refines [OF assms(1), of 1] by (auto simp: ring_getChar_def)
qed

section \<open>Looking ahead\<close>

lemma peek_loop_refines:
  "\<forall>c \<in> set cs. chunk_ok c \<Longrightarrow> length data \<le> n
    \<Longrightarrow> peek_loop n cs pos data = data @ take (n - length data) (drop pos (concat (map QRingChunk_data cs)))"
proof (induction n cs pos data rule: peek_loop.induct)
  case (2 n c cs pos data)
  have c: "length (QRingChunk_data c) = QRingChunk_size c" using 2(3) by simp
  show ?case
  proof (cases "length data = n \<or> \<not> pos < QRingChunk_size c")
    case True
    then show ?thesis using 2 c by auto
  next
    case False
    define k where "k = min (QRingChunk_size c - pos) (n - length data)"
    have l: "length (data @ take k (drop pos (QRingChunk_data c))) = length data + k" using c by (simp add: k_def)
    have "peek_loop n (c # cs) pos data = peek_loop n cs 0 (data @ take k (drop pos (QRingChunk_data c)))"
      using False by (simp add: k_def Let_def)
    also have "\<dots> = (data @ take k (drop pos (QRingChunk_data c))) @ take (n - (length data + k)) (concat (map QRingChunk_data cs))"
      using 2(1) [of k] 2(3,4) False l by (simp add: k_def)
    also have "\<dots> = data @ take (n - length data) (drop pos (QRingChunk_data c) @ concat (map QRingChunk_data cs))"
      using c by (auto simp: k_def min_def)
    finally show ?thesis using c False by simp
  qed
qed simp

lemma ring_peek_refines: "ring_ok s \<Longrightarrow> ring_peek n pos s = take n (drop pos (content s))"
  using peek_loop_refines [of "buffers s" "[]" n pos] by (simp add: ring_peek_def content_def ring_ok_def)

lemma readPointerAtPosition_loop_refines:
  "\<forall>c \<in> set cs. chunk_ok c \<Longrightarrow> (case readPointerAtPosition_loop pos cs of
      None \<Rightarrow> length (concat (map QRingChunk_data cs)) \<le> pos
    | Some p \<Rightarrow> p \<noteq> [] \<and> prefix p (drop pos (concat (map QRingChunk_data cs))))"
proof (induction pos cs rule: readPointerAtPosition_loop.induct)
  case (2 pos c cs)
  have c: "length (QRingChunk_data c) = QRingChunk_size c" using 2(2) by simp
  show ?case
  proof (cases "QRingChunk_size c > pos")
    case True
    then show ?thesis using c by simp
  next
    case False
    then show ?thesis using 2 c by (auto split: option.splits)
  qed
qed simp

lemma memchr_refines:
  "memchr xs c n = (if c \<in> set (take n xs) then Some (length (takeWhile (\<lambda>x. x \<noteq> c) (take n xs))) else None)"
  by (induction xs c n rule: memchr.induct) auto

text \<open>The first position of a byte in a window of a string.\<close>

definition find_byte :: "8 word \<Rightarrow> bytes \<Rightarrow> int \<Rightarrow> int" where
  "find_byte c w from_pos = (if c \<in> set w then int (length (takeWhile (\<lambda>x. x \<noteq> c) w)) + from_pos else -1)"

lemma find_byte_append:
  "find_byte c (xs @ ys) i = (if c \<in> set xs then find_byte c xs i else find_byte c ys (i + int (length xs)))"
proof (cases "c \<in> set xs")
  case True
  then show ?thesis by (simp add: find_byte_def)
next
  case False
  then have "takeWhile (\<lambda>x. x \<noteq> c) (xs @ ys) = xs @ takeWhile (\<lambda>x. x \<noteq> c) ys" by (auto simp: takeWhile_append)
  then show ?thesis using False by (simp add: find_byte_def)
qed

lemma indexOf_loop_refines:
  "\<forall>c \<in> set cs. chunk_ok c \<Longrightarrow> 0 < M \<Longrightarrow> index < M
    \<Longrightarrow> indexOf_loop c M pos cs index
      = find_byte c (take (nat (M - max 0 index)) (drop (nat (- index)) (concat (map QRingChunk_data cs)))) (max 0 index + pos)"
proof (induction cs arbitrary: index)
  case (Cons k cs)
  let ?d = "QRingChunk_data k" and ?rest = "concat (map QRingChunk_data cs)"
  define nxt where "nxt = min (index + int (QRingChunk_size k)) M"
  have d: "length ?d = QRingChunk_size k" using Cons.prems by simp
  show ?case
  proof (cases "nxt > 0")
    case False
    then have nxt: "nxt = index + int (QRingChunk_size k)" "index \<le> 0" using Cons.prems by (auto simp: nxt_def)
    then have "nat (- index) = QRingChunk_size k + nat (- nxt)" using False by linarith
    then have "drop (nat (- index)) (?d @ ?rest) = drop (nat (- nxt)) ?rest" using d by simp
    moreover have "indexOf_loop c M pos (k # cs) index = indexOf_loop c M pos cs nxt"
      using False unfolding indexOf_loop.simps nxt_def [symmetric] Let_def by simp
    moreover have "nxt < M" using False Cons.prems by linarith
    moreover have "max 0 index = 0" "max 0 nxt = 0" using nxt False by linarith+
    ultimately show ?thesis using Cons.IH [of nxt] Cons.prems by (simp del: indexOf_loop.simps)
  next
    case pos: True
    define i where "i = max 0 index"
    define w where "w = drop (nat (- index)) ?d"
    have w: "int (length w) = index + int (QRingChunk_size k) - i" using pos d by (auto simp: w_def i_def nxt_def)
    have split: "drop (nat (- index)) (?d @ ?rest) = w @ ?rest" using pos d by (auto simp: w_def nxt_def)
    have body: "indexOf_loop c M pos (k # cs) index =
      (case memchr w c (nat (nxt - i)) of Some j \<Rightarrow> int j + i + pos
       | None \<Rightarrow> if nxt = M then -1 else indexOf_loop c M pos cs nxt)"
      using pos unfolding indexOf_loop.simps nxt_def [symmetric] Let_def by (auto simp: i_def w_def split: option.splits)
    show ?thesis
    proof (cases "nxt = M")
      case True
      then have "nat (M - i) \<le> length w" using w by (auto simp: nxt_def)
      then show ?thesis using body True split by (simp add: memchr_refines find_byte_def i_def)
    next
      case False
      then have nxt: "nxt = index + int (QRingChunk_size k)" "nxt < M" by (auto simp: nxt_def)
      then have nw: "nat (nxt - i) = length w" "nat (M - i) - length w = nat (M - nxt)" "i + int (length w) = nxt" using w by auto
      have rec: "indexOf_loop c M pos cs nxt = find_byte c (take (nat (M - nxt)) ?rest) (nxt + pos)"
        using Cons.IH [of nxt] Cons.prems pos nxt(2) by (simp del: indexOf_loop.simps)
      have at_nxt: "i + pos + int (length w) = nxt + pos" using nw(3) by linarith
      have "indexOf_loop c M pos (k # cs) index = find_byte c (w @ take (nat (M - nxt)) ?rest) (i + pos)"
        unfolding find_byte_append at_nxt body nw(1) memchr_refines rec [symmetric] using False by (simp add: find_byte_def)
      moreover have "length w \<le> nat (M - i)" using w nxt by linarith
      ultimately show ?thesis using split nw by (simp add: i_def)
    qed
  qed
qed (simp add: find_byte_def)

lemma ring_indexOf_refines:
  assumes "ring_ok s"
  shows "ring_indexOf c (int n) (int pos) s = find_byte c (take n (drop pos (content s))) (int pos)"
proof (cases "n = 0")
  case False
  then show ?thesis
    using indexOf_loop_refines [of "buffers s" "int n" "- int pos" c "int pos"] assms
    by (simp add: ring_indexOf_def content_def ring_ok_def)
qed (simp add: ring_indexOf_def find_byte_def)

text \<open>The bytes up to and with the first newline of a window, or the whole window.\<close>

definition line_of :: "bytes \<Rightarrow> bytes" where
  "line_of w = (if 10 \<in> set w then takeWhile (\<lambda>x. x \<noteq> 10) w @ [10] else w)"

lemma line_of_take:
  "line_of (take m xs) = take (if find_byte 10 (take m xs) 0 \<ge> 0 then nat (find_byte 10 (take m xs) 0 + 1) else m) xs"
proof (cases "10 \<in> set (take m xs)")
  case True
  define w where "w = take m xs"
  define k where "k = length (takeWhile (\<lambda>x. x \<noteq> 10) w)"
  have w10: "10 \<in> set w" using True by (simp add: w_def)
  then have k: "k < length w" unfolding k_def
    by (metis (mono_tags, lifting) length_takeWhile_le le_neq_implies_less set_takeWhileD takeWhile_eq_take take_all_iff order_refl)
  have "w ! k = 10" using nth_length_takeWhile [of "\<lambda>x. x \<noteq> 10" w] k by (simp add: k_def)
  then have "line_of w = take (Suc k) w"
    using w10 k takeWhile_eq_take [of "\<lambda>x. x \<noteq> 10" w] by (simp add: line_of_def k_def take_Suc_conv_app_nth)
  also have "\<dots> = take (Suc k) xs" using k by (auto simp: w_def min_def split: if_splits)
  finally show ?thesis using w10 by (simp add: w_def find_byte_def k_def nat_add_distrib)
next
  case False
  then show ?thesis by (simp add: line_of_def find_byte_def)
qed

lemma ring_readLine_refines:
  assumes "ring_ok s"
  shows "\<exists>s'. ring_readLine n s = Some (line_of (take (n - 1) (content s)), s')
    \<and> ring_ok s' \<and> content s = line_of (take (n - 1) (content s)) @ content s'"
proof -
  let ?k = "if find_byte 10 (take (n - 1) (content s)) 0 \<ge> 0 then nat (find_byte 10 (take (n - 1) (content s)) 0 + 1) else n - 1"
  have "ring_readLine n s = ring_read ?k s"
    using ring_indexOf_refines [OF assms, of 10 "n - 1" 0] by (simp add: ring_readLine_def Let_def)
  moreover obtain s' where "ring_read ?k s = Some (take ?k (content s), s')" "ring_ok s'" "content s' = drop ?k (content s)"
    using ring_read_refines [OF assms, of ?k] by blast
  ultimately show ?thesis unfolding line_of_take by (metis append_take_drop_id)
qed

lemma ring_canReadLine_refines: "ring_ok s \<Longrightarrow> ring_canReadLine s \<longleftrightarrow> 10 \<in> set (content s)"
  using ring_indexOf_refines [of s 10 "bufferSize s" 0] by (auto simp: ring_canReadLine_def find_byte_def ring_ok_def)

end
