(* ===== verification/QRingBufferProps.thy ===== *)
theory QRingBufferProps
  imports QRingBufferQueries
begin

text \<open>
  A byte queue loses, duplicates and reorders nothing, whatever operations are interleaved: the
  contract is a locale, its instance the ring buffer. Then the properties of the component, and
  an input on which a read does not return.
\<close>

section \<open>The contract of a queue\<close>

fun run_ops :: "('op \<Rightarrow> 's \<Rightarrow> ('a list \<times> 's) option) \<Rightarrow> 'op list \<Rightarrow> 's \<Rightarrow> ('a list \<times> 's) option" where
  "run_ops step [] s = Some ([], s)"
| "run_ops step (op # ops) s =
     (case step op s of
        None \<Rightarrow> None
      | Some (out, s') \<Rightarrow> map_option (\<lambda>(rest, s''). (out @ rest, s'')) (run_ops step ops s'))"

locale byte_queue =
  fixes valid :: "'s \<Rightarrow> bool"
    and view :: "'s \<Rightarrow> 'a list"
    and step :: "'op \<Rightarrow> 's \<Rightarrow> ('a list \<times> 's) option"
    and input :: "'op \<Rightarrow> 'a list"
    and admissible :: "'op \<Rightarrow> bool"
  assumes step_law: "\<lbrakk>valid s; admissible op\<rbrakk>
    \<Longrightarrow> \<exists>out s'. step op s = Some (out, s') \<and> valid s' \<and> view s @ input op = out @ view s'"
begin

lemma run_law:
  "\<lbrakk>valid s; \<forall>op \<in> set ops. admissible op\<rbrakk>
    \<Longrightarrow> \<exists>out s'. run_ops step ops s = Some (out, s') \<and> valid s' \<and> view s @ concat (map input ops) = out @ view s'"
proof (induction ops arbitrary: s)
  case (Cons op ops)
  obtain o1 s1 where s1: "step op s = Some (o1, s1)" "valid s1" "view s @ input op = o1 @ view s1"
    using step_law [of s op] Cons.prems by auto
  obtain o2 s2 where "run_ops step ops s1 = Some (o2, s2)" "valid s2" "view s1 @ concat (map input ops) = o2 @ view s2"
    using Cons.IH [OF s1(2)] Cons.prems by auto
  then show ?case using s1 by (metis (no_types, lifting) append.assoc concat.simps(2) list.map(2) option.case(2) option.map(2) prod.case run_ops.simps(2))
qed simp

text \<open>What was put in so far comes out first.\<close>

corollary output_is_prefix:
  assumes "valid s" "\<forall>op \<in> set ops. admissible op" "run_ops step ops s = Some (out, s')"
  shows "out = take (length out) (view s @ concat (map input ops))"
  using run_law [OF assms(1,2)] assms(3) by auto

end

section \<open>The ring buffer is one\<close>

datatype RingOp = Append bytes | AppendArray bytes bool | PutChar "8 word" | SetChunkSize nat
  | Read nat | ReadLine nat | ReadBlock | GetChar

fun ring_step :: "RingOp \<Rightarrow> QRingBuffer \<Rightarrow> (bytes \<times> QRingBuffer) option" where
  "ring_step (Append bs) s = Some ([], ring_append bs s)"
| "ring_step (AppendArray qba sh) s = Some ([], ring_appendArray qba sh s)"
| "ring_step (PutChar c) s = Some ([], ring_putChar c s)"
| "ring_step (SetChunkSize n) s = Some ([], ring_setChunkSize n s)"
| "ring_step (Read n) s = ring_read n s"
| "ring_step (ReadLine n) s = ring_readLine n s"
| "ring_step ReadBlock s = Some (ring_readBlock s)"
| "ring_step GetChar s = (case ring_getChar s of (c, s') \<Rightarrow> Some (if c < 0 then [] else [word_of_int c], s'))"

fun ring_input :: "RingOp \<Rightarrow> bytes" where
  "ring_input (Append bs) = bs"
| "ring_input (AppendArray qba sh) = qba"
| "ring_input (PutChar c) = [c]"
| "ring_input _ = []"

definition ring_admissible :: "RingOp \<Rightarrow> bool" where
  "ring_admissible op \<longleftrightarrow> (case op of AppendArray qba sh \<Rightarrow> qba \<noteq> [] | _ \<Rightarrow> True)"

lemma ring_step_law:
  assumes "ring_ok s" "ring_admissible op"
  shows "\<exists>out s'. ring_step op s = Some (out, s') \<and> ring_ok s' \<and> content s @ ring_input op = out @ content s'"
proof (cases op)
  case (Append bs)
  then show ?thesis using ring_append_refines [OF assms(1)] by simp
next
  case (AppendArray qba sh)
  then show ?thesis
    using assms ring_appendArray_ok [OF assms(1)] ring_appendArray_content [OF assms(1)] by (simp add: ring_admissible_def)
next
  case (PutChar c)
  then show ?thesis using ring_putChar_refines [OF assms(1)] by simp
next
  case (Read n)
  then show ?thesis using ring_read_refines [OF assms(1), of n] by (auto simp: append_take_drop_id)
next
  case (ReadLine n)
  then show ?thesis using ring_readLine_refines [OF assms(1), of n] by auto
next
  case ReadBlock
  obtain b s' where "ring_readBlock s = (b, s')" by fastforce
  then show ?thesis using ReadBlock ring_readBlock_refines [OF assms(1)] by auto
next
  case GetChar
  obtain c s' where "ring_getChar s = (c, s')" by fastforce
  then show ?thesis using GetChar ring_getChar_refines [OF assms(1)] by (auto split: list.splits)
qed (use assms in simp)

interpretation ring_queue: byte_queue ring_ok content ring_step ring_input ring_admissible
  by unfold_locales (rule ring_step_law)

section \<open>Properties\<close>

text \<open>C3: A ring buffer of any chunk size, used through any sequence of appends and reads in which no
  empty byte array is appended, returns from every operation, and the bytes read followed by the
  bytes left are exactly the bytes written, in their order.\<close>

theorem ring_is_fifo:
  assumes "\<forall>op \<in> set ops. ring_admissible op"
  shows "\<exists>out s. run_ops ring_step ops (QRingBuffer_new growth) = Some (out, s) \<and> ring_ok s
    \<and> concat (map ring_input ops) = out @ content s"
  using ring_queue.run_law [of "QRingBuffer_new growth" ops] assms by simp

theorem ring_is_fifo_witness:
  "\<exists>out s. run_ops ring_step [Append [1, 2, 3], GetChar, AppendArray [4, 10] True, ReadLine 16] (QRingBuffer_new 2) = Some (out, s)
    \<and> ring_ok s \<and> [1, 2, 3, 4, 10] = out @ content s"
  using ring_is_fifo [of "[Append [1, 2, 3], GetChar, AppendArray [4, 10] True, ReadLine 16]" 2]
  by (simp add: ring_admissible_def)

text \<open>C20: \<open>read\<close> returns for every length, with the bytes \<open>peek\<close> shows and no others, and removes
  just these.\<close>

theorem ring_read_after_peek:
  assumes "ring_ok s"
  shows "\<exists>s'. ring_read n s = Some (ring_peek n 0 s, s') \<and> ring_ok s' \<and> content s' = drop n (content s)
    \<and> bufferSize s' = bufferSize s - n"
  using ring_read_refines [OF assms, of n] ring_peek_refines [OF assms, of n 0] assms by (auto simp: ring_ok_def)

theorem ring_read_after_peek_witness:
  "\<exists>s'. ring_read 2 (ring_append [1, 2, 3] (QRingBuffer_new 4)) = Some (ring_peek 2 0 (ring_append [1, 2, 3] (QRingBuffer_new 4)), s')
    \<and> ring_ok s' \<and> content s' = drop 2 (content (ring_append [1, 2, 3] (QRingBuffer_new 4)))
    \<and> bufferSize s' = bufferSize (ring_append [1, 2, 3] (QRingBuffer_new 4)) - 2"
  using ring_read_after_peek [of "ring_append [1, 2, 3] (QRingBuffer_new 4)" 2] ring_append_refines [of "QRingBuffer_new 4"]
  by simp

text \<open>C29: \<open>indexOf\<close> walks the chunks but finds the first occurrence of the byte in the window of
  \<open>maxLength\<close> bytes from \<open>pos\<close> on of the whole content, and -1 exactly when there is none; \<open>readLine\<close>
  takes the bytes up to and with the first newline, at most one less than its bound.\<close>

theorem ring_search_is_flat:
  assumes "ring_ok s"
  shows "ring_indexOf c (int n) (int pos) s = find_byte c (take n (drop pos (content s))) (int pos)
    \<and> (\<exists>s'. ring_readLine k s = Some (line_of (take (k - 1) (content s)), s')
        \<and> content s = line_of (take (k - 1) (content s)) @ content s')
    \<and> (ring_canReadLine s \<longleftrightarrow> 10 \<in> set (content s))"
  using ring_indexOf_refines [OF assms] ring_readLine_refines [OF assms, of k] ring_canReadLine_refines [OF assms] by blast

theorem ring_search_is_flat_witness:
  "\<exists>s. content s = [7, 10, 8] \<and> ring_indexOf 8 2 1 s = 2 \<and> ring_canReadLine s"
proof -
  define s where "s = ring_append [7, 10, 8] (QRingBuffer_new 4)"
  have "ring_ok s" and c: "content s = [7, 10, 8]" using ring_append_refines [of "QRingBuffer_new 4"] by (simp_all add: s_def)
  from ring_search_is_flat [OF this(1), of 8 2 1 2] c show ?thesis by (auto simp: find_byte_def)
qed

text \<open>C30: At both ends the buffer works as a list: \<open>free\<close> drops up to \<open>bufferSize\<close> bytes from the front,
  \<open>chop\<close> and \<open>truncate\<close> from the back, and \<open>bufferSize\<close> counts what is left. \<open>getChar\<close> takes the first byte,
  and is -1 and changes nothing when there is none; \<open>ungetChar\<close> of that byte restores the content,
  and a byte put back by \<open>ungetChar\<close> is the one \<open>getChar\<close> takes.\<close>

theorem ring_ends:
  assumes "ring_ok s" "n \<le> bufferSize s"
  shows "content (ring_free n s) = drop n (content s) \<and> bufferSize (ring_free n s) = bufferSize s - n
    \<and> content (ring_chop n s) = take (bufferSize s - n) (content s) \<and> bufferSize (ring_chop n s) = bufferSize s - n
    \<and> content (ring_truncate n s) = take n (content s) \<and> bufferSize (ring_truncate n s) = n
    \<and> (case content s of
         [] \<Rightarrow> ring_getChar s = (-1, s)
       | c # cs \<Rightarrow> (\<exists>s'. ring_getChar s = (uint c, s') \<and> content s' = cs \<and> content (ring_ungetChar c s') = content s))
    \<and> content (ring_ungetChar b s) = b # content s
    \<and> (\<exists>s'. ring_getChar (ring_ungetChar b s) = (uint b, s') \<and> content s' = content s)"
proof -
  note size = ring_ok_def
  have cut: "ring_ok (ring_free n s) \<and> content (ring_free n s) = drop n (content s)"
    "ring_ok (ring_chop n s) \<and> content (ring_chop n s) = take (bufferSize s - n) (content s)"
    "ring_ok (ring_truncate n s) \<and> content (ring_truncate n s) = take n (content s)"
    using ring_free_refines [OF assms] ring_chop_refines [OF assms] ring_chop_refines [OF assms(1), of "bufferSize s - n"] assms(2)
    by (simp_all add: ring_truncate_def)
  have "bufferSize t = length (content t)" if "ring_ok t" for t using that by (simp add: ring_ok_def)
  with cut assms have sizes: "bufferSize (ring_free n s) = bufferSize s - n" "bufferSize (ring_chop n s) = bufferSize s - n"
    "bufferSize (ring_truncate n s) = n" by simp_all
  have get: "case content s of
         [] \<Rightarrow> ring_getChar s = (-1, s)
       | c # cs \<Rightarrow> (\<exists>s'. ring_getChar s = (uint c, s') \<and> content s' = cs \<and> content (ring_ungetChar c s') = content s)"
  proof (cases "ring_getChar s")
    case (Pair c s')
    from ring_getChar_refines [OF assms(1) Pair] show ?thesis
      using Pair ring_ungetChar_refines [of s'] by (auto split: list.split)
  qed
  have u: "ring_ok (ring_ungetChar b s)" "content (ring_ungetChar b s) = b # content s"
    using ring_ungetChar_refines [OF assms(1)] by auto
  obtain c s' where g: "ring_getChar (ring_ungetChar b s) = (c, s')" by fastforce
  from ring_getChar_refines [OF u(1) g] u(2) g
  have "\<exists>s'. ring_getChar (ring_ungetChar b s) = (uint b, s') \<and> content s' = content s" by simp
  then show ?thesis using cut sizes get u(2) by blast
qed

theorem ring_ends_witness:
  "\<exists>s. content s = [1, 2, 3] \<and> content (ring_free 2 s) = [3] \<and> content (ring_chop 2 s) = [1] \<and> content (ring_truncate 2 s) = [1, 2]"
proof -
  define s where "s = ring_append [1, 2, 3] (QRingBuffer_new 4)"
  have ok: "ring_ok s" and c: "content s = [1, 2, 3]" using ring_append_refines [of "QRingBuffer_new 4"] by (simp_all add: s_def)
  then have n: "bufferSize s = 3" by (simp add: ring_ok_def)
  from ring_ends [OF ok, of 2 0] c n show ?thesis by auto
qed

section \<open>A read that does not return\<close>

lemma read_loop_stuck:
  assumes "length data < n" "bufferSize s \<noteq> 0" "QRingChunk_size (hd (buffers s)) = 0"
  shows "read_loop n data s = None"
proof -
  have "\<not> (length data < n \<and> bufferSize s \<noteq> 0 \<and> QRingChunk_size (hd (buffers s)) = 0)" if "read_loop n data s = Some r" for r
    using that
  proof (induction n data s r rule: read_loop.raw_induct)
    case (1 f n data s r)
    have [simp]: "ring_free 0 s = s" for s by (simp add: ring_free.simps)
    show ?case
    proof
      assume stuck: "length data < n \<and> bufferSize s \<noteq> 0 \<and> QRingChunk_size (hd (buffers s)) = 0"
      then have "f n data s = Some r" using 1(2) by (simp add: ring_nextDataBlockSize_def Let_def)
      from 1(1) [OF this 1(3)] stuck show False by blast
    qed
  qed (rule that)
  then show ?thesis using assms by (cases "read_loop n data s") blast+
qed

lemma read_loop_reaches_empty:
  assumes "buffers s = cs @ e # es" "QRingChunk_size e = 0" "\<forall>c \<in> set cs. QRingChunk_size c > 0"
    "length data + sum_list (map QRingChunk_size cs) < n" "sum_list (map QRingChunk_size cs) < bufferSize s"
  shows "read_loop n data s = None"
  using assms
proof (induction cs arbitrary: data s)
  case Nil
  then show ?case by (intro read_loop_stuck) auto
next
  case (Cons c cs)
  define s' where "s' = s\<lparr>bufferSize := bufferSize s - QRingChunk_size c, buffers := cs @ e # es\<rparr>"
  have "ring_free (QRingChunk_size c) s = s'"
    using Cons.prems by (subst ring_free.simps) (simp add: s'_def ring_free.simps)
  moreover have "min (n - length data) (QRingChunk_size c) = QRingChunk_size c" using Cons.prems by simp
  ultimately have "read_loop n data s = read_loop n (data @ take (QRingChunk_size c) (the (ring_readPointer s))) s'"
    using Cons.prems by (subst read_loop.simps) (auto simp: ring_nextDataBlockSize_def Let_def)
  moreover have "length (data @ take (QRingChunk_size c) (the (ring_readPointer s))) \<le> length data + QRingChunk_size c" by simp
  moreover have "read_loop n data' s' = None" if "length data' \<le> length data + QRingChunk_size c" for data'
    using Cons.prems that by (intro Cons.IH) (auto simp: s'_def)
  ultimately show ?case by simp
qed

text \<open>C31: An empty byte array appended to a buffer with bytes becomes a chunk of its own, which no
  read removes: once more bytes follow, a read past it never returns.\<close>

theorem ring_empty_append_stalls:
  assumes "ring_ok s" "content s \<noteq> []" "d \<noteq> []" "bufferSize s < n"
  shows "ring_read n (ring_appendArray d sh (ring_appendArray [] sh' s)) = None"
proof -
  let ?t = "ring_appendArray d sh (ring_appendArray [] sh' s)"
  have ne: "bufferSize s \<noteq> 0" using assms by (auto simp: ring_ok_def)
  have t: "buffers ?t = buffers s @ QRingChunk_of [] sh' # [QRingChunk_of d sh]" "bufferSize ?t = bufferSize s + length d"
    using ne by (simp_all add: ring_appendArray_def)
  have "length (concat (map QRingChunk_data cs)) = sum_list (map QRingChunk_size cs)" if "\<forall>c \<in> set cs. chunk_ok c" for cs
    using that by (induction cs) auto
  then have "sum_list (map QRingChunk_size (buffers s)) = bufferSize s"
    using assms(1) by (simp add: ring_ok_def content_def)
  then show ?thesis
    using read_loop_reaches_empty [of ?t "buffers s" "QRingChunk_of [] sh'" "[QRingChunk_of d sh]" "[]" "min (bufferSize ?t) n"]
      t ring_nonempty [OF assms(1) ne] assms(3,4) by (simp add: ring_read_def)
qed

theorem ring_empty_append_stalls_witness:
  "ring_read 2 (ring_appendArray [2] False (ring_appendArray [] False (ring_append [1] (QRingBuffer_new 4096)))) = None"
proof -
  have "ring_ok (ring_append [1] (QRingBuffer_new 4096))" "content (ring_append [1] (QRingBuffer_new 4096)) = [1]"
    using ring_append_refines [of "QRingBuffer_new 4096"] by simp_all
  then show ?thesis using ring_empty_append_stalls [of "ring_append [1] (QRingBuffer_new 4096)" "[2]" 2] by (simp add: ring_ok_def)
qed

end
