(* ===== verification/QUndoStack.thy ===== *)
theory QUndoStack
  imports Prelude
begin

text \<open>
  \<open>src/gui/util/qundostack.cpp\<close>: commands, macros and the undo stack with its clean state, its limit and
  the signals it emits. What a subclass of \<open>QUndoCommand\<close> does is a parameter; the document its
  commands change is part of the state. The entries of \<open>macro_stack\<close> are the last command of the
  stack, the last child of that, and so on, so the stack of pointers is its depth. A command that
  calls back into the stack while it runs is not modelled.
\<close>

section \<open>QUndoCommand\<close>

text \<open>The payload is that of the subclass; it is \<open>None\<close> for an object of the class itself, as macros are.\<close>

datatype 'c QUndoCommand =
  QUndoCommand (child_list: "'c QUndoCommand list") (cmd_text: string) (actionText: string) (isObsolete: bool)
    (payload: "'c option")

record ('c, 'd) behaviour =
  b_redo :: "'c QUndoCommand \<Rightarrow> 'd \<Rightarrow> 'c QUndoCommand \<times> 'd"
  b_undo :: "'c QUndoCommand \<Rightarrow> 'd \<Rightarrow> 'c QUndoCommand \<times> 'd"
  b_id :: "'c \<Rightarrow> int"
  b_mergeWith :: "'c QUndoCommand \<Rightarrow> 'c QUndoCommand \<Rightarrow> bool \<times> 'c QUndoCommand"

primrec setObsolete :: "bool \<Rightarrow> 'c QUndoCommand \<Rightarrow> 'c QUndoCommand" where
  "setObsolete ob (QUndoCommand cs t a ob' p) = QUndoCommand cs t a ob p"

primrec set_children :: "'c QUndoCommand list \<Rightarrow> 'c QUndoCommand \<Rightarrow> 'c QUndoCommand" where
  "set_children cs (QUndoCommand cs' t a ob p) = QUndoCommand cs t a ob p"

text \<open>The position of the first newline, or -1.\<close>

definition newline_at :: "string \<Rightarrow> int" where
  "newline_at s =
     (let k = length (takeWhile (\<lambda>c. c \<noteq> CHR 0x0A) s) in if k < length s then int k else -1)"

primrec setText :: "string \<Rightarrow> 'c QUndoCommand \<Rightarrow> 'c QUndoCommand" where
  "setText s (QUndoCommand cs t a ob p) =
     (let cdpos = newline_at s
      in if cdpos > 0 then QUndoCommand cs (take (nat cdpos) s) (drop (nat cdpos + 1) s) ob p
         else QUndoCommand cs s s ob p)"

definition QUndoCommand_new :: "string \<Rightarrow> 'c option \<Rightarrow> 'c QUndoCommand" where
  "QUndoCommand_new s p = setText s (QUndoCommand [] [] [] False p)"

fun cmd_id :: "('c, 'd) behaviour \<Rightarrow> 'c QUndoCommand \<Rightarrow> int" where
  "cmd_id b (QUndoCommand cs t a ob None) = -1"
| "cmd_id b (QUndoCommand cs t a ob (Some p)) = b_id b p"

text \<open>Whether the command took over the other one, and the command it became.\<close>

fun cmd_mergeWith :: "('c, 'd) behaviour \<Rightarrow> 'c QUndoCommand \<Rightarrow> 'c QUndoCommand \<Rightarrow> bool \<times> 'c QUndoCommand" where
  "cmd_mergeWith b (QUndoCommand cs t a ob None) other = (False, QUndoCommand cs t a ob None)"
| "cmd_mergeWith b (QUndoCommand cs t a ob (Some p)) other = b_mergeWith b (QUndoCommand cs t a ob (Some p)) other"

fun cmd_redo :: "('c, 'd) behaviour \<Rightarrow> 'c QUndoCommand \<Rightarrow> 'd \<Rightarrow> 'c QUndoCommand \<times> 'd"
  and children_redo :: "('c, 'd) behaviour \<Rightarrow> 'c QUndoCommand list \<Rightarrow> 'd \<Rightarrow> 'c QUndoCommand list \<times> 'd" where
  "cmd_redo b (QUndoCommand cs t a ob None) d =
     (let (cs, d) = children_redo b cs d in (QUndoCommand cs t a ob None, d))"
| "cmd_redo b (QUndoCommand cs t a ob (Some p)) d = b_redo b (QUndoCommand cs t a ob (Some p)) d"
| "children_redo b [] d = ([], d)"
| "children_redo b (c # cs) d =
     (let (c, d) = cmd_redo b c d; (cs, d) = children_redo b cs d in (c # cs, d))"

fun cmd_undo :: "('c, 'd) behaviour \<Rightarrow> 'c QUndoCommand \<Rightarrow> 'd \<Rightarrow> 'c QUndoCommand \<times> 'd"
  and children_undo :: "('c, 'd) behaviour \<Rightarrow> 'c QUndoCommand list \<Rightarrow> 'd \<Rightarrow> 'c QUndoCommand list \<times> 'd" where
  "cmd_undo b (QUndoCommand cs t a ob None) d =
     (let (cs, d) = children_undo b cs d in (QUndoCommand cs t a ob None, d))"
| "cmd_undo b (QUndoCommand cs t a ob (Some p)) d = b_undo b (QUndoCommand cs t a ob (Some p)) d"
| "children_undo b [] d = ([], d)"
| "children_undo b (c # cs) d =
     (let (cs, d) = children_undo b cs d; (c, d) = cmd_undo b c d in (c # cs, d))"

section \<open>The stack and its signals\<close>

datatype StackSignal = indexChanged int | canUndoChanged bool | undoTextChanged string
  | canRedoChanged bool | redoTextChanged string | cleanChanged bool

record ('c, 'd) QUndoStack =
  command_list :: "'c QUndoCommand list"
  macro_depth :: nat
  stack_index :: int
  clean_index :: int
  undo_limit :: int
  document :: 'd
  emitted :: "StackSignal list"

definition QUndoStack_new :: "'d \<Rightarrow> ('c, 'd) QUndoStack" where
  "QUndoStack_new d = \<lparr>command_list = [], macro_depth = 0, stack_index = 0, clean_index = 0, undo_limit = 0,
     document = d, emitted = []\<rparr>"

definition emit :: "StackSignal list \<Rightarrow> ('c, 'd) QUndoStack \<Rightarrow> ('c, 'd) QUndoStack" where
  "emit sigs s = s\<lparr>emitted := emitted s @ sigs\<rparr>"

definition stack_count :: "('c, 'd) QUndoStack \<Rightarrow> int" where
  "stack_count s = int (length (command_list s))"

definition isClean :: "('c, 'd) QUndoStack \<Rightarrow> bool" where
  "isClean s \<longleftrightarrow> macro_depth s = 0 \<and> clean_index s = stack_index s"

definition canUndo :: "('c, 'd) QUndoStack \<Rightarrow> bool" where
  "canUndo s \<longleftrightarrow> macro_depth s = 0 \<and> stack_index s > 0"

definition canRedo :: "('c, 'd) QUndoStack \<Rightarrow> bool" where
  "canRedo s \<longleftrightarrow> macro_depth s = 0 \<and> stack_index s < stack_count s"

definition undoText :: "('c, 'd) QUndoStack \<Rightarrow> string" where
  "undoText s = (if macro_depth s \<noteq> 0 then []
                 else if stack_index s > 0 then actionText (command_list s ! nat (stack_index s - 1)) else [])"

definition redoText :: "('c, 'd) QUndoStack \<Rightarrow> string" where
  "redoText s = (if macro_depth s \<noteq> 0 then []
                 else if stack_index s < stack_count s then actionText (command_list s ! nat (stack_index s)) else [])"

definition stack_command :: "int \<Rightarrow> ('c, 'd) QUndoStack \<Rightarrow> 'c QUndoCommand option" where
  "stack_command i s = (if i < 0 \<or> i \<ge> stack_count s then None else Some (command_list s ! nat i))"

definition stack_text :: "int \<Rightarrow> ('c, 'd) QUndoStack \<Rightarrow> string" where
  "stack_text i s = (if i < 0 \<or> i \<ge> stack_count s then [] else cmd_text (command_list s ! nat i))"

text \<open>The five signals of a changed position.\<close>

definition position_signals :: "('c, 'd) QUndoStack \<Rightarrow> StackSignal list" where
  "position_signals s = [indexChanged (stack_index s), canUndoChanged (canUndo s), undoTextChanged (undoText s),
     canRedoChanged (canRedo s), redoTextChanged (redoText s)]"

text \<open>\<open>QUndoStackPrivate::setIndex\<close>.\<close>

definition moveIndex :: "int \<Rightarrow> bool \<Rightarrow> ('c, 'd) QUndoStack \<Rightarrow> ('c, 'd) QUndoStack" where
  "moveIndex idx clean s =
     (let was_clean = (stack_index s = clean_index s);
          s = (if idx \<noteq> stack_index s
               then let s = s\<lparr>stack_index := idx\<rparr> in emit (position_signals s) s
               else s);
          s = (if clean then s\<lparr>clean_index := stack_index s\<rparr> else s);
          is_clean = (stack_index s = clean_index s)
      in if is_clean \<noteq> was_clean then emit [cleanChanged is_clean] s else s)"

definition checkUndoLimit :: "('c, 'd) QUndoStack \<Rightarrow> ('c, 'd) QUndoStack" where
  "checkUndoLimit s =
     (if undo_limit s \<le> 0 \<or> macro_depth s \<noteq> 0 \<or> undo_limit s \<ge> stack_count s then s
      else let del_count = stack_count s - undo_limit s
           in s\<lparr>command_list := drop (nat del_count) (command_list s),
                stack_index := stack_index s - del_count,
                clean_index := (if clean_index s \<noteq> -1
                                then if clean_index s < del_count then -1 else clean_index s - del_count
                                else clean_index s)\<rparr>)"

definition stack_clear :: "('c, 'd) QUndoStack \<Rightarrow> ('c, 'd) QUndoStack" where
  "stack_clear s =
     (if command_list s = [] then s
      else let was_clean = isClean s;
               s = s\<lparr>macro_depth := 0, command_list := [], stack_index := 0, clean_index := 0\<rparr>;
               s = emit [indexChanged 0, canUndoChanged False, undoTextChanged [], canRedoChanged False,
                         redoTextChanged []] s
           in if \<not> was_clean then emit [cleanChanged True] s else s)"

text \<open>The list a push appends to: the commands, or the children of the innermost open macro.\<close>

fun open_list :: "nat \<Rightarrow> 'c QUndoCommand list \<Rightarrow> 'c QUndoCommand list" where
  "open_list 0 cs = cs"
| "open_list (Suc k) cs = open_list k (child_list (last cs))"

fun on_open :: "nat \<Rightarrow> ('c QUndoCommand list \<Rightarrow> 'c QUndoCommand list) \<Rightarrow> 'c QUndoCommand list \<Rightarrow> 'c QUndoCommand list" where
  "on_open 0 f cs = f cs"
| "on_open (Suc k) f cs = butlast cs @ [set_children (on_open k f (child_list (last cs))) (last cs)]"

text \<open>Commands that could be redone go when something new comes.\<close>

definition dropRedo :: "('c, 'd) QUndoStack \<Rightarrow> ('c, 'd) QUndoStack" where
  "dropRedo s =
     s\<lparr>command_list := take (nat (stack_index s)) (command_list s),
       clean_index := (if clean_index s > stack_index s then -1 else clean_index s)\<rparr>"

text \<open>A command runs unless it is obsolete, and may become so.\<close>

definition runRedo :: "('c, 'd) behaviour \<Rightarrow> 'c QUndoCommand \<Rightarrow> 'd \<Rightarrow> 'c QUndoCommand \<times> 'd" where
  "runRedo b cmd d = (if \<not> isObsolete cmd then cmd_redo b cmd d else (cmd, d))"

definition runUndo :: "('c, 'd) behaviour \<Rightarrow> 'c QUndoCommand \<Rightarrow> 'd \<Rightarrow> 'c QUndoCommand \<times> 'd" where
  "runUndo b cmd d = (if \<not> isObsolete cmd then cmd_undo b cmd d else (cmd, d))"

definition siblings :: "('c, 'd) QUndoStack \<Rightarrow> 'c QUndoCommand list" where
  "siblings s = open_list (macro_depth s) (command_list s)"

definition on_siblings ::
    "('c QUndoCommand list \<Rightarrow> 'c QUndoCommand list) \<Rightarrow> ('c, 'd) QUndoStack \<Rightarrow> ('c, 'd) QUndoStack" where
  "on_siblings f s = s\<lparr>command_list := on_open (macro_depth s) f (command_list s)\<rparr>"

definition try_merge :: "('c, 'd) behaviour \<Rightarrow> 'c QUndoCommand \<Rightarrow> ('c, 'd) QUndoStack \<Rightarrow> bool" where
  "try_merge b cmd s \<longleftrightarrow>
     siblings s \<noteq> [] \<and> cmd_id b (last (siblings s)) \<noteq> -1 \<and> cmd_id b (last (siblings s)) = cmd_id b cmd
     \<and> (macro_depth s \<noteq> 0 \<or> stack_index s \<noteq> clean_index s)"

definition push_merged :: "'c QUndoCommand \<Rightarrow> ('c, 'd) QUndoStack \<Rightarrow> ('c, 'd) QUndoStack" where
  "push_merged cur s =
     (if macro_depth s \<noteq> 0 then (if isObsolete cur then on_siblings butlast s else s)
      else if isObsolete cur then moveIndex (stack_index s - 1) False (s\<lparr>command_list := butlast (command_list s)\<rparr>)
      else emit (position_signals s) s)"

definition push_new :: "'c QUndoCommand \<Rightarrow> ('c, 'd) QUndoStack \<Rightarrow> ('c, 'd) QUndoStack" where
  "push_new cmd s =
     (if isObsolete cmd then s
      else if macro_depth s \<noteq> 0 then on_siblings (\<lambda>cs. cs @ [cmd]) s
      else let s = checkUndoLimit (s\<lparr>command_list := command_list s @ [cmd]\<rparr>)
           in moveIndex (stack_index s + 1) False s)"

definition stack_push :: "('c, 'd) behaviour \<Rightarrow> 'c QUndoCommand \<Rightarrow> ('c, 'd) QUndoStack \<Rightarrow> ('c, 'd) QUndoStack" where
  "stack_push b cmd s =
     (let (cmd, d) = runRedo b cmd (document s);
          s = s\<lparr>document := d\<rparr>;
          s = (if macro_depth s \<noteq> 0 then s else dropRedo s)
      in if try_merge b cmd s
         then let (merged, cur) = cmd_mergeWith b (last (siblings s)) cmd;
                  s = on_siblings (\<lambda>cs. butlast cs @ [cur]) s
              in if merged then push_merged cur s else push_new cmd s
         else push_new cmd s)"

definition setClean :: "('c, 'd) QUndoStack \<Rightarrow> ('c, 'd) QUndoStack" where
  "setClean s = (if macro_depth s \<noteq> 0 then s else moveIndex (stack_index s) True s)"

definition resetClean :: "('c, 'd) QUndoStack \<Rightarrow> ('c, 'd) QUndoStack" where
  "resetClean s =
     (let was_clean = isClean s;
          s = s\<lparr>clean_index := -1\<rparr>
      in if was_clean then emit [cleanChanged False] s else s)"

text \<open>The deletion of an obsolete command.\<close>

definition takeObsolete :: "int \<Rightarrow> ('c, 'd) QUndoStack \<Rightarrow> ('c, 'd) QUndoStack" where
  "takeObsolete i s =
     (let s = s\<lparr>command_list := take (nat i) (command_list s) @ drop (Suc (nat i)) (command_list s)\<rparr>
      in if clean_index s > i then resetClean s else s)"

definition stack_undo :: "('c, 'd) behaviour \<Rightarrow> ('c, 'd) QUndoStack \<Rightarrow> ('c, 'd) QUndoStack" where
  "stack_undo b s =
     (if stack_index s = 0 then s
      else if macro_depth s \<noteq> 0 then s
      else let idx = stack_index s - 1;
               cmd = command_list s ! nat idx;
               (cmd, d) = runUndo b cmd (document s);
               s = s\<lparr>command_list := (command_list s)[nat idx := cmd], document := d\<rparr>;
               s = (if isObsolete cmd then takeObsolete idx s else s)
           in moveIndex idx False s)"

definition stack_redo :: "('c, 'd) behaviour \<Rightarrow> ('c, 'd) QUndoStack \<Rightarrow> ('c, 'd) QUndoStack" where
  "stack_redo b s =
     (if stack_index s = stack_count s then s
      else if macro_depth s \<noteq> 0 then s
      else let idx = stack_index s;
               cmd = command_list s ! nat idx;
               (cmd, d) = runRedo b cmd (document s);
               s = s\<lparr>command_list := (command_list s)[nat idx := cmd], document := d\<rparr>
           in if isObsolete cmd then takeObsolete idx s else moveIndex (stack_index s + 1) False s)"

text \<open>The two loops of \<open>QUndoStack::setIndex\<close>; the first returns \<open>i\<close> and the index it has corrected.\<close>

function redo_to ::
    "('c, 'd) behaviour \<Rightarrow> int \<Rightarrow> int \<Rightarrow> ('c, 'd) QUndoStack \<Rightarrow> int \<times> int \<times> ('c, 'd) QUndoStack" where
  "redo_to b i idx s =
     (if i < idx
      then let cmd = command_list s ! nat i;
               (cmd, d) = runRedo b cmd (document s);
               s = s\<lparr>command_list := (command_list s)[nat i := cmd], document := d\<rparr>
           in if isObsolete cmd then redo_to b i (idx - 1) (takeObsolete i s) else redo_to b (i + 1) idx s
      else (i, idx, s))"
  by auto
termination by (relation "measure (\<lambda>(b, i, idx, s). nat (idx - i))") auto

declare redo_to.simps [simp del]

function undo_to :: "('c, 'd) behaviour \<Rightarrow> int \<Rightarrow> int \<Rightarrow> ('c, 'd) QUndoStack \<Rightarrow> ('c, 'd) QUndoStack" where
  "undo_to b i idx s =
     (if i > idx
      then let i = i - 1;
               (cmd, d) = cmd_undo b (command_list s ! nat i) (document s);
               s = s\<lparr>command_list := (command_list s)[nat i := cmd], document := d\<rparr>
           in undo_to b i idx (if isObsolete cmd then takeObsolete i s else s)
      else s)"
  by auto
termination by (relation "measure (\<lambda>(b, i, idx, s). nat (i - idx))") auto

declare undo_to.simps [simp del]

definition stack_setIndex :: "('c, 'd) behaviour \<Rightarrow> int \<Rightarrow> ('c, 'd) QUndoStack \<Rightarrow> ('c, 'd) QUndoStack" where
  "stack_setIndex b idx s =
     (if macro_depth s \<noteq> 0 then s
      else let idx = (if idx < 0 then 0 else if idx > stack_count s then stack_count s else idx);
               (i, idx, s) = redo_to b (stack_index s) idx s;
               s = undo_to b i idx s
           in moveIndex idx False s)"

definition beginMacro :: "string \<Rightarrow> ('c, 'd) QUndoStack \<Rightarrow> ('c, 'd) QUndoStack" where
  "beginMacro t s =
     (let cmd = QUndoCommand_new t None;
          s = (if macro_depth s = 0 then dropRedo s else s);
          s = s\<lparr>command_list := on_open (macro_depth s) (\<lambda>cs. cs @ [cmd]) (command_list s),
                macro_depth := macro_depth s + 1\<rparr>
      in if macro_depth s = 1
         then emit [canUndoChanged False, undoTextChanged [], canRedoChanged False, redoTextChanged []] s
         else s)"

definition endMacro :: "('c, 'd) QUndoStack \<Rightarrow> ('c, 'd) QUndoStack" where
  "endMacro s =
     (if macro_depth s = 0 then s
      else let s = s\<lparr>macro_depth := macro_depth s - 1\<rparr>
           in if macro_depth s = 0
              then let s = checkUndoLimit s in moveIndex (stack_index s + 1) False s
              else s)"

definition setUndoLimit :: "int \<Rightarrow> ('c, 'd) QUndoStack \<Rightarrow> ('c, 'd) QUndoStack" where
  "setUndoLimit lim s =
     (if command_list s \<noteq> [] then s
      else if lim = undo_limit s then s
      else checkUndoLimit (s\<lparr>undo_limit := lim\<rparr>))"

end
