(* ===== verification/QUndoStackInv.thy ===== *)
theory QUndoStackInv
  imports QUndoStack
begin

text \<open>
  The operations of the undo stack as steps, the states they reach for any behaviour of the
  commands, and what holds in all of them: the positions stay in range, the limit is kept, and a
  listener that only hears the signals knows whether the stack is clean and can undo.
\<close>

section \<open>Steps\<close>

datatype 'c StackOp = Push "'c QUndoCommand" | Undo | Redo | SetIndex int | SetClean | ResetClean | Clear
  | BeginMacro string | EndMacro | SetUndoLimit int

fun stack_step :: "('c, 'd) behaviour \<Rightarrow> 'c StackOp \<Rightarrow> ('c, 'd) QUndoStack \<Rightarrow> ('c, 'd) QUndoStack" where
  "stack_step b (Push c) s = stack_push b c s"
| "stack_step b Undo s = stack_undo b s"
| "stack_step b Redo s = stack_redo b s"
| "stack_step b (SetIndex i) s = stack_setIndex b i s"
| "stack_step b SetClean s = setClean s"
| "stack_step b ResetClean s = resetClean s"
| "stack_step b Clear s = stack_clear s"
| "stack_step b (BeginMacro t) s = beginMacro t s"
| "stack_step b EndMacro s = endMacro s"
| "stack_step b (SetUndoLimit n) s = setUndoLimit n s"

inductive stack_reach :: "('c, 'd) behaviour \<Rightarrow> ('c, 'd) QUndoStack \<Rightarrow> bool" for b where
  reach_new: "stack_reach b (QUndoStack_new d)"
| reach_step: "stack_reach b s \<Longrightarrow> stack_reach b (stack_step b op s)"

section \<open>The open macros\<close>

fun open_ok :: "nat \<Rightarrow> 'c QUndoCommand list \<Rightarrow> bool" where
  "open_ok 0 cs \<longleftrightarrow> True"
| "open_ok (Suc k) cs \<longleftrightarrow> cs \<noteq> [] \<and> payload (last cs) = None \<and> open_ok k (child_list (last cs))"

lemma set_children_sel [simp]:
  "child_list (set_children cs c) = cs" "payload (set_children cs c) = payload c" "isObsolete (set_children cs c) = isObsolete c"
  by (cases c; simp)+

lemma on_open_length [simp]: "k \<noteq> 0 \<Longrightarrow> cs \<noteq> [] \<Longrightarrow> length (on_open k f cs) = length cs"
  by (cases k) auto

lemma on_open_ok [simp]: "open_ok k cs \<Longrightarrow> open_ok k (on_open k f cs)"
  by (induction k f cs rule: on_open.induct) auto

lemma open_on_open [simp]: "open_ok k cs \<Longrightarrow> open_list k (on_open k f cs) = f (open_list k cs)"
  by (induction k f cs rule: on_open.induct) auto

lemma on_open_comp: "open_ok k cs \<Longrightarrow> on_open k g (on_open k f cs) = on_open k (g \<circ> f) cs"
proof (induction k f cs rule: on_open.induct)
  case (2 k f cs)
  have "set_children xs (set_children ys c) = set_children xs c" for xs ys and c :: "'a QUndoCommand" by (cases c) simp
  then show ?case using 2 by simp
qed simp

text \<open>A macro begun inside the innermost one is the new innermost.\<close>

lemma open_ok_Suc: "open_ok k cs \<Longrightarrow> open_list k cs \<noteq> [] \<Longrightarrow> payload (last (open_list k cs)) = None \<Longrightarrow> open_ok (Suc k) cs"
  by (induction k cs rule: open_list.induct) auto

lemma open_list_Suc: "open_list (Suc k) cs = child_list (last (open_list k cs))"
  by (induction k cs rule: open_list.induct) auto

lemma open_ok_le: "open_ok (Suc k) cs \<Longrightarrow> open_ok k cs"
  by (induction k cs rule: open_list.induct) auto

section \<open>The invariant\<close>

definition stack_ok :: "('c, 'd) QUndoStack \<Rightarrow> bool" where
  "stack_ok s \<longleftrightarrow>
     0 \<le> stack_index s \<and> stack_index s \<le> stack_count s \<and> -1 \<le> clean_index s \<and> clean_index s \<le> stack_count s
     \<and> (macro_depth s \<noteq> 0 \<longrightarrow> stack_index s = stack_count s - 1 \<and> clean_index s \<le> stack_index s)
     \<and> (undo_limit s > 0 \<longrightarrow> (if macro_depth s = 0 then stack_count s else stack_index s) \<le> undo_limit s)
     \<and> open_ok (macro_depth s) (command_list s)"

lemma emit_sel [simp]:
  "command_list (emit sg s) = command_list s" "macro_depth (emit sg s) = macro_depth s"
  "stack_index (emit sg s) = stack_index s" "clean_index (emit sg s) = clean_index s"
  "undo_limit (emit sg s) = undo_limit s" "document (emit sg s) = document s"
  "emitted (emit sg s) = emitted s @ sg" "stack_count (emit sg s) = stack_count s"
  by (simp_all add: emit_def stack_count_def)

lemma moveIndex_sel [simp]:
  "command_list (moveIndex i c s) = command_list s" "macro_depth (moveIndex i c s) = macro_depth s"
  "stack_index (moveIndex i c s) = i" "undo_limit (moveIndex i c s) = undo_limit s"
  "clean_index (moveIndex i c s) = (if c then i else clean_index s)"
  "document (moveIndex i c s) = document s" "stack_count (moveIndex i c s) = stack_count s"
  by (simp_all add: moveIndex_def Let_def stack_count_def)

lemma stack_count_upd [simp]:
  "stack_count (s\<lparr>command_list := cs\<rparr>) = int (length cs)" "stack_count (s\<lparr>document := d\<rparr>) = stack_count s"
  "stack_count (s\<lparr>stack_index := i\<rparr>) = stack_count s" "stack_count (s\<lparr>clean_index := i\<rparr>) = stack_count s"
  "stack_count (s\<lparr>macro_depth := k\<rparr>) = stack_count s" "stack_count (s\<lparr>undo_limit := i\<rparr>) = stack_count s"
  by (simp_all add: stack_count_def)

lemma resetClean_sel [simp]:
  "command_list (resetClean s) = command_list s" "macro_depth (resetClean s) = macro_depth s"
  "stack_index (resetClean s) = stack_index s" "undo_limit (resetClean s) = undo_limit s"
  "clean_index (resetClean s) = -1" "document (resetClean s) = document s" "stack_count (resetClean s) = stack_count s"
  by (simp_all add: resetClean_def Let_def)

lemma takeObsolete_sel [simp]:
  "command_list (takeObsolete i s) = take (nat i) (command_list s) @ drop (Suc (nat i)) (command_list s)"
  "macro_depth (takeObsolete i s) = macro_depth s" "stack_index (takeObsolete i s) = stack_index s"
  "undo_limit (takeObsolete i s) = undo_limit s" "document (takeObsolete i s) = document s"
  "clean_index (takeObsolete i s) = (if clean_index s > i then -1 else clean_index s)"
  by (simp_all add: takeObsolete_def Let_def)

lemma takeObsolete_count: "0 \<le> i \<Longrightarrow> i < stack_count s \<Longrightarrow> stack_count (takeObsolete i s) = stack_count s - 1"
  by (simp add: stack_count_def nat_less_iff)

lemma stack_ok_new [simp]: "stack_ok (QUndoStack_new d)"
  by (simp add: stack_ok_def QUndoStack_new_def stack_count_def)

lemma stack_ok_document [simp]: "stack_ok (s\<lparr>document := d\<rparr>) = stack_ok s"
  by (simp add: stack_ok_def)

lemma stack_ok_emit [simp]: "stack_ok (emit sg s) = stack_ok s"
  by (simp add: stack_ok_def)

lemma stack_ok_dropRedo:
  assumes "stack_ok s" "macro_depth s = 0"
  shows "stack_ok (dropRedo s)" "stack_count (dropRedo s) = stack_index s" "stack_index (dropRedo s) = stack_index s"
    "clean_index (dropRedo s) \<le> stack_index s" "macro_depth (dropRedo s) = 0" "undo_limit (dropRedo s) = undo_limit s"
    "document (dropRedo s) = document s"
  using assms by (auto simp: stack_ok_def dropRedo_def stack_count_def)

text \<open>A command at the end past the index, before the limit is applied and the index follows.\<close>

lemma stack_ok_appended:
  assumes "macro_depth s = 0" "stack_count s = stack_index s + 1" "0 \<le> stack_index s" "-1 \<le> clean_index s" "clean_index s \<le> stack_index s"
    "undo_limit s > 0 \<longrightarrow> stack_index s \<le> undo_limit s"
  shows "stack_ok (moveIndex (stack_index (checkUndoLimit s) + 1) False (checkUndoLimit s))"
proof (cases "undo_limit s \<le> 0 \<or> undo_limit s \<ge> stack_count s")
  case True
  then have "checkUndoLimit s = s" by (auto simp: checkUndoLimit_def)
  then show ?thesis using assms True by (auto simp: stack_ok_def)
next
  case False
  then have one: "stack_count s - undo_limit s = 1" using assms by linarith
  have "command_list s \<noteq> []" using assms by (auto simp: stack_count_def)
  then show ?thesis
    using assms False one by (auto simp: stack_ok_def checkUndoLimit_def Let_def stack_count_def)
qed

lemma on_siblings_sel [simp]:
  "macro_depth (on_siblings f s) = macro_depth s" "stack_index (on_siblings f s) = stack_index s"
  "clean_index (on_siblings f s) = clean_index s" "undo_limit (on_siblings f s) = undo_limit s"
  "document (on_siblings f s) = document s" "emitted (on_siblings f s) = emitted s"
  by (simp_all add: on_siblings_def)

lemma stack_ok_on_siblings:
  assumes "stack_ok s" "macro_depth s \<noteq> 0 \<or> length (f (command_list s)) = length (command_list s)"
  shows "stack_ok (on_siblings f s)" "stack_count (on_siblings f s) = stack_count s"
proof -
  have "command_list s \<noteq> []" if "macro_depth s \<noteq> 0" using assms(1) that by (auto simp: stack_ok_def stack_count_def)
  then show count: "stack_count (on_siblings f s) = stack_count s"
    using assms by (cases "macro_depth s") (auto simp: on_siblings_def stack_count_def simp del: on_open.simps(2))
  show "stack_ok (on_siblings f s)"
    using assms count by (auto simp: stack_ok_def) (simp_all add: on_siblings_def)
qed

lemma stack_ok_push_new:
  assumes "stack_ok s" "macro_depth s = 0 \<Longrightarrow> stack_count s = stack_index s"
  shows "stack_ok (push_new cmd s)"
proof (cases "macro_depth s = 0")
  case True
  let ?s = "s\<lparr>command_list := command_list s @ [cmd]\<rparr>"
  have "stack_ok (moveIndex (stack_index (checkUndoLimit ?s) + 1) False (checkUndoLimit ?s))"
    using assms True by (intro stack_ok_appended) (auto simp: stack_ok_def stack_count_def)
  then show ?thesis using assms(1) True by (simp add: push_new_def Let_def)
next
  case False
  then show ?thesis using assms(1) stack_ok_on_siblings(1) [OF assms(1)] by (simp add: push_new_def)
qed

lemma stack_ok_push_merged:
  assumes "stack_ok s" "siblings s \<noteq> []" "macro_depth s = 0 \<Longrightarrow> stack_count s = stack_index s \<and> clean_index s \<noteq> stack_index s"
  shows "stack_ok (push_merged cur s)"
proof (cases "macro_depth s = 0")
  case True
  have "stack_ok (moveIndex (stack_index s - 1) False (s\<lparr>command_list := butlast (command_list s)\<rparr>))"
    using assms True by (cases "command_list s" rule: rev_cases) (auto simp: stack_ok_def stack_count_def siblings_def)
  then show ?thesis using assms(1) True by (simp add: push_merged_def)
next
  case False
  then show ?thesis using assms(1) stack_ok_on_siblings(1) [OF assms(1)] by (simp add: push_merged_def)
qed

lemma stack_ok_push:
  assumes ok: "stack_ok s"
  shows "stack_ok (stack_push b cmd s)"
proof -
  obtain cmd' d where r: "runRedo b cmd (document s) = (cmd', d)" by fastforce
  define s1 where "s1 = (if macro_depth s \<noteq> 0 then s\<lparr>document := d\<rparr> else dropRedo (s\<lparr>document := d\<rparr>))"
  have s1: "stack_ok s1" "macro_depth s1 = macro_depth s" "macro_depth s1 = 0 \<Longrightarrow> stack_count s1 = stack_index s1"
    using ok stack_ok_dropRedo [of "s\<lparr>document := d\<rparr>"] by (auto simp: s1_def)
  obtain merged cur where mc: "cmd_mergeWith b (last (siblings s1)) cmd' = (merged, cur)" by fastforce
  define s2 where "s2 = on_siblings (\<lambda>cs. butlast cs @ [cur]) s1"
  have push: "stack_push b cmd s =
    (if try_merge b cmd' s1 then if merged then push_merged cur s2 else push_new cmd' s2 else push_new cmd' s1)"
    using mc by (simp add: stack_push_def Let_def r s1_def s2_def)
  show ?thesis
  proof (cases "try_merge b cmd' s1")
    case True
    then have sib: "siblings s1 \<noteq> []" "macro_depth s1 = 0 \<Longrightarrow> clean_index s1 \<noteq> stack_index s1" by (auto simp: try_merge_def)
    have len: "macro_depth s1 \<noteq> 0 \<or> length (butlast (command_list s1) @ [cur]) = length (command_list s1)"
      using sib(1) by (cases "macro_depth s1") (auto simp: siblings_def)
    have s2: "stack_ok s2" "stack_count s2 = stack_count s1"
      using stack_ok_on_siblings [where f = "\<lambda>cs. butlast cs @ [cur]", OF s1(1) len] by (auto simp: s2_def)
    have "siblings s2 \<noteq> []" using s1(1) by (simp add: s2_def siblings_def on_siblings_def stack_ok_def)
    then show ?thesis
      using push True s2 s1 sib stack_ok_push_merged [OF s2(1)] stack_ok_push_new [OF s2(1)] by (simp add: s2_def)
  next
    case False
    then show ?thesis using push stack_ok_push_new [OF s1(1)] s1(3) by simp
  qed
qed

text \<open>What holds of the stack outside macros whatever its index, as while \<open>setIndex\<close> runs.\<close>

definition in_range :: "('c, 'd) QUndoStack \<Rightarrow> bool" where
  "in_range s \<longleftrightarrow> macro_depth s = 0 \<and> -1 \<le> clean_index s \<and> clean_index s \<le> stack_count s
     \<and> (undo_limit s > 0 \<longrightarrow> stack_count s \<le> undo_limit s)"

lemma stack_ok_outside: "macro_depth s = 0 \<Longrightarrow> stack_ok s \<longleftrightarrow> in_range s \<and> 0 \<le> stack_index s \<and> stack_index s \<le> stack_count s"
  by (auto simp: stack_ok_def in_range_def)

lemma in_range_moveIndex: "in_range s \<Longrightarrow> 0 \<le> j \<Longrightarrow> j \<le> stack_count s \<Longrightarrow> stack_ok (moveIndex j c s)"
  by (auto simp: stack_ok_def in_range_def)

lemma in_range_takeObsolete: "in_range s \<Longrightarrow> 0 \<le> i \<Longrightarrow> i < stack_count s \<Longrightarrow> in_range (takeObsolete i s)"
  using takeObsolete_count [of i s] by (auto simp: in_range_def)

lemma in_range_upd [simp]: "in_range (s\<lparr>command_list := (command_list s)[k := c], document := d\<rparr>) = in_range s"
  by (simp add: in_range_def stack_count_def)

lemma stack_count_update [simp]: "stack_count (s\<lparr>command_list := (command_list s)[k := c], document := d\<rparr>) = stack_count s"
  by (simp add: stack_count_def)

lemma redo_to_done: "idx \<le> i \<Longrightarrow> redo_to b i idx s = (i, idx, s)"
  by (subst redo_to.simps) simp

lemma undo_to_done: "i \<le> idx \<Longrightarrow> undo_to b i idx s = s"
  by (subst undo_to.simps) simp

lemma redo_to_range:
  assumes "redo_to b i idx s = (i', idx', s')" "in_range s" "0 \<le> i" "idx \<le> stack_count s"
  shows "in_range s' \<and> stack_index s' = stack_index s \<and> idx' \<le> stack_count s' \<and> i' = max i idx' \<and> (i \<le> idx \<longrightarrow> i \<le> idx') \<and> (idx \<le> i \<longrightarrow> idx' = idx)"
  using assms
proof (induction b i idx s arbitrary: i' idx' s' rule: redo_to.induct)
  case (1 b i idx s)
  show ?case
  proof (cases "i < idx")
    case False
    then show ?thesis using 1(3-) redo_to_done [of idx i b s] by auto
  next
    case True
    obtain cmd d where r: "runRedo b (command_list s ! nat i) (document s) = (cmd, d)" by fastforce
    define s1 where "s1 = s\<lparr>command_list := (command_list s)[nat i := cmd], document := d\<rparr>"
    have s1: "in_range s1" "stack_count s1 = stack_count s" "stack_index s1 = stack_index s" using 1(3-) by (simp_all add: s1_def stack_count_def)
    have step: "redo_to b i idx s = (if isObsolete cmd then redo_to b i (idx - 1) (takeObsolete i s1) else redo_to b (i + 1) idx s1)"
      using True r by (subst redo_to.simps) (simp add: s1_def Let_def)
    show ?thesis
    proof (cases "isObsolete cmd")
      case ob: True
      have lt: "0 \<le> i" "i < stack_count s1" "idx \<le> stack_count s" using 1(3-) True s1(2) by linarith+
      note t = in_range_takeObsolete [OF s1(1) lt(1,2)] takeObsolete_count [OF lt(1,2)]
      have "redo_to b i (idx - 1) (takeObsolete i s1) = (i', idx', s')" using 1(3) step ob by simp
      note IH = 1(1) [OF True refl refl r [symmetric] s1_def ob this t(1) lt(1)]
      have "idx - 1 \<le> stack_count (takeObsolete i s1)" using lt t(2) s1(2) by linarith
      then show ?thesis using IH True s1(3) by simp
    next
      case False
      then have "redo_to b (i + 1) idx s1 = (i', idx', s')" using 1(3) step by simp
      note IH = 1(2) [OF True refl refl r [symmetric] s1_def False this s1(1)]
      have "0 \<le> i + 1" "idx \<le> stack_count s1" using 1(5,6) s1(2) by linarith+
      from IH [OF this] show ?thesis using True s1(3) by auto
    qed
  qed
qed

lemma undo_to_range:
  assumes "in_range s" "0 \<le> idx" "i \<le> stack_count s" "idx \<le> stack_count s"
  shows "in_range (undo_to b i idx s) \<and> idx \<le> stack_count (undo_to b i idx s) \<and> stack_index (undo_to b i idx s) = stack_index s"
  using assms
proof (induction b i idx s rule: undo_to.induct)
  case (1 b i idx s)
  show ?case
  proof (cases "i > idx")
    case False
    then show ?thesis using 1(2-) undo_to_done [of i idx b s] by simp
  next
    case True
    obtain cmd d where r: "cmd_undo b (command_list s ! nat (i - 1)) (document s) = (cmd, d)" by fastforce
    define s1 where "s1 = s\<lparr>command_list := (command_list s)[nat (i - 1) := cmd], document := d\<rparr>"
    define s2 where "s2 = (if isObsolete cmd then takeObsolete (i - 1) s1 else s1)"
    have s1: "in_range s1" "stack_count s1 = stack_count s" "stack_index s1 = stack_index s" using 1(2-) by (simp_all add: s1_def stack_count_def)
    have s2: "in_range s2" "i - 1 \<le> stack_count s2" "stack_index s2 = stack_index s"
      using in_range_takeObsolete [OF s1(1), of "i - 1"] takeObsolete_count [of "i - 1" s1] s1 1(2-) True by (auto simp: s2_def)
    have "undo_to b i idx s = undo_to b (i - 1) idx s2"
      using True r by (subst undo_to.simps) (simp add: s1_def s2_def Let_def)
    then show ?thesis
      using 1(1) [OF True refl refl r [symmetric] s1_def] s2 1 True by (simp add: s2_def)
  qed
qed

lemma stack_ok_setIndex:
  assumes ok: "stack_ok s"
  shows "stack_ok (stack_setIndex b k s)"
proof (cases "macro_depth s = 0")
  case True
  define idx where "idx = (if k < 0 then 0 else if k > stack_count s then stack_count s else k)"
  obtain i' idx' s' where r: "redo_to b (stack_index s) idx s = (i', idx', s')" by (cases "redo_to b (stack_index s) idx s") auto
  have range: "in_range s" "0 \<le> stack_index s" "stack_index s \<le> stack_count s" using ok True stack_ok_outside by auto
  have idx: "0 \<le> idx" "idx \<le> stack_count s" using range by (auto simp: idx_def stack_count_def)
  note rr = redo_to_range [OF r range(1,2) idx(2)]
  have p: "in_range s'" "idx' \<le> stack_count s'" "i' = max (stack_index s) idx'" using rr by simp_all
  have p4: "0 \<le> idx'" and "i' \<le> stack_count s'"
  proof -
    show "0 \<le> idx'" using rr range(2) idx(1) by (cases "stack_index s \<le> idx") auto
    show "i' \<le> stack_count s'"
    proof (cases "stack_index s \<le> idx")
      case True
      then show ?thesis using rr by simp
    next
      case False
      then have "(i', idx', s') = (stack_index s, idx, s)" by (metis linorder_not_le order_less_imp_le r redo_to_done)
      then have "s' = s" "i' = stack_index s" by blast+
      then show ?thesis using range by simp
    qed
  qed
  note u = undo_to_range [OF p(1) p4 \<open>i' \<le> stack_count s'\<close> p(2)]
  have "stack_setIndex b k s = moveIndex idx' False (undo_to b i' idx' s')"
    using True r by (simp add: stack_setIndex_def idx_def [symmetric] Let_def)
  then show ?thesis using in_range_moveIndex [of "undo_to b i' idx' s'" idx' False] u p4 by metis
qed (use ok in \<open>simp add: stack_setIndex_def\<close>)

lemma redo_to_depth: "redo_to b i idx s = (i', idx', s') \<Longrightarrow> macro_depth s' = macro_depth s"
proof (induction b i idx s arbitrary: i' idx' s' rule: redo_to.induct)
  case (1 b i idx s)
  then show ?case by (subst (asm) (3) redo_to.simps) (auto simp: Let_def split: if_splits prod.splits)
qed

lemma undo_to_depth: "macro_depth (undo_to b i idx s) = macro_depth s"
proof (induction b i idx s rule: undo_to.induct)
  case (1 b i idx s)
  show ?case by (subst undo_to.simps) (auto simp: Let_def 1 split: prod.splits)
qed

lemma setIndex_depth [simp]: "macro_depth (stack_setIndex b k s) = macro_depth s"
  by (auto simp: stack_setIndex_def Let_def undo_to_depth redo_to_depth split: prod.splits)

lemma stack_ok_undo: "stack_ok s \<Longrightarrow> stack_ok (stack_undo b s)"
proof (cases "stack_index s = 0 \<or> macro_depth s \<noteq> 0")
  case False
  assume ok: "stack_ok s"
  obtain cmd d where r: "runUndo b (command_list s ! nat (stack_index s - 1)) (document s) = (cmd, d)" by fastforce
  define s1 where "s1 = s\<lparr>command_list := (command_list s)[nat (stack_index s - 1) := cmd], document := d\<rparr>"
  have s1: "in_range s1" "stack_count s1 = stack_count s" "0 < stack_index s" "stack_index s \<le> stack_count s"
    using ok False stack_ok_outside [of s] by (auto simp: s1_def stack_count_def)
  have "stack_undo b s = moveIndex (stack_index s - 1) False (if isObsolete cmd then takeObsolete (stack_index s - 1) s1 else s1)"
    using False r by (simp add: stack_undo_def Let_def s1_def)
  moreover have "stack_ok \<dots>"
    using s1 in_range_takeObsolete [of s1 "stack_index s - 1"] takeObsolete_count [of "stack_index s - 1" s1]
    by (auto intro!: in_range_moveIndex)
  ultimately show ?thesis by simp
qed (auto simp: stack_undo_def)

lemma stack_ok_redo: "stack_ok s \<Longrightarrow> stack_ok (stack_redo b s)"
proof (cases "stack_index s = stack_count s \<or> macro_depth s \<noteq> 0")
  case False
  assume ok: "stack_ok s"
  obtain cmd d where r: "runRedo b (command_list s ! nat (stack_index s)) (document s) = (cmd, d)" by fastforce
  define s1 where "s1 = s\<lparr>command_list := (command_list s)[nat (stack_index s) := cmd], document := d\<rparr>"
  have s1: "in_range s1" "stack_count s1 = stack_count s" "0 \<le> stack_index s" "stack_index s < stack_count s" "stack_index s1 = stack_index s"
    using ok False stack_ok_outside [of s] by (auto simp: s1_def stack_count_def)
  have "stack_redo b s = (if isObsolete cmd then takeObsolete (stack_index s) s1 else moveIndex (stack_index s + 1) False s1)"
    using False r by (simp add: stack_redo_def Let_def s1_def)
  moreover have "stack_ok (takeObsolete (stack_index s) s1)"
    using s1 in_range_takeObsolete [of s1 "stack_index s"] takeObsolete_count [of "stack_index s" s1] False
    by (subst stack_ok_outside) (auto simp: s1_def in_range_def)
  moreover have "stack_ok (moveIndex (stack_index s + 1) False s1)" using s1 by (intro in_range_moveIndex) auto
  ultimately show ?thesis by simp
qed (auto simp: stack_redo_def)

lemma stack_ok_beginMacro:
  assumes ok: "stack_ok s"
  shows "stack_ok (beginMacro t s)"
proof -
  define s1 where "s1 = (if macro_depth s = 0 then dropRedo s else s)"
  define cmd where "cmd = QUndoCommand_new t (None :: 'a option)"
  define s2 where "s2 = s1\<lparr>command_list := on_open (macro_depth s1) (\<lambda>cs. cs @ [cmd]) (command_list s1), macro_depth := macro_depth s1 + 1\<rparr>"
  have s1: "stack_ok s1" "macro_depth s1 = macro_depth s"
    and s10: "macro_depth s1 = 0 \<Longrightarrow> stack_count s1 = stack_index s1 \<and> clean_index s1 \<le> stack_index s1"
    using ok stack_ok_dropRedo [OF ok] by (auto simp: s1_def)
  have cmd: "payload cmd = None" by (simp add: cmd_def QUndoCommand_new_def Let_def)
  have ne: "macro_depth s1 \<noteq> 0 \<Longrightarrow> command_list s1 \<noteq> []" using s1(1) by (auto simp: stack_ok_def stack_count_def)
  have count: "stack_count s2 = (if macro_depth s1 = 0 then stack_count s1 + 1 else stack_count s1)"
    using ne by (auto simp: s2_def stack_count_def)
  have "open_ok (Suc (macro_depth s1)) (on_open (macro_depth s1) (\<lambda>cs. cs @ [cmd]) (command_list s1))"
    using s1(1) cmd by (intro open_ok_Suc) (auto simp: stack_ok_def)
  then have "stack_ok s2"
    using s1(1) s10 count by (auto simp: stack_ok_def s2_def split: if_splits)
  moreover have "beginMacro t s = (if macro_depth s2 = 1
      then emit [canUndoChanged False, undoTextChanged [], canRedoChanged False, redoTextChanged []] s2 else s2)"
    by (simp add: beginMacro_def Let_def s1_def cmd_def s2_def)
  ultimately show ?thesis by simp
qed

lemma stack_ok_endMacro:
  assumes ok: "stack_ok s"
  shows "stack_ok (endMacro s)"
proof (cases "macro_depth s")
  case (Suc k)
  show ?thesis
  proof (cases "k = 0")
    case True
    then show ?thesis
      using ok Suc stack_ok_appended [of "s\<lparr>macro_depth := 0\<rparr>"] by (auto simp: endMacro_def Let_def stack_ok_def)
  next
    case False
    then show ?thesis
      using ok Suc open_ok_le [of k "command_list s"] by (auto simp: endMacro_def Let_def stack_ok_def simp del: open_ok.simps(2))
  qed
qed (use ok in \<open>simp add: endMacro_def\<close>)

lemma stack_ok_step:
  assumes ok: "stack_ok s"
  shows "stack_ok (stack_step b op s)"
proof (cases op)
  case SetClean
  then show ?thesis using ok by (auto simp: setClean_def stack_ok_def)
next
  case ResetClean
  then show ?thesis using ok by (auto simp: stack_ok_def)
next
  case Clear
  then show ?thesis using ok by (auto simp: stack_clear_def Let_def stack_ok_def stack_count_def)
next
  case (SetUndoLimit n)
  then show ?thesis using ok by (auto simp: setUndoLimit_def checkUndoLimit_def stack_ok_def stack_count_def)
qed (use ok stack_ok_push stack_ok_undo stack_ok_redo stack_ok_setIndex stack_ok_beginMacro stack_ok_endMacro in auto)

lemma stack_reach_ok: "stack_reach b s \<Longrightarrow> stack_ok s"
  by (induction rule: stack_reach.induct) (simp_all add: stack_ok_step)

end
