(* ===== verification/QUndoStackSignals.thy ===== *)
theory QUndoStackSignals
  imports QUndoStackInv
begin

text \<open>
  What a listener knows that only hears the signals of the stack: its last value of
  \<open>cleanChanged\<close> and of \<open>canUndoChanged\<close> are the current ones.
\<close>

fun heard_clean :: "bool \<Rightarrow> StackSignal list \<Rightarrow> bool" where
  "heard_clean v [] = v"
| "heard_clean v (cleanChanged c # sigs) = heard_clean c sigs"
| "heard_clean v (_ # sigs) = heard_clean v sigs"

fun heard_undo :: "bool \<Rightarrow> StackSignal list \<Rightarrow> bool" where
  "heard_undo v [] = v"
| "heard_undo v (canUndoChanged c # sigs) = heard_undo c sigs"
| "heard_undo v (_ # sigs) = heard_undo v sigs"

lemma heard_clean_append [simp]: "heard_clean v (xs @ ys) = heard_clean (heard_clean v xs) ys"
  by (induction v xs rule: heard_clean.induct) simp_all

lemma heard_undo_append [simp]: "heard_undo v (xs @ ys) = heard_undo (heard_undo v xs) ys"
  by (induction v xs rule: heard_undo.induct) simp_all

lemma heard_position [simp]:
  "heard_clean v (position_signals s) = v" "heard_undo v (position_signals s) = canUndo s"
  by (simp_all add: position_signals_def)

text \<open>The mark a stack has inside and outside of macros.\<close>

definition clean_mark :: "('c, 'd) QUndoStack \<Rightarrow> bool" where
  "clean_mark s \<longleftrightarrow> clean_index s = stack_index s"

definition tells_clean :: "('c, 'd) QUndoStack \<Rightarrow> bool" where
  "tells_clean s \<longleftrightarrow> heard_clean True (emitted s) = clean_mark s"

definition tells_undo :: "('c, 'd) QUndoStack \<Rightarrow> bool" where
  "tells_undo s \<longleftrightarrow> heard_undo False (emitted s) = canUndo s"

lemmas tell_defs = tells_clean_def tells_undo_def clean_mark_def canUndo_def

lemma tells_emit_position [simp]:
  "tells_clean (emit (position_signals s) s) = tells_clean s" "tells_undo (emit (position_signals s) s)"
  by (simp_all add: tell_defs)

lemma moveIndex_emitted:
  "emitted (moveIndex i c s) = emitted s @ (if i \<noteq> stack_index s then position_signals (s\<lparr>stack_index := i\<rparr>) else [])
    @ (if (i = (if c then i else clean_index s)) \<noteq> (stack_index s = clean_index s)
       then [cleanChanged (i = (if c then i else clean_index s))] else [])"
  by (simp add: moveIndex_def Let_def)

lemma tells_clean_moveIndex:
  assumes "tells_clean s"
  shows "tells_clean (moveIndex i c s)"
proof -
  define was is_now where "was \<longleftrightarrow> stack_index s = clean_index s" and "is_now \<longleftrightarrow> i = (if c then i else clean_index s)"
  have "heard_clean True (emitted s) = was" using assms by (simp add: tells_clean_def clean_mark_def was_def eq_commute)
  then have "heard_clean True (emitted (moveIndex i c s)) = is_now"
    unfolding moveIndex_emitted was_def [symmetric] is_now_def [symmetric] by simp
  then show ?thesis by (simp add: tells_clean_def clean_mark_def is_now_def eq_commute)
qed

lemma tells_undo_moveIndex: "tells_undo s \<or> i \<noteq> stack_index s \<Longrightarrow> tells_undo (moveIndex i c s)"
  by (auto simp: tells_undo_def moveIndex_emitted canUndo_def)

lemma tells_dropRedo [simp]: "tells_clean (dropRedo s) = tells_clean s" "tells_undo (dropRedo s) = tells_undo s"
  if "0 \<le> stack_index s"
  using that by (auto simp: tell_defs dropRedo_def)

lemma tells_upd [simp]:
  "tells_clean (s\<lparr>command_list := cs\<rparr>) = tells_clean s" "tells_clean (s\<lparr>document := d\<rparr>) = tells_clean s"
  "tells_undo (s\<lparr>command_list := cs\<rparr>) = tells_undo s" "tells_undo (s\<lparr>document := d\<rparr>) = tells_undo s"
  "tells_clean (s\<lparr>macro_depth := k\<rparr>) = tells_clean s"
  by (simp_all add: tell_defs)

lemma tells_on_siblings [simp]: "tells_clean (on_siblings f s) = tells_clean s" "tells_undo (on_siblings f s) = tells_undo s"
  by (simp_all add: tell_defs)

lemma tells_takeObsolete:
  assumes "macro_depth s = 0" "0 \<le> stack_index s"
  shows "tells_clean s \<Longrightarrow> tells_clean (takeObsolete i s)" "tells_undo s \<Longrightarrow> tells_undo (takeObsolete i s)"
  using assms by (auto simp: takeObsolete_def resetClean_def isClean_def tell_defs Let_def)

text \<open>When a command comes on top, the limit never removes the one that makes the index.\<close>

lemma tells_appended:
  assumes "stack_count s = stack_index s + 1" "0 \<le> stack_index s" "clean_index s \<le> stack_index s" "undo_limit s > 0 \<longrightarrow> stack_index s \<le> undo_limit s"
    "macro_depth s = 0" "tells_clean s"
  shows "tells_clean (checkUndoLimit s)"
proof (cases "undo_limit s \<le> 0 \<or> undo_limit s \<ge> stack_count s")
  case True
  then show ?thesis using assms by (auto simp: checkUndoLimit_def)
next
  case False
  then have "stack_count s - undo_limit s = 1" "stack_index s \<ge> 1" using assms by linarith+
  then show ?thesis using assms False by (auto simp: checkUndoLimit_def Let_def tells_clean_def clean_mark_def)
qed

lemma checkUndoLimit_moves: "tells_undo (moveIndex (stack_index (checkUndoLimit s) + 1) c (checkUndoLimit s))"
  by (rule tells_undo_moveIndex) simp

lemma tells_push_new:
  assumes "stack_ok s" "macro_depth s = 0 \<Longrightarrow> stack_count s = stack_index s" "tells_clean s" "tells_undo s"
  shows "tells_clean (push_new cmd s) \<and> tells_undo (push_new cmd s)"
proof (cases "macro_depth s = 0 \<and> \<not> isObsolete cmd")
  case True
  let ?s = "s\<lparr>command_list := command_list s @ [cmd]\<rparr>"
  have "tells_clean (checkUndoLimit ?s)"
    using assms True by (intro tells_appended) (auto simp: stack_ok_def stack_count_def)
  then show ?thesis using True checkUndoLimit_moves [of ?s] by (simp add: push_new_def Let_def tells_clean_moveIndex)
qed (use assms in \<open>auto simp: push_new_def\<close>)

lemma tells_push_merged:
  assumes "tells_clean s" "tells_undo s"
  shows "tells_clean (push_merged cur s) \<and> tells_undo (push_merged cur s)"
  using assms by (auto simp: push_merged_def intro!: tells_clean_moveIndex tells_undo_moveIndex)

lemma tells_push:
  assumes ok: "stack_ok s" and tells: "tells_clean s" "tells_undo s"
  shows "tells_clean (stack_push b cmd s) \<and> tells_undo (stack_push b cmd s)"
proof -
  obtain cmd' d where r: "runRedo b cmd (document s) = (cmd', d)" by fastforce
  define s1 where "s1 = (if macro_depth s \<noteq> 0 then s\<lparr>document := d\<rparr> else dropRedo (s\<lparr>document := d\<rparr>))"
  obtain merged cur where mc: "cmd_mergeWith b (last (siblings s1)) cmd' = (merged, cur)" by fastforce
  define s2 where "s2 = on_siblings (\<lambda>cs. butlast cs @ [cur]) s1"
  have push: "stack_push b cmd s =
    (if try_merge b cmd' s1 then if merged then push_merged cur s2 else push_new cmd' s2 else push_new cmd' s1)"
    using mc by (simp add: stack_push_def Let_def r s1_def s2_def)
  have "0 \<le> stack_index s" using ok by (simp add: stack_ok_def)
  then have t: "tells_clean s1" "tells_undo s1" "stack_ok s1" "macro_depth s1 = 0 \<Longrightarrow> stack_count s1 = stack_index s1"
    using ok tells stack_ok_dropRedo [of "s\<lparr>document := d\<rparr>"] by (auto simp: s1_def)
  show ?thesis
  proof (cases "try_merge b cmd' s1")
    case True
    then have "macro_depth s1 \<noteq> 0 \<or> length (butlast (command_list s1) @ [cur]) = length (command_list s1)"
      by (cases "macro_depth s1") (auto simp: try_merge_def siblings_def)
    then have "stack_ok s2" "stack_count s2 = stack_count s1"
      using stack_ok_on_siblings [where f = "\<lambda>cs. butlast cs @ [cur]", OF t(3)] by (auto simp: s2_def)
    then show ?thesis using push True t tells_push_merged [of s2] tells_push_new [of s2] by (simp add: s2_def)
  next
    case False
    then show ?thesis using push tells_push_new [OF t(3,4,1,2)] by simp
  qed
qed

lemma tells_redo_to:
  "redo_to b i idx s = (i', idx', s') \<Longrightarrow> macro_depth s = 0 \<Longrightarrow> 0 \<le> stack_index s
    \<Longrightarrow> (tells_clean s \<longrightarrow> tells_clean s') \<and> (tells_undo s \<longrightarrow> tells_undo s') \<and> macro_depth s' = 0 \<and> stack_index s' = stack_index s"
proof (induction b i idx s arbitrary: i' idx' s' rule: redo_to.induct)
  case (1 b i idx s)
  show ?case
  proof (cases "i < idx")
    case False
    then show ?thesis using 1(3,4) redo_to_done [of idx i b s] by auto
  next
    case True
    obtain cmd d where r: "runRedo b (command_list s ! nat i) (document s) = (cmd, d)" by fastforce
    define s1 where "s1 = s\<lparr>command_list := (command_list s)[nat i := cmd], document := d\<rparr>"
    have s1: "tells_clean s1 = tells_clean s" "tells_undo s1 = tells_undo s" "macro_depth s1 = 0" "stack_index s1 = stack_index s"
      using 1(4) by (simp_all add: s1_def tell_defs)
    have step: "redo_to b i idx s = (if isObsolete cmd then redo_to b i (idx - 1) (takeObsolete i s1) else redo_to b (i + 1) idx s1)"
      using True r by (subst redo_to.simps) (simp add: s1_def Let_def)
    show ?thesis
    proof (cases "isObsolete cmd")
      case ob: True
      then have "redo_to b i (idx - 1) (takeObsolete i s1) = (i', idx', s')" using 1(3) step by simp
      note IH = 1(1) [OF True refl refl r [symmetric] s1_def ob this]
      show ?thesis using IH 1(5) s1 tells_takeObsolete [OF s1(3), of i] by auto
    next
      case False
      then have "redo_to b (i + 1) idx s1 = (i', idx', s')" using 1(3) step by simp
      note IH = 1(2) [OF True refl refl r [symmetric] s1_def False this]
      show ?thesis using IH 1(5) s1 by auto
    qed
  qed
qed

lemma tells_undo_to:
  "macro_depth s = 0 \<Longrightarrow> 0 \<le> stack_index s
    \<Longrightarrow> (tells_clean s \<longrightarrow> tells_clean (undo_to b i idx s)) \<and> (tells_undo s \<longrightarrow> tells_undo (undo_to b i idx s))"
proof (induction b i idx s rule: undo_to.induct)
  case (1 b i idx s)
  show ?case
  proof (cases "i > idx")
    case False
    then show ?thesis using undo_to_done [of i idx b s] by simp
  next
    case True
    obtain cmd d where r: "cmd_undo b (command_list s ! nat (i - 1)) (document s) = (cmd, d)" by fastforce
    define s1 where "s1 = s\<lparr>command_list := (command_list s)[nat (i - 1) := cmd], document := d\<rparr>"
    define s2 where "s2 = (if isObsolete cmd then takeObsolete (i - 1) s1 else s1)"
    have s1: "tells_clean s1 = tells_clean s" "tells_undo s1 = tells_undo s" "macro_depth s1 = 0" "stack_index s1 = stack_index s"
      using 1(2) by (simp_all add: s1_def tell_defs)
    have s2: "tells_clean s \<longrightarrow> tells_clean s2" "tells_undo s \<longrightarrow> tells_undo s2" "macro_depth s2 = 0" "0 \<le> stack_index s2"
      using s1 1(3) tells_takeObsolete [OF s1(3), of "i - 1"] by (auto simp: s2_def)
    have "undo_to b i idx s = undo_to b (i - 1) idx s2"
      using True r by (subst undo_to.simps) (simp add: s1_def s2_def Let_def)
    then show ?thesis using 1(1) [OF True refl refl r [symmetric] s1_def] s2 by (auto simp: s2_def)
  qed
qed

text \<open>One operation breaks the listener's view: leaving the clean state inside a macro.\<close>

lemma tells_step:
  assumes ok: "stack_ok s" and tells: "tells_clean s" "tells_undo s" and op: "op \<noteq> ResetClean \<or> macro_depth s = 0"
  shows "tells_clean (stack_step b op s) \<and> tells_undo (stack_step b op s)"
proof -
  have ix: "0 \<le> stack_index s" using ok by (simp add: stack_ok_def)
  show ?thesis
  proof (cases op)
    case (Push cmd)
    then show ?thesis using tells_push [OF ok tells] by simp
  next
    case Undo
    show ?thesis
    proof (cases "stack_index s = 0 \<or> macro_depth s \<noteq> 0")
      case True
      then show ?thesis using Undo tells by (auto simp: stack_undo_def)
    next
      case False
      obtain cmd d where r: "runUndo b (command_list s ! nat (stack_index s - 1)) (document s) = (cmd, d)" by fastforce
      define s1 where "s1 = s\<lparr>command_list := (command_list s)[nat (stack_index s - 1) := cmd], document := d\<rparr>"
      have "tells_clean s1" "tells_undo s1" "macro_depth s1 = 0" "0 \<le> stack_index s1"
        using tells ix False by (simp_all add: s1_def tell_defs)
      then show ?thesis using Undo False r tells_takeObsolete [of s1]
        by (auto simp: stack_undo_def Let_def s1_def [symmetric] intro!: tells_clean_moveIndex tells_undo_moveIndex)
    qed
  next
    case Redo
    show ?thesis
    proof (cases "stack_index s = stack_count s \<or> macro_depth s \<noteq> 0")
      case True
      then show ?thesis using Redo tells by (auto simp: stack_redo_def)
    next
      case False
      obtain cmd d where r: "runRedo b (command_list s ! nat (stack_index s)) (document s) = (cmd, d)" by fastforce
      define s1 where "s1 = s\<lparr>command_list := (command_list s)[nat (stack_index s) := cmd], document := d\<rparr>"
      have "tells_clean s1" "tells_undo s1" "macro_depth s1 = 0" "0 \<le> stack_index s1"
        using tells ix False by (simp_all add: s1_def tell_defs)
      then show ?thesis using Redo False r tells_takeObsolete [of s1]
        by (auto simp: stack_redo_def Let_def s1_def [symmetric] intro!: tells_clean_moveIndex tells_undo_moveIndex)
    qed
  next
    case (SetIndex k)
    show ?thesis
    proof (cases "macro_depth s = 0")
      case True
      define idx where "idx = (if k < 0 then 0 else if k > stack_count s then stack_count s else k)"
      obtain i' idx' s' where r: "redo_to b (stack_index s) idx s = (i', idx', s')" by (cases "redo_to b (stack_index s) idx s") auto
      note s' = tells_redo_to [OF r True ix]
      have "tells_clean (undo_to b i' idx' s')" "tells_undo (undo_to b i' idx' s')"
        using tells_undo_to [of s' b i' idx'] s' tells ix by simp_all
      then show ?thesis using SetIndex True r
        by (auto simp: stack_setIndex_def idx_def [symmetric] Let_def intro!: tells_clean_moveIndex tells_undo_moveIndex)
    qed (use SetIndex tells in \<open>simp add: stack_setIndex_def\<close>)
  next
    case SetClean
    then show ?thesis using tells by (auto simp: setClean_def intro: tells_clean_moveIndex tells_undo_moveIndex)
  next
    case ResetClean
    then show ?thesis using tells op ix by (auto simp: resetClean_def Let_def isClean_def tell_defs)
  next
    case Clear
    then show ?thesis using tells by (auto simp: stack_clear_def Let_def tell_defs isClean_def)
  next
    case (BeginMacro t)
    have "tells_clean (beginMacro t s)" using tells ix by (simp add: beginMacro_def Let_def tells_clean_def clean_mark_def dropRedo_def)
    moreover have "tells_undo (beginMacro t s)" using tells by (simp add: beginMacro_def Let_def tells_undo_def canUndo_def dropRedo_def)
    ultimately show ?thesis using BeginMacro by simp
  next
    case EndMacro
    show ?thesis
    proof (cases "macro_depth s = 1")
      case True
      have "tells_clean (checkUndoLimit (s\<lparr>macro_depth := 0\<rparr>))"
        using True ok tells by (intro tells_appended) (auto simp: stack_ok_def)
      then show ?thesis using EndMacro True checkUndoLimit_moves [of "s\<lparr>macro_depth := 0\<rparr>"]
        by (simp add: endMacro_def Let_def tells_clean_moveIndex)
    next
      case False
      then show ?thesis using EndMacro tells by (auto simp: endMacro_def Let_def tells_undo_def canUndo_def)
    qed
  next
    case (SetUndoLimit n)
    have "stack_index s = 0" "clean_index s \<le> 0" if "command_list s = []" using ok that by (auto simp: stack_ok_def stack_count_def)
    then show ?thesis using SetUndoLimit tells
      by (auto simp: setUndoLimit_def checkUndoLimit_def stack_count_def tell_defs)
  qed
qed

end
