(* ===== verification/QUndoStackHistory.thy ===== *)
theory QUndoStackHistory
  imports QUndoStackInv
begin

text \<open>
  The abstract history of a document: for commands whose undo and redo lead to and fro between
  two documents, the stack is a line of documents and its index a position on it. Every operation
  is refined to one on that line.
\<close>

section \<open>Commands that can be reverted\<close>

text \<open>\<open>L c d d'\<close> says of a command of a subclass that it leads from \<open>d\<close> to \<open>d'\<close>; a macro leads
  along its children.\<close>

fun cmd_links :: "('c QUndoCommand \<Rightarrow> 'd \<Rightarrow> 'd \<Rightarrow> bool) \<Rightarrow> 'c QUndoCommand \<Rightarrow> 'd \<Rightarrow> 'd \<Rightarrow> bool"
  and chain_links :: "('c QUndoCommand \<Rightarrow> 'd \<Rightarrow> 'd \<Rightarrow> bool) \<Rightarrow> 'c QUndoCommand list \<Rightarrow> 'd \<Rightarrow> 'd \<Rightarrow> bool" where
  "cmd_links L (QUndoCommand cs t a ob None) d d' \<longleftrightarrow> \<not> ob \<and> chain_links L cs d d'"
| "cmd_links L (QUndoCommand cs t a ob (Some p)) d d' \<longleftrightarrow> \<not> ob \<and> L (QUndoCommand cs t a ob (Some p)) d d'"
| "chain_links L [] d d' \<longleftrightarrow> d = d'"
| "chain_links L (c # cs) d d' \<longleftrightarrow> (\<exists>m. cmd_links L c d m \<and> chain_links L cs m d')"

definition lawful :: "('c, 'd) behaviour \<Rightarrow> ('c QUndoCommand \<Rightarrow> 'd \<Rightarrow> 'd \<Rightarrow> bool) \<Rightarrow> bool" where
  "lawful b L \<longleftrightarrow>
     (\<forall>c d d'. payload c \<noteq> None \<and> cmd_links L c d d'
        \<longrightarrow> (\<exists>c'. b_redo b c d = (c', d') \<and> payload c' \<noteq> None \<and> cmd_links L c' d d')
          \<and> (\<exists>c'. b_undo b c d' = (c', d) \<and> payload c' \<noteq> None \<and> cmd_links L c' d d'))
     \<and> (\<forall>c x d0 d1 d2 merged c'.
          payload c \<noteq> None \<and> cmd_links L c d0 d1 \<and> cmd_links L x d1 d2 \<and> b_mergeWith b c x = (merged, c')
        \<longrightarrow> (if merged then (if isObsolete c' then d2 = d0 else cmd_links L c' d0 d2) else cmd_links L c' d0 d1))"

lemma cmd_links_macro: "payload c = None \<Longrightarrow> cmd_links L c d d' \<longleftrightarrow> \<not> isObsolete c \<and> chain_links L (child_list c) d d'"
  by (cases c) auto

lemma cmd_links_live: "cmd_links L c d d' \<Longrightarrow> \<not> isObsolete c"
  by (cases "(L, c, d, d')" rule: cmd_links.cases) auto

lemma chain_append: "chain_links L (xs @ ys) d d' \<longleftrightarrow> (\<exists>m. chain_links L xs d m \<and> chain_links L ys m d')"
  by (induction xs arbitrary: d) auto

lemma lawful_redo: "lawful b L \<Longrightarrow> payload c \<noteq> None \<Longrightarrow> cmd_links L c d d' \<Longrightarrow> \<exists>c'. b_redo b c d = (c', d') \<and> cmd_links L c' d d'"
  unfolding lawful_def by blast

lemma lawful_undo: "lawful b L \<Longrightarrow> payload c \<noteq> None \<Longrightarrow> cmd_links L c d d' \<Longrightarrow> \<exists>c'. b_undo b c d' = (c', d) \<and> cmd_links L c' d d'"
  unfolding lawful_def by blast

lemma lawful_merge:
  assumes "lawful b L" "payload c \<noteq> None" "cmd_links L c d0 d1" "cmd_links L x d1 d2" "b_mergeWith b c x = (merged, c')"
  shows "if merged then (if isObsolete c' then d2 = d0 else cmd_links L c' d0 d2) else cmd_links L c' d0 d1"
  using assms unfolding lawful_def by blast

lemma redo_links:
  shows "lawful b L \<Longrightarrow> cmd_links L c d d' \<Longrightarrow> \<exists>c'. cmd_redo b c d = (c', d') \<and> cmd_links L c' d d'"
    and "lawful b L \<Longrightarrow> chain_links L cs d d' \<Longrightarrow> \<exists>cs'. children_redo b cs d = (cs', d') \<and> chain_links L cs' d d'"
proof (induction b c d and b cs d arbitrary: d' and d' rule: cmd_redo_children_redo.induct)
  case (2 b cs t a ob p d)
  have "payload (QUndoCommand cs t a ob (Some p)) \<noteq> None" by simp
  from lawful_redo [OF 2(1) this 2(2)] show ?case by simp
next
  case (4 b c cs d)
  then obtain m where m: "cmd_links L c d m" "chain_links L cs m d'" by auto
  obtain c' where c': "cmd_redo b c d = (c', m)" "cmd_links L c' d m" using 4(1) [OF 4(3) m(1)] by blast
  then obtain cs' where "children_redo b cs m = (cs', d')" "chain_links L cs' m d'" using 4(2) [OF _ refl 4(3) m(2)] by auto
  then show ?case using c' by auto
qed fastforce+

lemma undo_links:
  shows "lawful b L \<Longrightarrow> cmd_links L c d d' \<Longrightarrow> \<exists>c'. cmd_undo b c d' = (c', d) \<and> cmd_links L c' d d'"
    and "lawful b L \<Longrightarrow> chain_links L cs d d' \<Longrightarrow> \<exists>cs'. children_undo b cs d' = (cs', d) \<and> chain_links L cs' d d'"
proof (induction b c d' and b cs d' arbitrary: d and d rule: cmd_undo_children_undo.induct)
  case (2 b cs t a ob p d')
  have "payload (QUndoCommand cs t a ob (Some p)) \<noteq> None" by simp
  from lawful_undo [OF 2(1) this 2(2)] show ?case by simp
next
  case (4 b c cs d')
  then obtain m where m: "cmd_links L c d m" "chain_links L cs m d'" by auto
  obtain cs' where cs': "children_undo b cs d' = (cs', m)" "chain_links L cs' m d'" using 4(1) [OF 4(3) m(2)] by blast
  then obtain c' where "cmd_undo b c m = (c', d)" "cmd_links L c' d m" using 4(2) [OF _ refl 4(3) m(1)] by auto
  then show ?case using cs' by auto
qed fastforce+

section \<open>The line of documents\<close>

definition linked :: "('c QUndoCommand \<Rightarrow> 'd \<Rightarrow> 'd \<Rightarrow> bool) \<Rightarrow> (nat \<Rightarrow> 'd) \<Rightarrow> 'c QUndoCommand list \<Rightarrow> bool" where
  "linked L D cs \<longleftrightarrow> (\<forall>k < length cs. cmd_links L (cs ! k) (D k) (D (Suc k)))"

lemma linked_Nil [simp]: "linked L D []"
  by (simp add: linked_def)

lemma linked_snoc [simp]: "linked L D (cs @ [c]) \<longleftrightarrow> linked L D cs \<and> cmd_links L c (D (length cs)) (D (Suc (length cs)))"
  by (auto simp: linked_def nth_append less_Suc_eq)

lemma linked_cong: "(\<And>k. k \<le> length cs \<Longrightarrow> D k = E k) \<Longrightarrow> linked L D cs = linked L E cs"
  by (simp add: linked_def)

lemma linked_take: "linked L D cs \<Longrightarrow> linked L D (take n cs)"
  by (simp add: linked_def)

lemma linked_drop: "linked L D cs \<Longrightarrow> linked L (\<lambda>k. D (k + n)) (drop n cs)"
  by (auto simp: linked_def add.commute)

lemma linked_update: "linked L D cs \<Longrightarrow> cmd_links L c (D k) (D (Suc k)) \<Longrightarrow> linked L D (cs[k := c])"
  by (simp add: linked_def) (metis nth_list_update_eq nth_list_update_neq)

lemma linked_butlast: "linked L D cs \<Longrightarrow> linked L D (butlast cs)"
  by (simp add: linked_def nth_butlast)

text \<open>A change of the innermost children that moves where they lead to moves where the macros lead to.\<close>

lemma chain_on_open:
  "\<lbrakk>chain_links L cs a d; open_ok k cs; \<And>m. chain_links L (open_list k cs) m d \<Longrightarrow> chain_links L (f (open_list k cs)) m d'\<rbrakk>
    \<Longrightarrow> chain_links L (on_open k f cs) a d'"
proof (induction k f cs arbitrary: a rule: on_open.induct)
  case (2 k f cs)
  obtain ys c where cs: "cs = ys @ [c]" "payload c = None" "open_ok k (child_list c)" using 2(3) by (cases cs rule: rev_cases) auto
  then obtain m where m: "chain_links L ys a m" "\<not> isObsolete c" "chain_links L (child_list c) m d"
    using 2(2) by (auto simp: chain_append cmd_links_macro)
  have "chain_links L (on_open k f (child_list c)) m d'" using 2(1) m(3) cs 2(4) by simp
  then show ?case using cs m by (auto simp: chain_append cmd_links_macro)
qed simp

lemma linked_on_siblings:
  assumes "macro_depth s \<noteq> 0" "open_ok (macro_depth s) (command_list s)" "linked L D (command_list s)"
    "\<And>m. chain_links L (siblings s) m (D (length (command_list s))) \<Longrightarrow> chain_links L (f (siblings s)) m d'"
  shows "linked L (D(length (command_list s) := d')) (command_list (on_siblings f s))"
proof -
  obtain k where k: "macro_depth s = Suc k" using assms(1) by (cases "macro_depth s") auto
  obtain ys c where cs: "command_list s = ys @ [c]" "payload c = None" "open_ok k (child_list c)"
    using assms(2) k by (cases "command_list s" rule: rev_cases) auto
  have "chain_links L (on_open k f (child_list c)) (D (length ys)) d'"
    using chain_on_open [OF _ cs(3), of L "D (length ys)" "D (Suc (length ys))" f d'] assms(3,4) cs k
    by (simp add: siblings_def cmd_links_macro)
  moreover have "linked L (D(Suc (length ys) := d')) ys = linked L D ys" by (intro linked_cong) simp
  ultimately show ?thesis using assms(3) cs k by (simp add: on_siblings_def cmd_links_macro)
qed

definition position :: "('c, 'd) QUndoStack \<Rightarrow> nat" where
  "position s = (if macro_depth s = 0 then nat (stack_index s) else length (command_list s))"

definition on_line :: "('c QUndoCommand \<Rightarrow> 'd \<Rightarrow> 'd \<Rightarrow> bool) \<Rightarrow> (nat \<Rightarrow> 'd) \<Rightarrow> 'd \<Rightarrow> ('c, 'd) QUndoStack \<Rightarrow> bool" where
  "on_line L D saved s \<longleftrightarrow> linked L D (command_list s) \<and> document s = D (position s)
     \<and> (0 \<le> clean_index s \<longrightarrow> D (nat (clean_index s)) = saved)"

lemma on_line_moveIndex:
  "macro_depth s = 0 \<Longrightarrow> linked L D (command_list s) \<Longrightarrow> document s = D (nat i) \<Longrightarrow> 0 \<le> clean_index s \<longrightarrow> D (nat (clean_index s)) = saved
    \<Longrightarrow> on_line L D saved (moveIndex i False s)"
  by (simp add: on_line_def position_def)

text \<open>A command comes on top of a stack without undone ones.\<close>

lemma on_line_append:
  assumes "macro_depth s = 0" "stack_count s = stack_index s + 1" "0 \<le> stack_index s" "clean_index s \<le> stack_index s"
    "linked L D (command_list s)" "document s = D (length (command_list s))" "0 \<le> clean_index s \<longrightarrow> D (nat (clean_index s)) = saved"
  shows "\<exists>E. on_line L E saved (moveIndex (stack_index (checkUndoLimit s) + 1) False (checkUndoLimit s))"
proof (cases "undo_limit s \<le> 0 \<or> undo_limit s \<ge> stack_count s")
  case True
  then have "checkUndoLimit s = s" by (auto simp: checkUndoLimit_def)
  moreover have "nat (stack_index s + 1) = length (command_list s)" using assms(2) by (simp add: stack_count_def)
  ultimately show ?thesis using assms by (intro exI [of _ D] on_line_moveIndex) simp_all
next
  case False
  define n where "n = nat (stack_count s - undo_limit s)"
  have n: "int n = stack_count s - undo_limit s" "n \<le> length (command_list s)" using False by (auto simp: n_def stack_count_def)
  have c: "checkUndoLimit s = s\<lparr>command_list := drop n (command_list s), stack_index := stack_index s - int n,
      clean_index := (if clean_index s \<noteq> -1 then if clean_index s < int n then -1 else clean_index s - int n else clean_index s)\<rparr>"
    using False assms(1) n by (simp add: checkUndoLimit_def Let_def n_def)
  have "nat (stack_index s - int n + 1) + n = length (command_list s)" using assms(2) n by (auto simp: stack_count_def)
  then show ?thesis unfolding c using assms linked_drop [OF assms(5), of n]
    by (intro exI [of _ "\<lambda>k. D (k + n)"] on_line_moveIndex) (auto simp flip: nat_add_distrib simp: nat_diff_distrib')
qed

section \<open>Operations on the line\<close>

lemma runRedo_links: "lawful b L \<Longrightarrow> cmd_links L c d d' \<Longrightarrow> \<exists>c'. runRedo b c d = (c', d') \<and> cmd_links L c' d d'"
  using redo_links(1) [of b L c d d'] cmd_links_live [of L c d d'] by (auto simp: runRedo_def)

lemma runUndo_links: "lawful b L \<Longrightarrow> cmd_links L c d d' \<Longrightarrow> \<exists>c'. runUndo b c d' = (c', d) \<and> cmd_links L c' d d'"
  using undo_links(1) [of b L c d d'] cmd_links_live [of L c d d'] by (auto simp: runUndo_def)

lemma merge_links:
  assumes "lawful b L" "cmd_id b c \<noteq> -1" "cmd_links L c d0 d1" "cmd_links L x d1 d2" "cmd_mergeWith b c x = (merged, c')"
  shows "if merged then (if isObsolete c' then d2 = d0 else cmd_links L c' d0 d2) else cmd_links L c' d0 d1"
proof -
  obtain cs t a ob p where c: "c = QUndoCommand cs t a ob (Some p)"
    using assms(2) by (cases "(b, c)" rule: cmd_id.cases) auto
  then show ?thesis using lawful_merge [OF assms(1) _ assms(3,4), of merged c'] assms(5) by simp
qed

lemma on_line_push_new:
  assumes s: "macro_depth s = 0" "stack_count s = stack_index s" "0 \<le> stack_index s" "clean_index s \<le> stack_index s"
    and D: "linked L D (command_list s)" "0 \<le> clean_index s \<longrightarrow> D (nat (clean_index s)) = saved"
    and c: "cmd_links L c (D (nat (stack_index s))) (document s)"
  shows "\<exists>E. on_line L E saved (push_new c s)"
proof -
  define n where "n = length (command_list s)"
  define E where "E = D(Suc n := document s)"
  have n: "nat (stack_index s) = n" using s(2) by (simp add: n_def stack_count_def)
  have "linked L E (command_list s) = linked L D (command_list s)" by (intro linked_cong) (auto simp: E_def n_def)
  moreover have E: "E (Suc n) = document s" "E n = D n" by (simp_all add: E_def)
  ultimately have "linked L E (command_list s @ [c])" using D c n by (simp add: n_def)
  moreover have "0 \<le> clean_index s \<longrightarrow> E (nat (clean_index s)) = saved" using D(2) s(4) n by (auto simp: E_def)
  ultimately have "\<exists>F. on_line L F saved (moveIndex (stack_index (checkUndoLimit (s\<lparr>command_list := command_list s @ [c]\<rparr>)) + 1) False
      (checkUndoLimit (s\<lparr>command_list := command_list s @ [c]\<rparr>)))"
    using s E(1) by (intro on_line_append) (auto simp: n_def stack_count_def)
  then show ?thesis using s(1) cmd_links_live [OF c] by (simp add: push_new_def Let_def)
qed

text \<open>Outside of macros: a command that leads from the current document to \<open>d'\<close>.\<close>

lemma on_line_push_outside:
  assumes law: "lawful b L" and ok: "stack_ok s" and m: "macro_depth s = 0" and line: "on_line L D saved s"
    and c: "cmd_links L c (document s) d'"
  shows "\<exists>E. on_line L E saved (stack_push b c s)"
proof -
  obtain c' where r: "runRedo b c (document s) = (c', d')" "cmd_links L c' (document s) d'" using runRedo_links [OF law c] by blast
  define s1 where "s1 = dropRedo (s\<lparr>document := d'\<rparr>)"
  have s1: "macro_depth s1 = 0" "stack_count s1 = stack_index s" "stack_index s1 = stack_index s" "clean_index s1 \<le> stack_index s"
    "document s1 = d'" "0 \<le> stack_index s"
    using stack_ok_dropRedo [of "s\<lparr>document := d'\<rparr>"] ok m by (simp_all add: s1_def stack_ok_def)
  have D: "linked L D (command_list s1)" "0 \<le> clean_index s1 \<longrightarrow> D (nat (clean_index s1)) = saved" "document s = D (nat (stack_index s))"
    using line m by (auto simp: on_line_def s1_def dropRedo_def position_def intro: linked_take)
  show ?thesis
  proof (cases "try_merge b c' s1")
    case False
    then have "stack_push b c s = push_new c' s1" using r m by (simp add: stack_push_def s1_def Let_def)
    then show ?thesis using on_line_push_new [of s1 L D saved c'] s1 D r by simp
  next
    case True
    obtain ys x where ys: "command_list s1 = ys @ [x]" using True s1 by (cases "command_list s1" rule: rev_cases) (auto simp: try_merge_def siblings_def)
    have x: "cmd_id b x \<noteq> -1" "stack_index s \<noteq> clean_index s1" using True s1 ys by (auto simp: try_merge_def siblings_def)
    have n: "nat (stack_index s) = Suc (length ys)" "nat (stack_index s - 1) = length ys" using s1(2) ys by (auto simp: stack_count_def)
    have lx: "linked L D ys" "cmd_links L x (D (length ys)) (document s)" using D ys n by simp_all
    obtain merged cur where mc: "cmd_mergeWith b x c' = (merged, cur)" by fastforce
    note merge = merge_links [OF law x(1) lx(2) r(2) mc]
    define s2 where "s2 = s1\<lparr>command_list := ys @ [cur]\<rparr>"
    have push: "stack_push b c s = (if merged then push_merged cur s2 else push_new c' s2)"
      using True r m mc ys by (simp add: stack_push_def s1_def [symmetric] Let_def s2_def siblings_def on_siblings_def s1(1))
    have clean: "0 \<le> clean_index s1 \<longrightarrow> nat (clean_index s1) \<le> length ys" using s1(4) x(2) n by auto
    show ?thesis
    proof (cases "merged \<and> isObsolete cur")
      case True
      then have "stack_push b c s = moveIndex (stack_index s - 1) False (s2\<lparr>command_list := ys\<rparr>)"
        using push s1 by (simp add: push_merged_def s2_def)
      moreover have "on_line L D saved \<dots>"
        using merge True lx D(2) n s1 by (intro on_line_moveIndex) (auto simp: s2_def)
      ultimately show ?thesis by auto
    next
      case live: False
      show ?thesis
      proof (cases merged)
        case True
        define E where "E = D(Suc (length ys) := d')"
        have "linked L E ys = linked L D ys" by (intro linked_cong) (simp add: E_def)
        then have "on_line L E saved s2"
          using merge True live lx D(2) n s1 clean by (auto simp: on_line_def s2_def position_def E_def)
        then have "on_line L E saved (emit (position_signals s2) s2)" by (simp add: on_line_def position_def)
        then show ?thesis using push True live s1 by (auto simp: push_merged_def s2_def)
      next
        case False
        then show ?thesis
          using push merge lx D n s1 r on_line_push_new [of s2 L D saved c'] ys by (simp add: s2_def stack_count_def)
      qed
    qed
  qed
qed

text \<open>Inside a macro only the document the open macros lead to changes.\<close>

lemma on_line_on_siblings:
  assumes "macro_depth s \<noteq> 0" "stack_ok s" "linked L D (command_list s)" "0 \<le> clean_index s \<longrightarrow> D (nat (clean_index s)) = saved"
    "\<And>m. chain_links L (siblings s) m (D (length (command_list s))) \<Longrightarrow> chain_links L (f (siblings s)) m (document s)"
  shows "on_line L (D(length (command_list s) := document s)) saved (on_siblings f s)"
proof -
  have "command_list s \<noteq> []" "clean_index s < int (length (command_list s))"
    using assms(1,2) by (auto simp: stack_ok_def stack_count_def)
  moreover have "nat (clean_index s) \<noteq> length (command_list s)" using calculation by (cases "0 \<le> clean_index s") auto
  moreover have "length (command_list (on_siblings f s)) = length (command_list s)"
    using calculation assms(1) by (simp add: on_siblings_def)
  ultimately show ?thesis
    using linked_on_siblings [of s L D f "document s"] assms by (auto simp: on_line_def position_def stack_ok_def)
qed

lemma on_siblings_comp: "open_ok (macro_depth s) (command_list s) \<Longrightarrow> on_siblings g (on_siblings f s) = on_siblings (g \<circ> f) s"
  by (simp add: on_siblings_def on_open_comp)

lemma on_line_push_inside:
  assumes law: "lawful b L" and ok: "stack_ok s" and m: "macro_depth s \<noteq> 0" and line: "on_line L D saved s"
    and c: "cmd_links L c (document s) d'"
  shows "\<exists>E. on_line L E saved (stack_push b c s)"
proof -
  obtain c' where r: "runRedo b c (document s) = (c', d')" "cmd_links L c' (document s) d'" using runRedo_links [OF law c] by blast
  define s1 where "s1 = s\<lparr>document := d'\<rparr>"
  have D: "linked L D (command_list s1)" "0 \<le> clean_index s1 \<longrightarrow> D (nat (clean_index s1)) = saved" "document s = D (length (command_list s1))"
    using line m by (simp_all add: on_line_def s1_def position_def)
  have s1: "macro_depth s1 \<noteq> 0" "stack_ok s1" "document s1 = d'" "open_ok (macro_depth s1) (command_list s1)"
    using ok m by (simp_all add: s1_def) (simp add: stack_ok_def)
  have onl: "\<exists>E. on_line L E saved (on_siblings f s1)"
    if "\<And>d. chain_links L (siblings s1) d (document s) \<Longrightarrow> chain_links L (f (siblings s1)) d d'" for f
    using on_line_on_siblings [OF s1(1,2) D(1,2), of f] that D(3) s1(3) by auto
  have live: "\<not> isObsolete c'" using cmd_links_live [OF r(2)] .
  have new: "push_new c' t = on_siblings (\<lambda>cs. cs @ [c']) t" if "macro_depth t \<noteq> 0" for t :: "('a, 'b) QUndoStack"
    using live that by (simp add: push_new_def)
  show ?thesis
  proof (cases "try_merge b c' s1")
    case False
    then have "stack_push b c s = on_siblings (\<lambda>cs. cs @ [c']) s1" using r m s1 new [of s1] by (simp add: stack_push_def s1_def [symmetric] Let_def)
    then show ?thesis using onl [of "\<lambda>cs. cs @ [c']"] r(2) by (auto simp: chain_append)
  next
    case True
    obtain ys x where ys: "siblings s1 = ys @ [x]" "cmd_id b x \<noteq> -1" using True by (cases "siblings s1" rule: rev_cases) (auto simp: try_merge_def)
    obtain merged cur where mc: "cmd_mergeWith b x c' = (merged, cur)" by fastforce
    note merge = merge_links [OF law ys(2) _ r(2) mc]
    have push: "stack_push b c s = (let s2 = on_siblings (\<lambda>cs. butlast cs @ [cur]) s1 in if merged then push_merged cur s2 else push_new c' s2)"
      using True r m mc ys s1(1) by (simp add: stack_push_def s1_def [symmetric] Let_def)
    consider "merged" "isObsolete cur" | "merged" "\<not> isObsolete cur" | "\<not> merged" by blast
    then show ?thesis
    proof cases
      case 1
      then have "stack_push b c s = on_siblings (butlast \<circ> (\<lambda>cs. butlast cs @ [cur])) s1"
        using push s1 by (simp add: push_merged_def on_siblings_comp)
      then show ?thesis using onl [of "butlast \<circ> (\<lambda>cs. butlast cs @ [cur])"] ys 1 merge by (auto simp: chain_append)
    next
      case 2
      then have "stack_push b c s = on_siblings (\<lambda>cs. butlast cs @ [cur]) s1" using push s1 by (simp add: push_merged_def)
      then show ?thesis using onl [of "\<lambda>cs. butlast cs @ [cur]"] ys 2 merge by (auto simp: chain_append)
    next
      case 3
      then have "stack_push b c s = on_siblings ((\<lambda>cs. cs @ [c']) \<circ> (\<lambda>cs. butlast cs @ [cur])) s1"
        using push s1 new by (simp add: on_siblings_comp)
      then show ?thesis using onl [of "(\<lambda>cs. cs @ [c']) \<circ> (\<lambda>cs. butlast cs @ [cur])"] ys 3 merge r(2) by (auto simp: chain_append)
    qed
  qed
qed

text \<open>The loops of \<open>setIndex\<close> move along the line.\<close>

lemma redo_to_line:
  assumes "lawful b L" "linked L D (command_list s)" "document s = D (nat i)" "0 \<le> i" "idx \<le> stack_count s"
  shows "\<exists>cs. redo_to b i idx s = (max i idx, idx, s\<lparr>command_list := cs, document := D (nat (max i idx))\<rparr>)
    \<and> linked L D cs \<and> length cs = length (command_list s)"
  using assms
proof (induction "nat (idx - i)" arbitrary: i s)
  case 0
  then have "max i idx = i" by simp
  then show ?case using 0 redo_to_done [of idx i b s] by (intro exI [of _ "command_list s"]) simp
next
  case (Suc k)
  then have lt: "i < idx" "nat i < length (command_list s)" by (auto simp: stack_count_def)
  then have "cmd_links L (command_list s ! nat i) (document s) (D (Suc (nat i)))" using Suc.prems by (simp add: linked_def)
  then obtain c where c: "runRedo b (command_list s ! nat i) (document s) = (c, D (Suc (nat i)))"
    "cmd_links L c (D (nat i)) (D (Suc (nat i)))" using runRedo_links [OF Suc.prems(1)] Suc.prems(3) by metis
  define s1 where "s1 = s\<lparr>command_list := (command_list s)[nat i := c], document := D (Suc (nat i))\<rparr>"
  have step: "redo_to b i idx s = redo_to b (i + 1) idx s1"
    using lt c cmd_links_live [OF c(2)] by (subst redo_to.simps) (simp add: s1_def Let_def)
  have s1: "linked L D (command_list s1)" "document s1 = D (nat (i + 1))" "idx \<le> stack_count s1"
    "length (command_list s1) = length (command_list s)"
    using Suc.prems c linked_update by (auto simp: s1_def nat_add_distrib stack_count_def)
  have "\<exists>cs. redo_to b (i + 1) idx s1 = (max (i + 1) idx, idx, s1\<lparr>command_list := cs, document := D (nat (max (i + 1) idx))\<rparr>)
    \<and> linked L D cs \<and> length cs = length (command_list s1)"
    using Suc.hyps(2) Suc.prems(4) s1 by (intro Suc.hyps(1) Suc.prems(1)) auto
  moreover have "max (i + 1) idx = max i idx" using lt by linarith
  ultimately show ?case using step s1(4) by (simp add: s1_def)
qed

lemma undo_to_line:
  assumes "lawful b L" "linked L D (command_list s)" "document s = D (nat i)" "0 \<le> idx" "i \<le> stack_count s"
  shows "\<exists>cs. undo_to b i idx s = s\<lparr>command_list := cs, document := D (nat (min i idx))\<rparr>
    \<and> linked L D cs \<and> length cs = length (command_list s)"
  using assms
proof (induction "nat (i - idx)" arbitrary: i s)
  case 0
  then have "min i idx = i" by simp
  then show ?case using 0 undo_to_done [of i idx b s] by (intro exI [of _ "command_list s"]) simp
next
  case (Suc k)
  define j where "j = nat (i - 1)"
  have j: "i > idx" "Suc j = nat i" "j < length (command_list s)" using Suc by (auto simp: j_def stack_count_def)
  then have "cmd_links L (command_list s ! j) (D j) (document s)"
    using Suc.prems(2) unfolding linked_def Suc.prems(3) j(2) [symmetric] by blast
  then obtain c where c: "cmd_undo b (command_list s ! j) (document s) = (c, D j)" "cmd_links L c (D j) (D (Suc j))"
    using undo_links(1) [OF Suc.prems(1)] Suc.prems(3) j(2) by metis
  define s1 where "s1 = s\<lparr>command_list := (command_list s)[j := c], document := D j\<rparr>"
  have step: "undo_to b i idx s = undo_to b (i - 1) idx s1"
    using j c cmd_links_live [OF c(2)] by (subst undo_to.simps) (simp add: s1_def j_def [symmetric] Let_def)
  have s1: "linked L D (command_list s1)" "document s1 = D (nat (i - 1))" "i - 1 \<le> stack_count s1"
    "length (command_list s1) = length (command_list s)"
    using Suc.prems c linked_update by (auto simp: s1_def j_def stack_count_def)
  have "\<exists>cs. undo_to b (i - 1) idx s1 = s1\<lparr>command_list := cs, document := D (nat (min (i - 1) idx))\<rparr>
    \<and> linked L D cs \<and> length cs = length (command_list s1)"
    using Suc.hyps(2) s1 Suc.prems(4) by (intro Suc.hyps(1) Suc.prems(1)) auto
  moreover have "min (i - 1) idx = min i idx" using j by linarith
  ultimately show ?case using step s1(4) by (simp add: s1_def)
qed

lemma setIndex_line:
  fixes k :: int
  assumes "lawful b L" "stack_ok s" "macro_depth s = 0" "on_line L D saved s"
  defines "idx \<equiv> (if k < 0 then 0 else if k > stack_count s then stack_count s else k)"
  shows "on_line L D saved (stack_setIndex b k s) \<and> document (stack_setIndex b k s) = D (nat idx)
    \<and> stack_index (stack_setIndex b k s) = idx \<and> stack_count (stack_setIndex b k s) = stack_count s"
proof -
  have i: "0 \<le> stack_index s" "stack_index s \<le> stack_count s" "0 \<le> idx" "idx \<le> stack_count s"
    using assms(2) by (auto simp: stack_ok_def idx_def stack_count_def)
  have D: "linked L D (command_list s)" "document s = D (nat (stack_index s))" "0 \<le> clean_index s \<longrightarrow> D (nat (clean_index s)) = saved"
    using assms(3,4) by (auto simp: on_line_def position_def)
  define m where "m = max (stack_index s) idx"
  obtain cs where cs: "redo_to b (stack_index s) idx s = (m, idx, s\<lparr>command_list := cs, document := D (nat m)\<rparr>)"
    "linked L D cs" "length cs = length (command_list s)"
    using redo_to_line [OF assms(1) D(1,2) i(1,4)] by (auto simp: m_def)
  define s1 where "s1 = s\<lparr>command_list := cs, document := D (nat m)\<rparr>"
  have s1: "linked L D (command_list s1)" "document s1 = D (nat m)" "m \<le> stack_count s1"
    using cs i by (simp_all add: s1_def m_def stack_count_def)
  obtain cs' where cs': "undo_to b m idx s1 = s1\<lparr>command_list := cs', document := D (nat (min m idx))\<rparr>" "linked L D cs'"
    "length cs' = length (command_list s1)"
    using undo_to_line [OF assms(1) s1(1,2) i(3) s1(3)] by blast
  have "min m idx = idx" by (simp add: m_def)
  then have "stack_setIndex b k s = moveIndex idx False (s\<lparr>command_list := cs', document := D (nat idx)\<rparr>)"
    using assms(3) cs cs' by (simp add: stack_setIndex_def idx_def [symmetric] Let_def s1_def)
  then show ?thesis using cs' cs D assms(3)
    by (simp add: on_line_def position_def s1_def) (simp add: stack_count_def)
qed

lemma undo_line:
  assumes law: "lawful b L" and ok: "stack_ok s" and line: "on_line L D saved s"
  shows "on_line L D saved (stack_undo b s)"
proof (cases "stack_index s = 0 \<or> macro_depth s \<noteq> 0")
  case True
  then show ?thesis using line by (auto simp: stack_undo_def)
next
  case False
  define j where "j = nat (stack_index s - 1)"
  have j: "Suc j = nat (stack_index s)" "j < length (command_list s)" using ok False by (auto simp: j_def stack_ok_def stack_count_def)
  have D: "linked L D (command_list s)" "document s = D (Suc j)" "0 \<le> clean_index s \<longrightarrow> D (nat (clean_index s)) = saved"
    using line False j by (auto simp: on_line_def position_def)
  then obtain c where c: "runUndo b (command_list s ! j) (document s) = (c, D j)" "cmd_links L c (D j) (D (Suc j))"
    using runUndo_links [OF law] j by (metis linked_def)
  have "stack_undo b s = moveIndex (stack_index s - 1) False (s\<lparr>command_list := (command_list s)[j := c], document := D j\<rparr>)"
    using False c cmd_links_live [OF c(2)] by (simp add: stack_undo_def Let_def j_def [symmetric])
  moreover have "on_line L D saved \<dots>" using D c False by (intro on_line_moveIndex) (auto simp: linked_update j_def)
  ultimately show ?thesis by simp
qed

lemma redo_line:
  assumes law: "lawful b L" and ok: "stack_ok s" and line: "on_line L D saved s"
  shows "on_line L D saved (stack_redo b s)"
proof (cases "stack_index s = stack_count s \<or> macro_depth s \<noteq> 0")
  case True
  then show ?thesis using line by (auto simp: stack_redo_def)
next
  case False
  define j where "j = nat (stack_index s)"
  have j: "j < length (command_list s)" "nat (stack_index s + 1) = Suc j" using ok False by (auto simp: j_def stack_ok_def stack_count_def)
  have D: "linked L D (command_list s)" "document s = D j" "0 \<le> clean_index s \<longrightarrow> D (nat (clean_index s)) = saved"
    using line False by (auto simp: on_line_def position_def j_def)
  then obtain c where c: "runRedo b (command_list s ! j) (document s) = (c, D (Suc j))" "cmd_links L c (D j) (D (Suc j))"
    using runRedo_links [OF law] j by (metis linked_def)
  have "stack_redo b s = moveIndex (stack_index s + 1) False (s\<lparr>command_list := (command_list s)[j := c], document := D (Suc j)\<rparr>)"
    using False c cmd_links_live [OF c(2)] by (simp add: stack_redo_def Let_def j_def [symmetric])
  moreover have "on_line L D saved \<dots>" using D c False j by (intro on_line_moveIndex) (auto simp: linked_update)
  ultimately show ?thesis by simp
qed

text \<open>Outside of macros one undo or redo is one step of the index.\<close>

lemma undo_line_index:
  assumes law: "lawful b L" and ok: "stack_ok s" and line: "on_line L D saved s" and m: "macro_depth s = 0" and i: "0 < stack_index s"
  shows "stack_index (stack_undo b s) = stack_index s - 1 \<and> stack_count (stack_undo b s) = stack_count s \<and> macro_depth (stack_undo b s) = 0"
proof -
  define j where "j = nat (stack_index s - 1)"
  have j: "Suc j = nat (stack_index s)" "j < length (command_list s)" using ok i m by (auto simp: j_def stack_ok_def stack_count_def)
  then have "linked L D (command_list s)" "document s = D (Suc j)" using line m by (auto simp: on_line_def position_def)
  then obtain c where c: "runUndo b (command_list s ! j) (document s) = (c, D j)" "cmd_links L c (D j) (D (Suc j))"
    using runUndo_links [OF law] j by (metis linked_def)
  have "stack_undo b s = moveIndex (stack_index s - 1) False (s\<lparr>command_list := (command_list s)[j := c], document := D j\<rparr>)"
    using i m c cmd_links_live [OF c(2)] by (simp add: stack_undo_def Let_def j_def [symmetric])
  then show ?thesis using m by simp (simp add: stack_count_def)
qed

lemma redo_line_index:
  assumes law: "lawful b L" and ok: "stack_ok s" and line: "on_line L D saved s" and m: "macro_depth s = 0" and i: "stack_index s < stack_count s"
  shows "stack_index (stack_redo b s) = stack_index s + 1 \<and> stack_count (stack_redo b s) = stack_count s \<and> macro_depth (stack_redo b s) = 0"
proof -
  define j where "j = nat (stack_index s)"
  have j: "j < length (command_list s)" using ok i m by (auto simp: j_def stack_ok_def stack_count_def)
  have "linked L D (command_list s)" "document s = D j" using line m by (auto simp: on_line_def position_def j_def)
  then obtain c where c: "runRedo b (command_list s ! j) (document s) = (c, D (Suc j))" "cmd_links L c (D j) (D (Suc j))"
    using runRedo_links [OF law] j by (metis linked_def)
  have "stack_redo b s = moveIndex (stack_index s + 1) False (s\<lparr>command_list := (command_list s)[j := c], document := D (Suc j)\<rparr>)"
    using i m c cmd_links_live [OF c(2)] by (simp add: stack_redo_def Let_def j_def [symmetric])
  then show ?thesis using m by simp (simp add: stack_count_def)
qed

lemma undo_times_line:
  assumes law: "lawful b L"
  shows "\<lbrakk>stack_ok s; on_line L D saved s; macro_depth s = 0; int n \<le> stack_index s\<rbrakk>
    \<Longrightarrow> document ((stack_undo b ^^ n) s) = D (nat (stack_index s - int n))"
proof (induction n arbitrary: s)
  case 0
  then show ?case by (simp add: on_line_def position_def)
next
  case (Suc n)
  have "0 < stack_index s" using Suc.prems(4) by simp
  from undo_line_index [OF law Suc.prems(1-3) this] Suc.prems(4)
  have i: "stack_index (stack_undo b s) = stack_index s - 1" "macro_depth (stack_undo b s) = 0" by simp_all
  have "int n \<le> stack_index (stack_undo b s)" using i(1) Suc.prems(4) by simp
  from Suc.IH [OF stack_ok_undo [OF Suc.prems(1)] undo_line [OF law Suc.prems(1,2)] i(2) this] i(1) show ?case
    by (simp add: funpow_swap1 algebra_simps)
qed

lemma redo_times_line:
  assumes law: "lawful b L"
  shows "\<lbrakk>stack_ok s; on_line L D saved s; macro_depth s = 0; stack_index s + int n \<le> stack_count s\<rbrakk>
    \<Longrightarrow> document ((stack_redo b ^^ n) s) = D (nat (stack_index s + int n))"
proof (induction n arbitrary: s)
  case 0
  then show ?case by (simp add: on_line_def position_def)
next
  case (Suc n)
  have "stack_index s < stack_count s" using Suc.prems(4) by simp
  from redo_line_index [OF law Suc.prems(1-3) this]
  have i: "stack_index (stack_redo b s) = stack_index s + 1" "stack_count (stack_redo b s) = stack_count s"
    "macro_depth (stack_redo b s) = 0" by simp_all
  have "stack_index (stack_redo b s) + int n \<le> stack_count (stack_redo b s)" using i(1,2) Suc.prems(4) by simp
  from Suc.IH [OF stack_ok_redo [OF Suc.prems(1)] redo_line [OF law Suc.prems(1,2)] i(3) this] i(1) show ?case
    by (simp add: funpow_swap1 algebra_simps)
qed

lemma beginMacro_line:
  assumes ok: "stack_ok s" and line: "on_line L D saved s"
  shows "\<exists>E. on_line L E saved (beginMacro t s)"
proof -
  define c where "c = QUndoCommand_new t (None :: 'a option)"
  have c: "cmd_links L c d d" for d by (simp add: c_def QUndoCommand_new_def Let_def)
  have emits: "on_line L E saved (beginMacro t s) = on_line L E saved s2"
    if "s2 = (let s1 = (if macro_depth s = 0 then dropRedo s else s)
      in s1\<lparr>command_list := on_open (macro_depth s1) (\<lambda>cs. cs @ [c]) (command_list s1), macro_depth := macro_depth s1 + 1\<rparr>)" for E s2
    using that by (simp add: beginMacro_def Let_def c_def on_line_def position_def)
  show ?thesis
  proof (cases "macro_depth s = 0")
    case True
    define s1 where "s1 = dropRedo s"
    define n where "n = length (command_list s1)"
    have s1: "macro_depth s1 = 0" "clean_index s1 \<le> int n" "int n = stack_index s" "document s1 = document s"
      using stack_ok_dropRedo [OF ok True] by (auto simp: s1_def n_def stack_count_def)
    have D: "linked L D (command_list s1)" "document s = D n" "0 \<le> clean_index s1 \<longrightarrow> D (nat (clean_index s1)) = saved"
      using line True s1(3) by (auto simp: on_line_def position_def s1_def dropRedo_def intro: linked_take) (metis nat_int)+
    define E where "E = D(Suc n := D n)"
    have "linked L E (command_list s1) = linked L D (command_list s1)" by (intro linked_cong) (simp add: E_def n_def)
    moreover have "E n = D n" "E (Suc n) = D n" "0 \<le> clean_index s1 \<longrightarrow> E (nat (clean_index s1)) = D (nat (clean_index s1))"
      using s1(2) by (auto simp: E_def)
    ultimately have "on_line L E saved (s1\<lparr>command_list := command_list s1 @ [c], macro_depth := 1\<rparr>)"
      using D c s1 by (auto simp: on_line_def position_def n_def [symmetric])
    then show ?thesis using emits [of "s1\<lparr>command_list := command_list s1 @ [c], macro_depth := 1\<rparr>" E] True s1 by (auto simp: Let_def s1_def)
  next
    case False
    have D: "linked L D (command_list s)" "document s = D (length (command_list s))" "0 \<le> clean_index s \<longrightarrow> D (nat (clean_index s)) = saved"
      using line False by (auto simp: on_line_def position_def)
    have "on_line L (D(length (command_list s) := document s)) saved (on_siblings (\<lambda>cs. cs @ [c]) s)"
      using c D(2) by (intro on_line_on_siblings [OF False ok D(1,3)]) (auto simp: chain_append)
    then show ?thesis using emits [of "(on_siblings (\<lambda>cs. cs @ [c]) s)\<lparr>macro_depth := macro_depth s + 1\<rparr>"] False
      by (auto simp: Let_def on_siblings_def on_line_def position_def)
  qed
qed

lemma endMacro_line:
  assumes ok: "stack_ok s" and line: "on_line L D saved s"
  shows "\<exists>E. on_line L E saved (endMacro s)"
proof (cases "macro_depth s = 1")
  case True
  let ?s = "s\<lparr>macro_depth := 0\<rparr>"
  have "\<exists>E. on_line L E saved (moveIndex (stack_index (checkUndoLimit ?s) + 1) False (checkUndoLimit ?s))"
    using ok line True by (intro on_line_append) (auto simp: stack_ok_def on_line_def position_def)
  then show ?thesis using True by (simp add: endMacro_def Let_def)
next
  case False
  then show ?thesis using line by (auto simp: endMacro_def Let_def on_line_def position_def intro!: exI [of _ D])
qed

section \<open>Sessions\<close>

text \<open>
  A user of the stack with reversible commands: the document last declared clean goes along, which
  is the current one at \<open>setClean\<close> and at a \<open>clear\<close> that clears something.
\<close>

definition declared_clean :: "'c StackOp \<Rightarrow> ('c, 'd) QUndoStack \<Rightarrow> 'd \<Rightarrow> 'd" where
  "declared_clean op s saved =
     (case op of
        SetClean \<Rightarrow> (if macro_depth s = 0 then document s else saved)
      | Clear \<Rightarrow> (if command_list s \<noteq> [] then document s else saved)
      | _ \<Rightarrow> saved)"

definition reversible :: "('c QUndoCommand \<Rightarrow> 'd \<Rightarrow> 'd \<Rightarrow> bool) \<Rightarrow> 'c StackOp \<Rightarrow> ('c, 'd) QUndoStack \<Rightarrow> bool" where
  "reversible L op s \<longleftrightarrow> (case op of Push c \<Rightarrow> (\<exists>d'. cmd_links L c (document s) d') | _ \<Rightarrow> True)"

inductive undo_session ::
    "('c, 'd) behaviour \<Rightarrow> ('c QUndoCommand \<Rightarrow> 'd \<Rightarrow> 'd \<Rightarrow> bool) \<Rightarrow> ('c, 'd) QUndoStack \<Rightarrow> 'd \<Rightarrow> bool"
  for b L where
  session_new: "undo_session b L (QUndoStack_new d) d"
| session_step: "undo_session b L s saved \<Longrightarrow> reversible L op s
    \<Longrightarrow> undo_session b L (stack_step b op s) (declared_clean op s saved)"

lemma session_reach: "undo_session b L s saved \<Longrightarrow> stack_reach b s"
  by (induction rule: undo_session.induct) (auto intro: stack_reach.intros)

lemma session_on_line:
  assumes law: "lawful b L"
  shows "undo_session b L s saved \<Longrightarrow> \<exists>D. on_line L D saved s"
proof (induction rule: undo_session.induct)
  case (session_new d)
  show ?case by (intro exI [of _ "\<lambda>_. d"]) (simp add: on_line_def QUndoStack_new_def position_def)
next
  case (session_step s saved op)
  have ok: "stack_ok s" using stack_reach_ok [OF session_reach [OF session_step(1)]] .
  obtain D where D: "on_line L D saved s" using session_step.IH by blast
  show ?case
  proof (cases op)
    case (Push c)
    then show ?thesis
      using session_step(2) on_line_push_outside [OF law ok _ D] on_line_push_inside [OF law ok _ D]
      by (cases "macro_depth s = 0") (auto simp: reversible_def declared_clean_def)
  next
    case (SetIndex k)
    then show ?thesis using setIndex_line [OF law ok _ D, of k] D
      by (cases "macro_depth s = 0") (auto simp: declared_clean_def stack_setIndex_def)
  next
    case SetClean
    then show ?thesis using D ok by (auto simp: declared_clean_def setClean_def on_line_def position_def stack_ok_def)
  next
    case ResetClean
    then show ?thesis using D by (auto simp: declared_clean_def on_line_def position_def)
  next
    case Clear
    show ?thesis
    proof (cases "command_list s = []")
      case True
      then show ?thesis using Clear D by (auto simp: declared_clean_def stack_clear_def)
    qed (use Clear in \<open>auto simp: declared_clean_def stack_clear_def Let_def on_line_def position_def intro!: exI [of _ "\<lambda>_. document s"]\<close>)
  next
    case (SetUndoLimit n)
    then show ?thesis using D by (auto simp: declared_clean_def setUndoLimit_def checkUndoLimit_def stack_count_def on_line_def position_def)
  qed (use D undo_line [OF law ok D] redo_line [OF law ok D] beginMacro_line [OF ok D] endMacro_line [OF ok D]
      in \<open>auto simp: declared_clean_def\<close>)
qed

end
