(* ===== verification/QUndoStackProps.thy ===== *)
theory QUndoStackProps
  imports QUndoStackSignals QUndoStackHistory
begin

text \<open>
  The properties of the undo stack, with an instance of its parameter for the witnesses: commands
  that add an amount to a number, merge by adding their amounts and cancel out at zero.
\<close>

section \<open>An instance of the commands\<close>

definition adder :: "(int, int) behaviour" where
  "adder = \<lparr>b_redo = \<lambda>c d. (c, d + the (payload c)), b_undo = \<lambda>c d. (c, d - the (payload c)), b_id = \<lambda>_. 7,
     b_mergeWith = \<lambda>c x. case payload x of
         None \<Rightarrow> (False, c)
       | Some n \<Rightarrow> (True, QUndoCommand [] (cmd_text c) (actionText c) (the (payload c) + n = 0) (Some (the (payload c) + n)))\<rparr>"

definition adds :: "int QUndoCommand \<Rightarrow> int \<Rightarrow> int \<Rightarrow> bool" where
  "adds c d d' \<longleftrightarrow> d' = d + the (payload c)"

abbreviation add :: "int \<Rightarrow> int QUndoCommand" where
  "add n \<equiv> QUndoCommand [] [] [] False (Some n)"

lemma links_add: "payload c = Some n \<Longrightarrow> cmd_links adds c d d' \<longleftrightarrow> \<not> isObsolete c \<and> d' = d + n"
  by (cases c) (auto simp: adds_def)

lemma lawful_adder: "lawful adder adds"
  unfolding lawful_def
proof (intro conjI allI impI)
  fix c :: "int QUndoCommand" and d d' :: int
  assume c: "payload c \<noteq> None \<and> cmd_links adds c d d'"
  then obtain n where n: "payload c = Some n" "d' = d + n" using links_add by blast
  then show "\<exists>c'. b_redo adder c d = (c', d') \<and> payload c' \<noteq> None \<and> cmd_links adds c' d d'"
    and "\<exists>c'. b_undo adder c d' = (c', d) \<and> payload c' \<noteq> None \<and> cmd_links adds c' d d'"
    using c by (auto simp: adder_def)
next
  fix c x c' :: "int QUndoCommand" and d0 d1 d2 :: int and merged
  assume a: "payload c \<noteq> None \<and> cmd_links adds c d0 d1 \<and> cmd_links adds x d1 d2 \<and> b_mergeWith adder c x = (merged, c')"
  then obtain n where n: "payload c = Some n" "d1 = d0 + n" using links_add by blast
  show "if merged then if isObsolete c' then d2 = d0 else cmd_links adds c' d0 d2 else cmd_links adds c' d0 d1"
  proof (cases "payload x")
    case None
    then show ?thesis using a by (auto simp: adder_def)
  next
    case (Some k)
    then have "d2 = d1 + k" using a links_add by blast
    then show ?thesis using a n Some by (auto simp: adder_def adds_def)
  qed
qed

lemmas undo_stack_eval = stack_push_def stack_undo_def stack_redo_def setClean_def runRedo_def runUndo_def try_merge_def siblings_def
  push_new_def push_merged_def on_siblings_def dropRedo_def checkUndoLimit_def moveIndex_def QUndoStack_new_def adder_def emit_def
  stack_count_def isClean_def declared_clean_def position_signals_def

section \<open>Properties\<close>



text \<open>C1: When commands can be reverted, the document equals the one last declared clean whenever
  the stack says it is clean: through undo, redo, merging, macros, commands that cancel out, the
  undo limit and dropped redo commands.\<close>

theorem clean_means_saved:
  assumes "lawful b L" "undo_session b L s saved" "isClean s"
  shows "document s = saved"
proof -
  obtain D where "on_line L D saved s" using session_on_line [OF assms(1,2)] by blast
  moreover have "stack_ok s" using stack_reach_ok [OF session_reach [OF assms(2)]] .
  ultimately show ?thesis using assms(3) by (auto simp: on_line_def isClean_def position_def stack_ok_def)
qed

lemma session_push:
  assumes "undo_session adder adds s saved"
  shows "undo_session adder adds (stack_step adder (Push (add n)) s) saved"
proof -
  have "cmd_links adds (add n) (document s) (document s + n)" by (simp add: adds_def)
  then have "reversible adds (Push (add n)) s" unfolding reversible_def StackOp.case by blast
  from session_step [OF assms this] show ?thesis by (simp add: declared_clean_def)
qed

theorem clean_means_saved_witness:
  "\<exists>s. undo_session adder adds s 2 \<and> isClean s \<and> stack_count s = 2 \<and> document s = 2"
proof -
  define s1 where "s1 = stack_step adder (Push (add 2)) (QUndoStack_new 0)"
  define s2 where "s2 = stack_step adder SetClean s1"
  define s3 where "s3 = stack_step adder (Push (add 5)) s2"
  define s4 where "s4 = stack_step adder Undo s3"
  note defs = s4_def s3_def s2_def s1_def
  have "undo_session adder adds s1 0" unfolding s1_def by (intro session_push session_new)
  from session_step [OF this, of SetClean] have "undo_session adder adds s2 2"
    by (simp add: s2_def reversible_def declared_clean_def) (simp add: s1_def undo_stack_eval Let_def)
  then have "undo_session adder adds s3 2" unfolding s3_def by (rule session_push)
  from session_step [OF this, of Undo] have s4: "undo_session adder adds s4 2"
    by (simp add: s4_def reversible_def declared_clean_def)
  have "isClean s4" "stack_count s4 = 2" by (simp_all add: defs undo_stack_eval Let_def)
  then show ?thesis using clean_means_saved [OF lawful_adder s4] s4 by blast
qed

text \<open>C12: Outside of macros, with commands that can be reverted, \<open>setIndex\<close> puts the index to its
  argument within the bounds of the list and runs the commands between: the document is the one that
  so many calls of \<open>redo\<close>, or of \<open>undo\<close>, lead to. Setting the index back restores the document.\<close>

theorem setIndex_there_and_back:
  assumes "lawful b L" "undo_session b L s saved" "macro_depth s = 0" "i = max 0 (min k (stack_count s))"
  shows "stack_index (stack_setIndex b k s) = i
    \<and> document (stack_setIndex b k s)
        = (if stack_index s \<le> i then document ((stack_redo b ^^ nat (i - stack_index s)) s)
           else document ((stack_undo b ^^ nat (stack_index s - i)) s))
    \<and> document (stack_setIndex b (stack_index s) (stack_setIndex b k s)) = document s
    \<and> stack_index (stack_setIndex b (stack_index s) (stack_setIndex b k s)) = stack_index s"
proof -
  obtain D where D: "on_line L D saved s" using session_on_line [OF assms(1,2)] by blast
  have ok: "stack_ok s" using stack_reach_ok [OF session_reach [OF assms(2)]] .
  have b: "0 \<le> stack_index s" "stack_index s \<le> stack_count s" using ok by (auto simp: stack_ok_def)
  define t where "t = stack_setIndex b k s"
  have t: "on_line L D saved t" "stack_index t = i" "stack_count t = stack_count s" "document t = D (nat i)"
    using setIndex_line [OF assms(1) ok assms(3) D, of k] b assms(4) by (auto simp: t_def)
  have m: "stack_ok t" "macro_depth t = 0"
    using stack_ok_setIndex [OF ok, of b k] assms(3) by (simp_all add: t_def)
  have "document s = D (nat (stack_index s))" using D assms(3) by (simp add: on_line_def position_def)
  then have restored: "document (stack_setIndex b (stack_index s) t) = document s"
    "stack_index (stack_setIndex b (stack_index s) t) = stack_index s"
    using setIndex_line [OF assms(1) m t(1), of "stack_index s"] t b by simp_all
  have i: "0 \<le> i" "i \<le> stack_count s" using assms(4) b by auto
  have "D (nat i) = (if stack_index s \<le> i then document ((stack_redo b ^^ nat (i - stack_index s)) s)
           else document ((stack_undo b ^^ nat (stack_index s - i)) s))"
    using redo_times_line [OF assms(1) ok D assms(3), of "nat (i - stack_index s)"]
      undo_times_line [OF assms(1) ok D assms(3), of "nat (stack_index s - i)"] i by simp
  then show ?thesis using t(2,4) restored by (simp add: t_def [symmetric])
qed

theorem setIndex_there_and_back_witness:
  "\<exists>s. stack_index s = 2 \<and> document s = 5 \<and> document (stack_setIndex adder 0 s) = 0
    \<and> document (stack_setIndex adder 2 (stack_setIndex adder 0 s)) = 5"
proof -
  define c where "c = (\<lambda>n :: int. QUndoCommand [add n] [] [] False (None :: int option))"
  define s1 where "s1 = stack_step adder (Push (c 2)) (QUndoStack_new 0)"
  define s2 where "s2 = stack_step adder (Push (c 3)) s1"
  have "cmd_links adds (c n) d (d + n)" for n d by (simp add: c_def adds_def)
  then have "reversible adds (Push (c n)) s" for n s unfolding reversible_def StackOp.case by blast
  then have "undo_session adder adds s2 0"
    using session_step [OF session_step [OF session_new [of adder adds 0]], of "Push (c 2)" "Push (c 3)"]
    by (simp add: s1_def s2_def declared_clean_def)
  moreover have s2: "macro_depth s2 = 0" "stack_index s2 = 2" "document s2 = 5" "document (stack_setIndex adder 0 s2) = 0"
    by (simp_all add: s2_def s1_def c_def undo_stack_eval Let_def stack_setIndex_def redo_to.simps undo_to.simps)
  ultimately show ?thesis using setIndex_there_and_back [OF lawful_adder, of s2 0 0 0] by (auto simp: stack_count_def)
qed

text \<open>The states without \<open>resetClean\<close> inside a macro.\<close>

inductive audible :: "('c, 'd) behaviour \<Rightarrow> ('c, 'd) QUndoStack \<Rightarrow> bool" for b where
  audible_new: "audible b (QUndoStack_new d)"
| audible_step: "audible b s \<Longrightarrow> op \<noteq> ResetClean \<or> macro_depth s = 0 \<Longrightarrow> audible b (stack_step b op s)"

lemma audible_tells: "audible b s \<Longrightarrow> stack_ok s \<and> tells_clean s \<and> tells_undo s"
proof (induction rule: audible.induct)
  case (audible_new d)
  show ?case by (simp add: tell_defs) (simp add: QUndoStack_new_def)
qed (use tells_step stack_ok_step in blast)

text \<open>C13: A listener that only hears the signals knows outside of macros whether the stack is clean and
  whether it can undo, after any operations with any commands, as long as \<open>resetClean\<close> is not
  called inside a macro.\<close>

theorem signals_tell:
  assumes "audible b s" "macro_depth s = 0"
  shows "heard_clean True (emitted s) = isClean s \<and> heard_undo False (emitted s) = canUndo s"
  using audible_tells [OF assms(1)] assms(2) by (simp add: tells_clean_def tells_undo_def clean_mark_def isClean_def)

theorem signals_tell_witness:
  "\<exists>s. audible adder s \<and> \<not> isClean s \<and> \<not> heard_clean True (emitted s) \<and> heard_undo False (emitted s)"
proof -
  define s where "s = stack_step adder (Push (add 5)) (QUndoStack_new 0)"
  have r: "audible adder s" unfolding s_def by (intro audible_step audible_new) simp
  have "macro_depth s = 0" "\<not> isClean s" "stack_index s = 1" by (simp_all add: s_def undo_stack_eval Let_def)
  then show ?thesis using signals_tell [OF r] r by (auto simp: canUndo_def)
qed

text \<open>Operations that do not leave the macro they start in.\<close>

fun in_macro :: "('c, 'd) behaviour \<Rightarrow> 'c StackOp list \<Rightarrow> ('c, 'd) QUndoStack \<Rightarrow> bool" where
  "in_macro b [] s \<longleftrightarrow> macro_depth s \<noteq> 0"
| "in_macro b (op # ops) s \<longleftrightarrow> macro_depth s \<noteq> 0 \<and> in_macro b ops (stack_step b op s)"

lemma in_macro_step:
  assumes "macro_depth s \<noteq> 0" "macro_depth (stack_step b op s) \<noteq> 0"
  shows "clean_index (stack_step b op s) = (if op = ResetClean then -1 else clean_index s)
    \<and> heard_clean True (emitted (stack_step b op s)) = heard_clean True (emitted s)"
proof (cases op)
  case (Push c)
  then show ?thesis using assms
    by (auto simp: stack_push_def push_new_def push_merged_def on_siblings_def Let_def split: prod.splits)
qed (use assms in \<open>auto simp: stack_undo_def stack_redo_def stack_setIndex_def setClean_def resetClean_def isClean_def
    stack_clear_def beginMacro_def endMacro_def setUndoLimit_def checkUndoLimit_def Let_def split: if_splits\<close>)

lemma in_macro_run:
  assumes "stack_ok s" "in_macro b ops s"
  shows "stack_ok (fold (stack_step b) ops s)
    \<and> clean_index (fold (stack_step b) ops s) = (if ResetClean \<in> set ops then -1 else clean_index s)
    \<and> heard_clean True (emitted (fold (stack_step b) ops s)) = heard_clean True (emitted s)"
  using assms
proof (induction ops arbitrary: s)
  case (Cons op ops)
  let ?s = "stack_step b op s"
  have i: "macro_depth s \<noteq> 0" "in_macro b ops ?s" using Cons.prems(2) by simp_all
  then have "macro_depth ?s \<noteq> 0" by (cases ops) simp_all
  from in_macro_step [OF i(1) this] Cons.IH [OF stack_ok_step [OF Cons.prems(1)] i(2)] show ?case by auto
qed simp

text \<open>C35: Leaving the clean state by \<open>resetClean\<close> inside a macro is never announced: whatever else the
  macro does, when it ends, the stack is not clean and the listener still believes that it is.\<close>

theorem reset_in_macro_silent:
  assumes "audible b s" "isClean s" "in_macro b ops (beginMacro t s)" "ResetClean \<in> set ops"
    "u = fold (stack_step b) ops (beginMacro t s)" "macro_depth u = 1"
  shows "\<not> isClean (endMacro u) \<and> heard_clean True (emitted (endMacro u))"
proof -
  have s: "stack_ok s" "macro_depth s = 0" "heard_clean True (emitted s)"
    using audible_tells [OF assms(1)] assms(2) by (auto simp: isClean_def tell_defs)
  have "heard_clean True (emitted (beginMacro t s))" using s by (simp add: beginMacro_def Let_def dropRedo_def)
  with in_macro_run [OF stack_ok_beginMacro [OF s(1)] assms(3)] assms(4)
  have u: "stack_ok u" "clean_index u = -1" "heard_clean True (emitted u)" by (simp_all add: assms(5))
  define v where "v = checkUndoLimit (u\<lparr>macro_depth := 0\<rparr>)"
  have "0 \<le> stack_index v" using u(1) assms(6) by (auto simp: v_def checkUndoLimit_def stack_ok_def Let_def)
  moreover have "clean_index v = -1" "heard_clean True (emitted v)" using u by (simp_all add: v_def checkUndoLimit_def Let_def)
  moreover have "endMacro u = moveIndex (stack_index v + 1) False v" using assms(6) by (simp add: endMacro_def Let_def v_def)
  ultimately show ?thesis by (auto simp: isClean_def moveIndex_emitted)
qed

theorem reset_in_macro_silent_witness:
  "\<exists>u :: (int, int) QUndoStack. stack_count (endMacro u) = 1 \<and> \<not> isClean (endMacro u) \<and> heard_clean True (emitted (endMacro u))"
proof -
  define s :: "(int, int) QUndoStack" where "s = QUndoStack_new 0"
  define ops where "ops = [Push (add 5), ResetClean, BeginMacro ''n'', Push (add 6), EndMacro]"
  define u where "u = fold (stack_step adder) ops (beginMacro ''m'' s)"
  have s: "audible adder s" "isClean s" by (simp_all add: s_def audible_new) (simp add: isClean_def QUndoStack_new_def)
  have o: "in_macro adder ops (beginMacro ''m'' s)" "macro_depth u = 1" "stack_count (endMacro u) = 1"
    unfolding u_def ops_def s_def by code_simp+
  have "ResetClean \<in> set ops" by (simp add: ops_def)
  from reset_in_macro_silent [OF s o(1) this u_def o(2)] o(3) show ?thesis by blast
qed

text \<open>C28: When the only command that could be redone turns out obsolete, \<open>redo\<close> deletes it: the stack
  cannot redo any more and no signal has been emitted.\<close>

theorem redo_obsolete_silent:
  assumes "stack_ok s" "canRedo s" "stack_count s = stack_index s + 1" "clean_index s \<le> stack_index s"
    "isObsolete (fst (runRedo b (command_list s ! nat (stack_index s)) (document s)))"
  shows "\<not> canRedo (stack_redo b s) \<and> emitted (stack_redo b s) = emitted s"
proof -
  obtain c d where r: "runRedo b (command_list s ! nat (stack_index s)) (document s) = (c, d)" by fastforce
  define s1 where "s1 = s\<lparr>command_list := (command_list s)[nat (stack_index s) := c], document := d\<rparr>"
  have "stack_redo b s = takeObsolete (stack_index s) s1"
    using assms r by (simp add: stack_redo_def canRedo_def Let_def s1_def)
  moreover have "0 \<le> stack_index s" "stack_count s1 = stack_count s" using assms(1) by (simp_all add: stack_ok_def s1_def stack_count_def)
  ultimately show ?thesis using assms takeObsolete_count [of "stack_index s" s1]
    by (simp add: canRedo_def) (simp add: takeObsolete_def s1_def Let_def)
qed

theorem redo_obsolete_silent_witness:
  "\<exists>s. canRedo s \<and> \<not> canRedo (stack_redo adder s) \<and> emitted (stack_redo adder s) = emitted s"
proof -
  define s :: "(int, int) QUndoStack" where "s = (QUndoStack_new 0)\<lparr>command_list := [QUndoCommand [] [] [] True (Some (1 :: int))]\<rparr>"
  have "stack_ok s" "canRedo s" "stack_count s = stack_index s + 1" "clean_index s \<le> stack_index s"
    "isObsolete (fst (runRedo adder (command_list s ! nat (stack_index s)) (document s)))"
    by (simp_all add: s_def QUndoStack_new_def stack_ok_def canRedo_def stack_count_def runRedo_def)
  then show ?thesis using redo_obsolete_silent by blast
qed

section \<open>Where the code and its documentation part\<close>

text \<open>\<open>clear\<close> is documented to return to the clean state; on an empty stack it does nothing.\<close>

lemma clear_empty_keeps_unclean: "\<not> isClean (stack_clear (resetClean (QUndoStack_new d)))"
  by (simp add: stack_clear_def isClean_def) (simp add: QUndoStack_new_def)

text \<open>\<open>setIndex\<close> is documented to call \<open>undo()\<close> repeatedly; \<open>undo()\<close> does not run an obsolete command,
  \<open>setIndex\<close> does.\<close>

lemma setIndex_runs_obsolete:
  assumes "stack_ok s" "macro_depth s = 0" "0 < stack_index s" "isObsolete (command_list s ! nat (stack_index s - 1))"
  shows "document (stack_undo b s) = document s"
    and "document (stack_setIndex b (stack_index s - 1) s) = snd (cmd_undo b (command_list s ! nat (stack_index s - 1)) (document s))"
  using assms undo_to_done [of "stack_index s - 1" "stack_index s - 1" b] redo_to_done [of "stack_index s - 1" "stack_index s" b s]
  by (auto simp: stack_undo_def runUndo_def Let_def stack_setIndex_def undo_to.simps [of b "stack_index s"] stack_ok_def split: prod.splits)

end
