(* ===== verification/QHash.thy ===== *)
theory QHash
  imports Prelude "HOL-Library.Monad_Syntax"
begin

text \<open>
  \<open>src/corelib/tools/qhash.h\<close>: the hash table of QHash. Nodes live in spans of 128 buckets, each with an
  array of offsets and a store of entries threaded by a free list; the table probes linearly over
  the buckets of all spans and closes the hole an erased node leaves. A \<open>Bucket\<close> is the number of
  its span and the index in it. \<open>calculateHash\<close> is a parameter, keys are compared with equality;
  reading the storage of an entry as what it does not hold is unspecified. The search loops have no
  bound in the code and none here.
\<close>

section \<open>Span\<close>

definition NEntries :: nat where "NEntries = 128"
definition SpanShift :: nat where "SpanShift = 7"
definition LocalBucketMask :: nat where "LocalBucketMask = 127"
definition UnusedEntry :: nat where "UnusedEntry = 255"

text \<open>The storage of an entry: the next free entry or a node.\<close>

datatype 'n Entry = FreeEntry nat | NodeEntry (entry_node: 'n)

fun entry_nextFree :: "'n Entry \<Rightarrow> nat" where
  "entry_nextFree (FreeEntry k) = k"
| "entry_nextFree (NodeEntry n) = UnusedEntry"

record 'n Span =
  offsets :: "nat list"
  entries :: "'n Entry list"
  allocated :: nat
  nextFree :: nat

definition Span_new :: "'n Span" where
  "Span_new = \<lparr>offsets = replicate NEntries UnusedEntry, entries = [], allocated = 0, nextFree = 0\<rparr>"

definition span_hasNode :: "nat \<Rightarrow> 'n Span \<Rightarrow> bool" where
  "span_hasNode i s \<longleftrightarrow> offsets s ! i \<noteq> UnusedEntry"

definition span_offset :: "nat \<Rightarrow> 'n Span \<Rightarrow> nat" where
  "span_offset i s = offsets s ! i"

definition span_atOffset :: "nat \<Rightarrow> 'n Span \<Rightarrow> 'n" where
  "span_atOffset off s = entry_node (entries s ! off)"

definition span_at :: "nat \<Rightarrow> 'n Span \<Rightarrow> 'n" where
  "span_at i s = entry_node (entries s ! (offsets s ! i))"

definition addStorage :: "'n Span \<Rightarrow> 'n Span" where
  "addStorage s =
     (let alloc = (if allocated s = 0 then NEntries div 8 * 3
                   else if allocated s = NEntries div 8 * 3 then NEntries div 8 * 5
                   else allocated s + NEntries div 8)
      in s\<lparr>entries := entries s @ map (\<lambda>i. FreeEntry ((i + 1) mod 256)) [allocated s..<alloc],
           allocated := alloc mod 256\<rparr>)"

text \<open>The node is the one the caller constructs in place.\<close>

definition span_insert :: "nat \<Rightarrow> 'n \<Rightarrow> 'n Span \<Rightarrow> 'n Span" where
  "span_insert i n s =
     (let s = (if nextFree s = allocated s then addStorage s else s);
          entry = nextFree s
      in s\<lparr>nextFree := entry_nextFree (entries s ! entry), offsets := (offsets s)[i := entry],
           entries := (entries s)[entry := NodeEntry n]\<rparr>)"

definition span_erase :: "nat \<Rightarrow> 'n Span \<Rightarrow> 'n Span" where
  "span_erase i s =
     (let entry = offsets s ! i
      in s\<lparr>offsets := (offsets s)[i := UnusedEntry], entries := (entries s)[entry := FreeEntry (nextFree s)],
           nextFree := entry\<rparr>)"

definition span_moveLocal :: "nat \<Rightarrow> nat \<Rightarrow> 'n Span \<Rightarrow> 'n Span" where
  "span_moveLocal src dst s = s\<lparr>offsets := ((offsets s)[dst := offsets s ! src])[src := UnusedEntry]\<rparr>"

text \<open>The span that receives the node, and the one that gave it.\<close>

definition span_moveFromSpan :: "'n Span \<Rightarrow> nat \<Rightarrow> nat \<Rightarrow> 'n Span \<Rightarrow> 'n Span \<times> 'n Span" where
  "span_moveFromSpan fromSpan fromIndex dst s =
     (let s = (if nextFree s = allocated s then addStorage s else s);
          toEntry = nextFree s;
          fromOffset = offsets fromSpan ! fromIndex
      in (s\<lparr>offsets := (offsets s)[dst := toEntry], nextFree := entry_nextFree (entries s ! toEntry),
            entries := (entries s)[toEntry := NodeEntry (entry_node (entries fromSpan ! fromOffset))]\<rparr>,
          fromSpan\<lparr>offsets := (offsets fromSpan)[fromIndex := UnusedEntry],
                   entries := (entries fromSpan)[fromOffset := FreeEntry (nextFree fromSpan)],
                   nextFree := fromOffset\<rparr>))"

section \<open>GrowthPolicy\<close>

fun bit_length :: "nat \<Rightarrow> nat" where
  "bit_length v = (if v = 0 then 0 else Suc (bit_length (v div 2)))"

declare bit_length.simps [simp del]

definition qCountLeadingZeroBits :: "nat \<Rightarrow> nat" where
  "qCountLeadingZeroBits v = 64 - bit_length v"

definition bucketsForCapacity :: "nat \<Rightarrow> nat" where
  "bucketsForCapacity requestedCapacity =
     (if requestedCapacity \<le> 64 then NEntries
      else let count = qCountLeadingZeroBits requestedCapacity
           in if count < 2 then 2 ^ 64 - 1 else push_bit (64 - count + 1) 1)"

definition bucketForHash :: "nat \<Rightarrow> 64 word \<Rightarrow> nat" where
  "bucketForHash nBuckets h = unat (h AND (of_nat nBuckets - 1))"

section \<open>Data\<close>

record ('k, 'v) Node =
  node_key :: 'k
  node_value :: 'v

record ('k, 'v) Data =
  data_size :: nat
  numBuckets :: nat
  seed :: "64 word"
  spans :: "('k, 'v) Node Span list"

type_synonym Bucket = "nat \<times> nat"

definition Bucket_at :: "nat \<Rightarrow> Bucket" where
  "Bucket_at b = (drop_bit SpanShift b, b AND LocalBucketMask)"

fun toBucketIndex :: "Bucket \<Rightarrow> nat" where
  "toBucketIndex (s, i) = push_bit SpanShift s OR i"

fun advanceWrapped :: "('k, 'v) Data \<Rightarrow> Bucket \<Rightarrow> Bucket" where
  "advanceWrapped d (s, i) =
     (if i + 1 = NEntries
      then if s + 1 = drop_bit SpanShift (numBuckets d) then (0, 0) else (s + 1, 0)
      else (s, i + 1))"

fun bucket_isUnused :: "('k, 'v) Data \<Rightarrow> Bucket \<Rightarrow> bool" where
  "bucket_isUnused d (s, i) = (\<not> span_hasNode i (spans d ! s))"

fun bucket_node :: "('k, 'v) Data \<Rightarrow> Bucket \<Rightarrow> ('k, 'v) Node" where
  "bucket_node d (s, i) = span_at i (spans d ! s)"

fun bucket_insert :: "Bucket \<Rightarrow> ('k, 'v) Node \<Rightarrow> ('k, 'v) Data \<Rightarrow> ('k, 'v) Data" where
  "bucket_insert (s, i) n d = d\<lparr>spans := (spans d)[s := span_insert i n (spans d ! s)]\<rparr>"

definition allocateSpans :: "nat \<Rightarrow> 'n Span list" where
  "allocateSpans nBuckets = replicate (drop_bit SpanShift nBuckets) Span_new"

definition Data_new :: "64 word \<Rightarrow> nat \<Rightarrow> ('k, 'v) Data" where
  "Data_new globalSeed reserve =
     (let nBuckets = bucketsForCapacity reserve
      in \<lparr>data_size = 0, numBuckets = nBuckets, seed = globalSeed, spans = allocateSpans nBuckets\<rparr>)"

definition shouldGrow :: "('k, 'v) Data \<Rightarrow> bool" where
  "shouldGrow d \<longleftrightarrow> data_size d \<ge> drop_bit 1 (numBuckets d)"

text \<open>The first bucket of a key; the parameter is \<open>calculateHash\<close>.\<close>

definition bucket_of_key :: "('k \<Rightarrow> 64 word \<Rightarrow> 64 word) \<Rightarrow> ('k, 'v) Data \<Rightarrow> 'k \<Rightarrow> Bucket" where
  "bucket_of_key calculateHash d key = Bucket_at (bucketForHash (numBuckets d) (calculateHash key (seed d)))"

partial_function (option) findBucket_loop :: "('k, 'v) Data \<Rightarrow> 'k \<Rightarrow> Bucket \<Rightarrow> Bucket option" where
  "findBucket_loop d key b =
     (if bucket_isUnused d b then Some b
      else if node_key (bucket_node d b) = key then Some b
      else findBucket_loop d key (advanceWrapped d b))"

declare findBucket_loop.simps [code]

definition findBucket :: "('k \<Rightarrow> 64 word \<Rightarrow> 64 word) \<Rightarrow> ('k, 'v) Data \<Rightarrow> 'k \<Rightarrow> Bucket option" where
  "findBucket calculateHash d key = findBucket_loop d key (bucket_of_key calculateHash d key)"

definition findNode :: "('k \<Rightarrow> 64 word \<Rightarrow> 64 word) \<Rightarrow> ('k, 'v) Data \<Rightarrow> 'k \<Rightarrow> ('k, 'v) Node option option" where
  "findNode calculateHash d key =
     map_option (\<lambda>b. if bucket_isUnused d b then None else Some (bucket_node d b)) (findBucket calculateHash d key)"

text \<open>The nodes of the spans in the order of their buckets.\<close>

definition span_nodes :: "'n Span \<Rightarrow> 'n list" where
  "span_nodes s = map (\<lambda>i. span_at i s) (filter (\<lambda>i. span_hasNode i s) [0..<NEntries])"

fun reinsert :: "('k \<Rightarrow> 64 word \<Rightarrow> 64 word) \<Rightarrow> ('k, 'v) Node list \<Rightarrow> ('k, 'v) Data \<Rightarrow> ('k, 'v) Data option" where
  "reinsert calculateHash [] d = Some d"
| "reinsert calculateHash (n # ns) d =
     do { b \<leftarrow> findBucket calculateHash d (node_key n); reinsert calculateHash ns (bucket_insert b n d) }"

definition rehash :: "('k \<Rightarrow> 64 word \<Rightarrow> 64 word) \<Rightarrow> nat \<Rightarrow> ('k, 'v) Data \<Rightarrow> ('k, 'v) Data option" where
  "rehash calculateHash sizeHint d =
     (let sizeHint = (if sizeHint = 0 then data_size d else sizeHint);
          newBucketCount = bucketsForCapacity sizeHint
      in reinsert calculateHash (concat (map span_nodes (spans d)))
           (d\<lparr>spans := allocateSpans newBucketCount, numBuckets := newBucketCount\<rparr>))"

text \<open>The copies: bucket by bucket, or into a table for another capacity.\<close>

definition span_copy :: "'n Span \<Rightarrow> 'n Span" where
  "span_copy s = fold (\<lambda>i t. if span_hasNode i s then span_insert i (span_at i s) t else t) [0..<NEntries] Span_new"

definition Data_copy :: "('k, 'v) Data \<Rightarrow> ('k, 'v) Data" where
  "Data_copy d = d\<lparr>spans := map span_copy (spans d)\<rparr>"

definition Data_copyReserved ::
    "('k \<Rightarrow> 64 word \<Rightarrow> 64 word) \<Rightarrow> ('k, 'v) Data \<Rightarrow> nat \<Rightarrow> ('k, 'v) Data option" where
  "Data_copyReserved calculateHash d reserved =
     (let nBuckets = bucketsForCapacity (max (data_size d) reserved)
      in reinsert calculateHash (concat (map span_nodes (spans d)))
           (d\<lparr>spans := allocateSpans nBuckets, numBuckets := nBuckets\<rparr>))"

text \<open>The bucket and whether it held a node; otherwise it now holds the one given.\<close>

definition findOrInsert ::
    "('k \<Rightarrow> 64 word \<Rightarrow> 64 word) \<Rightarrow> ('k, 'v) Node \<Rightarrow> ('k, 'v) Data \<Rightarrow> (Bucket \<times> bool \<times> ('k, 'v) Data) option" where
  "findOrInsert calculateHash n d =
     do {
       it \<leftarrow> (if numBuckets d > 0 then findBucket calculateHash d (node_key n) else Some (0, 0));
       if numBuckets d > 0 \<and> \<not> bucket_isUnused d it then Some (it, True, d)
       else do {
         (it, d) \<leftarrow> (if shouldGrow d
                    then do {
                      d \<leftarrow> rehash calculateHash (data_size d + 1) d;
                      it \<leftarrow> findBucket calculateHash d (node_key n);
                      Some (it, d)
                    }
                    else Some (it, d));
         Some (it, False, (bucket_insert it n d)\<lparr>data_size := data_size d + 1\<rparr>)
       }
     }"

section \<open>erase\<close>

text \<open>Whether the walk from the first bucket of a node reaches the hole before the node itself.\<close>

partial_function (option) passesHole :: "('k, 'v) Data \<Rightarrow> Bucket \<Rightarrow> Bucket \<Rightarrow> Bucket \<Rightarrow> bool option" where
  "passesHole d newBucket nxt hole =
     (if newBucket = nxt then Some False
      else if newBucket = hole then Some True
      else passesHole d (advanceWrapped d newBucket) nxt hole)"

declare passesHole.simps [code]

fun moveNode :: "Bucket \<Rightarrow> Bucket \<Rightarrow> ('k, 'v) Data \<Rightarrow> ('k, 'v) Data" where
  "moveNode (s, i) (s', i') d =
     (if s = s' then d\<lparr>spans := (spans d)[s' := span_moveLocal i i' (spans d ! s')]\<rparr>
      else let (dst, src) = span_moveFromSpan (spans d ! s) i i' (spans d ! s')
           in d\<lparr>spans := ((spans d)[s' := dst])[s := src]\<rparr>)"

partial_function (option) closeHole ::
    "('k \<Rightarrow> 64 word \<Rightarrow> 64 word) \<Rightarrow> Bucket \<Rightarrow> Bucket \<Rightarrow> ('k, 'v) Data \<Rightarrow> ('k, 'v) Data option" where
  "closeHole calculateHash nxt hole d =
     (let nxt = advanceWrapped d nxt
      in if bucket_isUnused d nxt then Some d
         else do {
           moves \<leftarrow> passesHole d (bucket_of_key calculateHash d (node_key (bucket_node d nxt))) nxt hole;
           if moves then closeHole calculateHash nxt nxt (moveNode nxt hole d)
           else closeHole calculateHash nxt hole d
         })"

declare closeHole.simps [code]

fun bucket_erase :: "Bucket \<Rightarrow> ('k, 'v) Data \<Rightarrow> ('k, 'v) Data" where
  "bucket_erase (s, i) d = d\<lparr>spans := (spans d)[s := span_erase i (spans d ! s)]\<rparr>"

definition data_erase :: "('k \<Rightarrow> 64 word \<Rightarrow> 64 word) \<Rightarrow> Bucket \<Rightarrow> ('k, 'v) Data \<Rightarrow> ('k, 'v) Data option" where
  "data_erase calculateHash b d =
     closeHole calculateHash b b ((bucket_erase b d)\<lparr>data_size := data_size d - 1\<rparr>)"

section \<open>Iterators\<close>

text \<open>The bucket of an iterator, or the end.\<close>

function iterator_next :: "('k, 'v) Data \<Rightarrow> nat \<Rightarrow> nat option" where
  "iterator_next d b =
     (if b + 1 \<ge> numBuckets d then None
      else if \<not> bucket_isUnused d (Bucket_at (b + 1)) then Some (b + 1)
      else iterator_next d (b + 1))"
  by auto
termination by (relation "measure (\<lambda>(d, b). numBuckets d - b)") auto

declare iterator_next.simps [simp del]

definition data_begin :: "('k, 'v) Data \<Rightarrow> nat option" where
  "data_begin d = (if bucket_isUnused d (Bucket_at 0) then iterator_next d 0 else Some 0)"

text \<open>The nodes an iteration from a bucket on visits.\<close>

function iterate_from :: "('k, 'v) Data \<Rightarrow> nat option \<Rightarrow> ('k, 'v) Node list" where
  "iterate_from d None = []"
| "iterate_from d (Some b) =
     (if b < numBuckets d then bucket_node d (Bucket_at b) # iterate_from d (iterator_next d b) else [])"
  by pat_completeness auto

lemma iterator_next_greater: "iterator_next d b = Some b' \<Longrightarrow> b < b' \<and> b' < numBuckets d"
proof (induction d b rule: iterator_next.induct)
  case (1 d b)
  then show ?case by (subst (asm) (2) iterator_next.simps) (fastforce split: if_splits)
qed

termination iterate_from
  by (relation "measure (\<lambda>(d, i). case i of None \<Rightarrow> 0 | Some b \<Rightarrow> Suc (numBuckets d) - b)")
    (auto split: option.splits dest: iterator_next_greater)

section \<open>QHash\<close>

text \<open>
  A null or shared \<open>d\<close>: whether another owner exists is an argument, and so is the global seed a new
  table takes. The results are those of the calls with the table that \<open>d\<close> then points to.
\<close>

type_synonym ('k, 'v) QHash = "('k, 'v) Data option"

definition QHash_detach :: "64 word \<Rightarrow> bool \<Rightarrow> ('k, 'v) QHash \<Rightarrow> ('k, 'v) Data" where
  "QHash_detach globalSeed shared h =
     (case h of None \<Rightarrow> Data_new globalSeed 0 | Some d \<Rightarrow> if shared then Data_copy d else d)"

definition QHash_size :: "('k, 'v) QHash \<Rightarrow> nat" where
  "QHash_size h = (case h of None \<Rightarrow> 0 | Some d \<Rightarrow> data_size d)"

definition QHash_isEmpty :: "('k, 'v) QHash \<Rightarrow> bool" where
  "QHash_isEmpty h = (case h of None \<Rightarrow> True | Some d \<Rightarrow> data_size d = 0)"

definition QHash_capacity :: "('k, 'v) QHash \<Rightarrow> nat" where
  "QHash_capacity h = (case h of None \<Rightarrow> 0 | Some d \<Rightarrow> drop_bit 1 (numBuckets d))"

definition QHash_reserve ::
    "('k \<Rightarrow> 64 word \<Rightarrow> 64 word) \<Rightarrow> 64 word \<Rightarrow> bool \<Rightarrow> nat \<Rightarrow> ('k, 'v) QHash \<Rightarrow> ('k, 'v) QHash option" where
  "QHash_reserve calculateHash globalSeed shared reserved h =
     (if reserved \<noteq> 0 \<and> QHash_capacity h \<ge> reserved then Some h
      else case h of
             None \<Rightarrow> Some (Some (Data_new globalSeed reserved))
           | Some d \<Rightarrow> if \<not> shared then map_option Some (rehash calculateHash reserved d)
                     else map_option Some (Data_copyReserved calculateHash d reserved))"

definition QHash_squeeze ::
    "('k \<Rightarrow> 64 word \<Rightarrow> 64 word) \<Rightarrow> 64 word \<Rightarrow> bool \<Rightarrow> ('k, 'v) QHash \<Rightarrow> ('k, 'v) QHash option" where
  "QHash_squeeze calculateHash globalSeed shared h =
     (if QHash_capacity h \<noteq> 0 then QHash_reserve calculateHash globalSeed shared 0 h else Some h)"

definition QHash_remove ::
    "('k \<Rightarrow> 64 word \<Rightarrow> 64 word) \<Rightarrow> 64 word \<Rightarrow> bool \<Rightarrow> 'k \<Rightarrow> ('k, 'v) QHash \<Rightarrow> (bool \<times> ('k, 'v) QHash) option" where
  "QHash_remove calculateHash globalSeed shared key h =
     (case h of
        None \<Rightarrow> Some (False, h)
      | Some d \<Rightarrow>
          if data_size d = 0 then Some (False, h)
          else do {
            it \<leftarrow> findBucket calculateHash d key;
            let bucket = toBucketIndex it;
            let d = QHash_detach globalSeed shared h;
            let it = Bucket_at bucket;
            if bucket_isUnused d it then Some (False, Some d)
            else map_option (\<lambda>d. (True, Some d)) (data_erase calculateHash it d)
          })"

text \<open>\<open>None\<close> stands for the default-constructed value.\<close>

definition QHash_take ::
    "('k \<Rightarrow> 64 word \<Rightarrow> 64 word) \<Rightarrow> 64 word \<Rightarrow> bool \<Rightarrow> 'k \<Rightarrow> ('k, 'v) QHash \<Rightarrow> ('v option \<times> ('k, 'v) QHash) option" where
  "QHash_take calculateHash globalSeed shared key h =
     (case h of
        None \<Rightarrow> Some (None, h)
      | Some d \<Rightarrow>
          if data_size d = 0 then Some (None, h)
          else do {
            it \<leftarrow> findBucket calculateHash d key;
            let bucket = toBucketIndex it;
            let d = QHash_detach globalSeed shared h;
            let it = Bucket_at bucket;
            if bucket_isUnused d it then Some (None, Some d)
            else let v = node_value (bucket_node d it)
                 in map_option (\<lambda>d. (Some v, Some d)) (data_erase calculateHash it d)
          })"

definition QHash_contains :: "('k \<Rightarrow> 64 word \<Rightarrow> 64 word) \<Rightarrow> 'k \<Rightarrow> ('k, 'v) QHash \<Rightarrow> bool option" where
  "QHash_contains calculateHash key h =
     (case h of None \<Rightarrow> Some False | Some d \<Rightarrow> map_option (\<lambda>n. n \<noteq> None) (findNode calculateHash d key))"

definition QHash_valueImpl :: "('k \<Rightarrow> 64 word \<Rightarrow> 64 word) \<Rightarrow> 'k \<Rightarrow> ('k, 'v) QHash \<Rightarrow> 'v option option" where
  "QHash_valueImpl calculateHash key h =
     (case h of None \<Rightarrow> Some None | Some d \<Rightarrow> map_option (map_option node_value) (findNode calculateHash d key))"

definition QHash_value :: "('k \<Rightarrow> 64 word \<Rightarrow> 64 word) \<Rightarrow> 'k \<Rightarrow> 'v \<Rightarrow> ('k, 'v) QHash \<Rightarrow> 'v option" where
  "QHash_value calculateHash key defaultValue h =
     map_option (\<lambda>v. case v of Some v \<Rightarrow> v | None \<Rightarrow> defaultValue) (QHash_valueImpl calculateHash key h)"

text \<open>\<open>emplaceValue\<close> on the node of a bucket.\<close>

fun bucket_emplaceValue :: "Bucket \<Rightarrow> 'v \<Rightarrow> ('k, 'v) Data \<Rightarrow> ('k, 'v) Data" where
  "bucket_emplaceValue (s, i) v d =
     (let sp = spans d ! s; off = offsets sp ! i; n = entry_node (entries sp ! off)
      in d\<lparr>spans := (spans d)[s := sp\<lparr>entries := (entries sp)[off := NodeEntry (n\<lparr>node_value := v\<rparr>)]\<rparr>]\<rparr>)"

definition emplace_helper ::
    "('k \<Rightarrow> 64 word \<Rightarrow> 64 word) \<Rightarrow> 'k \<Rightarrow> 'v \<Rightarrow> ('k, 'v) Data \<Rightarrow> ('k, 'v) Data option" where
  "emplace_helper calculateHash key v d =
     do {
       (it, initialized, d) \<leftarrow> findOrInsert calculateHash \<lparr>node_key = key, node_value = v\<rparr> d;
       Some (if initialized then bucket_emplaceValue it v d else d)
     }"

definition QHash_insert ::
    "('k \<Rightarrow> 64 word \<Rightarrow> 64 word) \<Rightarrow> 64 word \<Rightarrow> bool \<Rightarrow> 'k \<Rightarrow> 'v \<Rightarrow> ('k, 'v) QHash \<Rightarrow> ('k, 'v) QHash option" where
  "QHash_insert calculateHash globalSeed shared key v h =
     map_option Some (emplace_helper calculateHash key v (QHash_detach globalSeed shared h))"

definition QHash_iterate :: "('k, 'v) QHash \<Rightarrow> ('k, 'v) Node list" where
  "QHash_iterate h = (case h of None \<Rightarrow> [] | Some d \<Rightarrow> iterate_from d (data_begin d))"

definition QHash_keys :: "('k, 'v) QHash \<Rightarrow> 'k list" where
  "QHash_keys h = map node_key (QHash_iterate h)"

definition QHash_values :: "('k, 'v) QHash \<Rightarrow> 'v list" where
  "QHash_values h = map node_value (QHash_iterate h)"

text \<open>\<open>operator==\<close>, for tables that are not one and the same.\<close>

fun equal_nodes :: "('k \<Rightarrow> 64 word \<Rightarrow> 64 word) \<Rightarrow> ('k, 'v) QHash \<Rightarrow> ('k, 'v) Node list \<Rightarrow> bool option" where
  "equal_nodes calculateHash h [] = Some True"
| "equal_nodes calculateHash h (n # ns) =
     do {
       v \<leftarrow> (if QHash_isEmpty h then Some None else QHash_valueImpl calculateHash (node_key n) h);
       if v \<noteq> Some (node_value n) then Some False else equal_nodes calculateHash h ns
     }"

definition QHash_equal :: "('k \<Rightarrow> 64 word \<Rightarrow> 64 word) \<Rightarrow> ('k, 'v) QHash \<Rightarrow> ('k, 'v) QHash \<Rightarrow> bool option" where
  "QHash_equal calculateHash h other =
     (if QHash_size h \<noteq> QHash_size other then Some False else equal_nodes calculateHash h (QHash_iterate other))"

text \<open>
  \<open>erase(const_iterator)\<close>: the table and the next iterator. \<open>detachedIterator\<close> keeps the bucket and
  points to the table of its own; \<open>erase_detached\<close> is what follows it.
\<close>

definition detachedIterator :: "('k, 'v) Data \<Rightarrow> nat \<Rightarrow> ('k, 'v) Data \<times> nat" where
  "detachedIterator d b = (d, b)"

fun erase_detached ::
    "('k \<Rightarrow> 64 word \<Rightarrow> 64 word) \<Rightarrow> ('k, 'v) Data \<times> nat \<Rightarrow> (('k, 'v) Data \<times> nat option) option" where
  "erase_detached calculateHash (d, b) =
     do {
       d \<leftarrow> data_erase calculateHash (Bucket_at b) d;
       Some (d, if b = numBuckets d - 1 \<or> bucket_isUnused d (Bucket_at b) then iterator_next d b else Some b)
     }"

definition QHash_erase ::
    "('k \<Rightarrow> 64 word \<Rightarrow> 64 word) \<Rightarrow> 64 word \<Rightarrow> bool \<Rightarrow> nat \<Rightarrow> ('k, 'v) QHash \<Rightarrow> (nat option \<times> ('k, 'v) QHash) option" where
  "QHash_erase calculateHash globalSeed shared b h =
     do {
       let d = QHash_detach globalSeed shared h;
       (d, it) \<leftarrow> erase_detached calculateHash (detachedIterator d b);
       Some (it, Some d)
     }"

definition QHash_clear :: "('k, 'v) QHash \<Rightarrow> ('k, 'v) QHash" where
  "QHash_clear h = None"

text \<open>\<open>find\<close>: the bucket of the iterator, or the end, and the table.\<close>

definition QHash_find ::
    "('k \<Rightarrow> 64 word \<Rightarrow> 64 word) \<Rightarrow> 64 word \<Rightarrow> bool \<Rightarrow> 'k \<Rightarrow> ('k, 'v) QHash \<Rightarrow> (nat option \<times> ('k, 'v) QHash) option" where
  "QHash_find calculateHash globalSeed shared key h =
     (case h of
        None \<Rightarrow> Some (None, h)
      | Some d \<Rightarrow>
          if data_size d = 0 then Some (None, h)
          else do {
            it \<leftarrow> findBucket calculateHash d key;
            let bucket = toBucketIndex it;
            let d = QHash_detach globalSeed shared h;
            let it = Bucket_at bucket;
            Some (if bucket_isUnused d it then None else Some (toBucketIndex it), Some d)
          })"

definition QHash_key :: "'v \<Rightarrow> 'k \<Rightarrow> ('k, 'v) QHash \<Rightarrow> 'k" where
  "QHash_key v defaultKey h =
     (case find (\<lambda>n. node_value n = v) (QHash_iterate h) of Some n \<Rightarrow> node_key n | None \<Rightarrow> defaultKey)"

definition QHash_keys_of :: "'v \<Rightarrow> ('k, 'v) QHash \<Rightarrow> 'k list" where
  "QHash_keys_of v h = map node_key (filter (\<lambda>n. node_value n = v) (QHash_iterate h))"

text \<open>\<open>operator[]\<close>: the value it refers to; a new node takes the default one.\<close>

definition QHash_at ::
    "('k \<Rightarrow> 64 word \<Rightarrow> 64 word) \<Rightarrow> 64 word \<Rightarrow> bool \<Rightarrow> 'k \<Rightarrow> 'v \<Rightarrow> ('k, 'v) QHash \<Rightarrow> ('v \<times> ('k, 'v) QHash) option" where
  "QHash_at calculateHash globalSeed shared key defaultValue h =
     do {
       (it, initialized, d) \<leftarrow>
         findOrInsert calculateHash \<lparr>node_key = key, node_value = defaultValue\<rparr> (QHash_detach globalSeed shared h);
       Some (node_value (bucket_node d it), Some d)
     }"

text \<open>\<open>insert(hash)\<close>; whether the two tables are one is an argument.\<close>

fun emplace_all :: "('k \<Rightarrow> 64 word \<Rightarrow> 64 word) \<Rightarrow> ('k, 'v) Node list \<Rightarrow> ('k, 'v) Data \<Rightarrow> ('k, 'v) Data option" where
  "emplace_all calculateHash [] d = Some d"
| "emplace_all calculateHash (n # ns) d =
     do { d \<leftarrow> emplace_helper calculateHash (node_key n) (node_value n) d; emplace_all calculateHash ns d }"

definition QHash_unite ::
    "('k \<Rightarrow> 64 word \<Rightarrow> 64 word) \<Rightarrow> 64 word \<Rightarrow> bool \<Rightarrow> bool \<Rightarrow> ('k, 'v) QHash \<Rightarrow> ('k, 'v) QHash \<Rightarrow> ('k, 'v) QHash option" where
  "QHash_unite calculateHash globalSeed shared same hash h =
     (if same \<or> hash = None then Some h
      else if h = None then Some hash
      else map_option Some (emplace_all calculateHash (QHash_iterate hash) (QHash_detach globalSeed shared h)))"

text \<open>
  \<open>removeIf\<close>: the number of nodes erased. \<open>begin\<close> has detached the table before the loop, so the
  calls of \<open>erase\<close> in it find a table that is not shared.
\<close>

partial_function (option) associative_erase_if ::
    "('k \<Rightarrow> 64 word \<Rightarrow> 64 word) \<Rightarrow> ('k \<Rightarrow> 'v \<Rightarrow> bool) \<Rightarrow> nat option \<Rightarrow> ('k, 'v) Data \<Rightarrow> nat \<Rightarrow> (nat \<times> ('k, 'v) Data) option" where
  "associative_erase_if calculateHash pred it d result =
     (case it of
        None \<Rightarrow> Some (result, d)
      | Some b \<Rightarrow>
          if pred (node_key (bucket_node d (Bucket_at b))) (node_value (bucket_node d (Bucket_at b)))
          then do {
            (d, it) \<leftarrow> erase_detached calculateHash (detachedIterator d b);
            associative_erase_if calculateHash pred it d (result + 1)
          }
          else associative_erase_if calculateHash pred (iterator_next d b) d result)"

declare associative_erase_if.simps [code]

definition QHash_removeIf ::
    "('k \<Rightarrow> 64 word \<Rightarrow> 64 word) \<Rightarrow> 64 word \<Rightarrow> bool \<Rightarrow> ('k \<Rightarrow> 'v \<Rightarrow> bool) \<Rightarrow> ('k, 'v) QHash \<Rightarrow> (nat \<times> ('k, 'v) QHash) option" where
  "QHash_removeIf calculateHash globalSeed shared pred h =
     (let d = QHash_detach globalSeed shared h
      in map_option (\<lambda>(n, d). (n, Some d)) (associative_erase_if calculateHash pred (data_begin d) d 0))"

end
