(* ===== verification/QHashProbe.thy ===== *)
theory QHashProbe
  imports QHash
begin

text \<open>
  Linear probing on a flat table of \<open>n\<close> buckets: what a bucket found for a key means, insertion,
  and the deletion that closes its hole. \<open>home\<close> is the first bucket of a key, \<open>ky\<close> the key of an entry.
\<close>

section \<open>Distances on a cycle\<close>

definition dist :: "nat \<Rightarrow> nat \<Rightarrow> nat \<Rightarrow> nat" where
  "dist n a b = (if a \<le> b then b - a else b + n - a)"

definition cyc :: "nat \<Rightarrow> nat \<Rightarrow> nat" where
  "cyc n b = (if b + 1 = n then 0 else b + 1)"

lemma dist_self [simp]: "dist n a a = 0"
  by (simp add: dist_def)

lemma dist_less: "a < n \<Longrightarrow> b < n \<Longrightarrow> dist n a b < n"
  by (auto simp: dist_def)

lemma dist_inj: "a < n \<Longrightarrow> b < n \<Longrightarrow> c < n \<Longrightarrow> dist n a b = dist n a c \<Longrightarrow> b = c"
  by (auto simp: dist_def split: if_splits)

lemma dist_zero: "a < n \<Longrightarrow> b < n \<Longrightarrow> dist n a b = 0 \<longleftrightarrow> a = b"
  by (auto simp: dist_def)

lemma cyc_less [simp]: "b < n \<Longrightarrow> cyc n b < n"
  by (auto simp: cyc_def)

lemma dist_cyc: "a < n \<Longrightarrow> b < n \<Longrightarrow> cyc n b \<noteq> a \<Longrightarrow> dist n a (cyc n b) = Suc (dist n a b)"
  by (auto simp: dist_def cyc_def split: if_splits)

lemma dist_from_cyc: "a < n \<Longrightarrow> b < n \<Longrightarrow> a \<noteq> b \<Longrightarrow> dist n a b = Suc (dist n (cyc n a) b)"
  by (auto simp: dist_def cyc_def split: if_splits)

lemma dist_split: "a < n \<Longrightarrow> b < n \<Longrightarrow> c < n \<Longrightarrow> dist n a b \<le> dist n a c \<Longrightarrow> dist n a c = dist n a b + dist n b c"
  by (auto simp: dist_def split: if_splits)

text \<open>A walk on from \<open>b\<close> that starts before the hole and ends behind it meets what lies between.\<close>

lemma dist_between:
  assumes "a < n" "e < n" "x < n" "b < n" "dist n a e < dist n a b" "dist n e x < dist n e b"
  shows "dist n a x < dist n a b"
  using assms by (auto simp: dist_def split: if_splits)

section \<open>Search\<close>

definition probe_ok :: "nat \<Rightarrow> ('k \<Rightarrow> nat) \<Rightarrow> ('a \<Rightarrow> 'k) \<Rightarrow> (nat \<Rightarrow> 'a option) \<Rightarrow> bool" where
  "probe_ok n home ky t \<longleftrightarrow>
     (\<forall>b < n. \<forall>x. t b = Some x
        \<longrightarrow> (\<forall>p < n. dist n (home (ky x)) p < dist n (home (ky x)) b \<longrightarrow> (\<exists>y. t p = Some y \<and> ky y \<noteq> ky x)))"

text \<open>The bucket a search for a key ends at.\<close>

definition is_slot :: "nat \<Rightarrow> ('k \<Rightarrow> nat) \<Rightarrow> ('a \<Rightarrow> 'k) \<Rightarrow> (nat \<Rightarrow> 'a option) \<Rightarrow> 'k \<Rightarrow> nat \<Rightarrow> bool" where
  "is_slot n home ky t k b \<longleftrightarrow> b < n
     \<and> (\<forall>p < n. dist n (home k) p < dist n (home k) b \<longrightarrow> (\<exists>y. t p = Some y \<and> ky y \<noteq> k))
     \<and> (\<forall>y. t b = Some y \<longrightarrow> ky y = k)"

definition filled :: "nat \<Rightarrow> (nat \<Rightarrow> 'a option) \<Rightarrow> 'a set" where
  "filled n t = {x. \<exists>b < n. t b = Some x}"

lemma probe_unique:
  assumes ok: "probe_ok n home ky t" and home: "\<forall>k. home k < n"
    and "b < n" "c < n" "t b = Some x" "t c = Some y" "ky x = ky y"
  shows "b = c"
proof (rule ccontr)
  assume "b \<noteq> c"
  then have "dist n (home (ky x)) b < dist n (home (ky x)) c \<or> dist n (home (ky x)) c < dist n (home (ky x)) b"
    using dist_inj [of "home (ky x)" n b c] home assms(3,4) by fastforce
  then show False
  proof
    assume "dist n (home (ky x)) b < dist n (home (ky x)) c"
    then show False using ok assms unfolding probe_ok_def by (metis option.inject)
  next
    assume "dist n (home (ky x)) c < dist n (home (ky x)) b"
    then show False using ok assms unfolding probe_ok_def by (metis option.inject)
  qed
qed

lemma slot_unoccupied:
  assumes ok: "probe_ok n home ky t" and home: "\<forall>k. home k < n" and slot: "is_slot n home ky t k b" and "t b = None"
  shows "x \<in> filled n t \<Longrightarrow> ky x \<noteq> k"
proof
  assume "x \<in> filled n t" "ky x = k"
  then obtain c where c: "c < n" "t c = Some x" by (auto simp: filled_def)
  have b: "b < n" using slot by (simp add: is_slot_def)
  have "b \<noteq> c" using c assms(4) by auto
  then consider "dist n (home k) b < dist n (home k) c" | "dist n (home k) c < dist n (home k) b"
    using dist_inj [of "home k" n b c] home b c(1) by fastforce
  then show False
  proof cases
    case 1
    then show False using ok c b assms(4) \<open>ky x = k\<close> unfolding probe_ok_def by (metis option.distinct(1))
  next
    case 2
    then show False using slot c \<open>ky x = k\<close> unfolding is_slot_def by (metis option.inject)
  qed
qed

section \<open>Insertion\<close>

lemma probe_insert:
  assumes ok: "probe_ok n home ky t" and home: "\<forall>k. home k < n" and slot: "is_slot n home ky t (ky x) b" and "t b = None"
  shows "probe_ok n home ky (t(b := Some x))" and "filled n (t(b := Some x)) = insert x (filled n t)"
proof -
  have b: "b < n" using slot by (simp add: is_slot_def)
  show "probe_ok n home ky (t(b := Some x))"
    unfolding probe_ok_def
  proof (intro allI impI)
    fix c y p
    assume c: "c < n" "(t(b := Some x)) c = Some y" and p: "p < n" "dist n (home (ky y)) p < dist n (home (ky y)) c"
    show "\<exists>z. (t(b := Some x)) p = Some z \<and> ky z \<noteq> ky y"
    proof (cases "c = b")
      case True
      then have "p \<noteq> b" "y = x" using c p by auto
      then show ?thesis using slot p True unfolding is_slot_def by auto
    next
      case False
      then obtain z where "t p = Some z" "ky z \<noteq> ky y" using ok c p unfolding probe_ok_def by fastforce
      then show ?thesis using assms(4) by auto
    qed
  qed
  show "filled n (t(b := Some x)) = insert x (filled n t)"
    using b assms(4) by (auto simp: filled_def) (metis option.distinct(1))
qed

lemma probe_replace:
  assumes ok: "probe_ok n home ky t" and "t b = Some y" "ky x = ky y"
  shows "probe_ok n home ky (t(b := Some x))"
  unfolding probe_ok_def
proof (intro allI impI)
  fix c z p
  assume c: "c < n" "(t(b := Some x)) c = Some z" and p: "p < n" "dist n (home (ky z)) p < dist n (home (ky z)) c"
  obtain z' where z': "t c = Some z'" "ky z' = ky z" using c assms by (cases "c = b") auto
  then obtain w where "t p = Some w" "ky w \<noteq> ky z" using ok c(1) p unfolding probe_ok_def by metis
  then show "\<exists>w. (t(b := Some x)) p = Some w \<and> ky w \<noteq> ky z" using assms by (cases "p = b") auto
qed

lemma probe_empty: "probe_ok n home ky (\<lambda>_. None)" "filled n (\<lambda>_. None) = {}"
  by (simp_all add: probe_ok_def filled_def)

section \<open>Deletion\<close>

text \<open>
  While the hole at \<open>e\<close> is being closed and the buckets before \<open>x\<close> have been examined: only entries
  from \<open>x\<close> on can miss the hole on their way.
\<close>

definition hole_ok :: "nat \<Rightarrow> ('k \<Rightarrow> nat) \<Rightarrow> ('a \<Rightarrow> 'k) \<Rightarrow> (nat \<Rightarrow> 'a option) \<Rightarrow> nat \<Rightarrow> nat \<Rightarrow> bool" where
  "hole_ok n home ky t e x \<longleftrightarrow> e < n \<and> x < n \<and> e \<noteq> x \<and> t e = None
     \<and> (\<forall>b < n. \<forall>c < n. \<forall>y z. t b = Some y \<and> t c = Some z \<and> ky y = ky z \<longrightarrow> b = c)
     \<and> (\<forall>b < n. \<forall>y. t b = Some y
          \<longrightarrow> (\<forall>p < n. p \<noteq> e \<and> dist n (home (ky y)) p < dist n (home (ky y)) b \<longrightarrow> t p \<noteq> None)
            \<and> (dist n (home (ky y)) e < dist n (home (ky y)) b \<longrightarrow> dist n e x \<le> dist n e b))"

lemma hole_start:
  assumes ok: "probe_ok n home ky t" and home: "\<forall>k. home k < n" and "e < n" "cyc n e \<noteq> e"
  shows "hole_ok n home ky (t(e := None)) e (cyc n e)"
proof -
  have "1 \<le> dist n e b" if "b < n" "b \<noteq> e" for b using dist_zero [of e n b] assms(3) that by auto
  moreover have "dist n e (cyc n e) = 1" using dist_cyc [OF assms(3,3,4)] by simp
  ultimately show ?thesis
    using assms probe_unique [OF ok home] ok unfolding hole_ok_def probe_ok_def
    by (auto simp: fun_upd_def) fastforce+
qed

lemma hole_done:
  assumes hole: "hole_ok n home ky t e x" and home: "\<forall>k. home k < n" and "t x = None"
  shows "probe_ok n home ky t"
  unfolding probe_ok_def
proof (intro allI impI)
  fix b y p
  assume b: "b < n" "t b = Some y" and p: "p < n" "dist n (home (ky y)) p < dist n (home (ky y)) b"
  have e: "e < n" "x < n" "e \<noteq> x" using hole by (auto simp: hole_ok_def)
  have occ: "q \<noteq> e \<Longrightarrow> q < n \<Longrightarrow> dist n (home (ky y)) q < dist n (home (ky y)) b \<Longrightarrow> t q \<noteq> None" for q
    using hole b unfolding hole_ok_def by blast
  have "p \<noteq> e"
  proof
    assume "p = e"
    then have "dist n e x \<le> dist n e b" using hole b p unfolding hole_ok_def by blast
    moreover have "x \<noteq> b" using b(2) assms(3) by auto
    ultimately have "dist n e x < dist n e b" using dist_inj [of e n x b] e b(1) by fastforce
    then have "dist n (home (ky y)) x < dist n (home (ky y)) b"
      using dist_between [of "home (ky y)" n e x b] home e b(1) p(2) \<open>p = e\<close> by blast
    then show False using occ [of x] e assms(3) by auto
  qed
  then obtain z where z: "t p = Some z" using occ p by blast
  moreover have "ky z \<noteq> ky y"
  proof
    assume "ky z = ky y"
    then have "p = b" using hole b p z unfolding hole_ok_def by blast
    then show False using p by simp
  qed
  ultimately show "\<exists>z. t p = Some z \<and> ky z \<noteq> ky y" by blast
qed

lemma hole_keep:
  assumes hole: "hole_ok n home ky t e x" and home: "\<forall>k. home k < n" and x: "t x = Some y"
    and before: "\<not> dist n (home (ky y)) e < dist n (home (ky y)) x" and "cyc n x \<noteq> e"
  shows "hole_ok n home ky t e (cyc n x)"
proof -
  have e: "e < n" "x < n" "e \<noteq> x" using hole by (auto simp: hole_ok_def)
  have "dist n e (cyc n x) = Suc (dist n e x)" using dist_cyc [of e n x] e assms(5) by simp
  moreover have "dist n e x \<noteq> dist n e b" if "b < n" "b \<noteq> x" for b using dist_inj [of e n x b] e that by auto
  ultimately have "dist n e (cyc n x) \<le> dist n e b" if "b < n" "b \<noteq> x" "dist n e x \<le> dist n e b" for b
    using that by fastforce
  note step = this
  have "dist n e (cyc n x) \<le> dist n e b"
    if b: "b < n" "t b = Some z" "dist n (home (ky z)) e < dist n (home (ky z)) b" for b z
  proof (rule step)
    show "b \<noteq> x" using b before x by auto
    show "dist n e x \<le> dist n e b" using hole b unfolding hole_ok_def by blast
  qed (rule b(1))
  then show ?thesis using hole assms(5) unfolding hole_ok_def by (simp add: eq_commute [of e])
qed

lemma hole_move:
  assumes hole: "hole_ok n home ky t e x" and home: "\<forall>k. home k < n" and x: "t x = Some y"
    and passes: "dist n (home (ky y)) e < dist n (home (ky y)) x" and "cyc n x \<noteq> x"
  shows "hole_ok n home ky (t(e := Some y, x := None)) x (cyc n x)"
proof -
  have e: "e < n" "x < n" "e \<noteq> x" "t e = None" using hole by (auto simp: hole_ok_def)
  have one: "dist n x (cyc n x) = 1" using dist_cyc [of x n x] e assms(5) by simp
  have far: "1 \<le> dist n x b" if "b < n" "b \<noteq> x" for b using dist_zero [of x n b] e that by auto
  let ?t = "t(e := Some y, x := None)"
  show ?thesis
    unfolding hole_ok_def
  proof (intro conjI allI impI)
    show "x < n" "cyc n x < n" "x \<noteq> cyc n x" "?t x = None" using e assms(5) by auto
  next
    fix b c u v
    assume "b < n" "c < n" and uv: "?t b = Some u \<and> ?t c = Some v \<and> ky u = ky v"
    define b' where "b' = (if b = e then x else b)"
    define c' where "c' = (if c = e then x else c)"
    have "t b' = Some u" "t c' = Some v" "b' < n" "c' < n"
      using uv x e \<open>b < n\<close> \<open>c < n\<close> by (auto simp: b'_def c'_def split: if_splits)
    then have "b' = c'" using hole uv unfolding hole_ok_def by blast
    then show "b = c" using uv by (auto simp: b'_def c'_def split: if_splits)
  next
    fix b u p
    assume b: "b < n" "?t b = Some u" and p: "p < n" "p \<noteq> x \<and> dist n (home (ky u)) p < dist n (home (ky u)) b"
    show "?t p \<noteq> None"
    proof (cases "b = e")
      case True
      then have "u = y" "p \<noteq> e" using b p e by auto
      then have "dist n (home (ky y)) p < dist n (home (ky y)) x" using p True passes by auto
      then show ?thesis using hole x e p \<open>p \<noteq> e\<close> unfolding hole_ok_def by auto
    next
      case False
      then have "t b = Some u" using b by (auto split: if_splits)
      then show ?thesis using hole b(1) p unfolding hole_ok_def by auto
    qed
  next
    fix b u
    assume b: "b < n" "?t b = Some u"
    then have "b \<noteq> x" by auto
    then show "dist n x (cyc n x) \<le> dist n x b" using one far b by simp
  qed
qed

lemma filled_move:
  assumes "e < n" "x < n" "e \<noteq> x" "t e = None" "t x = Some y"
  shows "filled n (t(e := Some y, x := None)) = filled n t"
proof (intro set_eqI iffI)
  fix z assume "z \<in> filled n (t(e := Some y, x := None))"
  then show "z \<in> filled n t" using assms by (auto simp: filled_def split: if_splits)
next
  fix z assume "z \<in> filled n t"
  then obtain b where b: "b < n" "t b = Some z" by (auto simp: filled_def)
  define c where "c = (if b = x then e else b)"
  have "(t(e := Some y, x := None)) c = Some z" "c < n" using b assms by (auto simp: c_def)
  then show "z \<in> filled n (t(e := Some y, x := None))" unfolding filled_def by blast
qed

end
