(* ===== verification/QHashSpan.thy ===== *)
theory QHashSpan
  imports QHash
begin

text \<open>
  A span is a partial function from its 128 buckets to nodes: the invariant of its offsets, its store
  and its free list, and what each operation does to the function.
\<close>

section \<open>The invariant\<close>

fun free_chain :: "'n Entry list \<Rightarrow> nat \<Rightarrow> nat \<Rightarrow> nat list \<Rightarrow> bool" where
  "free_chain es stop k [] \<longleftrightarrow> k = stop"
| "free_chain es stop k (f # fl) \<longleftrightarrow> k = f \<and> f < length es \<and> (\<exists>m. es ! f = FreeEntry m \<and> free_chain es stop m fl)"

definition busy :: "'n Span \<Rightarrow> nat set" where
  "busy s = {i. i < 128 \<and> offsets s ! i \<noteq> 255}"

definition used :: "'n Span \<Rightarrow> nat set" where
  "used s = (\<lambda>i. offsets s ! i) ` busy s"

definition span_ok :: "'n Span \<Rightarrow> bool" where
  "span_ok s \<longleftrightarrow>
     length (offsets s) = 128 \<and> length (entries s) = allocated s \<and> allocated s \<in> {0, 48, 80, 96, 112, 128}
     \<and> (\<exists>fl. free_chain (entries s) (allocated s) (nextFree s) fl \<and> distinct fl
          \<and> set fl \<inter> used s = {} \<and> set fl \<union> used s = {..<allocated s})
     \<and> inj_on (\<lambda>i. offsets s ! i) (busy s) \<and> (\<forall>i \<in> busy s. \<exists>n. entries s ! (offsets s ! i) = NodeEntry n)"

definition span_view :: "'n Span \<Rightarrow> nat \<Rightarrow> 'n option" where
  "span_view s i = (if i \<in> busy s then Some (span_at i s) else None)"

lemma span_consts [simp]: "NEntries = 128" "UnusedEntry = 255" "SpanShift = 7" "LocalBucketMask = 127"
  by (simp_all add: NEntries_def UnusedEntry_def SpanShift_def LocalBucketMask_def)

lemma hasNode_view: "i < 128 \<Longrightarrow> span_hasNode i s \<longleftrightarrow> span_view s i \<noteq> None"
  by (simp add: span_hasNode_def span_view_def busy_def)

lemma at_view: "span_view s i = Some n \<Longrightarrow> span_at i s = n"
  by (simp add: span_view_def split: if_splits)

lemma busy_new [simp]: "busy Span_new = {}"
  by (auto simp: busy_def Span_new_def)

lemma span_ok_new [simp]: "span_ok Span_new"
  by (simp add: span_ok_def used_def) (simp add: Span_new_def exI [of _ "[]"])

lemma span_view_new [simp]: "span_view Span_new = (\<lambda>_. None)"
  by (simp add: span_view_def fun_eq_iff)

lemma chain_bound: "free_chain es stop k fl \<Longrightarrow> f \<in> set fl \<Longrightarrow> f < length es"
  by (induction es stop k fl rule: free_chain.induct) auto

lemma chain_update: "f \<notin> set fl \<Longrightarrow> free_chain (es[f := x]) stop k fl = free_chain es stop k fl"
  by (induction es stop k fl rule: free_chain.induct) auto

lemma chain_fresh_from:
  "k \<le> b \<Longrightarrow> length es \<le> k \<Longrightarrow> free_chain (es @ map (\<lambda>i. FreeEntry (Suc i)) [length es..<b]) b k [k..<b]"
proof (induction "b - k" arbitrary: k)
  case (Suc m)
  then have "[k..<b] = k # [Suc k..<b]" by (simp add: upt_conv_Cons)
  moreover have "free_chain (es @ map (\<lambda>i. FreeEntry (Suc i)) [length es..<b]) b (Suc k) [Suc k..<b]" using Suc by (intro Suc.hyps) auto
  ultimately show ?case using Suc by (simp add: nth_append)
qed simp

lemma chain_fresh: "length es \<le> b \<Longrightarrow> free_chain (es @ map (\<lambda>i. FreeEntry (Suc i)) [length es..<b]) b (length es) [length es..<b]"
  by (rule chain_fresh_from) simp_all

section \<open>Operations\<close>

lemma addStorage_ok:
  assumes ok: "span_ok s" and full: "nextFree s = allocated s" and room: "i < 128" "i \<notin> busy s"
  shows "span_ok (addStorage s) \<and> span_view (addStorage s) = span_view s \<and> busy (addStorage s) = busy s
    \<and> nextFree (addStorage s) < allocated (addStorage s)"
proof -
  let ?a = "allocated s"
  obtain fl where fl: "free_chain (entries s) ?a (nextFree s) fl" "set fl \<union> used s = {..<?a}" and len: "length (entries s) = ?a"
    using ok by (auto simp: span_ok_def)
  have "fl = []" using fl(1) full len by (cases fl) auto
  then have used: "used s = {..<?a}" using fl(2) by simp
  have "busy s \<subseteq> {..<128} - {i}" using room by (auto simp: busy_def)
  then have "card (busy s) \<le> card ({..<128} - {i})" by (intro card_mono) auto
  then have "card (busy s) < 128" using room(1) by simp
  moreover have "card (used s) = card (busy s)" using ok unfolding used_def span_ok_def by (intro card_image) blast
  ultimately have a: "?a \<in> {0, 48, 80, 96, 112}" using ok used by (auto simp: span_ok_def)
  define b where "b = (if ?a = 0 then 48 else if ?a = 48 then 80 else ?a + 16)"
  have b: "?a < b" "b \<in> {48, 80, 96, 112, 128}" "b < 256" using a by (auto simp: b_def)
  have add: "addStorage s = s\<lparr>entries := entries s @ map (\<lambda>i. FreeEntry (Suc i)) [?a..<b], allocated := b\<rparr>"
  proof -
    have "addStorage s = s\<lparr>entries := entries s @ map (\<lambda>i. FreeEntry ((i + 1) mod 256)) [?a..<b], allocated := b mod 256\<rparr>"
      unfolding addStorage_def Let_def b_def by simp
    moreover have "map (\<lambda>i. FreeEntry ((i + 1) mod 256)) [?a..<b] = map (\<lambda>i. FreeEntry (Suc i)) [?a..<b]" using b(3) by auto
    ultimately show ?thesis using b(3) by simp
  qed
  have busy: "busy (addStorage s) = busy s" by (simp add: busy_def add)
  have ent: "entries (addStorage s) ! (offsets s ! j) = entries s ! (offsets s ! j)" if "j \<in> busy s" for j
    using that used len by (auto simp: add nth_append used_def)
  have "free_chain (entries (addStorage s)) b ?a [?a..<b]" using chain_fresh [of "entries s" b] b(1) len by (simp add: add)
  note chain = this
  have used': "used (addStorage s) = {..<?a}" using used unfolding used_def busy by (simp add: add)
  have "span_ok (addStorage s)"
    unfolding span_ok_def
  proof (intro conjI exI [of _ "[?a..<b]"])
    show "free_chain (entries (addStorage s)) (allocated (addStorage s)) (nextFree (addStorage s)) [?a..<b]"
      using chain full by (simp add: add)
    show "set [?a..<b] \<inter> used (addStorage s) = {}" "set [?a..<b] \<union> used (addStorage s) = {..<allocated (addStorage s)}"
      using b(1) unfolding used' by (auto simp: add)
    show "inj_on (\<lambda>j. offsets (addStorage s) ! j) (busy (addStorage s))" using ok unfolding busy span_ok_def by (simp add: add)
    show "\<forall>j \<in> busy (addStorage s). \<exists>n. entries (addStorage s) ! (offsets (addStorage s) ! j) = NodeEntry n"
      using ok ent unfolding busy span_ok_def by (simp add: add)
  qed (use ok b len in \<open>auto simp: add span_ok_def\<close>)
  moreover have "span_view (addStorage s) = span_view s"
  proof
    have "offsets (addStorage s) = offsets s" by (simp add: add)
    then show "span_view (addStorage s) j = span_view s j" for j using ent [of j] by (simp add: span_view_def busy span_at_def)
  qed
  ultimately show ?thesis using busy full b(1) by (simp add: add)
qed

lemma span_fill:
  fixes n :: 'n and s :: "'n Span"
  assumes ok: "span_ok s" and free: "nextFree s < allocated s" and i: "i < 128" "i \<notin> busy s"
  defines "s' \<equiv> s\<lparr>nextFree := entry_nextFree (entries s ! nextFree s), offsets := (offsets s)[i := nextFree s],
    entries := (entries s)[nextFree s := NodeEntry n]\<rparr>"
  shows "span_ok s' \<and> span_view s' = (span_view s)(i := Some n)"
proof -
  let ?e = "nextFree s"
  obtain fl where fl: "free_chain (entries s) (allocated s) ?e fl" "distinct fl" "set fl \<inter> used s = {}" "set fl \<union> used s = {..<allocated s}"
    and len: "length (offsets s) = 128" "length (entries s) = allocated s"
    using ok by (auto simp: span_ok_def)
  obtain gl m where gl: "fl = ?e # gl" "entries s ! ?e = FreeEntry m" "free_chain (entries s) (allocated s) m gl"
    using fl(1) free by (cases fl) auto
  have e: "?e \<notin> used s" "?e \<notin> set gl" "?e \<noteq> 255" using fl gl ok free by (auto simp: span_ok_def)
  have busy: "busy s' = insert i (busy s)" using len i e by (auto simp: busy_def s'_def nth_list_update split: if_splits)
  have off: "offsets s' ! i = ?e" "j \<noteq> i \<Longrightarrow> offsets s' ! j = offsets s ! j" for j using len i by (auto simp: s'_def)
  have ne: "j \<in> busy s \<Longrightarrow> j \<noteq> i" "j \<in> busy s \<Longrightarrow> ?e \<noteq> offsets s ! j" for j using i e by (auto simp: used_def)
  have ent: "j \<in> busy s \<Longrightarrow> entries s' ! (offsets s ! j) = entries s ! (offsets s ! j)" for j
    using ne(2) by (simp add: s'_def)
  have ne': "j \<in> busy s \<Longrightarrow> offsets s ! j \<noteq> ?e" for j using ne(2) by metis
  have used: "used s' = insert ?e (used s)" using off ne(1) i unfolding used_def busy by (auto simp: image_iff)
  have ei: "entries s' ! ?e = NodeEntry n" using len free by (simp add: s'_def)
  have "free_chain (entries s') (allocated s') (nextFree s') gl" using gl e by (simp add: s'_def chain_update)
  moreover have "distinct gl" "set gl \<inter> used s' = {}" "set gl \<union> used s' = {..<allocated s'}"
    using fl gl e used by (auto simp: s'_def)
  moreover have "inj_on (\<lambda>j. offsets s' ! j) (busy s')"
    using ok ne ne' off i unfolding busy span_ok_def inj_on_def by auto
  moreover have "\<forall>j \<in> busy s'. \<exists>n. entries s' ! (offsets s' ! j) = NodeEntry n"
    using ok off ne(1) ent ei unfolding busy span_ok_def by auto
  moreover have "length (offsets s') = 128" "length (entries s') = allocated s'" "allocated s' = allocated s" using len by (simp_all add: s'_def)
  ultimately have "span_ok s'" using ok unfolding span_ok_def by metis
  moreover have "span_view s' = (span_view s)(i := Some n)"
    using off ent ei ne(1) by (auto simp: span_view_def span_at_def busy)
  ultimately show ?thesis by blast
qed

lemma span_insert_ok:
  assumes "span_ok s" "i < 128" "span_view s i = None"
  shows "span_ok (span_insert i n s) \<and> span_view (span_insert i n s) = (span_view s)(i := Some n)"
proof -
  have i: "i \<notin> busy s" using assms(3) by (simp add: span_view_def split: if_splits)
  have le: "nextFree s \<le> allocated s"
  proof -
    obtain fl where "free_chain (entries s) (allocated s) (nextFree s) fl" "length (entries s) = allocated s"
      using assms(1) by (auto simp: span_ok_def)
    then show ?thesis by (cases fl) auto
  qed
  show ?thesis
  proof (cases "nextFree s = allocated s")
    case True
    note a = addStorage_ok [OF assms(1) True assms(2) i]
    show ?thesis using span_fill [of "addStorage s" i n] a assms(2) i True by (simp add: span_insert_def Let_def)
  next
    case False
    then show ?thesis using span_fill [of s i n] assms i le by (simp add: span_insert_def Let_def)
  qed
qed

lemma span_erase_ok:
  assumes ok: "span_ok s" and i: "i < 128" "span_view s i \<noteq> None"
  shows "span_ok (span_erase i s) \<and> span_view (span_erase i s) = (span_view s)(i := None)"
proof -
  define e where "e = offsets s ! i"
  define s' where "s' = span_erase i s"
  have s': "s' = s\<lparr>offsets := (offsets s)[i := 255], entries := (entries s)[e := FreeEntry (nextFree s)], nextFree := e\<rparr>"
    by (simp add: s'_def span_erase_def e_def Let_def)
  have ib: "i \<in> busy s" using i(2) by (simp add: span_view_def split: if_splits)
  obtain fl where fl: "free_chain (entries s) (allocated s) (nextFree s) fl" "distinct fl" "set fl \<inter> used s = {}" "set fl \<union> used s = {..<allocated s}"
    and len: "length (offsets s) = 128" "length (entries s) = allocated s"
    using ok by (auto simp: span_ok_def)
  have e: "e \<in> used s" "e < allocated s" "e \<notin> set fl" using ib fl by (auto simp: used_def e_def)
  have busy: "busy s' = busy s - {i}" using len i by (auto simp: busy_def s' nth_list_update split: if_splits)
  have inj: "inj_on (\<lambda>j. offsets s ! j) (busy s)" using ok by (simp add: span_ok_def)
  have off: "j \<noteq> i \<Longrightarrow> offsets s' ! j = offsets s ! j" for j by (simp add: s')
  have ne: "j \<in> busy s \<Longrightarrow> j \<noteq> i \<Longrightarrow> e \<noteq> offsets s ! j" for j using inj ib unfolding inj_on_def e_def by blast
  have ent: "j \<in> busy s \<Longrightarrow> j \<noteq> i \<Longrightarrow> entries s' ! (offsets s ! j) = entries s ! (offsets s ! j)" for j
    using ne by (simp add: s')
  have ne': "j \<in> busy s \<Longrightarrow> j \<noteq> i \<Longrightarrow> offsets s ! j \<noteq> e" for j using ne by metis
  have used: "used s' = used s - {e}"
    using off ne' ib unfolding used_def busy by (auto simp: e_def image_iff)
  have "free_chain (entries s') (allocated s') (nextFree s') (e # fl)" using fl e len by (simp add: s' chain_update)
  moreover have "distinct (e # fl)" "set (e # fl) \<inter> used s' = {}" "set (e # fl) \<union> used s' = {..<allocated s'}"
    using fl e used by (auto simp: s')
  moreover have "inj_on (\<lambda>j. offsets s' ! j) (busy s')"
    using inj off unfolding busy inj_on_def by auto
  moreover have "\<forall>j \<in> busy s'. \<exists>n. entries s' ! (offsets s' ! j) = NodeEntry n"
    using ok off ent unfolding busy span_ok_def by auto
  moreover have "length (offsets s') = 128" "length (entries s') = allocated s'" "allocated s' = allocated s" using len by (simp_all add: s')
  ultimately have "span_ok s'" using ok unfolding span_ok_def by metis
  moreover have "span_view s' = (span_view s)(i := None)"
    using off ent by (auto simp: span_view_def span_at_def busy)
  ultimately show ?thesis by (simp add: s'_def)
qed

lemma span_moveLocal_ok:
  assumes ok: "span_ok s" and i: "i < 128" "span_view s i = Some n" and j: "j < 128" "span_view s j = None"
  shows "span_ok (span_moveLocal i j s) \<and> span_view (span_moveLocal i j s) = (span_view s)(j := Some n, i := None)"
proof -
  define s' where "s' = span_moveLocal i j s"
  have len: "length (offsets s) = 128" using ok by (simp add: span_ok_def)
  have ib: "i \<in> busy s" "j \<notin> busy s" "i \<noteq> j" using i j by (auto simp: span_view_def split: if_splits)
  have off: "offsets s' ! i = 255" "offsets s' ! j = offsets s ! i" "k \<noteq> i \<Longrightarrow> k \<noteq> j \<Longrightarrow> offsets s' ! k = offsets s ! k" for k
    using len i j ib by (auto simp: s'_def span_moveLocal_def)
  have busy: "busy s' = insert j (busy s - {i})"
  proof (intro set_eqI)
    fix k show "k \<in> busy s' \<longleftrightarrow> k \<in> insert j (busy s - {i})"
      using off(1,2) off(3) [of k] ib i(1) j(1) by (cases "k = i"; cases "k = j") (auto simp: busy_def)
  qed
  have keep: "entries s' = entries s" "allocated s' = allocated s" "nextFree s' = nextFree s" "length (offsets s') = 128"
    using len by (simp_all add: s'_def span_moveLocal_def)
  have inj: "inj_on (\<lambda>k. offsets s ! k) (busy s)" using ok by (simp add: span_ok_def)
  have used: "used s' = used s"
  proof (intro set_eqI iffI)
    fix x assume "x \<in> used s'"
    then show "x \<in> used s" using off ib unfolding used_def busy by (auto simp: image_iff)
  next
    fix x assume "x \<in> used s"
    then obtain k where k: "k \<in> busy s" "x = offsets s ! k" by (auto simp: used_def)
    then have "k \<noteq> j" using ib by auto
    then have "x = offsets s' ! (if k = i then j else k)" using k off(2) off(3) [of k] by auto
    then show "x \<in> used s'" using k ib unfolding used_def busy by auto
  qed
  have via: "offsets s' ! k = offsets s ! (if k = j then i else k)" "(if k = j then i else k) \<in> busy s" "k \<noteq> i" if "k \<in> busy s'" for k
    using that off(2) off(3) [of k] ib unfolding busy by auto
  have "inj_on (\<lambda>k. offsets s' ! k) (busy s')"
  proof (rule inj_onI)
    fix k l assume k: "k \<in> busy s'" "l \<in> busy s'" and eq: "offsets s' ! k = offsets s' ! l"
    have "offsets s ! (if k = j then i else k) = offsets s ! (if l = j then i else l)"
      using eq unfolding via(1) [OF k(1)] via(1) [OF k(2)] .
    then have "(if k = j then i else k) = (if l = j then i else l)" by (rule inj_onD [OF inj _ via(2) [OF k(1)] via(2) [OF k(2)]])
    then show "k = l" using via(3) [OF k(1)] via(3) [OF k(2)] by (auto split: if_splits)
  qed
  moreover have "\<forall>k \<in> busy s'. \<exists>n. entries s' ! (offsets s' ! k) = NodeEntry n"
  proof
    fix k assume k: "k \<in> busy s'"
    show "\<exists>n. entries s' ! (offsets s' ! k) = NodeEntry n"
      using ok via(2) [OF k] unfolding via(1) [OF k] keep(1) span_ok_def by blast
  qed
  ultimately have "span_ok s'" using ok used keep unfolding span_ok_def by simp
  moreover have "span_view s' = (span_view s)(j := Some n, i := None)"
  proof
    fix k show "span_view s' k = ((span_view s)(j := Some n, i := None)) k"
      using off ib keep at_view [OF i(2)] unfolding span_view_def busy span_at_def by auto
  qed
  ultimately show ?thesis by (simp add: s'_def)
qed

text \<open>A move between spans is an insertion in one and an erasure in the other.\<close>

lemma span_moveFromSpan_eq: "span_moveFromSpan fromSpan i j s = (span_insert j (span_at i fromSpan) s, span_erase i fromSpan)"
  by (simp add: span_moveFromSpan_def span_insert_def span_erase_def span_at_def Let_def)

lemma span_replace_ok:
  fixes n' :: 'n and s :: "'n Span"
  assumes ok: "span_ok s" and i: "span_view s i = Some n"
  defines "s' \<equiv> s\<lparr>entries := (entries s)[offsets s ! i := NodeEntry n']\<rparr>"
  shows "span_ok s' \<and> span_view s' = (span_view s)(i := Some n')"
proof -
  have ib: "i \<in> busy s" using i by (simp add: span_view_def split: if_splits)
  have busy: "busy s' = busy s" "used s' = used s" by (auto simp: busy_def used_def s'_def)
  obtain fl where fl: "free_chain (entries s) (allocated s) (nextFree s) fl" "distinct fl" "set fl \<inter> used s = {}" "set fl \<union> used s = {..<allocated s}"
    and len: "length (entries s) = allocated s"
    using ok by (auto simp: span_ok_def)
  have e: "offsets s ! i < allocated s" "offsets s ! i \<notin> set fl" using ib fl by (auto simp: used_def)
  have inj: "inj_on (\<lambda>k. offsets s ! k) (busy s)" using ok by (simp add: span_ok_def)
  have ent: "k \<in> busy s \<Longrightarrow> entries s' ! (offsets s ! k) = (if k = i then NodeEntry n' else entries s ! (offsets s ! k))" for k
    using inj ib e len unfolding inj_on_def s'_def by (auto simp: nth_list_update)
  have "free_chain (entries s') (allocated s') (nextFree s') fl" using fl e by (simp add: s'_def chain_update)
  moreover have "length (offsets s') = length (offsets s)" "length (entries s') = allocated s'" "allocated s' = allocated s" "offsets s' = offsets s"
    using len by (simp_all add: s'_def)
  moreover have "\<forall>k \<in> busy s. \<exists>n. entries s' ! (offsets s ! k) = NodeEntry n" using ok ent unfolding span_ok_def by auto
  moreover note off = \<open>offsets s' = offsets s\<close>
  ultimately have "span_ok s'" using ok fl busy unfolding span_ok_def by (metis (no_types, lifting))
  moreover have "span_view s' = (span_view s)(i := Some n')"
  proof
    fix k show "span_view s' k = ((span_view s)(i := Some n')) k"
      using ent [of k] ent [OF ib] ib busy off by (simp add: span_view_def span_at_def)
  qed
  ultimately show ?thesis by blast
qed

lemma span_copy_ok:
  assumes "span_ok s"
  shows "span_ok (span_copy s) \<and> span_view (span_copy s) = span_view s"
proof -
  let ?step = "\<lambda>i t. if span_hasNode i s then span_insert i (span_at i s) t else t"
  have "span_ok (fold ?step [0..<m] Span_new) \<and> span_view (fold ?step [0..<m] Span_new) = (\<lambda>i. if i < m then span_view s i else None)"
    if "m \<le> 128" for m
    using that
  proof (induction m)
    case 0
    then show ?case by simp
  next
    case (Suc m)
    let ?t = "fold ?step [0..<m] Span_new"
    have t: "span_ok ?t" "span_view ?t = (\<lambda>i. if i < m then span_view s i else None)" using Suc by auto
    have step: "fold ?step [0..<Suc m] Span_new = ?step m ?t" by simp
    show ?case
    proof (cases "span_hasNode m s")
      case True
      then obtain x where "span_view s m = Some x" "span_at m s = x" using hasNode_view [of m s] Suc.prems at_view by fastforce
      then show ?thesis using span_insert_ok [OF t(1), of m x] t(2) Suc.prems True unfolding step by (auto simp: fun_eq_iff less_Suc_eq)
    next
      case False
      then have "span_view s m = None" using hasNode_view [of m s] Suc.prems by auto
      then show ?thesis using t False unfolding step by (auto simp: fun_eq_iff less_Suc_eq)
    qed
  qed
  from this [of 128] have "span_ok (span_copy s)" "span_view (span_copy s) = (\<lambda>i. if i < 128 then span_view s i else None)"
    by (simp_all add: span_copy_def)
  then show ?thesis by (auto simp: span_view_def busy_def)
qed

end
