(* ===== verification/QHashTable.thy ===== *)
theory QHashTable
  imports QHashProbe QHashSpan
begin

text \<open>
  The spans of a table are one flat array of buckets; on it the loops of the code are the probing of
  \<open>QHashProbe\<close>. All of them return because at most half of the buckets are occupied.
\<close>

section \<open>Buckets\<close>

lemma and_127: "(b :: nat) AND 127 = b mod 128"
proof -
  have m: "(127 :: nat) = mask 7" by (simp add: mask_eq_exp_minus_1)
  show ?thesis unfolding m take_bit_eq_mask [symmetric] by (simp add: take_bit_eq_mod)
qed

lemma Bucket_at_eq: "Bucket_at b = (b div 128, b mod 128)"
  by (simp add: Bucket_at_def and_127 drop_bit_eq_div)

lemma push_or: "i < 128 \<Longrightarrow> push_bit 7 (s :: nat) OR i = s * 128 + i"
proof -
  assume i: "i < 128"
  have "push_bit 7 s AND i = 0"
  proof (rule bit_eqI)
    fix n show "bit (push_bit 7 s AND i) n = bit 0 n"
    proof (cases "n < 7")
      case False
      then have "(2 :: nat) ^ 7 \<le> 2 ^ n" by (intro power_increasing) auto
      then have "i < 2 ^ n" using i by simp
      then have "\<not> bit i n" by (simp add: bit_nat_def)
      then show ?thesis by (simp add: bit_and_iff)
    qed (simp add: bit_and_iff bit_push_bit_iff)
  qed
  then have "push_bit 7 s OR i = push_bit 7 s + i" by (simp add: disjunctive_add_eq_or)
  then show ?thesis by (simp add: push_bit_eq_mult)
qed

lemma toBucketIndex_at [simp]: "toBucketIndex (Bucket_at b) = b"
  by (simp add: Bucket_at_eq push_or)

lemma Bucket_at_inj [simp]: "Bucket_at a = Bucket_at b \<longleftrightarrow> a = b"
  by (metis toBucketIndex_at)

lemma bucketForHash_mod: "k < 64 \<Longrightarrow> bucketForHash (2 ^ k) h = unat h mod 2 ^ k"
proof -
  have "(of_nat (2 ^ k) :: 64 word) - 1 = mask k" by (simp add: mask_eq_exp_minus_1)
  then have "h AND (of_nat (2 ^ k) - 1) = take_bit k h" by (simp only: take_bit_eq_mask)
  moreover have "unat (take_bit k h) = take_bit k (unat h)" by (simp add: unsigned_take_bit_eq)
  ultimately show ?thesis unfolding bucketForHash_def by (simp only: take_bit_eq_mod)
qed

lemma bit_length_bounds: "0 < v \<Longrightarrow> 2 ^ (bit_length v - 1) \<le> v \<and> v < 2 ^ bit_length v \<and> 0 < bit_length v"
proof (induction v rule: bit_length.induct)
  case (1 v)
  show ?case
  proof (cases "v div 2 = 0")
    case True
    then have "v = 1" using 1(2) by auto
    then show ?thesis by (simp add: bit_length.simps)
  next
    case False
    then have IH: "2 ^ (bit_length (v div 2) - 1) \<le> v div 2" "v div 2 < 2 ^ bit_length (v div 2)" "0 < bit_length (v div 2)"
      using 1 by auto
    have b: "bit_length v = Suc (bit_length (v div 2))" using 1(2) by (subst bit_length.simps) simp
    obtain m where m: "bit_length (v div 2) = Suc m" using IH(3) by (cases "bit_length (v div 2)") auto
    have "2 * 2 ^ m \<le> v" "v < 2 * 2 ^ Suc m" using IH m by auto
    then show ?thesis using b m by simp
  qed
qed

lemma bucketsForCapacity_power:
  assumes "c < 2 ^ 61"
  shows "\<exists>k. bucketsForCapacity c = 2 ^ k \<and> 7 \<le> k \<and> k < 63 \<and> 2 * c \<le> 2 ^ k"
proof (cases "c \<le> 64")
  case True
  then show ?thesis by (intro exI [of _ 7]) (simp add: bucketsForCapacity_def)
next
  case False
  define L where "L = bit_length c"
  have L: "2 ^ (L - 1) \<le> c" "c < 2 ^ L" "0 < L" using bit_length_bounds [of c] False by (auto simp: L_def)
  have "(2 :: nat) ^ 6 < 2 ^ L" using L(2) False by simp
  then have "6 < L" by (rule power_less_imp_less_exp [rotated]) simp
  have "(2 :: nat) ^ (L - 1) < 2 ^ 61" using L(1) assms by (rule le_less_trans)
  then have "L - 1 < 61" by (rule power_less_imp_less_exp [rotated]) simp
  then have "L < 62" by simp
  then have "\<not> 64 - L < 2" "64 - (64 - L) + 1 = L + 1" by linarith+
  then have "bucketsForCapacity c = 2 ^ (L + 1)"
    using False by (simp add: bucketsForCapacity_def qCountLeadingZeroBits_def L_def [symmetric] Let_def push_bit_eq_mult)
  then show ?thesis using L \<open>6 < L\<close> \<open>L < 62\<close> by (intro exI [of _ "L + 1"]) auto
qed

section \<open>The flat table\<close>

definition shape_ok :: "('k, 'v) Data \<Rightarrow> bool" where
  "shape_ok d \<longleftrightarrow> (\<exists>k. numBuckets d = 2 ^ k \<and> 7 \<le> k \<and> k < 63 \<and> length (spans d) = 2 ^ (k - 7))
     \<and> (\<forall>s \<in> set (spans d). span_ok s)"

definition tab :: "('k, 'v) Data \<Rightarrow> nat \<Rightarrow> ('k, 'v) Node option" where
  "tab d b = (if b < numBuckets d then span_view (spans d ! (b div 128)) (b mod 128) else None)"

lemma shape_spans:
  assumes "shape_ok d"
  shows "128 * length (spans d) = numBuckets d" "drop_bit SpanShift (numBuckets d) = length (spans d)" "128 \<le> numBuckets d"
    "b < numBuckets d \<Longrightarrow> b div 128 < length (spans d)" "b < numBuckets d \<Longrightarrow> span_ok (spans d ! (b div 128))"
proof -
  obtain k where k: "numBuckets d = 2 ^ k" "7 \<le> k" "length (spans d) = 2 ^ (k - 7)" using assms by (auto simp: shape_ok_def)
  then obtain m where m: "k = 7 + m" using le_Suc_ex by blast
  show n: "128 * length (spans d) = numBuckets d" using k m by (simp add: power_add)
  then show "drop_bit SpanShift (numBuckets d) = length (spans d)" by (simp add: drop_bit_eq_div)
  have "(1 :: nat) \<le> 2 ^ m" by simp
  then show "128 \<le> numBuckets d" using k m by (simp add: power_add)
  show l: "b < numBuckets d \<Longrightarrow> b div 128 < length (spans d)" using n by (simp add: less_mult_imp_div_less mult.commute)
  then show "b < numBuckets d \<Longrightarrow> span_ok (spans d ! (b div 128))" using assms by (simp add: shape_ok_def)
qed

lemma unused_tab: "b < numBuckets d \<Longrightarrow> bucket_isUnused d (Bucket_at b) \<longleftrightarrow> tab d b = None"
  by (simp add: Bucket_at_eq tab_def hasNode_view)

lemma node_tab: "tab d b = Some x \<Longrightarrow> bucket_node d (Bucket_at b) = x"
  by (simp add: Bucket_at_eq tab_def at_view split: if_splits)

lemma advance_cyc:
  assumes "shape_ok d" "b < numBuckets d"
  shows "advanceWrapped d (Bucket_at b) = Bucket_at (cyc (numBuckets d) b)"
proof -
  define q r where "q = b div 128" and "r = b mod 128"
  have b: "b = 128 * q + r" "r < 128" by (simp_all add: q_def r_def)
  have n: "numBuckets d = 128 * length (spans d)" "q < length (spans d)" using shape_spans [OF assms(1)] assms(2) by (simp_all add: q_def)
  show ?thesis
  proof (cases "r = 127")
    case True
    then have "b + 1 = 128 * (q + 1)" using b by simp
    moreover have "128 * (q + 1) = 128 * length (spans d) \<longleftrightarrow> q + 1 = length (spans d)" by presburger
    ultimately have "(b + 1) div 128 = q + 1" "(b + 1) mod 128 = 0" "b + 1 = numBuckets d \<longleftrightarrow> q + 1 = length (spans d)" using n by simp_all
    then show ?thesis using True shape_spans(2) [OF assms(1)]
      by (auto simp: Bucket_at_eq cyc_def q_def [symmetric] r_def [symmetric])
  next
    case False
    then have "(b + 1) div 128 = q" "(b + 1) mod 128 = r + 1" "b + 1 \<noteq> numBuckets d" using b n by (auto simp: b(1))
    then show ?thesis using False by (simp add: Bucket_at_eq cyc_def q_def [symmetric] r_def [symmetric])
  qed
qed

text \<open>A span replaced.\<close>

lemma tab_update:
  assumes "shape_ok d" "b < numBuckets d" "span_ok s" "span_view s = (span_view (spans d ! (b div 128)))(b mod 128 := x)"
    "spans d' = (spans d)[b div 128 := s]" "numBuckets d' = numBuckets d"
  shows "shape_ok d'" "tab d' = (tab d)(b := x)"
proof -
  have l: "b div 128 < length (spans d)" using shape_spans(4) [OF assms(1,2)] .
  show "shape_ok d'" using assms l by (auto simp: shape_ok_def dest!: set_update_subset_insert [THEN subsetD])
  show "tab d' = (tab d)(b := x)"
  proof
    fix c show "tab d' c = ((tab d)(b := x)) c"
    proof (cases "c div 128 = b div 128")
      case True
      moreover have "c = b \<longleftrightarrow> c mod 128 = b mod 128" using True by (metis div_mult_mod_eq)
      ultimately show ?thesis using assms l by (auto simp: tab_def)
    next
      case False
      then show ?thesis using assms by (auto simp: tab_def)
    qed
  qed
qed

lemma tab_insert:
  assumes "shape_ok d" "b < numBuckets d" "tab d b = None"
  shows "shape_ok (bucket_insert (Bucket_at b) x d)" "tab (bucket_insert (Bucket_at b) x d) = (tab d)(b := Some x)"
  using span_insert_ok [of "spans d ! (b div 128)" "b mod 128" x] shape_spans(5) [OF assms(1,2)] assms
    tab_update [OF assms(1,2), of "span_insert (b mod 128) x (spans d ! (b div 128))" "Some x" "bucket_insert (Bucket_at b) x d"]
  by (simp_all add: Bucket_at_eq tab_def)

lemma tab_erase:
  assumes "shape_ok d" "b < numBuckets d" "tab d b \<noteq> None"
  shows "shape_ok (bucket_erase (Bucket_at b) d)" "tab (bucket_erase (Bucket_at b) d) = (tab d)(b := None)"
  using span_erase_ok [of "spans d ! (b div 128)" "b mod 128"] shape_spans(5) [OF assms(1,2)] assms
    tab_update [OF assms(1,2), of "span_erase (b mod 128) (spans d ! (b div 128))" None "bucket_erase (Bucket_at b) d"]
  by (simp_all add: Bucket_at_eq tab_def)

lemma tab_emplaceValue:
  assumes "shape_ok d" "b < numBuckets d" "tab d b = Some x"
  shows "shape_ok (bucket_emplaceValue (Bucket_at b) v d)"
    "tab (bucket_emplaceValue (Bucket_at b) v d) = (tab d)(b := Some (x\<lparr>node_value := v\<rparr>))"
proof -
  let ?s = "spans d ! (b div 128)"
  have v: "span_view ?s (b mod 128) = Some x" using assms by (simp add: tab_def)
  have "entry_node (entries ?s ! (offsets ?s ! (b mod 128))) = x" using at_view [OF v] by (simp add: span_at_def)
  then show "shape_ok (bucket_emplaceValue (Bucket_at b) v d)"
    "tab (bucket_emplaceValue (Bucket_at b) v d) = (tab d)(b := Some (x\<lparr>node_value := v\<rparr>))"
    using span_replace_ok [OF shape_spans(5) [OF assms(1,2)] v, of "x\<lparr>node_value := v\<rparr>"]
      tab_update [OF assms(1,2), of "?s\<lparr>entries := (entries ?s)[offsets ?s ! (b mod 128) := NodeEntry (x\<lparr>node_value := v\<rparr>)]\<rparr>"
        "Some (x\<lparr>node_value := v\<rparr>)" "bucket_emplaceValue (Bucket_at b) v d"]
    by (simp_all add: Bucket_at_eq Let_def)
qed

lemma tab_move:
  assumes ok: "shape_ok d" and b: "b < numBuckets d" "tab d b = Some x" and c: "c < numBuckets d" "tab d c = None"
  shows "shape_ok (moveNode (Bucket_at b) (Bucket_at c) d)" "tab (moveNode (Bucket_at b) (Bucket_at c) d) = (tab d)(c := Some x, b := None)"
proof -
  let ?s = "spans d ! (b div 128)" and ?t = "spans d ! (c div 128)"
  have v: "span_view ?s (b mod 128) = Some x" "span_view ?t (c mod 128) = None" using b c by (simp_all add: tab_def)
  have l: "b div 128 < length (spans d)" "c div 128 < length (spans d)" using shape_spans(4) [OF ok] b(1) c(1) by blast+
  have "shape_ok (moveNode (Bucket_at b) (Bucket_at c) d) \<and> tab (moveNode (Bucket_at b) (Bucket_at c) d) = (tab d)(c := Some x, b := None)"
  proof (cases "b div 128 = c div 128")
    case True
    define u where "u = span_moveLocal (b mod 128) (c mod 128) ?t"
    have u: "span_ok u" "span_view u = (span_view ?t)(c mod 128 := Some x, b mod 128 := None)"
      using span_moveLocal_ok [of ?t "b mod 128" x "c mod 128"] v True shape_spans(5) [OF ok c(1)] by (auto simp: u_def)
    define d' where "d' = moveNode (Bucket_at b) (Bucket_at c) d"
    have d': "d' = d\<lparr>spans := (spans d)[c div 128 := u]\<rparr>" using True by (simp add: d'_def Bucket_at_eq u_def)
    have "shape_ok d'" using ok u l by (auto simp: d' shape_ok_def dest!: set_update_subset_insert [THEN subsetD])
    moreover have "tab d' a = ((tab d)(c := Some x, b := None)) a" for a
    proof (cases "a div 128 = c div 128")
      case here: True
      have "a = b \<longleftrightarrow> a mod 128 = b mod 128" "a = c \<longleftrightarrow> a mod 128 = c mod 128" using True here by (metis div_mult_mod_eq)+
      then show ?thesis using u l here b(1) c(1) by (auto simp: tab_def d')
    next
      case False
      then have "a \<noteq> b" "a \<noteq> c" "spans d' ! (a div 128) = spans d ! (a div 128)" "numBuckets d' = numBuckets d"
        using True by (auto simp: d')
      then show ?thesis by (simp add: tab_def)
    qed
    ultimately show ?thesis unfolding d'_def by blast
  next
    case False
    define u where "u = span_insert (c mod 128) x ?t"
    define d1 where "d1 = d\<lparr>spans := (spans d)[c div 128 := u]\<rparr>"
    have u: "span_ok u \<and> span_view u = (span_view ?t)(c mod 128 := Some x)"
      using span_insert_ok [OF shape_spans(5) [OF ok c(1)], of "c mod 128" x] v by (simp add: u_def)
    note d1 = tab_update [OF ok c(1) conjunct1 [OF u] conjunct2 [OF u], of d1]
    have d1': "shape_ok d1" "tab d1 = (tab d)(c := Some x)" using d1 by (simp_all add: d1_def)
    have same: "spans d1 ! (b div 128) = ?s" "numBuckets d1 = numBuckets d" using False by (simp_all add: d1_def)
    have "b \<noteq> c" using b c by auto
    then have w: "span_ok (span_erase (b mod 128) ?s) \<and> span_view (span_erase (b mod 128) ?s) = (span_view (spans d1 ! (b div 128)))(b mod 128 := None)"
      using span_erase_ok [OF shape_spans(5) [OF ok b(1)], of "b mod 128"] v same by simp
    have "moveNode (Bucket_at b) (Bucket_at c) d = d1\<lparr>spans := (spans d1)[b div 128 := span_erase (b mod 128) ?s]\<rparr>"
      using False v at_view [OF v(1)] by (simp add: Bucket_at_eq span_moveFromSpan_eq d1_def u_def Let_def)
    then show ?thesis using tab_update [OF d1'(1) _ conjunct1 [OF w] conjunct2 [OF w], of "moveNode (Bucket_at b) (Bucket_at c) d"] b(1) same(2) d1'(2)
      by simp
  qed
  then show "shape_ok (moveNode (Bucket_at b) (Bucket_at c) d)" "tab (moveNode (Bucket_at b) (Bucket_at c) d) = (tab d)(c := Some x, b := None)"
    by auto
qed

section \<open>Search\<close>

lemma findBucket_loop_finds:
  assumes shape: "shape_ok d" and "b < numBuckets d" "e < numBuckets d" "tab d e = None"
  shows "\<exists>c < numBuckets d. findBucket_loop d k (Bucket_at b) = Some (Bucket_at c)
    \<and> (\<forall>p < numBuckets d. dist (numBuckets d) b p < dist (numBuckets d) b c \<longrightarrow> (\<exists>y. tab d p = Some y \<and> node_key y \<noteq> k))
    \<and> (\<forall>y. tab d c = Some y \<longrightarrow> node_key y = k)"
  using assms(2)
proof (induction "dist (numBuckets d) b e" arbitrary: b)
  case 0
  then have "b = e" using dist_zero [of b _ e] assms(3) by simp
  then show ?case using 0 assms unused_tab [of b d] by (intro exI [of _ b]) (simp add: findBucket_loop.simps)
next
  case (Suc m)
  let ?n = "numBuckets d"
  show ?case
  proof (cases "tab d b = None \<or> (\<exists>y. tab d b = Some y \<and> node_key y = k)")
    case True
    then have "findBucket_loop d k (Bucket_at b) = Some (Bucket_at b)"
      using Suc.prems unused_tab [of b d] node_tab [of d b] by (subst findBucket_loop.simps) auto
    then show ?thesis using Suc.prems True by (intro exI [of _ b]) auto
  next
    case False
    then obtain y where y: "tab d b = Some y" "node_key y \<noteq> k" by auto
    have ne: "b \<noteq> e" using y assms(4) by auto
    have "m = dist ?n (cyc ?n b) e" using Suc.hyps(2) dist_from_cyc [OF Suc.prems assms(3) ne] by simp
    have "cyc ?n b < ?n" using Suc.prems by simp
    from Suc.hyps(1) [OF \<open>m = _\<close> this] obtain c where c: "c < ?n" "findBucket_loop d k (Bucket_at (cyc ?n b)) = Some (Bucket_at c)"
      "\<forall>p < ?n. dist ?n (cyc ?n b) p < dist ?n (cyc ?n b) c \<longrightarrow> (\<exists>y. tab d p = Some y \<and> node_key y \<noteq> k)"
      "\<forall>y. tab d c = Some y \<longrightarrow> node_key y = k"
      by (elim exE conjE)
    have "findBucket_loop d k (Bucket_at b) = Some (Bucket_at c)"
      using y c(2) Suc.prems unused_tab [of b d] node_tab [OF y(1)] advance_cyc [OF shape Suc.prems] by (subst findBucket_loop.simps) simp
    moreover have "\<forall>p < ?n. dist ?n b p < dist ?n b c \<longrightarrow> (\<exists>y. tab d p = Some y \<and> node_key y \<noteq> k)"
    proof (intro allI impI)
      fix p assume p: "p < ?n" "dist ?n b p < dist ?n b c"
      show "\<exists>y. tab d p = Some y \<and> node_key y \<noteq> k"
      proof (cases "p = b")
        case True
        then show ?thesis using y by blast
      next
        case False
        then have "c \<noteq> b" using p by auto
        then have "dist ?n (cyc ?n b) p < dist ?n (cyc ?n b) c"
          using p False dist_from_cyc [OF Suc.prems, of p] dist_from_cyc [OF Suc.prems, of c] c(1) by auto
        then show ?thesis using c(3) p(1) by blast
      qed
    qed
    ultimately show ?thesis using c(1,4) by (intro exI [of _ c] conjI)
  qed
qed

definition home_of :: "('k \<Rightarrow> 64 word \<Rightarrow> 64 word) \<Rightarrow> ('k, 'v) Data \<Rightarrow> 'k \<Rightarrow> nat" where
  "home_of hf d k = bucketForHash (numBuckets d) (hf k (seed d))"

lemma bucket_of_key_home: "bucket_of_key hf d k = Bucket_at (home_of hf d k)"
  by (simp add: bucket_of_key_def home_of_def)

lemma home_less: "shape_ok d \<Longrightarrow> home_of hf d k < numBuckets d"
  using bucketForHash_mod by (fastforce simp: shape_ok_def home_of_def)

lemma findBucket_slot:
  assumes "shape_ok d" "e < numBuckets d" "tab d e = None"
  shows "\<exists>b. findBucket hf d k = Some (Bucket_at b) \<and> is_slot (numBuckets d) (home_of hf d) node_key (tab d) k b"
proof -
  have "home_of hf d k < numBuckets d" by (rule home_less [OF assms(1)])
  from findBucket_loop_finds [OF assms(1) this assms(2,3), of k] show ?thesis
    by (auto simp: findBucket_def bucket_of_key_home is_slot_def)
qed

section \<open>The invariant of a table\<close>

definition table_ok :: "('k \<Rightarrow> 64 word \<Rightarrow> 64 word) \<Rightarrow> ('k, 'v) Data \<Rightarrow> bool" where
  "table_ok hf d \<longleftrightarrow> shape_ok d \<and> probe_ok (numBuckets d) (home_of hf d) node_key (tab d)
     \<and> data_size d = card (filled (numBuckets d) (tab d)) \<and> 2 * data_size d \<le> numBuckets d"

lemma finite_filled [simp]: "finite (filled n t)"
proof -
  have "filled n t \<subseteq> the ` t ` {..<n}" by (force simp: filled_def image_iff)
  then show ?thesis by (rule finite_subset) simp
qed

text \<open>Fewer nodes than buckets leave an empty bucket, and one besides any that is given.\<close>

lemma empty_bucket:
  assumes ok: "probe_ok n home ky t" and home: "\<forall>k. home k < n" and "card (filled n t) + card A < n" "finite A"
  shows "\<exists>e < n. e \<notin> A \<and> t e = None"
proof (rule ccontr)
  assume none: "\<not> ?thesis"
  let ?B = "{..<n} - A"
  have "inj_on (\<lambda>b. the (t b)) ?B"
  proof (rule inj_onI)
    fix b c assume bc: "b \<in> ?B" "c \<in> ?B" and eq: "the (t b) = the (t c)"
    then have "t b \<noteq> None" "t c \<noteq> None" using none by (auto simp: Diff_iff)
    then obtain u v where "t b = Some u" "t c = Some v" by auto
    then show "b = c" using probe_unique [OF ok home, of b c u v] bc eq by auto
  qed
  moreover have "(\<lambda>b. the (t b)) ` ?B \<subseteq> filled n t" using none by (force simp: filled_def)
  ultimately have "card ?B \<le> card (filled n t)" using card_inj_on_le finite_filled by blast
  moreover have "n - card A \<le> card ?B" using diff_card_le_card_Diff [OF assms(4), of "{..<n}"] by simp
  ultimately show False using assms(3) by linarith
qed

lemma table_empty_bucket:
  assumes "table_ok hf d"
  shows "\<exists>e < numBuckets d. e \<noteq> b \<and> tab d e = None"
proof -
  have "128 \<le> numBuckets d" "2 * card (filled (numBuckets d) (tab d)) \<le> numBuckets d"
    using assms shape_spans(3) by (auto simp: table_ok_def)
  then have "card (filled (numBuckets d) (tab d)) + card {b} < numBuckets d" by simp
  moreover have "\<forall>k. home_of hf d k < numBuckets d" using home_less assms by (auto simp: table_ok_def)
  ultimately show ?thesis
    using empty_bucket [of "numBuckets d" "home_of hf d" node_key "tab d" "{b}"] assms by (auto simp: table_ok_def)
qed

lemma findBucket_ok:
  assumes "table_ok hf d"
  shows "\<exists>b. findBucket hf d k = Some (Bucket_at b) \<and> is_slot (numBuckets d) (home_of hf d) node_key (tab d) k b"
proof -
  obtain e where "e < numBuckets d" "tab d e = None" using table_empty_bucket [OF assms, of 0] by blast
  then show ?thesis using findBucket_slot assms by (auto simp: table_ok_def)
qed

section \<open>Erasing\<close>

lemma passesHole_dist:
  assumes shape: "shape_ok d" and e: "e < numBuckets d" and x: "x < numBuckets d" and "e \<noteq> x" and a: "a < numBuckets d"
  shows "passesHole d (Bucket_at a) (Bucket_at x) (Bucket_at e) = Some (dist (numBuckets d) a e < dist (numBuckets d) a x)"
  using a
proof (induction "dist (numBuckets d) a x" arbitrary: a)
  case 0
  then have "a = x" using dist_zero [of a _ x] x by simp
  then show ?case by (simp add: passesHole.simps)
next
  case (Suc m)
  let ?n = "numBuckets d"
  have ax: "a \<noteq> x" using Suc.hyps(2) by auto
  show ?case
  proof (cases "a = e")
    case True
    then show ?thesis using ax Suc.hyps(2) by (simp add: passesHole.simps)
  next
    case False
    have "m = dist ?n (cyc ?n a) x" using Suc.hyps(2) dist_from_cyc [OF Suc.prems x ax] by simp
    from Suc.hyps(1) [OF this] have "passesHole d (Bucket_at (cyc ?n a)) (Bucket_at x) (Bucket_at e)
        = Some (dist ?n (cyc ?n a) e < dist ?n (cyc ?n a) x)" using Suc.prems by simp
    then show ?thesis using ax False advance_cyc [OF shape Suc.prems] dist_from_cyc [OF Suc.prems x ax] dist_from_cyc [OF Suc.prems e False]
      by (subst passesHole.simps) simp
  qed
qed

text \<open>No node at or behind a bucket gets in front of it.\<close>

definition stays_from :: "nat \<Rightarrow> nat \<Rightarrow> (nat \<Rightarrow> 'a option) \<Rightarrow> (nat \<Rightarrow> 'a option) \<Rightarrow> bool" where
  "stays_from b n t t' \<longleftrightarrow> (\<forall>p y. b \<le> p \<and> p < n \<and> t p = Some y \<longrightarrow> (\<exists>p'. b \<le> p' \<and> p' < n \<and> t' p' = Some y))"

lemma stays_refl: "stays_from b n t t"
  by (auto simp: stays_from_def)

lemma stays_trans: "stays_from b n t u \<Longrightarrow> stays_from b n u v \<Longrightarrow> stays_from b n t v"
  unfolding stays_from_def by blast

lemma stays_move:
  assumes "b < n" "e < n" "x < n" "t x = Some y" "t e = None" "dist n b e < dist n b x"
  shows "stays_from b n t (t(e := Some y, x := None))"
  unfolding stays_from_def
proof (intro allI impI)
  fix p z assume p: "b \<le> p \<and> p < n \<and> t p = Some z"
  show "\<exists>p' \<ge> b. p' < n \<and> (t(e := Some y, x := None)) p' = Some z"
  proof (cases "p = x")
    case True
    then have "b \<le> e" "e \<noteq> x" using p assms by (auto simp: dist_def split: if_splits)
    then show ?thesis using True p assms by (intro exI [of _ e]) simp
  next
    case False
    show ?thesis
    proof (cases "p = e")
      case True
      then show ?thesis using p assms by simp
    next
      case other: False
      then show ?thesis using p False by (intro exI [of _ p]) simp
    qed
  qed
qed

lemma closeHole_closes:
  assumes "shape_ok d" "w < numBuckets d" "hole_ok (numBuckets d) (home_of hf d) node_key (tab d) e (cyc (numBuckets d) w)"
    "f < numBuckets d" "f \<noteq> e" "tab d f = None" "dist (numBuckets d) e (cyc (numBuckets d) w) \<le> dist (numBuckets d) e f"
    "b < numBuckets d" "dist (numBuckets d) b e < dist (numBuckets d) b (cyc (numBuckets d) w)" "dist (numBuckets d) b (cyc (numBuckets d) w) \<le> dist (numBuckets d) b f"
  shows "\<exists>d'. closeHole hf (Bucket_at w) (Bucket_at e) d = Some d' \<and> shape_ok d' \<and> numBuckets d' = numBuckets d \<and> seed d' = seed d
    \<and> data_size d' = data_size d \<and> probe_ok (numBuckets d) (home_of hf d) node_key (tab d')
    \<and> filled (numBuckets d) (tab d') = filled (numBuckets d) (tab d)
    \<and> stays_from b (numBuckets d) (tab d) (tab d')"
  using assms
proof (induction "dist (numBuckets d) (cyc (numBuckets d) w) f" arbitrary: d w e rule: less_induct)
  case less
  let ?n = "numBuckets d" and ?home = "home_of hf d"
  define x where "x = cyc ?n w"
  have x: "x < ?n" "advanceWrapped d (Bucket_at w) = Bucket_at x" using less.prems advance_cyc by (auto simp: x_def)
  have e: "e < ?n" "e \<noteq> x" "tab d e = None" using less.prems(3) by (auto simp: hole_ok_def x_def)
  have home: "\<forall>k. ?home k < ?n" using home_less [OF less.prems(1)] by blast
  show ?case
  proof (cases "tab d x")
    case None
    then have "closeHole hf (Bucket_at w) (Bucket_at e) d = Some d"
      using x unused_tab [OF x(1)] by (subst closeHole.simps) (simp add: Let_def)
    then show ?thesis using hole_done [OF less.prems(3) [folded x_def] home None] less.prems(1) by (simp add: stays_refl)
  next
    case (Some y)
    have fx: "f \<noteq> x" using Some less.prems(6) by auto
    have dec: "dist ?n (cyc ?n x) f < dist ?n x f" using dist_from_cyc [OF x(1) less.prems(4)] fx by simp
    have far: "dist ?n e x < dist ?n e f" using less.prems(7) dist_inj [OF e(1) x(1) less.prems(4)] fx unfolding x_def [symmetric] by fastforce
    have cx: "cyc ?n x \<noteq> e"
    proof
      assume c: "cyc ?n x = e"
      have "dist ?n e f < ?n" using dist_less e(1) less.prems(4) by blast
      moreover have "Suc (dist ?n e x) = ?n" using c e(1) x(1) e(2) by (auto simp: dist_def cyc_def split: if_splits)
      ultimately show False using far by linarith
    qed
    have cxx: "cyc ?n x \<noteq> x" using shape_spans(3) [OF less.prems(1)] by (auto simp: cyc_def split: if_splits)
    have cb: "cyc ?n x \<noteq> b"
    proof
      assume c: "cyc ?n x = b"
      have "dist ?n b x < dist ?n b f"
        using less.prems(10) dist_inj [OF less.prems(8) x(1) less.prems(4)] fx unfolding x_def [symmetric] by fastforce
      moreover have "dist ?n b f < ?n" using dist_less less.prems(8,4) by blast
      moreover have "b \<noteq> x \<Longrightarrow> Suc (dist ?n b x) = ?n" using c less.prems(8) x(1) by (auto simp: dist_def cyc_def split: if_splits)
      moreover have "b \<noteq> x" using less.prems(9) unfolding x_def [symmetric] by auto
      ultimately show False by linarith
    qed
    have ahead: "dist ?n b x < dist ?n b (cyc ?n x)" "dist ?n b (cyc ?n x) \<le> dist ?n b f"
      using dist_cyc [OF less.prems(8) x(1) cb] less.prems(10) dist_inj [OF less.prems(8) x(1) less.prems(4)] fx unfolding x_def [symmetric]
      by fastforce+
    have pass: "passesHole d (Bucket_at (?home (node_key y))) (Bucket_at x) (Bucket_at e)
      = Some (dist ?n (?home (node_key y)) e < dist ?n (?home (node_key y)) x)"
      using passesHole_dist [OF less.prems(1) e(1) x(1) e(2)] home by blast
    show ?thesis
    proof (cases "dist ?n (?home (node_key y)) e < dist ?n (?home (node_key y)) x")
      case False
      have step: "closeHole hf (Bucket_at w) (Bucket_at e) d = closeHole hf (Bucket_at x) (Bucket_at e) d"
        using x unused_tab [OF x(1)] Some node_tab [OF Some] pass False bucket_of_key_home [of hf d]
        by (subst closeHole.simps) (simp add: Let_def)
      have "dist ?n e (cyc ?n x) \<le> dist ?n e f" using dist_cyc [OF e(1) x(1) cx] far by simp
      moreover have "hole_ok ?n ?home node_key (tab d) e (cyc ?n x)"
        using hole_keep [OF less.prems(3) [folded x_def] home Some False cx] .
      moreover have "dist ?n b e < dist ?n b (cyc ?n x)" using ahead(1) less.prems(9) unfolding x_def [symmetric] by simp
      ultimately show ?thesis using less.hyps [of d x e] dec less.prems x(1) step ahead(2) unfolding x_def [symmetric] by simp
    next
      case True
      define d1 where "d1 = moveNode (Bucket_at x) (Bucket_at e) d"
      have d1: "shape_ok d1" "tab d1 = (tab d)(e := Some y, x := None)"
        using tab_move [OF less.prems(1) x(1) Some e(1,3)] by (simp_all add: d1_def)
      have same: "numBuckets d1 = ?n" "seed d1 = seed d" "data_size d1 = data_size d"
        by (simp_all add: d1_def Bucket_at_eq Let_def split: prod.splits)
      have hm: "home_of hf d1 = ?home" by (simp add: home_of_def fun_eq_iff same)
      have step: "closeHole hf (Bucket_at w) (Bucket_at e) d = closeHole hf (Bucket_at x) (Bucket_at x) d1"
        using x unused_tab [OF x(1)] Some node_tab [OF Some] pass True bucket_of_key_home [of hf d]
        by (subst closeHole.simps) (simp add: Let_def d1_def)
      have hole: "hole_ok ?n ?home node_key (tab d1) x (cyc ?n x)"
        using hole_move [OF less.prems(3) [folded x_def] home Some True cxx] unfolding d1(2) .
      have "1 \<le> dist ?n x f" using dist_zero [OF x(1) less.prems(4)] fx by simp
      moreover have "dist ?n x (cyc ?n x) = 1" using dist_cyc [OF x(1,1) cxx] by simp
      ultimately have near: "dist ?n x (cyc ?n x) \<le> dist ?n x f" by simp
      have "\<exists>d'. closeHole hf (Bucket_at x) (Bucket_at x) d1 = Some d' \<and> shape_ok d' \<and> numBuckets d' = numBuckets d1 \<and> seed d' = seed d1
        \<and> data_size d' = data_size d1 \<and> probe_ok (numBuckets d1) (home_of hf d1) node_key (tab d')
        \<and> filled (numBuckets d1) (tab d') = filled (numBuckets d1) (tab d1) \<and> stays_from b (numBuckets d1) (tab d1) (tab d')"
        using dec less.prems(4,5,6,8) fx x(1) hole near d1(2) ahead unfolding x_def [symmetric]
        by (intro less.hyps d1(1)) (simp_all add: same hm x_def [symmetric])
      moreover have "filled ?n (tab d1) = filled ?n (tab d)"
        unfolding d1(2) by (rule filled_move [OF e(1) x(1) e(2,3) Some])
      moreover have "stays_from b ?n (tab d) (tab d1)"
        unfolding d1(2) by (rule stays_move [OF less.prems(8) e(1) x(1) Some e(3) less.prems(9) [folded x_def]])
      ultimately show ?thesis using step stays_trans by (fastforce simp: same hm)
    qed
  qed
qed

end
