(* ===== verification/QHashOps.thy ===== *)
theory QHashOps
  imports QHashTable
begin

text \<open>
  What the operations of a table do to its nodes, and to the finite map the nodes stand for.
\<close>

section \<open>Nodes and the map\<close>

definition data_nodes :: "('k, 'v) Data \<Rightarrow> ('k, 'v) Node list" where
  "data_nodes d = concat (map span_nodes (spans d))"

definition nodes_map :: "('k, 'v) Node list \<Rightarrow> 'k \<rightharpoonup> 'v" where
  "nodes_map ns = map_of (map (\<lambda>n. (node_key n, node_value n)) ns)"

definition data_map :: "('k, 'v) Data \<Rightarrow> 'k \<rightharpoonup> 'v" where
  "data_map d = nodes_map (data_nodes d)"

abbreviation data_filled :: "('k, 'v) Data \<Rightarrow> ('k, 'v) Node set" where
  "data_filled d \<equiv> filled (numBuckets d) (tab d)"

lemma span_nodes_view: "span_nodes s = map (\<lambda>i. the (span_view s i)) (filter (\<lambda>i. span_view s i \<noteq> None) [0..<128])"
proof -
  have "filter (\<lambda>i. span_hasNode i s) [0..<128] = filter (\<lambda>i. span_view s i \<noteq> None) [0..<128]"
    by (rule filter_cong) (simp_all add: hasNode_view)
  then show ?thesis unfolding span_nodes_def span_consts by (auto dest: at_view)
qed

lemma concat_blocks:
  fixes f :: "nat \<Rightarrow> nat \<Rightarrow> 'a option" and k :: nat
  assumes "0 < k"
  shows "concat (map (\<lambda>s. map (\<lambda>i. the (f s i)) (filter (\<lambda>i. f s i \<noteq> None) [0..<k])) [0..<m])
    = map (\<lambda>b. the (f (b div k) (b mod k))) (filter (\<lambda>b. f (b div k) (b mod k) \<noteq> None) [0..<k * m])"
proof (induction m)
  case (Suc m)
  have "[0..<k * Suc m] = [0..<k * m] @ map (\<lambda>i. k * m + i) [0..<k]"
    using upt_add_eq_append [of 0 "k * m" k] map_add_upt [of "k * m" k] by (simp add: add.commute)
  moreover have "filter (\<lambda>b. f (b div k) (b mod k) \<noteq> None) (map (\<lambda>i. k * m + i) [0..<k])
      = map (\<lambda>i. k * m + i) (filter (\<lambda>i. f m i \<noteq> None) [0..<k])"
    unfolding filter_map comp_def by (intro arg_cong [of _ _ "map _"] filter_cong) (use assms in auto)
  moreover have "map (\<lambda>i. the (f ((k * m + i) div k) ((k * m + i) mod k))) (filter (\<lambda>i. f m i \<noteq> None) [0..<k])
      = map (\<lambda>i. the (f m i)) (filter (\<lambda>i. f m i \<noteq> None) [0..<k])"
    by (rule map_cong) (use assms in auto)
  ultimately show ?case using Suc by (simp add: comp_def)
qed simp

lemma data_nodes_tab:
  assumes "shape_ok d"
  shows "data_nodes d = map (\<lambda>b. the (tab d b)) (filter (\<lambda>b. tab d b \<noteq> None) [0..<numBuckets d])"
proof -
  let ?f = "\<lambda>s i. span_view (spans d ! s) i"
  have n: "128 * length (spans d) = numBuckets d" using shape_spans(1) [OF assms] .
  have "data_nodes d = concat (map (\<lambda>s. span_nodes (spans d ! s)) [0..<length (spans d)])"
    unfolding data_nodes_def by (rule arg_cong [of _ _ concat], rule nth_equalityI) simp_all
  also have "\<dots> = map (\<lambda>b. the (?f (b div 128) (b mod 128))) (filter (\<lambda>b. ?f (b div 128) (b mod 128) \<noteq> None) [0..<128 * length (spans d)])"
    unfolding span_nodes_view by (rule concat_blocks) simp
  also have "\<dots> = map (\<lambda>b. the (tab d b)) (filter (\<lambda>b. tab d b \<noteq> None) [0..<numBuckets d])"
    unfolding n by (intro map_cong filter_cong) (auto simp: tab_def)
  finally show ?thesis .
qed

lemma set_data_nodes: "shape_ok d \<Longrightarrow> set (data_nodes d) = data_filled d"
  by (force simp: data_nodes_tab filled_def)

lemma distinct_keys:
  assumes ok: "table_ok hf d"
  shows "distinct (map node_key (data_nodes d))"
proof -
  have s: "shape_ok d" "probe_ok (numBuckets d) (home_of hf d) node_key (tab d)" using ok by (auto simp: table_ok_def)
  have home: "\<forall>k. home_of hf d k < numBuckets d" using home_less [OF s(1)] by blast
  have "inj_on (\<lambda>b. node_key (the (tab d b))) {b. b < numBuckets d \<and> tab d b \<noteq> None}"
    by (rule inj_onI) (use probe_unique [OF s(2) home] in fastforce)
  then show ?thesis unfolding data_nodes_tab [OF s(1)] by (simp add: distinct_map comp_def)
qed

lemma filled_key_unique:
  assumes "table_ok hf d" "x \<in> data_filled d" "y \<in> data_filled d" "node_key x = node_key y"
  shows "x = y"
proof -
  have "x \<in> set (data_nodes d)" "y \<in> set (data_nodes d)" using assms set_data_nodes [of d] by (auto simp: table_ok_def)
  then show ?thesis using distinct_keys [OF assms(1)] assms(4) by (auto simp: distinct_map dest: inj_onD)
qed

lemma nodes_map_iff:
  assumes "distinct (map node_key ns)"
  shows "nodes_map ns k = Some v \<longleftrightarrow> (\<exists>x \<in> set ns. node_key x = k \<and> node_value x = v)"
proof -
  have "distinct (map fst (map (\<lambda>n. (node_key n, node_value n)) ns))" using assms by (simp add: comp_def)
  then show ?thesis unfolding nodes_map_def by (subst map_of_eq_Some_iff) auto
qed

lemma data_map_iff:
  assumes "table_ok hf d"
  shows "data_map d k = Some v \<longleftrightarrow> (\<exists>x \<in> data_filled d. node_key x = k \<and> node_value x = v)"
  using assms set_data_nodes [of d] unfolding data_map_def nodes_map_iff [OF distinct_keys [OF assms]] by (simp add: table_ok_def)

lemma data_map_filled: "table_ok hf d \<Longrightarrow> x \<in> data_filled d \<Longrightarrow> data_map d (node_key x) = Some (node_value x)"
  using data_map_iff [of hf d "node_key x" "node_value x"] by blast

lemma data_map_None: "table_ok hf d \<Longrightarrow> data_map d k = None \<longleftrightarrow> (\<forall>x \<in> data_filled d. node_key x \<noteq> k)"
  using data_map_iff [of hf d k] by (cases "data_map d k") auto

lemma data_map_cong: "table_ok hf d \<Longrightarrow> table_ok hf d' \<Longrightarrow> data_filled d' = data_filled d \<Longrightarrow> data_map d' = data_map d"
proof
  fix k assume a: "table_ok hf d" "table_ok hf d'" "data_filled d' = data_filled d"
  have "data_map d' k = Some v \<longleftrightarrow> data_map d k = Some v" for v
    unfolding data_map_iff [OF a(1)] data_map_iff [OF a(2)] a(3) ..
  then show "data_map d' k = data_map d k" by (metis not_Some_eq)
qed

section \<open>Search\<close>

lemma findNode_ok:
  assumes ok: "table_ok hf d"
  shows "\<exists>r. findNode hf d k = Some r \<and> map_option node_value r = data_map d k"
proof -
  obtain b where b: "findBucket hf d k = Some (Bucket_at b)" "is_slot (numBuckets d) (home_of hf d) node_key (tab d) k b"
    using findBucket_ok [OF ok] by blast
  have s: "shape_ok d" "probe_ok (numBuckets d) (home_of hf d) node_key (tab d)" "b < numBuckets d" using ok b(2) by (auto simp: table_ok_def is_slot_def)
  have home: "\<forall>k. home_of hf d k < numBuckets d" using home_less [OF s(1)] by blast
  show ?thesis
  proof (cases "tab d b")
    case None
    then have "data_map d k = None" using slot_unoccupied [OF s(2) home b(2)] data_map_None [OF ok] by blast
    then show ?thesis using b(1) None unused_tab [OF s(3)] by (simp add: findNode_def)
  next
    case (Some x)
    then have "node_key x = k" "x \<in> data_filled d" using b(2) s(3) by (auto simp: is_slot_def filled_def)
    then show ?thesis using data_map_filled [OF ok] b(1) Some unused_tab [OF s(3)] node_tab [OF Some] by (auto simp: findNode_def)
  qed
qed

section \<open>A new table\<close>

lemma tab_allocated:
  assumes "spans d = allocateSpans (numBuckets d)" "numBuckets d = bucketsForCapacity c" "c < 2 ^ 61"
  shows "shape_ok d" "tab d = (\<lambda>_. None)" "2 * c \<le> numBuckets d"
proof -
  obtain k where k: "numBuckets d = 2 ^ k" "7 \<le> k" "k < 63" "2 * c \<le> 2 ^ k" using bucketsForCapacity_power [OF assms(3)] assms(2) by auto
  have "(2 :: nat) ^ k div 128 = 2 ^ (k - 7)" using power_diff [of "2 :: nat" 7 k] k(2) by simp
  then have sp: "spans d = replicate (2 ^ (k - 7)) Span_new" using assms(1) k(1) by (simp add: allocateSpans_def drop_bit_eq_div)
  then show shape: "shape_ok d" using k by (auto simp: shape_ok_def)
  show "tab d = (\<lambda>_. None)" using shape_spans(4) [OF shape] sp by (auto simp: tab_def fun_eq_iff)
  show "2 * c \<le> numBuckets d" using k by simp
qed

lemma Data_new_ok:
  assumes "c < 2 ^ 61"
  shows "table_ok hf (Data_new s c :: ('k, 'v) Data)" "data_filled (Data_new s c :: ('k, 'v) Data) = {}"
proof -
  have t: "shape_ok (Data_new s c :: ('k, 'v) Data)" "tab (Data_new s c :: ('k, 'v) Data) = (\<lambda>_. None)"
    using tab_allocated [of "Data_new s c" c] assms by (simp_all add: Data_new_def Let_def)
  then show "table_ok hf (Data_new s c :: ('k, 'v) Data)" "data_filled (Data_new s c :: ('k, 'v) Data) = {}"
    unfolding table_ok_def t(2) by (simp_all add: probe_empty) (simp add: Data_new_def Let_def)
qed

section \<open>Copying\<close>

lemma same_hash: "numBuckets d' = numBuckets d \<Longrightarrow> seed d' = seed d \<Longrightarrow> home_of hf d' = home_of hf d"
  by (simp add: home_of_def fun_eq_iff)

lemma Data_copy_ok:
  assumes "table_ok hf d"
  shows "table_ok hf (Data_copy d)" "tab (Data_copy d) = tab d" "numBuckets (Data_copy d) = numBuckets d" "data_size (Data_copy d) = data_size d"
    "seed (Data_copy d) = seed d"
proof -
  have s: "\<forall>s \<in> set (spans d). span_ok s" "shape_ok d" using assms by (auto simp: table_ok_def shape_ok_def)
  show n: "numBuckets (Data_copy d) = numBuckets d" "data_size (Data_copy d) = data_size d" "seed (Data_copy d) = seed d" by (simp_all add: Data_copy_def)
  show t: "tab (Data_copy d) = tab d"
  proof
    fix b show "tab (Data_copy d) b = tab d b"
    proof (cases "b < numBuckets d")
      case True
      then show ?thesis using span_copy_ok [OF shape_spans(5) [OF s(2) True]] shape_spans(4) [OF s(2) True]
        by (simp add: tab_def Data_copy_def)
    qed (simp add: tab_def Data_copy_def)
  qed
  have "shape_ok (Data_copy d)" using s span_copy_ok by (auto simp: shape_ok_def Data_copy_def)
  then show "table_ok hf (Data_copy d)" using assms unfolding table_ok_def t n same_hash [of "Data_copy d" d hf, OF n(1,3)] by simp
qed

end
