(* ===== verification/QHashUpdate.thy ===== *)
theory QHashUpdate
  imports QHashOps
begin

text \<open>
  The operations that change a table keep its invariant and do to its nodes what they promise: erasing,
  rehashing and copying with another capacity, inserting.
\<close>

lemma resized [simp]:
  "tab (d\<lparr>data_size := m\<rparr>) = tab d" "shape_ok (d\<lparr>data_size := m\<rparr>) = shape_ok d" "home_of hf (d\<lparr>data_size := m\<rparr>) = home_of hf d"
  by (simp_all add: tab_def shape_ok_def home_of_def fun_eq_iff)

lemma bucket_same [simp]:
  "numBuckets (bucket_insert (Bucket_at b) n d) = numBuckets d" "seed (bucket_insert (Bucket_at b) n d) = seed d"
  "data_size (bucket_insert (Bucket_at b) n d) = data_size d"
  "numBuckets (bucket_erase (Bucket_at b) d) = numBuckets d" "seed (bucket_erase (Bucket_at b) d) = seed d"
  "data_size (bucket_erase (Bucket_at b) d) = data_size d"
  "numBuckets (bucket_emplaceValue (Bucket_at b) v d) = numBuckets d" "seed (bucket_emplaceValue (Bucket_at b) v d) = seed d"
  "data_size (bucket_emplaceValue (Bucket_at b) v d) = data_size d"
  by (simp_all add: Bucket_at_eq Let_def)

lemma filled_remove:
  assumes "b < n" "t b = Some x" and only: "\<And>c. c < n \<Longrightarrow> t c = Some x \<Longrightarrow> c = b"
  shows "filled n (t(b := None)) = filled n t - {x}" "filled n (t(b \<mapsto> y)) = insert y (filled n t - {x})"
proof -
  have "z \<in> filled n (t(b := None)) \<longleftrightarrow> z \<in> filled n t - {x}" for z
  proof
    assume "z \<in> filled n (t(b := None))"
    then obtain c where "c < n" "c \<noteq> b" "t c = Some z" by (auto simp: filled_def split: if_splits)
    then show "z \<in> filled n t - {x}" using only by (auto simp: filled_def)
  next
    assume "z \<in> filled n t - {x}"
    then obtain c where "c < n" "t c = Some z" "z \<noteq> x" by (auto simp: filled_def)
    then have "c < n \<and> (t(b := None)) c = Some z" using assms(2) by auto
    then show "z \<in> filled n (t(b := None))" unfolding filled_def by blast
  qed
  then show *: "filled n (t(b := None)) = filled n t - {x}" by blast
  have "filled n (t(b \<mapsto> y)) = insert y (filled n (t(b := None)))" using assms(1) by (auto simp: filled_def split: if_splits)
  then show "filled n (t(b \<mapsto> y)) = insert y (filled n t - {x})" unfolding * .
qed

section \<open>Erasing\<close>

lemma data_erase_ok:
  assumes ok: "table_ok hf d" and b: "b < numBuckets d" "tab d b = Some x"
  shows "\<exists>d'. data_erase hf (Bucket_at b) d = Some d' \<and> table_ok hf d' \<and> data_filled d' = data_filled d - {x}
    \<and> data_size d' = data_size d - 1 \<and> numBuckets d' = numBuckets d \<and> seed d' = seed d
    \<and> stays_from b (numBuckets d) ((tab d)(b := None)) (tab d')"
proof -
  let ?n = "numBuckets d"
  define d1 where "d1 = (bucket_erase (Bucket_at b) d)\<lparr>data_size := data_size d - 1\<rparr>"
  have s: "shape_ok d" "probe_ok ?n (home_of hf d) node_key (tab d)" using ok by (auto simp: table_ok_def)
  have home: "\<forall>k. home_of hf d k < ?n" using home_less [OF s(1)] by blast
  have same: "numBuckets d1 = ?n" "seed d1 = seed d" "data_size d1 = data_size d - 1" by (simp_all add: d1_def)
  have "shape_ok (bucket_erase (Bucket_at b) d)" "tab (bucket_erase (Bucket_at b) d) = (tab d)(b := None)"
    using tab_erase [OF s(1) b(1)] b(2) by simp_all
  then have d1: "shape_ok d1" "tab d1 = (tab d)(b := None)" by (simp_all add: d1_def)
  note hm = same_hash [of d1 d hf, OF same(1,2)]
  have cb: "cyc ?n b \<noteq> b" using shape_spans(3) [OF s(1)] by (auto simp: cyc_def split: if_splits)
  have hole: "hole_ok (numBuckets d1) (home_of hf d1) node_key (tab d1) b (cyc (numBuckets d1) b)"
    unfolding same hm d1(2) by (rule hole_start [OF s(2) home b(1) cb])
  obtain f where f: "f < ?n" "f \<noteq> b" "tab d f = None" using table_empty_bucket [OF ok, of b] by blast
  have "dist ?n b (cyc ?n b) = 1" using dist_cyc [OF b(1,1) cb] by simp
  moreover have "1 \<le> dist ?n b f" using dist_zero [OF b(1) f(1)] f(2) by simp
  ultimately have "dist (numBuckets d1) b (cyc (numBuckets d1) b) \<le> dist (numBuckets d1) b f" by (simp add: same)
  moreover have "dist (numBuckets d1) b b < dist (numBuckets d1) b (cyc (numBuckets d1) b)" using dist_cyc [OF b(1,1) cb] by (simp add: same)
  ultimately have "\<exists>d'. closeHole hf (Bucket_at b) (Bucket_at b) d1 = Some d' \<and> shape_ok d' \<and> numBuckets d' = numBuckets d1 \<and> seed d' = seed d1
    \<and> data_size d' = data_size d1 \<and> probe_ok (numBuckets d1) (home_of hf d1) node_key (tab d')
    \<and> filled (numBuckets d1) (tab d') = filled (numBuckets d1) (tab d1) \<and> stays_from b (numBuckets d1) (tab d1) (tab d')"
    using f b(1) d1(2) same(1) by (intro closeHole_closes [OF d1(1) _ hole, of f]) simp_all
  then obtain d'
    where d': "closeHole hf (Bucket_at b) (Bucket_at b) d1 = Some d'" "shape_ok d'" "numBuckets d' = numBuckets d1" "seed d' = seed d1"
      "data_size d' = data_size d1" "probe_ok (numBuckets d1) (home_of hf d1) node_key (tab d')" "filled (numBuckets d1) (tab d') = filled (numBuckets d1) (tab d1)"
      "stays_from b (numBuckets d1) (tab d1) (tab d')" by blast
  have "filled ?n ((tab d)(b := None)) = data_filled d - {x}"
    by (rule filled_remove [where t = "tab d", OF b]) (rule probe_unique [OF s(2) home _ b(1) _ b(2) refl])
  then have fill: "data_filled d' = data_filled d - {x}" using d'(3,7) same d1(2) by simp
  have "x \<in> data_filled d" using b by (auto simp: filled_def)
  then have card: "card (data_filled d') = card (data_filled d) - 1" unfolding fill by (simp add: card_Diff_singleton)
  have "table_ok hf d'"
    unfolding table_ok_def card same_hash [of d' d hf, OF d'(3,4) [unfolded same]]
    using d' same hm ok by (auto simp: table_ok_def)
  then show ?thesis using d' same d1(2) fill unfolding data_erase_def d1_def [symmetric] by simp
qed

lemma data_map_erase:
  assumes "table_ok hf d" "table_ok hf d'" "x \<in> data_filled d" "data_filled d' = data_filled d - {x}"
  shows "data_map d' = (data_map d)(node_key x := None)"
proof
  fix k
  have "data_map d' k = Some v \<longleftrightarrow> ((data_map d)(node_key x := None)) k = Some v" for v
    using filled_key_unique [OF assms(1) _ assms(3)] unfolding fun_upd_apply
    by (auto simp: data_map_iff [OF assms(1)] data_map_iff [OF assms(2)] assms(4))
  then show "data_map d' k = ((data_map d)(node_key x := None)) k" by (metis not_Some_eq)
qed

section \<open>Inserting into a table with room\<close>

text \<open>The part of the invariant that does not speak of the size.\<close>

definition probes_ok :: "('k \<Rightarrow> 64 word \<Rightarrow> 64 word) \<Rightarrow> ('k, 'v) Data \<Rightarrow> bool" where
  "probes_ok hf d \<longleftrightarrow> shape_ok d \<and> probe_ok (numBuckets d) (home_of hf d) node_key (tab d)"

lemma table_probes: "table_ok hf d \<longleftrightarrow> probes_ok hf d \<and> data_size d = card (data_filled d) \<and> 2 * data_size d \<le> numBuckets d"
  by (simp add: table_ok_def probes_ok_def)

lemma insert_slot:
  assumes ok: "probes_ok hf d" and room: "card (data_filled d) < numBuckets d" and new: "\<forall>x \<in> data_filled d. node_key x \<noteq> node_key n"
  shows "\<exists>b. findBucket hf d (node_key n) = Some (Bucket_at b) \<and> b < numBuckets d \<and> tab d b = None
    \<and> probes_ok hf (bucket_insert (Bucket_at b) n d) \<and> data_filled (bucket_insert (Bucket_at b) n d) = insert n (data_filled d)
    \<and> tab (bucket_insert (Bucket_at b) n d) b = Some n"
proof -
  have s: "shape_ok d" "probe_ok (numBuckets d) (home_of hf d) node_key (tab d)" using ok by (auto simp: probes_ok_def)
  have home: "\<forall>k. home_of hf d k < numBuckets d" using home_less [OF s(1)] by blast
  obtain e where "e < numBuckets d" "tab d e = None" using empty_bucket [OF s(2) home, of "{}"] room by auto
  from findBucket_slot [OF s(1) this] obtain b
    where b: "findBucket hf d (node_key n) = Some (Bucket_at b)" "is_slot (numBuckets d) (home_of hf d) node_key (tab d) (node_key n) b" by blast
  have bn: "b < numBuckets d" using b(2) by (simp add: is_slot_def)
  have none: "tab d b = None"
  proof (cases "tab d b")
    case (Some x)
    then have "node_key x = node_key n" "x \<in> data_filled d" using b(2) bn by (auto simp: is_slot_def filled_def)
    then show ?thesis using new by blast
  qed
  define d' where "d' = bucket_insert (Bucket_at b) n d"
  have d': "shape_ok d'" "tab d' = (tab d)(b := Some n)" using tab_insert [OF s(1) bn none] by (simp_all add: d'_def)
  have same: "numBuckets d' = numBuckets d" "seed d' = seed d" by (simp_all add: d'_def)
  have "probes_ok hf d'" "data_filled d' = insert n (data_filled d)"
    using probe_insert [OF s(2) home b(2) none] d' unfolding probes_ok_def same same_hash [of d' d hf, OF same] by auto
  then show ?thesis using b(1) bn none d'(2) unfolding d'_def by auto
qed

lemma reinsert_ok:
  assumes "probes_ok hf d" "distinct (map node_key ns)" "\<forall>x \<in> data_filled d. \<forall>y \<in> set ns. node_key x \<noteq> node_key y"
    "card (data_filled d) + length ns < numBuckets d"
  shows "\<exists>d'. reinsert hf ns d = Some d' \<and> probes_ok hf d' \<and> data_filled d' = data_filled d \<union> set ns \<and> numBuckets d' = numBuckets d
    \<and> seed d' = seed d \<and> data_size d' = data_size d"
  using assms
proof (induction ns arbitrary: d)
  case (Cons n ns)
  have "\<forall>x \<in> data_filled d. node_key x \<noteq> node_key n" "card (data_filled d) < numBuckets d" using Cons.prems by auto
  from insert_slot [OF Cons.prems(1) this(2,1)] obtain b
    where b: "findBucket hf d (node_key n) = Some (Bucket_at b)" "probes_ok hf (bucket_insert (Bucket_at b) n d)"
      "data_filled (bucket_insert (Bucket_at b) n d) = insert n (data_filled d)" by blast
  define d1 where "d1 = bucket_insert (Bucket_at b) n d"
  have same: "numBuckets d1 = numBuckets d" "seed d1 = seed d" "data_size d1 = data_size d" by (simp_all add: d1_def)
  have fill: "data_filled d1 = insert n (data_filled d)" "probes_ok hf d1" using b by (simp_all add: d1_def)
  have "card (data_filled d1) \<le> Suc (card (data_filled d))" unfolding fill by (rule card_insert_le_m1) simp_all
  then have card: "card (data_filled d1) + length ns < numBuckets d1" using Cons.prems(4) same by simp
  have "\<forall>x \<in> data_filled d1. \<forall>y \<in> set ns. node_key x \<noteq> node_key y" unfolding fill using Cons.prems(2,3) by (auto simp: image_iff)
  from Cons.IH [OF fill(2) _ this card] obtain d'
    where "reinsert hf ns d1 = Some d'" "probes_ok hf d'" "data_filled d' = data_filled d1 \<union> set ns" "numBuckets d' = numBuckets d1"
      "seed d' = seed d1" "data_size d' = data_size d1" using Cons.prems(2) by auto
  then show ?case using b(1) fill same by (auto simp: d1_def)
qed auto

section \<open>Another capacity\<close>

lemma resize_ok:
  assumes ok: "table_ok hf d" and c: "data_size d \<le> c" "c < 2 ^ 61"
  shows "\<exists>d'. reinsert hf (data_nodes d) (d\<lparr>spans := allocateSpans (bucketsForCapacity c), numBuckets := bucketsForCapacity c\<rparr>) = Some d'
    \<and> table_ok hf d' \<and> data_filled d' = data_filled d \<and> numBuckets d' = bucketsForCapacity c \<and> seed d' = seed d \<and> data_size d' = data_size d"
proof -
  define d1 where "d1 = d\<lparr>spans := allocateSpans (bucketsForCapacity c), numBuckets := bucketsForCapacity c\<rparr>"
  have same: "seed d1 = seed d" "data_size d1 = data_size d" "numBuckets d1 = bucketsForCapacity c" by (simp_all add: d1_def)
  have t: "shape_ok d1" "tab d1 = (\<lambda>_. None)" "2 * c \<le> numBuckets d1" using tab_allocated [of d1 c] c by (simp_all add: d1_def)
  have s: "shape_ok d" using ok by (simp add: table_ok_def)
  have "length (data_nodes d) = card (set (map node_key (data_nodes d)))" using distinct_card [OF distinct_keys [OF ok]] by simp
  also have "\<dots> \<le> card (data_filled d)" unfolding set_map set_data_nodes [OF s] by (rule card_image_le) simp
  finally have "length (data_nodes d) \<le> data_size d" using ok by (simp add: table_ok_def)
  moreover have "128 \<le> numBuckets d1" by (rule shape_spans(3) [OF t(1)])
  ultimately have "length (data_nodes d) < numBuckets d1" using c(1) t(3) by linarith
  moreover have "probes_ok hf d1" "data_filled d1 = {}" using t by (simp_all add: probes_ok_def probe_empty)
  ultimately obtain d' where d': "reinsert hf (data_nodes d) d1 = Some d'" "probes_ok hf d'" "data_filled d' = set (data_nodes d)"
      "numBuckets d' = numBuckets d1" "seed d' = seed d1" "data_size d' = data_size d1"
    using reinsert_ok [of hf d1 "data_nodes d"] distinct_keys [OF ok] by auto
  have "table_ok hf d'"
    unfolding table_probes d'(3) set_data_nodes [OF s] using d' same t(3) c(1) ok by (auto simp: table_ok_def)
  then show ?thesis using d' same set_data_nodes [OF s] unfolding d1_def [symmetric] by simp
qed

lemma rehash_ok:
  assumes ok: "table_ok hf d" and c: "h = 0 \<or> data_size d \<le> h" "h < 2 ^ 61" "data_size d < 2 ^ 61"
  shows "\<exists>d'. rehash hf h d = Some d' \<and> table_ok hf d' \<and> data_filled d' = data_filled d
    \<and> numBuckets d' = bucketsForCapacity (if h = 0 then data_size d else h) \<and> seed d' = seed d \<and> data_size d' = data_size d"
proof -
  let ?c = "if h = 0 then data_size d else h"
  have "data_size d \<le> ?c" "?c < 2 ^ 61" using c by auto
  from resize_ok [OF ok this] show ?thesis unfolding rehash_def data_nodes_def [symmetric] Let_def .
qed

lemma Data_copyReserved_ok:
  assumes ok: "table_ok hf d" and c: "c < 2 ^ 61" "data_size d < 2 ^ 61"
  shows "\<exists>d'. Data_copyReserved hf d c = Some d' \<and> table_ok hf d' \<and> data_filled d' = data_filled d
    \<and> numBuckets d' = bucketsForCapacity (max (data_size d) c) \<and> seed d' = seed d \<and> data_size d' = data_size d"
proof -
  let ?c = "max (data_size d) c"
  have "data_size d \<le> ?c" "?c < 2 ^ 61" using c by auto
  from resize_ok [OF ok this] show ?thesis unfolding Data_copyReserved_def data_nodes_def [symmetric] Let_def .
qed

section \<open>findOrInsert\<close>

text \<open>A table with room for one more, and a key it does not hold.\<close>

definition inserted_at :: "nat \<Rightarrow> ('k, 'v) Node \<Rightarrow> ('k, 'v) Data \<Rightarrow> ('k, 'v) Data" where
  "inserted_at b n d = (bucket_insert (Bucket_at b) n d)\<lparr>data_size := data_size d + 1\<rparr>"

lemma inserted_same [simp]:
  "numBuckets (inserted_at b n d) = numBuckets d" "seed (inserted_at b n d) = seed d" "data_size (inserted_at b n d) = data_size d + 1"
  "tab (inserted_at b n d) = tab (bucket_insert (Bucket_at b) n d)"
  by (simp_all add: inserted_at_def)

lemma insert_new:
  assumes ok: "table_ok hf d" and room: "\<not> shouldGrow d" and new: "\<forall>x \<in> data_filled d. node_key x \<noteq> node_key n"
  shows "\<exists>b. findBucket hf d (node_key n) = Some (Bucket_at b) \<and> table_ok hf (inserted_at b n d)
    \<and> data_filled (inserted_at b n d) = insert n (data_filled d) \<and> tab (inserted_at b n d) b = Some n"
proof -
  have "data_size d < numBuckets d div 2" using room by (simp add: shouldGrow_def drop_bit_eq_div)
  then have r: "2 * Suc (data_size d) \<le> numBuckets d" by simp
  have p: "probes_ok hf d" "data_size d = card (data_filled d)" using ok by (auto simp: table_probes)
  then have "card (data_filled d) < numBuckets d" using r by simp
  from insert_slot [OF p(1) this new] obtain b where b: "findBucket hf d (node_key n) = Some (Bucket_at b)"
    "probes_ok hf (bucket_insert (Bucket_at b) n d)" "data_filled (bucket_insert (Bucket_at b) n d) = insert n (data_filled d)"
    "tab (bucket_insert (Bucket_at b) n d) b = Some n" by blast
  have fill: "data_filled (inserted_at b n d) = insert n (data_filled d)" using b(3) by simp
  have "n \<notin> data_filled d" using new by blast
  then have "card (data_filled (inserted_at b n d)) = Suc (data_size d)" unfolding fill using p(2) by simp
  moreover have "probes_ok hf (inserted_at b n d)" using b(2) unfolding probes_ok_def inserted_same by (simp add: inserted_at_def)
  ultimately have "table_ok hf (inserted_at b n d)" unfolding table_probes using r by simp
  then show ?thesis using b(1,4) fill by (intro exI [of _ b] conjI) simp_all
qed

lemma findOrInsert_ok:
  assumes ok: "table_ok hf d" and small: "data_size d + 1 < 2 ^ 61"
  shows "\<exists>b init d'. findOrInsert hf n d = Some (Bucket_at b, init, d') \<and>
    (if init then d' = d \<and> b < numBuckets d \<and> (\<exists>x. tab d b = Some x \<and> node_key x = node_key n)
     else table_ok hf d' \<and> data_filled d' = insert n (data_filled d) \<and> data_size d' = data_size d + 1
       \<and> (\<forall>x \<in> data_filled d. node_key x \<noteq> node_key n) \<and> (\<not> shouldGrow d \<longrightarrow> numBuckets d' = numBuckets d) \<and> tab d' b = Some n)"
proof -
  obtain b where b: "findBucket hf d (node_key n) = Some (Bucket_at b)" "is_slot (numBuckets d) (home_of hf d) node_key (tab d) (node_key n) b"
    using findBucket_ok [OF ok] by blast
  have s: "shape_ok d" "probe_ok (numBuckets d) (home_of hf d) node_key (tab d)" "b < numBuckets d" using ok b(2) by (auto simp: table_ok_def is_slot_def)
  have home: "\<forall>k. home_of hf d k < numBuckets d" using home_less [OF s(1)] by blast
  have pos: "numBuckets d > 0" using s(3) by simp
  show ?thesis
  proof (cases "tab d b")
    case (Some x)
    then have "findOrInsert hf n d = Some (Bucket_at b, True, d)" using b(1) pos unused_tab [OF s(3)] by (simp add: findOrInsert_def)
    moreover have "node_key x = node_key n" using b(2) Some by (simp add: is_slot_def)
    ultimately show ?thesis using Some s(3) by (intro exI [of _ b] exI [of _ True] exI [of _ d]) simp
  next
    case None
    have new: "\<forall>x \<in> data_filled d. node_key x \<noteq> node_key n" using slot_unoccupied [OF s(2) home b(2) None] by blast
    have un: "bucket_isUnused d (Bucket_at b)" using unused_tab [OF s(3)] None by simp
    show ?thesis
    proof (cases "shouldGrow d")
      case False
      from insert_new [OF ok False new] b(1) have t: "table_ok hf (inserted_at b n d)" "data_filled (inserted_at b n d) = insert n (data_filled d)"
        "tab (inserted_at b n d) b = Some n"
        by (auto simp del: inserted_same)
      have "findOrInsert hf n d = Some (Bucket_at b, False, inserted_at b n d)"
        using b(1) pos un False by (simp add: findOrInsert_def inserted_at_def)
      then show ?thesis using new t by (intro exI [of _ b] exI [of _ False] exI [of _ "inserted_at b n d"]) simp
    next
      case True
      have "data_size d < 2 ^ 61" "data_size d + 1 < 2 ^ 61" "data_size d + 1 \<noteq> 0" using small by auto
      from rehash_ok [OF ok, of "data_size d + 1"] this obtain d1
        where d1: "rehash hf (data_size d + 1) d = Some d1" "table_ok hf d1" "data_filled d1 = data_filled d"
          "numBuckets d1 = bucketsForCapacity (data_size d + 1)" "data_size d1 = data_size d" by auto
      have "2 * (data_size d + 1) \<le> bucketsForCapacity (data_size d + 1)" using bucketsForCapacity_power [OF small] by auto
      then have grow: "\<not> shouldGrow d1" using d1 by (simp add: shouldGrow_def drop_bit_eq_div)
      have new': "\<forall>x \<in> data_filled d1. node_key x \<noteq> node_key n" unfolding d1(3) by (rule new)
      from insert_new [OF d1(2) grow this] obtain c
        where c: "findBucket hf d1 (node_key n) = Some (Bucket_at c)" "table_ok hf (inserted_at c n d1)"
          "data_filled (inserted_at c n d1) = insert n (data_filled d1)" "tab (inserted_at c n d1) c = Some n" by (elim exE conjE)
      have "findOrInsert hf n d = Some (Bucket_at c, False, inserted_at c n d1)"
        using b(1) pos un True d1(1) c(1) by (simp add: findOrInsert_def inserted_at_def)
      then show ?thesis using c d1(3,5) new True by (intro exI [of _ c] exI [of _ False] exI [of _ "inserted_at c n d1"]) simp
    qed
  qed
qed

lemma data_map_insert:
  assumes "table_ok hf d" "table_ok hf d'" "data_filled d' = insert n (data_filled d)" "\<forall>x \<in> data_filled d. node_key x \<noteq> node_key n"
  shows "data_map d' = (data_map d)(node_key n \<mapsto> node_value n)"
proof
  fix k
  have "data_map d' k = Some v \<longleftrightarrow> ((data_map d)(node_key n \<mapsto> node_value n)) k = Some v" for v
    using assms(4) by (auto simp: data_map_iff [OF assms(1)] data_map_iff [OF assms(2)] assms(3))
  then show "data_map d' k = ((data_map d)(node_key n \<mapsto> node_value n)) k" by (metis not_Some_eq)
qed

lemma data_map_replace:
  assumes "table_ok hf d" "table_ok hf d'" "data_filled d' = insert y (data_filled d - {x})" "x \<in> data_filled d" "node_key y = node_key x"
  shows "data_map d' = (data_map d)(node_key y \<mapsto> node_value y)"
proof
  fix k
  have "data_map d' k = Some v \<longleftrightarrow> ((data_map d)(node_key y \<mapsto> node_value y)) k = Some v" for v
    using filled_key_unique [OF assms(1) _ assms(4)] assms(5) by (auto simp: data_map_iff [OF assms(1)] data_map_iff [OF assms(2)] assms(3))
  then show "data_map d' k = ((data_map d)(node_key y \<mapsto> node_value y)) k" by (metis not_Some_eq)
qed

lemma emplaceValue_ok:
  assumes ok: "table_ok hf d" and b: "b < numBuckets d" "tab d b = Some x"
  shows "table_ok hf (bucket_emplaceValue (Bucket_at b) v d)"
    "data_filled (bucket_emplaceValue (Bucket_at b) v d) = insert (x\<lparr>node_value := v\<rparr>) (data_filled d - {x})"
    "data_size (bucket_emplaceValue (Bucket_at b) v d) = data_size d" "numBuckets (bucket_emplaceValue (Bucket_at b) v d) = numBuckets d"
proof -
  let ?y = "x\<lparr>node_value := v\<rparr>"
  define d' where "d' = bucket_emplaceValue (Bucket_at b) v d"
  have s: "shape_ok d" "probe_ok (numBuckets d) (home_of hf d) node_key (tab d)" using ok by (auto simp: table_ok_def)
  have home: "\<forall>k. home_of hf d k < numBuckets d" using home_less [OF s(1)] by blast
  have t: "shape_ok d'" "tab d' = (tab d)(b \<mapsto> ?y)" using tab_emplaceValue [OF s(1) b] by (simp_all add: d'_def)
  have same: "numBuckets d' = numBuckets d" "seed d' = seed d" "data_size d' = data_size d" by (simp_all add: d'_def)
  have unique: "c = b" if "c < numBuckets d" "tab d c = Some z" "node_key z = node_key x" for c z
    using probe_unique [OF s(2) home that(1) b(1) that(2) b(2) that(3)] .
  have fill: "data_filled d' = insert ?y (data_filled d - {x})"
    unfolding t(2) same by (rule filled_remove [where t = "tab d", OF b]) (rule unique, simp_all)
  have "?y \<notin> data_filled d - {x}" using unique b by (auto simp: filled_def)
  then have "card (data_filled d') = Suc (card (data_filled d - {x}))" unfolding fill by (rule card_insert_disjoint [rotated]) simp
  moreover have "x \<in> data_filled d" using b by (auto simp: filled_def)
  then have "card (data_filled d) = Suc (card (data_filled d - {x}))" by (rule card.remove [rotated]) simp
  ultimately have "card (data_filled d') = card (data_filled d)" by simp
  moreover have "probe_ok (numBuckets d) (home_of hf d) node_key (tab d')" unfolding t(2) by (rule probe_replace [OF s(2) b(2)]) simp
  ultimately have "table_ok hf d'" using t(1) ok same unfolding table_ok_def same_hash [of d' d hf, OF same(1,2)] by simp
  then show "table_ok hf (bucket_emplaceValue (Bucket_at b) v d)"
    "data_filled (bucket_emplaceValue (Bucket_at b) v d) = insert (x\<lparr>node_value := v\<rparr>) (data_filled d - {x})"
    "data_size (bucket_emplaceValue (Bucket_at b) v d) = data_size d" "numBuckets (bucket_emplaceValue (Bucket_at b) v d) = numBuckets d"
    using fill same unfolding d'_def by simp_all
qed

lemma emplace_helper_ok:
  assumes ok: "table_ok hf d" and small: "data_size d + 1 < 2 ^ 61"
  shows "\<exists>d'. emplace_helper hf k v d = Some d' \<and> table_ok hf d' \<and> data_map d' = (data_map d)(k \<mapsto> v) \<and> data_size d' \<le> data_size d + 1
    \<and> (\<not> shouldGrow d \<longrightarrow> numBuckets d' = numBuckets d)"
proof -
  let ?n = "\<lparr>node_key = k, node_value = v\<rparr>"
  obtain b init d' where r: "findOrInsert hf ?n d = Some (Bucket_at b, init, d')"
    "if init then d' = d \<and> b < numBuckets d \<and> (\<exists>x. tab d b = Some x \<and> node_key x = node_key ?n)
     else table_ok hf d' \<and> data_filled d' = insert ?n (data_filled d) \<and> data_size d' = data_size d + 1
       \<and> (\<forall>x \<in> data_filled d. node_key x \<noteq> node_key ?n) \<and> (\<not> shouldGrow d \<longrightarrow> numBuckets d' = numBuckets d) \<and> tab d' b = Some ?n"
    using findOrInsert_ok [OF ok small, of ?n] by blast
  show ?thesis
  proof (cases init)
    case True
    then obtain x where x: "d' = d" "b < numBuckets d" "tab d b = Some x" "node_key x = k" using r(2) by auto
    have "x \<in> data_filled d" using x by (auto simp: filled_def)
    moreover note e = emplaceValue_ok [OF ok x(2,3), of v]
    ultimately have "data_map (bucket_emplaceValue (Bucket_at b) v d) = (data_map d)(k \<mapsto> v)"
      using data_map_replace [OF ok e(1) e(2)] x(4) by simp
    then show ?thesis using r(1) True x(1) e by (simp add: emplace_helper_def)
  next
    case False
    then have d': "table_ok hf d'" "data_filled d' = insert ?n (data_filled d)" "\<forall>x \<in> data_filled d. node_key x \<noteq> node_key ?n"
      "data_size d' = data_size d + 1" "\<not> shouldGrow d \<longrightarrow> numBuckets d' = numBuckets d"
      using r(2) by auto
    then show ?thesis using r(1) False data_map_insert [OF ok d'(1,2,3)] by (simp add: emplace_helper_def)
  qed
qed

end
