(* ===== verification/QHashMap.thy ===== *)
theory QHashMap
  imports QHashUpdate
begin

text \<open>
  A QHash as a finite map: the abstraction and what each member function does to it, whether the
  table is null, owned alone or shared.
\<close>

definition hash_ok :: "('k \<Rightarrow> 64 word \<Rightarrow> 64 word) \<Rightarrow> ('k, 'v) QHash \<Rightarrow> bool" where
  "hash_ok hf h \<longleftrightarrow> (case h of None \<Rightarrow> True | Some d \<Rightarrow> table_ok hf d)"

definition hash_map :: "('k, 'v) QHash \<Rightarrow> 'k \<rightharpoonup> 'v" where
  "hash_map h = (case h of None \<Rightarrow> Map.empty | Some d \<Rightarrow> data_map d)"

lemma hash_simps [simp]:
  "hash_ok hf None" "hash_ok hf (Some d) = table_ok hf d" "hash_map None = Map.empty" "hash_map (Some d) = data_map d"
  "QHash_size None = 0" "QHash_size (Some d) = data_size d" "QHash_isEmpty None" "QHash_isEmpty (Some d) \<longleftrightarrow> data_size d = 0"
  "QHash_capacity None = 0" "QHash_capacity (Some d) = numBuckets d div 2"
  by (simp_all add: hash_ok_def hash_map_def QHash_size_def QHash_isEmpty_def QHash_capacity_def drop_bit_eq_div)

lemma empty_data_map: "table_ok hf d \<Longrightarrow> data_filled d = {} \<Longrightarrow> data_map d = Map.empty"
  using data_map_None [of hf d] by auto

lemma no_size_map: "table_ok hf d \<Longrightarrow> data_size d = 0 \<Longrightarrow> data_map d = Map.empty"
  using empty_data_map [of hf d] by (simp add: table_ok_def)

lemma data_size_dom:
  assumes ok: "table_ok hf d"
  shows "finite (dom (data_map d))" "card (dom (data_map d)) = data_size d"
proof -
  have dom: "dom (data_map d) = node_key ` data_filled d" using data_map_iff [OF ok] by (auto simp: dom_def)
  have "inj_on node_key (data_filled d)" by (rule inj_onI) (rule filled_key_unique [OF ok])
  then show "finite (dom (data_map d))" "card (dom (data_map d)) = data_size d"
    unfolding dom using ok by (simp_all add: card_image table_ok_def)
qed

lemma detach_ok:
  fixes h :: "('k, 'v) QHash"
  assumes "hash_ok hf h"
  shows "table_ok hf (QHash_detach g sh h)" "data_map (QHash_detach g sh h) = hash_map h" "data_size (QHash_detach g sh h) = QHash_size h"
    "h = Some d \<Longrightarrow> numBuckets (QHash_detach g sh h) = numBuckets d \<and> tab (QHash_detach g sh h) = tab d"
proof -
  have new: "table_ok hf (Data_new g 0 :: ('k, 'v) Data)" "data_map (Data_new g 0 :: ('k, 'v) Data) = Map.empty"
    using Data_new_ok(1) [of 0 hf g] Data_new_ok(2) [of 0 g] empty_data_map [of hf "Data_new g 0"] by simp_all
  have copy: "data_map (Data_copy d) = data_map d" if "h = Some d" for d
    using data_map_cong [of hf d "Data_copy d"] Data_copy_ok [of hf d] assms that by simp
  show "table_ok hf (QHash_detach g sh h)" "data_map (QHash_detach g sh h) = hash_map h" "data_size (QHash_detach g sh h) = QHash_size h"
    "h = Some d \<Longrightarrow> numBuckets (QHash_detach g sh h) = numBuckets d \<and> tab (QHash_detach g sh h) = tab d"
    using new copy assms Data_copy_ok [of hf]
    by (auto simp: QHash_detach_def Data_new_def Let_def split: option.splits)
qed

lemma insert_ok:
  assumes "hash_ok hf h" "QHash_size h + 1 < 2 ^ 61"
  shows "\<exists>h'. QHash_insert hf g sh k v h = Some h' \<and> hash_ok hf h' \<and> hash_map h' = (hash_map h)(k \<mapsto> v) \<and> QHash_size h' \<le> QHash_size h + 1"
  using emplace_helper_ok [of hf "QHash_detach g sh h" k v] detach_ok(1-3) [OF assms(1), of g sh] assms(2)
  by (auto simp: QHash_insert_def)

text \<open>Removal and taking find the bucket before the table is detached.\<close>

lemma found_bucket:
  assumes ok: "table_ok hf d"
  shows "\<exists>b. findBucket hf d k = Some (Bucket_at b) \<and> b < numBuckets d
    \<and> (case tab d b of None \<Rightarrow> data_map d k = None | Some x \<Rightarrow> node_key x = k \<and> data_map d k = Some (node_value x))"
proof -
  obtain b where b: "findBucket hf d k = Some (Bucket_at b)" "is_slot (numBuckets d) (home_of hf d) node_key (tab d) k b"
    using findBucket_ok [OF ok] by blast
  have s: "shape_ok d" "probe_ok (numBuckets d) (home_of hf d) node_key (tab d)" "b < numBuckets d" using ok b(2) by (auto simp: table_ok_def is_slot_def)
  have home: "\<forall>k. home_of hf d k < numBuckets d" using home_less [OF s(1)] by blast
  have "data_map d k = None" if "tab d b = None" using slot_unoccupied [OF s(2) home b(2) that] data_map_None [OF ok] by blast
  moreover have "node_key x = k \<and> data_map d k = Some (node_value x)" if "tab d b = Some x" for x
  proof -
    have "node_key x = k" "x \<in> data_filled d" using b(2) s(3) that by (auto simp: is_slot_def filled_def)
    then show ?thesis using data_map_filled [OF ok] by blast
  qed
  ultimately show ?thesis using b(1) s(3) by (intro exI [of _ b]) (simp split: option.splits)
qed

lemma erase_key:
  assumes ok: "table_ok hf d" and b: "b < numBuckets d" "tab d b = Some x"
  shows "\<exists>d'. data_erase hf (Bucket_at b) d = Some d' \<and> table_ok hf d' \<and> data_map d' = (data_map d)(node_key x := None)
    \<and> data_size d' \<le> data_size d \<and> numBuckets d' = numBuckets d"
proof -
  from data_erase_ok [OF ok b] obtain d' where d': "data_erase hf (Bucket_at b) d = Some d'" "table_ok hf d'" "data_filled d' = data_filled d - {x}"
    "data_size d' = data_size d - 1" "numBuckets d' = numBuckets d" by blast
  have "x \<in> data_filled d" using b by (auto simp: filled_def)
  from data_map_erase [OF ok d'(2) this d'(3)] show ?thesis using d' by auto
qed

lemma take_ok:
  assumes ok: "hash_ok hf h"
  shows "\<exists>h'. QHash_take hf g sh k h = Some (hash_map h k, h') \<and> QHash_remove hf g sh k h = Some (hash_map h k \<noteq> None, h')
    \<and> hash_ok hf h' \<and> hash_map h' = (hash_map h)(k := None) \<and> QHash_size h' \<le> QHash_size h"
proof (cases h)
  case None
  then show ?thesis by (simp add: QHash_take_def QHash_remove_def fun_eq_iff)
next
  case h: (Some d)
  have d: "table_ok hf d" using ok h by simp
  show ?thesis
  proof (cases "data_size d = 0")
    case True
    then show ?thesis using no_size_map [OF d] d h by (simp add: QHash_take_def QHash_remove_def fun_eq_iff)
  next
    case nonempty: False
    define e where "e = QHash_detach g sh h"
    have e: "table_ok hf e" "data_map e = data_map d" "data_size e = data_size d" "numBuckets e = numBuckets d" "tab e = tab d"
      using detach_ok(1-3) [OF ok, of g sh] detach_ok(4) [OF ok h, of g sh] h by (simp_all add: e_def)
    obtain b where b: "findBucket hf d k = Some (Bucket_at b)" "b < numBuckets d"
      "case tab d b of None \<Rightarrow> data_map d k = None | Some x \<Rightarrow> node_key x = k \<and> data_map d k = Some (node_value x)"
      using found_bucket [OF d] by blast
    have be: "b < numBuckets e" using b(2) e(4) by simp
    show ?thesis
    proof (cases "tab d b")
      case None
      then have "bucket_isUnused e (Bucket_at b)" using unused_tab [OF be] e(5) by simp
      then have "QHash_take hf g sh k h = Some (None, Some e) \<and> QHash_remove hf g sh k h = Some (False, Some e)"
        using h nonempty b(1) by (simp add: QHash_take_def QHash_remove_def e_def [symmetric, unfolded h] Let_def)
      then show ?thesis using b(3) None e h by (simp add: fun_upd_idem)
    next
      case (Some x)
      then have x: "tab e b = Some x" "node_key x = k" "data_map d k = Some (node_value x)" using b(3) e(5) by simp_all
      obtain d' where d': "data_erase hf (Bucket_at b) e = Some d'" "table_ok hf d'" "data_map d' = (data_map e)(node_key x := None)" "data_size d' \<le> data_size e"
        using erase_key [OF e(1) be x(1)] by blast
      have "\<not> bucket_isUnused e (Bucket_at b)" "bucket_node e (Bucket_at b) = x" using unused_tab [OF be] node_tab x(1) by auto
      then have "QHash_take hf g sh k h = Some (Some (node_value x), Some d') \<and> QHash_remove hf g sh k h = Some (True, Some d')"
        using h nonempty b(1) d'(1) by (simp add: QHash_take_def QHash_remove_def e_def [symmetric, unfolded h] Let_def)
      then show ?thesis using d' x e h by simp
    qed
  qed
qed

lemma lookup_ok:
  assumes "hash_ok hf h"
  shows "QHash_contains hf k h = Some (hash_map h k \<noteq> None)" "QHash_valueImpl hf k h = Some (hash_map h k)"
    "QHash_value hf k def h = Some (case hash_map h k of None \<Rightarrow> def | Some v \<Rightarrow> v)"
proof -
  have "QHash_contains hf k h = Some (hash_map h k \<noteq> None) \<and> QHash_valueImpl hf k h = Some (hash_map h k)"
  proof (cases h)
    case (Some d)
    then obtain r where r: "findNode hf d k = Some r" "map_option node_value r = data_map d k" using findNode_ok [of hf d k] assms by auto
    have "r \<noteq> None \<longleftrightarrow> data_map d k \<noteq> None" unfolding r(2) [symmetric] by simp
    then show ?thesis using r Some by (simp add: QHash_contains_def QHash_valueImpl_def)
  qed (simp add: QHash_contains_def QHash_valueImpl_def)
  then show "QHash_contains hf k h = Some (hash_map h k \<noteq> None)" "QHash_valueImpl hf k h = Some (hash_map h k)"
    "QHash_value hf k def h = Some (case hash_map h k of None \<Rightarrow> def | Some v \<Rightarrow> v)"
    by (auto simp: QHash_value_def split: option.splits)
qed

section \<open>Capacity\<close>

lemma bucketsForCapacity_room: "c < 2 ^ 61 \<Longrightarrow> c \<le> bucketsForCapacity c div 2"
  using bucketsForCapacity_power [of c] by (auto simp: less_eq_div_iff_mult_less_eq)

lemma reserve_ok:
  fixes h :: "('k, 'v) QHash"
  assumes ok: "hash_ok hf h" and n: "n < 2 ^ 61" "QHash_size h < 2 ^ 61"
  shows "\<exists>h'. QHash_reserve hf g sh n h = Some h' \<and> hash_ok hf h' \<and> hash_map h' = hash_map h \<and> QHash_size h' = QHash_size h \<and> n \<le> QHash_capacity h'"
proof (cases h)
  case None
  have "n \<le> numBuckets (Data_new g n :: ('k, 'v) Data) div 2" using bucketsForCapacity_room [OF n(1)] by (simp add: Data_new_def Let_def)
  moreover have "data_map (Data_new g n :: ('k, 'v) Data) = Map.empty" using empty_data_map [OF Data_new_ok [OF n(1)]] .
  moreover have "data_size (Data_new g n :: ('k, 'v) Data) = 0" by (simp add: Data_new_def Let_def)
  ultimately show ?thesis using None Data_new_ok(1) [OF n(1), of hf g] bucketsForCapacity_room [OF n(1)]
    by (auto simp: QHash_reserve_def Data_new_def Let_def)
next
  case h: (Some d)
  have d: "table_ok hf d" "data_size d < 2 ^ 61" using ok n h by simp_all
  show ?thesis
  proof (cases "n \<noteq> 0 \<and> QHash_capacity h \<ge> n")
    case True
    then show ?thesis using ok by (simp add: QHash_reserve_def)
  next
    case more: False
    have half: "data_size d \<le> numBuckets d div 2" using d(1) by (simp add: table_ok_def less_eq_div_iff_mult_less_eq)
    then have s: "n = 0 \<or> data_size d \<le> n" using more h by auto
    define c where "c = (if sh then max (data_size d) n else if n = 0 then data_size d else n)"
    have c: "c < 2 ^ 61" "n \<le> c" using n d(2) by (auto simp: c_def)
    have "\<exists>d'. QHash_reserve hf g sh n h = Some (Some d') \<and> table_ok hf d' \<and> data_filled d' = data_filled d
      \<and> numBuckets d' = bucketsForCapacity c \<and> data_size d' = data_size d"
      using more h rehash_ok [OF d(1) s n(1) d(2)] Data_copyReserved_ok [OF d(1) n(1) d(2)]
      by (cases sh) (auto simp: QHash_reserve_def c_def simp del: hash_simps)
    then obtain d' where d': "QHash_reserve hf g sh n h = Some (Some d')" "table_ok hf d'" "data_filled d' = data_filled d"
      "numBuckets d' = bucketsForCapacity c" "data_size d' = data_size d" by blast
    then show ?thesis using data_map_cong [OF d(1) d'(2,3)] h bucketsForCapacity_room [OF c(1)] c(2)
      by (intro exI [of _ "Some d'"]) simp
  qed
qed

lemma squeeze_ok:
  assumes "hash_ok hf h" "QHash_size h < 2 ^ 61"
  shows "\<exists>h'. QHash_squeeze hf g sh h = Some h' \<and> hash_ok hf h' \<and> hash_map h' = hash_map h \<and> QHash_size h' = QHash_size h"
proof (cases "QHash_capacity h = 0")
  case False
  then show ?thesis using reserve_ok [OF assms(1) _ assms(2), of 0 g sh] by (auto simp: QHash_squeeze_def)
qed (use assms in \<open>simp add: QHash_squeeze_def\<close>)

section \<open>Iteration\<close>

lemma iterate_next:
  assumes "shape_ok d"
  shows "iterate_from d (iterator_next d b) = map (\<lambda>b. the (tab d b)) (filter (\<lambda>b. tab d b \<noteq> None) [Suc b..<numBuckets d])"
proof (induction "numBuckets d - b" arbitrary: b rule: less_induct)
  case less
  show ?case
  proof (cases "Suc b \<ge> numBuckets d")
    case True
    then show ?thesis by (subst iterator_next.simps) simp
  next
    case False
    then have up: "[Suc b..<numBuckets d] = Suc b # [Suc (Suc b)..<numBuckets d]" by (simp add: upt_conv_Cons)
    have IH: "iterate_from d (iterator_next d (Suc b)) = map (\<lambda>b. the (tab d b)) (filter (\<lambda>b. tab d b \<noteq> None) [Suc (Suc b)..<numBuckets d])"
      using less [of "Suc b"] False by simp
    show ?thesis
    proof (cases "tab d (Suc b)")
      case None
      then have "iterator_next d b = iterator_next d (Suc b)" using False unused_tab [of "Suc b" d] by (subst iterator_next.simps) simp
      then show ?thesis using IH None up by simp
    next
      case (Some x)
      then have "iterator_next d b = Some (Suc b)" using False unused_tab [of "Suc b" d] by (subst iterator_next.simps) simp
      then show ?thesis using IH Some up False node_tab [OF Some] by simp
    qed
  qed
qed

lemma iterate_begin:
  assumes shape: "shape_ok d"
  shows "iterate_from d (data_begin d) = data_nodes d"
proof -
  have n: "0 < numBuckets d" using shape_spans(3) [OF shape] by simp
  then have up: "[0..<numBuckets d] = 0 # [Suc 0..<numBuckets d]" by (simp add: upt_conv_Cons)
  show ?thesis
  proof (cases "tab d 0")
    case None
    then show ?thesis using iterate_next [OF shape, of 0] unused_tab [OF n] up by (simp add: data_begin_def data_nodes_tab [OF shape])
  next
    case (Some x)
    then show ?thesis using iterate_next [OF shape, of 0] unused_tab [OF n] up n node_tab [OF Some]
      by (simp add: data_begin_def data_nodes_tab [OF shape])
  qed
qed

lemma iterate_ok:
  assumes "hash_ok hf h"
  shows "distinct (map node_key (QHash_iterate h))" "nodes_map (QHash_iterate h) = hash_map h" "length (QHash_iterate h) = QHash_size h"
proof -
  have "distinct (map node_key (QHash_iterate h)) \<and> nodes_map (QHash_iterate h) = hash_map h \<and> length (QHash_iterate h) = QHash_size h"
  proof (cases h)
    case (Some d)
    then have d: "table_ok hf d" "shape_ok d" using assms by (simp_all add: table_ok_def)
    have it: "QHash_iterate h = data_nodes d" using Some iterate_begin [OF d(2)] by (simp add: QHash_iterate_def)
    have "distinct (data_nodes d)" using distinct_keys [OF d(1)] by (simp add: distinct_map)
    then have "length (data_nodes d) = data_size d" using distinct_card set_data_nodes [OF d(2)] d(1) by (fastforce simp: table_ok_def)
    then show ?thesis unfolding it using distinct_keys [OF d(1)] Some by (simp add: data_map_def)
  qed (simp add: QHash_iterate_def nodes_map_def)
  then show "distinct (map node_key (QHash_iterate h))" "nodes_map (QHash_iterate h) = hash_map h" "length (QHash_iterate h) = QHash_size h"
    by auto
qed

section \<open>Equality\<close>

lemma equal_nodes_ok:
  assumes ok: "hash_ok hf h"
  shows "equal_nodes hf h ns = Some (\<forall>n \<in> set ns. hash_map h (node_key n) = Some (node_value n))"
proof (induction ns)
  case (Cons n ns)
  have "(if QHash_isEmpty h then Some None else QHash_valueImpl hf (node_key n) h) = Some (hash_map h (node_key n))"
    using lookup_ok(2) [OF ok] ok no_size_map [of hf "the h"] by (cases h) auto
  then show ?case using Cons by simp
qed simp

lemma size_dom: "hash_ok hf h \<Longrightarrow> finite (dom (hash_map h)) \<and> card (dom (hash_map h)) = QHash_size h"
  using data_size_dom by (cases h) auto

lemma equal_ok:
  assumes ok: "hash_ok hf h" "hash_ok hf h'"
  shows "QHash_equal hf h h' = Some (hash_map h = hash_map h')"
proof -
  have "(\<forall>n \<in> set (QHash_iterate h'). hash_map h (node_key n) = Some (node_value n)) \<longleftrightarrow> hash_map h' \<subseteq>\<^sub>m hash_map h"
    unfolding iterate_ok(2) [OF ok(2), symmetric] map_le_def using nodes_map_iff [OF iterate_ok(1) [OF ok(2)]]
    by (auto simp: dom_def) metis
  moreover have "hash_map h = hash_map h'" if "hash_map h' \<subseteq>\<^sub>m hash_map h" "QHash_size h = QHash_size h'"
  proof -
    have "dom (hash_map h') = dom (hash_map h)"
      using card_subset_eq map_le_implies_dom_le [OF that(1)] size_dom [OF ok(1)] size_dom [OF ok(2)] that(2) by metis
    then show ?thesis using that(1) by (intro map_le_antisym) (auto simp: map_le_def)
  qed
  moreover have "QHash_size h = QHash_size h'" if "hash_map h = hash_map h'" using size_dom [OF ok(1)] size_dom [OF ok(2)] that by simp
  ultimately show ?thesis unfolding QHash_equal_def equal_nodes_ok [OF ok(1)] by auto
qed

section \<open>operator[] and the union\<close>

lemma at_ok:
  assumes ok: "hash_ok hf h" and small: "QHash_size h + 1 < 2 ^ 61"
  shows "\<exists>h'. QHash_at hf g sh k def h = Some (case hash_map h k of None \<Rightarrow> def | Some v \<Rightarrow> v, h') \<and> hash_ok hf h'
    \<and> hash_map h' = (hash_map h)(k \<mapsto> (case hash_map h k of None \<Rightarrow> def | Some v \<Rightarrow> v)) \<and> QHash_size h' \<le> QHash_size h + 1"
proof -
  let ?d = "QHash_detach g sh h" and ?n = "\<lparr>node_key = k, node_value = def\<rparr>"
  have d: "table_ok hf ?d" "data_map ?d = hash_map h" "data_size ?d = QHash_size h" by (rule detach_ok [OF ok])+
  obtain b init d' where r: "findOrInsert hf ?n ?d = Some (Bucket_at b, init, d')"
    "if init then d' = ?d \<and> b < numBuckets ?d \<and> (\<exists>x. tab ?d b = Some x \<and> node_key x = node_key ?n)
     else table_ok hf d' \<and> data_filled d' = insert ?n (data_filled ?d) \<and> data_size d' = data_size ?d + 1
       \<and> (\<forall>x \<in> data_filled ?d. node_key x \<noteq> node_key ?n) \<and> (\<not> shouldGrow ?d \<longrightarrow> numBuckets d' = numBuckets ?d) \<and> tab d' b = Some ?n"
    using findOrInsert_ok [OF d(1), of ?n] small d(3) by auto
  show ?thesis
  proof (cases init)
    case True
    then obtain x where x: "d' = ?d" "b < numBuckets ?d" "tab ?d b = Some x" "node_key x = k" using r(2) by auto
    then have "x \<in> data_filled ?d" by (auto simp: filled_def)
    then have "hash_map h k = Some (node_value x)" using data_map_filled [OF d(1)] x(4) d(2) by fastforce
    then show ?thesis using r(1) x(1) node_tab [OF x(3)] d
      by (intro exI [of _ "Some ?d"]) (simp add: QHash_at_def fun_upd_idem)
  next
    case False
    then have d': "table_ok hf d'" "data_filled d' = insert ?n (data_filled ?d)" "\<forall>x \<in> data_filled ?d. node_key x \<noteq> node_key ?n"
      "data_size d' = data_size ?d + 1" "tab d' b = Some ?n" using r(2) by auto
    have "hash_map h k = None" using data_map_None [OF d(1), of k] d'(3) d(2) by simp
    then show ?thesis using r(1) node_tab [OF d'(5)] data_map_insert [OF d(1) d'(1-3)] d d'(1,4)
      by (intro exI [of _ "Some d'"]) (simp add: QHash_at_def)
  qed
qed

lemma emplace_all_ok:
  "table_ok hf d \<Longrightarrow> distinct (map node_key ns) \<Longrightarrow> data_size d + length ns < 2 ^ 61 \<Longrightarrow>
    \<exists>d'. emplace_all hf ns d = Some d' \<and> table_ok hf d' \<and> data_map d' = data_map d ++ nodes_map ns"
proof (induction ns arbitrary: d)
  case (Cons n ns)
  have "data_size d + 1 < 2 ^ 61" using Cons.prems(3) by simp
  from emplace_helper_ok [OF Cons.prems(1) this, of "node_key n" "node_value n"] obtain e
    where e: "emplace_helper hf (node_key n) (node_value n) d = Some e" "table_ok hf e" "data_map e = (data_map d)(node_key n \<mapsto> node_value n)"
      "data_size e \<le> data_size d + 1" by blast
  have "distinct (map node_key ns)" "data_size e + length ns < 2 ^ 61" using Cons.prems e(4) by simp_all
  from Cons.IH [OF e(2) this] obtain d' where d': "emplace_all hf ns e = Some d'" "table_ok hf d'" "data_map d' = data_map e ++ nodes_map ns" by blast
  have "nodes_map ns (node_key n) = None" using Cons.prems(2) by (auto simp: nodes_map_def map_of_eq_None_iff comp_def)
  then have "data_map e ++ nodes_map ns = data_map d ++ nodes_map (n # ns)"
    unfolding e(3) by (auto simp: map_add_def nodes_map_def fun_eq_iff split: option.splits)
  then show ?case using e(1) d' by simp
qed (simp add: nodes_map_def)

lemma unite_ok:
  assumes ok: "hash_ok hf h" "hash_ok hf h'" and same: "same \<longrightarrow> h = h'" and small: "QHash_size h + QHash_size h' < 2 ^ 61"
  shows "\<exists>r. QHash_unite hf g sh same h' h = Some r \<and> hash_ok hf r \<and> hash_map r = hash_map h ++ hash_map h'"
proof (cases "same \<or> h' = None \<or> h = None")
  case True
  then show ?thesis using ok same by (auto simp: QHash_unite_def map_add_subsumed1)
next
  case False
  let ?d = "QHash_detach g sh h"
  have d: "table_ok hf ?d" "data_map ?d = hash_map h" "data_size ?d = QHash_size h" by (rule detach_ok [OF ok(1)])+
  note it = iterate_ok [OF ok(2)]
  have "data_size ?d + length (QHash_iterate h') < 2 ^ 61" using d(3) it(3) small by simp
  from emplace_all_ok [OF d(1) it(1) this] show ?thesis using False it(2) d(2) by (auto simp: QHash_unite_def)
qed

section \<open>Erasing while iterating\<close>

lemma iterate_later:
  assumes "shape_ok d"
  shows "y \<in> set (iterate_from d (iterator_next d b)) \<longleftrightarrow> (\<exists>p. b < p \<and> p < numBuckets d \<and> tab d p = Some y)"
proof
  assume "y \<in> set (iterate_from d (iterator_next d b))"
  then obtain p where "Suc b \<le> p" "p < numBuckets d" "tab d p = Some y" unfolding iterate_next [OF assms] by auto
  then show "\<exists>p. b < p \<and> p < numBuckets d \<and> tab d p = Some y" by (intro exI [of _ p]) simp
next
  assume "\<exists>p. b < p \<and> p < numBuckets d \<and> tab d p = Some y"
  then obtain p where p: "b < p" "p < numBuckets d" "tab d p = Some y" by blast
  then have "p \<in> set (filter (\<lambda>b. tab d b \<noteq> None) [Suc b..<numBuckets d])" "y = the (tab d p)" by simp_all
  then show "y \<in> set (iterate_from d (iterator_next d b))" unfolding iterate_next [OF assms] set_map by (rule rev_image_eqI)
qed

lemma iterator_next_used: "iterator_next d b = Some c \<Longrightarrow> c < numBuckets d \<and> tab d c \<noteq> None"
proof (induction d b rule: iterator_next.induct)
  case (1 d b)
  show ?case
  proof (cases "b + 1 < numBuckets d \<and> bucket_isUnused d (Bucket_at (b + 1))")
    case True
    then have "iterator_next d b = iterator_next d (b + 1)" by (subst iterator_next.simps) simp
    then show ?thesis using 1 True by simp
  next
    case False
    then have "c = b + 1" "b + 1 < numBuckets d" "\<not> bucket_isUnused d (Bucket_at (b + 1))"
      using 1(2) by (subst (asm) iterator_next.simps, auto split: if_splits)+
    then show ?thesis using unused_tab [of "b + 1" d] by simp
  qed
qed

lemma iterate_Some: "b < numBuckets d \<Longrightarrow> tab d b = Some x \<Longrightarrow> iterate_from d (Some b) = x # iterate_from d (iterator_next d b)"
  using node_tab [of d b x] by simp

lemma erase_step:
  assumes ok: "table_ok hf d" and b: "b < numBuckets d" "tab d b = Some x"
  shows "\<exists>d' it. erase_detached hf (d, b) = Some (d', it) \<and> table_ok hf d' \<and> data_filled d' = data_filled d - {x} \<and> data_size d = Suc (data_size d')
    \<and> numBuckets d' = numBuckets d \<and> (\<forall>c. it = Some c \<longrightarrow> c < numBuckets d' \<and> tab d' c \<noteq> None)
    \<and> set (iterate_from d (iterator_next d b)) \<subseteq> set (iterate_from d' it)
    \<and> it = (if b = numBuckets d' - 1 \<or> bucket_isUnused d' (Bucket_at b) then iterator_next d' b else Some b)"
proof -
  obtain d' where d': "data_erase hf (Bucket_at b) d = Some d'" "table_ok hf d'" "data_filled d' = data_filled d - {x}"
    "data_size d' = data_size d - 1" "numBuckets d' = numBuckets d" "stays_from b (numBuckets d) ((tab d)(b := None)) (tab d')"
    using data_erase_ok [OF ok b] by blast
  have s: "shape_ok d" "shape_ok d'" using ok d'(2) by (simp_all add: table_ok_def)
  have bn: "b < numBuckets d'" using b(1) d'(5) by simp
  have "x \<in> data_filled d" using b by (auto simp: filled_def)
  then have "0 < card (data_filled d)" by (auto simp: card_gt_0_iff)
  moreover have "data_size d = card (data_filled d)" using ok by (simp add: table_ok_def)
  ultimately have size: "data_size d = Suc (data_size d')" using d'(4) by linarith
  define it where "it = (if b = numBuckets d' - 1 \<or> bucket_isUnused d' (Bucket_at b) then iterator_next d' b else Some b)"
  have e: "erase_detached hf (d, b) = Some (d', it)" using d'(1) by (simp add: it_def)
  have valid: "c < numBuckets d' \<and> tab d' c \<noteq> None" if "it = Some c" for c
  proof (cases "b = numBuckets d' - 1 \<or> bucket_isUnused d' (Bucket_at b)")
    case True
    then show ?thesis using that iterator_next_used [of d' b c] by (simp add: it_def)
  next
    case False
    then have "c = b" using that unfolding it_def by (simp only: if_False option.inject)
    then show ?thesis using False bn unused_tab [OF bn] by simp
  qed
  have "y \<in> set (iterate_from d' it)" if y: "y \<in> set (iterate_from d (iterator_next d b))" for y
  proof -
    obtain p where p: "b < p" "p < numBuckets d" "tab d p = Some y" using y unfolding iterate_later [OF s(1)] by blast
    then have "b \<le> p \<and> p < numBuckets d \<and> ((tab d)(b := None)) p = Some y" by simp
    then obtain q where q: "b \<le> q" "q < numBuckets d" "tab d' q = Some y" using d'(6) unfolding stays_from_def by meson
    show ?thesis
    proof (cases "q = b")
      case True
      then have "it = Some b" using q p d'(5) unused_tab [OF bn] by (auto simp: it_def)
      then show ?thesis using True bn node_tab [OF q(3)] by simp
    next
      case False
      then have "y \<in> set (iterate_from d' (iterator_next d' b))"
        using q d'(5) unfolding iterate_later [OF s(2)] by (intro exI [of _ q]) simp
      then show ?thesis using bn by (auto simp: it_def)
    qed
  qed
  then show ?thesis using e d'(2,3,5) size valid it_def by (intro exI [of _ d'] exI [of _ it]) blast
qed

text \<open>The iterator past bucket \<open>b\<close> is at the first occupied bucket above it, or the end.\<close>

lemma iterator_next_find:
  "iterator_next d b = find (\<lambda>p. \<not> bucket_isUnused d (Bucket_at p)) [Suc b..<numBuckets d]"
proof (induction d b rule: iterator_next.induct)
  case (1 d b)
  then show ?case
    by (subst iterator_next.simps, cases "Suc b < numBuckets d") (simp_all add: upt_conv_Cons)
qed

lemma QHash_erase_ok:
  assumes ok: "hash_ok hf (Some d)" and b: "b < numBuckets d" "\<not> bucket_isUnused d (Bucket_at b)"
  shows "\<exists>d' it. QHash_erase hf g sh b (Some d) = Some (it, Some d') \<and> hash_ok hf (Some d')
    \<and> hash_map (Some d') = (hash_map (Some d))(node_key (bucket_node d (Bucket_at b)) := None)
    \<and> numBuckets d' = numBuckets d
    \<and> it = (if Suc b = numBuckets d then None
            else find (\<lambda>p. \<not> bucket_isUnused d' (Bucket_at p)) [b..<numBuckets d])
    \<and> set (iterate_from d (iterator_next d b)) \<subseteq> set (iterate_from d' it)"
proof -
  let ?d = "QHash_detach g sh (Some d)"
  have d: "table_ok hf ?d" "data_map ?d = data_map d" "numBuckets ?d = numBuckets d" "tab ?d = tab d"
    using detach_ok [OF ok, where g = g and sh = sh] by simp_all
  have s: "shape_ok d" "shape_ok ?d" using ok d(1) by (simp_all add: table_ok_def)
  obtain x where x: "tab d b = Some x" using b unused_tab [OF b(1)] by auto
  then obtain d' it where e: "erase_detached hf (?d, b) = Some (d', it)" "table_ok hf d'" "data_filled d' = data_filled ?d - {x}"
    "numBuckets d' = numBuckets ?d" "set (iterate_from ?d (iterator_next ?d b)) \<subseteq> set (iterate_from d' it)"
    "it = (if b = numBuckets d' - 1 \<or> bucket_isUnused d' (Bucket_at b) then iterator_next d' b else Some b)"
    using erase_step [OF d(1), of b x] b(1) d(3,4) by metis
  have "x \<in> data_filled ?d" using x b(1) d(3,4) by (auto simp: filled_def)
  from data_map_erase [OF d(1) e(2) this e(3)]
  have "hash_map (Some d') = (hash_map (Some d))(node_key (bucket_node d (Bucket_at b)) := None)"
    using d(2) node_tab [OF x] by simp
  moreover have "it = (if Suc b = numBuckets d then None
            else find (\<lambda>p. \<not> bucket_isUnused d' (Bucket_at p)) [b..<numBuckets d])"
    using b(1) e(4) d(3) unfolding e(6) iterator_next_find by (auto simp: upt_conv_Cons)
  moreover have "iterate_from d (iterator_next d b) = iterate_from ?d (iterator_next ?d b)"
    using iterate_next [OF s(1)] iterate_next [OF s(2)] d(3,4) by simp
  moreover have "QHash_erase hf g sh b (Some d) = Some (it, Some d')"
    using e(1) by (simp add: QHash_erase_def detachedIterator_def del: erase_detached.simps)
  moreover have "hash_ok hf (Some d')" using e(2) by simp
  ultimately show ?thesis using e(4,5) d(3) by (intro exI [of _ d'] exI [of _ it]) (simp only: simp_thms)
qed

lemma erase_if_loop:
  assumes "table_ok hf d" "\<forall>b. it = Some b \<longrightarrow> b < numBuckets d \<and> tab d b \<noteq> None"
    "\<forall>x \<in> data_filled d. x \<notin> set (iterate_from d it) \<longrightarrow> \<not> P (node_key x) (node_value x)"
  shows "\<exists>n d'. associative_erase_if hf P it d r = Some (r + n, d') \<and> table_ok hf d'
    \<and> data_filled d' = {x \<in> data_filled d. \<not> P (node_key x) (node_value x)} \<and> n + data_size d' = data_size d"
  using assms
proof (induction "data_size d * (numBuckets d + 2) + (case it of None \<Rightarrow> 0 | Some b \<Rightarrow> Suc (numBuckets d) - b)"
    arbitrary: d it r rule: less_induct)
  case less
  show ?case
  proof (cases it)
    case None
    then have "data_filled d = {x \<in> data_filled d. \<not> P (node_key x) (node_value x)}" using less.prems(3) by auto
    then show ?thesis using None less.prems(1)
      by (intro exI [of _ 0] exI [of _ d]) (subst associative_erase_if.simps, simp)
  next
    case it: (Some b)
    then obtain x where b: "b < numBuckets d" "tab d b = Some x" using less.prems(2) by auto
    note x = node_tab [OF b(2)]
    show ?thesis
    proof (cases "P (node_key x) (node_value x)")
      case False
      let ?it = "iterator_next d b"
      have step: "associative_erase_if hf P it d r = associative_erase_if hf P ?it d r"
        using it x False by (subst associative_erase_if.simps) simp
      have "case ?it of None \<Rightarrow> True | Some c \<Rightarrow> b < c \<and> c < numBuckets d" using iterator_next_greater [of d b] by (auto split: option.split)
      then have dec: "(case ?it of None \<Rightarrow> 0 | Some b \<Rightarrow> Suc (numBuckets d) - b) < (case it of None \<Rightarrow> 0 | Some b \<Rightarrow> Suc (numBuckets d) - b)"
        using it b(1) by (auto split: option.splits)
      have "\<forall>y \<in> data_filled d. y \<notin> set (iterate_from d ?it) \<longrightarrow> \<not> P (node_key y) (node_value y)"
        using less.prems(3) False unfolding it iterate_Some [OF b] by auto
      moreover have "\<forall>c. ?it = Some c \<longrightarrow> c < numBuckets d \<and> tab d c \<noteq> None" using iterator_next_used by blast
      ultimately show ?thesis unfolding step using dec by (intro less.hyps less.prems(1)) simp_all
    next
      case True
      obtain d' it' where e: "erase_detached hf (d, b) = Some (d', it')" "table_ok hf d'" "data_filled d' = data_filled d - {x}" "data_size d = Suc (data_size d')"
        "numBuckets d' = numBuckets d" "\<forall>c. it' = Some c \<longrightarrow> c < numBuckets d' \<and> tab d' c \<noteq> None"
        "set (iterate_from d (iterator_next d b)) \<subseteq> set (iterate_from d' it')"
        using erase_step [OF less.prems(1) b] by blast
      have step: "associative_erase_if hf P it d r = associative_erase_if hf P it' d' (r + 1)"
        using it x True e(1) by (subst associative_erase_if.simps) (simp add: detachedIterator_def)
      have kept: "\<forall>y \<in> data_filled d'. y \<notin> set (iterate_from d' it') \<longrightarrow> \<not> P (node_key y) (node_value y)"
        using less.prems(3) e(3,7) unfolding it iterate_Some [OF b] by auto
      have "(case it' of None \<Rightarrow> 0 | Some b \<Rightarrow> Suc (numBuckets d') - b) \<le> Suc (numBuckets d)" using e(5) by (auto split: option.split)
      then have "data_size d' * (numBuckets d' + 2) + (case it' of None \<Rightarrow> 0 | Some b \<Rightarrow> Suc (numBuckets d') - b)
          < data_size d * (numBuckets d + 2) + (case it of None \<Rightarrow> 0 | Some b \<Rightarrow> Suc (numBuckets d) - b)"
        unfolding e(4,5) by simp
      from less.hyps [OF this e(2,6) kept, of "r + 1"] obtain n d''
        where n: "associative_erase_if hf P it' d' (r + 1) = Some (r + 1 + n, d'')" "table_ok hf d''"
          "data_filled d'' = {y \<in> data_filled d'. \<not> P (node_key y) (node_value y)}" "n + data_size d'' = data_size d'" by blast
      have "data_filled d'' = {y \<in> data_filled d. \<not> P (node_key y) (node_value y)}" unfolding n(3) e(3) using True by blast
      then show ?thesis unfolding step using n(1,2,4) e(4) by (intro exI [of _ "Suc n"] exI [of _ d'']) simp
    qed
  qed
qed

lemma begin_used: "shape_ok d \<Longrightarrow> data_begin d = Some b \<Longrightarrow> b < numBuckets d \<and> tab d b \<noteq> None"
  using shape_spans(3) [of d] unused_tab [of 0 d] iterator_next_used [of d 0 b] by (auto simp: data_begin_def split: if_splits)

definition map_keep :: "('k \<Rightarrow> 'v \<Rightarrow> bool) \<Rightarrow> ('k \<rightharpoonup> 'v) \<Rightarrow> 'k \<rightharpoonup> 'v" where
  "map_keep P m k = (case m k of None \<Rightarrow> None | Some v \<Rightarrow> if P k v then Some v else None)"

lemma removeIf_ok:
  assumes ok: "hash_ok hf h"
  shows "\<exists>n h'. QHash_removeIf hf g sh P h = Some (n, h') \<and> hash_ok hf h' \<and> hash_map h' = map_keep (\<lambda>k v. \<not> P k v) (hash_map h)
    \<and> n + QHash_size h' = QHash_size h"
proof -
  let ?d = "QHash_detach g sh h"
  have d: "table_ok hf ?d" "data_map ?d = hash_map h" "data_size ?d = QHash_size h" by (rule detach_ok [OF ok])+
  then have s: "shape_ok ?d" by (simp add: table_ok_def)
  have "\<forall>x \<in> data_filled ?d. x \<notin> set (iterate_from ?d (data_begin ?d)) \<longrightarrow> \<not> P (node_key x) (node_value x)"
    unfolding iterate_begin [OF s] set_data_nodes [OF s] by blast
  from erase_if_loop [OF d(1) _ this, of 0] begin_used [OF s] obtain n d'
    where n: "associative_erase_if hf P (data_begin ?d) ?d 0 = Some (n, d')" "table_ok hf d'"
      "data_filled d' = {x \<in> data_filled ?d. \<not> P (node_key x) (node_value x)}" "n + data_size d' = data_size ?d" by auto
  have "data_map d' = map_keep (\<lambda>k v. \<not> P k v) (hash_map h)"
  proof
    fix k
    have "data_map d' k = Some v \<longleftrightarrow> data_map ?d k = Some v \<and> \<not> P k v" for v
      unfolding data_map_iff [OF n(2)] data_map_iff [OF d(1)] n(3) by blast
    moreover have "map_keep (\<lambda>k v. \<not> P k v) (hash_map h) k = Some v \<longleftrightarrow> data_map ?d k = Some v \<and> \<not> P k v" for v
      unfolding map_keep_def d(2) by (cases "hash_map h k") auto
    ultimately show "data_map d' k = map_keep (\<lambda>k v. \<not> P k v) (hash_map h) k" by (metis (no_types) not_Some_eq)
  qed
  then show ?thesis using n d(3) by (auto simp: QHash_removeIf_def Let_def)
qed

end
