(* ===== verification/QHashProps.thy ===== *)
theory QHashProps
  imports QHashMap
begin

text \<open>
  The contract of a container that implements an abstract value, its interpretation on QHash, and the
  properties of QHash.
\<close>

section \<open>Sequences of calls\<close>

datatype ('k, 'v) HashCall = Insert 'k 'v | Remove 'k | Take 'k | Contains 'k | Value 'k 'v | At 'k 'v | Reserve nat | Squeeze | Clear

datatype 'v HashAnswer = NoAnswer | Answered bool | Taken "'v option" | Found 'v

text \<open>Each call is made while the table is shared or not.\<close>

fun hash_call ::
    "('k \<Rightarrow> 64 word \<Rightarrow> 64 word) \<Rightarrow> 64 word \<Rightarrow> bool \<times> ('k, 'v) HashCall \<Rightarrow> ('k, 'v) QHash \<Rightarrow> ('v HashAnswer \<times> ('k, 'v) QHash) option" where
  "hash_call hf g (sh, Insert k v) h = map_option (\<lambda>h. (NoAnswer, h)) (QHash_insert hf g sh k v h)"
| "hash_call hf g (sh, Remove k) h = map_option (\<lambda>(r, h). (Answered r, h)) (QHash_remove hf g sh k h)"
| "hash_call hf g (sh, Take k) h = map_option (\<lambda>(r, h). (Taken r, h)) (QHash_take hf g sh k h)"
| "hash_call hf g (sh, Contains k) h = map_option (\<lambda>r. (Answered r, h)) (QHash_contains hf k h)"
| "hash_call hf g (sh, Value k def) h = map_option (\<lambda>r. (Found r, h)) (QHash_value hf k def h)"
| "hash_call hf g (sh, At k def) h = map_option (\<lambda>(r, h). (Found r, h)) (QHash_at hf g sh k def h)"
| "hash_call hf g (sh, Reserve n) h = map_option (\<lambda>h. (NoAnswer, h)) (QHash_reserve hf g sh n h)"
| "hash_call hf g (sh, Squeeze) h = map_option (\<lambda>h. (NoAnswer, h)) (QHash_squeeze hf g sh h)"
| "hash_call hf g (sh, Clear) h = Some (NoAnswer, QHash_clear h)"

text \<open>The same calls on a finite map.\<close>

fun map_call :: "bool \<times> ('k, 'v) HashCall \<Rightarrow> ('k \<rightharpoonup> 'v) \<Rightarrow> 'v HashAnswer \<times> ('k \<rightharpoonup> 'v)" where
  "map_call (_, Insert k v) m = (NoAnswer, m(k \<mapsto> v))"
| "map_call (_, Remove k) m = (Answered (m k \<noteq> None), m(k := None))"
| "map_call (_, Take k) m = (Taken (m k), m(k := None))"
| "map_call (_, Contains k) m = (Answered (m k \<noteq> None), m)"
| "map_call (_, Value k def) m = (Found (case m k of None \<Rightarrow> def | Some v \<Rightarrow> v), m)"
| "map_call (_, At k def) m =
     (let v = (case m k of None \<Rightarrow> def | Some v \<Rightarrow> v) in (Found v, m(k \<mapsto> v)))"
| "map_call (_, Reserve n) m = (NoAnswer, m)"
| "map_call (_, Squeeze) m = (NoAnswer, m)"
| "map_call (_, Clear) m = (NoAnswer, Map.empty)"

fun run_calls :: "('o \<Rightarrow> 's \<Rightarrow> ('r \<times> 's) option) \<Rightarrow> 'o list \<Rightarrow> 's \<Rightarrow> ('r list \<times> 's) option" where
  "run_calls step [] s = Some ([], s)"
| "run_calls step (c # cs) s = do { (r, s) \<leftarrow> step c s; (rs, s) \<leftarrow> run_calls step cs s; Some (r # rs, s) }"

fun spec_calls :: "('o \<Rightarrow> 'm \<Rightarrow> 'r \<times> 'm) \<Rightarrow> 'o list \<Rightarrow> 'm \<Rightarrow> 'r list \<times> 'm" where
  "spec_calls spec [] m = ([], m)"
| "spec_calls spec (c # cs) m = (let (r, m) = spec c m; (rs, m) = spec_calls spec cs m in (r # rs, m))"

locale bounded_refinement =
  fixes inv :: "'s \<Rightarrow> bool" and abs_of :: "'s \<Rightarrow> 'm" and amount :: "'s \<Rightarrow> nat" and bound :: nat and allowed :: "'o \<Rightarrow> bool"
    and step :: "'o \<Rightarrow> 's \<Rightarrow> ('r \<times> 's) option" and spec :: "'o \<Rightarrow> 'm \<Rightarrow> 'r \<times> 'm"
  assumes step_refines: "inv s \<Longrightarrow> allowed c \<Longrightarrow> amount s + 1 < bound
    \<Longrightarrow> \<exists>r s'. step c s = Some (r, s') \<and> inv s' \<and> spec c (abs_of s) = (r, abs_of s') \<and> amount s' \<le> amount s + 1"
begin

lemma run_refines:
  "inv s \<Longrightarrow> list_all allowed cs \<Longrightarrow> amount s + length cs < bound
    \<Longrightarrow> \<exists>rs s'. run_calls step cs s = Some (rs, s') \<and> inv s' \<and> spec_calls spec cs (abs_of s) = (rs, abs_of s') \<and> amount s' \<le> amount s + length cs"
proof (induction cs arbitrary: s)
  case (Cons c cs)
  then have "inv s" "allowed c" "amount s + 1 < bound" by simp_all
  from step_refines [OF this] obtain r s' where r: "step c s = Some (r, s')" "inv s'" "spec c (abs_of s) = (r, abs_of s')" "amount s' \<le> amount s + 1"
    by blast
  then have "list_all allowed cs" "amount s' + length cs < bound" using Cons.prems by simp_all
  from Cons.IH [OF r(2) this] obtain rs s'' where rs: "run_calls step cs s' = Some (rs, s'')" "inv s''"
    "spec_calls spec cs (abs_of s') = (rs, abs_of s'')" "amount s'' \<le> amount s' + length cs" by blast
  then show ?case using r by (intro exI [of _ "r # rs"] exI [of _ s'']) simp
qed simp

end

definition hash_allowed :: "bool \<times> ('k, 'v) HashCall \<Rightarrow> bool" where
  "hash_allowed c \<longleftrightarrow> (case snd c of Reserve n \<Rightarrow> n < 2 ^ 61 | _ \<Rightarrow> True)"

lemma hash_call_refines:
  assumes ok: "hash_ok hf h" and al: "hash_allowed c" and small: "QHash_size h + 1 < 2 ^ 61"
  shows "\<exists>r h'. hash_call hf g c h = Some (r, h') \<and> hash_ok hf h' \<and> map_call c (hash_map h) = (r, hash_map h') \<and> QHash_size h' \<le> QHash_size h + 1"
proof -
  obtain sh a where c: "c = (sh, a)" by (cases c)
  have s: "QHash_size h < 2 ^ 61" using small by simp
  show ?thesis
  proof (cases a)
    case (Insert k v)
    then show ?thesis using insert_ok [OF ok small, of g sh k v] c by auto
  next
    case (Remove k)
    then show ?thesis using take_ok [OF ok, of g sh k] c by auto
  next
    case (Take k)
    then show ?thesis using take_ok [OF ok, of g sh k] c by auto
  next
    case (Contains k)
    then show ?thesis using lookup_ok(1) [OF ok, of k] ok c by auto
  next
    case (Value k def)
    then show ?thesis using lookup_ok(3) [OF ok, of k def] ok c by auto
  next
    case (At k def)
    then show ?thesis using at_ok [OF ok small, of g sh k def] c by (auto simp: Let_def)
  next
    case Clear
    then show ?thesis using c by (simp add: QHash_clear_def)
  next
    case (Reserve n)
    then show ?thesis using reserve_ok [OF ok _ s, of n g sh] al c by (auto simp: hash_allowed_def)
  next
    case Squeeze
    then show ?thesis using squeeze_ok [OF ok s, of g sh] c by auto
  qed
qed

interpretation hash_container: bounded_refinement "hash_ok hf" hash_map QHash_size "2 ^ 61" hash_allowed "hash_call hf g" map_call for hf g
  by unfold_locales (rule hash_call_refines)

text \<open>C2: whatever the hash function does, any sequence of insert, remove, take, contains, value, operator[],
  reserve, squeeze and clear returns, on a null, an own or a shared table, and answers as the same calls on a
  finite map; the table stays well formed. The sizes stay below 2^61, past which the capacity asked for
  is not a number of buckets.\<close>

theorem calls_are_map_calls:
  "hash_ok hf h \<Longrightarrow> list_all hash_allowed cs \<Longrightarrow> QHash_size h + length cs < 2 ^ 61 \<Longrightarrow>
    \<exists>rs h'. run_calls (hash_call hf g) cs h = Some (rs, h') \<and> hash_ok hf h'
      \<and> spec_calls map_call cs (hash_map h) = (rs, hash_map h') \<and> QHash_size h' = card (dom (hash_map h'))"
  using hash_container.run_refines [of hf h cs g] size_dom [of hf] by metis

theorem calls_are_map_calls_witness:
  "\<exists>h'. run_calls (hash_call (\<lambda>k s. 5) 0) [(False, Insert 1 2), (True, Insert 3 (4 :: nat)), (True, Take (1 :: nat))] None
      = Some ([NoAnswer, NoAnswer, Taken (Some 2)], h') \<and> hash_map h' = [3 \<mapsto> 4]"
proof -
  let ?cs = "[(False, Insert 1 2), (True, Insert 3 (4 :: nat)), (True, Take (1 :: nat))]"
  have "hash_ok (\<lambda>k s. 5) (None :: (nat, nat) QHash)" "list_all hash_allowed ?cs" "QHash_size (None :: (nat, nat) QHash) + length ?cs < 2 ^ 61"
    by (simp_all add: hash_allowed_def)
  from calls_are_map_calls [OF this, of 0] obtain rs h' where r: "run_calls (hash_call (\<lambda>k s. 5) 0) ?cs None = Some (rs, h')"
    "spec_calls map_call ?cs (hash_map None) = (rs, hash_map h')" by blast
  have "rs = [NoAnswer, NoAnswer, Taken (Some 2)]" "hash_map h' = [3 \<mapsto> 4]" using r(2) by (simp_all add: fun_eq_iff)
  then show ?thesis using r(1) by blast
qed

section \<open>Iteration and equality\<close>

text \<open>C17: an iteration from begin to end visits size() nodes, no key twice, and they are the map.\<close>

theorem iteration_lists_map:
  "hash_ok hf h \<Longrightarrow> distinct (QHash_keys h) \<and> set (QHash_keys h) = dom (hash_map h) \<and> length (QHash_values h) = QHash_size h
    \<and> (\<forall>i < QHash_size h. hash_map h (QHash_keys h ! i) = Some (QHash_values h ! i))"
proof -
  assume ok: "hash_ok hf h"
  note it = iterate_ok [OF ok]
  have m: "hash_map h k = Some v \<longleftrightarrow> (\<exists>x \<in> set (QHash_iterate h). node_key x = k \<and> node_value x = v)" for k v
    unfolding it(2) [symmetric] by (rule nodes_map_iff [OF it(1)])
  have "hash_map h (QHash_keys h ! i) = Some (QHash_values h ! i)" if "i < QHash_size h" for i
    using that it(3) by (auto simp: m QHash_keys_def QHash_values_def intro!: bexI [of _ "QHash_iterate h ! i"])
  moreover have "set (QHash_keys h) = dom (hash_map h)" using m by (auto simp: QHash_keys_def dom_def)
  ultimately show ?thesis using it by (simp add: QHash_keys_def QHash_values_def)
qed

theorem iteration_lists_map_witness:
  "\<exists>h. QHash_insert (\<lambda>k s. 5) 0 False 3 (4 :: nat) None = Some h \<and> distinct (QHash_keys h) \<and> set (QHash_keys h) = {3 :: nat}
    \<and> length (QHash_values h) = QHash_size h"
proof -
  have "hash_ok (\<lambda>k s. 5) (None :: (nat, nat) QHash)" "QHash_size (None :: (nat, nat) QHash) + 1 < 2 ^ 61" by simp_all
  from insert_ok [OF this, of 0 False 3 4] obtain h where h: "QHash_insert (\<lambda>k s. 5) 0 False 3 (4 :: nat) None = Some h"
    "hash_ok (\<lambda>k s. 5) h" "hash_map h = [3 :: nat \<mapsto> 4]" by auto
  then show ?thesis using iteration_lists_map [OF h(2)] by auto
qed

text \<open>C16: operator== holds for exactly the tables with the same map, whatever their capacities, seeds
  and histories of collisions.\<close>

theorem equality_is_map_equality:
  "hash_ok hf h \<Longrightarrow> hash_ok hf h' \<Longrightarrow> QHash_equal hf h h' = Some (hash_map h = hash_map h')"
  by (rule equal_ok)

theorem equality_is_map_equality_witness:
  "QHash_equal (\<lambda>k s. s) (None :: (nat, nat) QHash) (Some (Data_new 7 1000)) = Some True"
proof -
  have "table_ok (\<lambda>k s. s) (Data_new 7 1000 :: (nat, nat) Data)" "data_filled (Data_new 7 1000 :: (nat, nat) Data) = {}"
    using Data_new_ok [of 1000] by simp_all
  then show ?thesis using equality_is_map_equality [of "\<lambda>k s. s" None "Some (Data_new 7 1000) :: (nat, nat) QHash"] empty_data_map by fastforce
qed

section \<open>Capacity\<close>

lemma insert_keeps_buckets:
  assumes ok: "hash_ok hf h" and room: "QHash_size h < QHash_capacity h" and small: "QHash_size h + 1 < 2 ^ 61"
  shows "\<exists>h'. QHash_insert hf g sh k v h = Some h' \<and> hash_ok hf h' \<and> QHash_size h' \<le> QHash_size h + 1 \<and> QHash_capacity h' = QHash_capacity h"
proof -
  obtain d where h: "h = Some d" using room by (cases h) auto
  let ?d = "QHash_detach g sh h"
  have d: "table_ok hf ?d" "data_size ?d = data_size d" "numBuckets ?d = numBuckets d"
    using detach_ok(1,3) [OF ok, of g sh] detach_ok(4) [OF ok h, of g sh] h by simp_all
  have "\<not> shouldGrow ?d" using room h d by (simp add: shouldGrow_def drop_bit_eq_div)
  moreover obtain d' where "emplace_helper hf k v ?d = Some d'" "table_ok hf d'" "data_size d' \<le> data_size ?d + 1" "\<not> shouldGrow ?d \<longrightarrow> numBuckets d' = numBuckets ?d"
    using emplace_helper_ok [OF d(1), of k v] small h d(2) by auto
  ultimately show ?thesis using h d by (intro exI [of _ "Some d'"]) (simp add: QHash_insert_def)
qed

text \<open>C18: after reserve(n) the insertions up to the size n rehash no table: its buckets stay as many.\<close>

theorem reserve_prevents_rehash:
  assumes ok: "hash_ok hf h" and n: "n < 2 ^ 61" "QHash_size h < 2 ^ 61" and fits: "QHash_size h + length kvs \<le> n"
  shows "\<exists>h1 h'. QHash_reserve hf g sh n h = Some h1 \<and> n \<le> QHash_capacity h1
    \<and> run_calls (hash_call hf g) (map (\<lambda>(sh, k, v). (sh, Insert k v)) kvs) h1 = Some (replicate (length kvs) NoAnswer, h')
    \<and> QHash_capacity h' = QHash_capacity h1"
proof -
  have run: "\<exists>h'. run_calls (hash_call hf g) (map (\<lambda>(sh, k, v). (sh, Insert k v)) kvs) h1 = Some (replicate (length kvs) NoAnswer, h')
      \<and> QHash_capacity h' = QHash_capacity h1"
    if "hash_ok hf h1" "QHash_size h1 + length kvs \<le> n" "n \<le> QHash_capacity h1" for h1 and kvs :: "(bool \<times> 'a \<times> 'b) list"
    using that
  proof (induction kvs arbitrary: h1)
    case (Cons a kvs)
    obtain sh' k v where a: "a = (sh', k, v)" by (cases a)
    have "QHash_size h1 < QHash_capacity h1" "QHash_size h1 + 1 < 2 ^ 61" using Cons.prems n by simp_all
    from insert_keeps_buckets [OF Cons.prems(1) this] obtain h2 where h2: "QHash_insert hf g sh' k v h1 = Some h2" "hash_ok hf h2"
      "QHash_size h2 \<le> QHash_size h1 + 1" "QHash_capacity h2 = QHash_capacity h1" by blast
    then have "QHash_size h2 + length kvs \<le> n" "n \<le> QHash_capacity h2" using Cons.prems by simp_all
    from Cons.IH [OF h2(2) this] show ?case using h2 a by auto
  qed simp
  obtain h1 where "QHash_reserve hf g sh n h = Some h1" "hash_ok hf h1" "QHash_size h1 = QHash_size h" "n \<le> QHash_capacity h1"
    using reserve_ok [OF ok n] by blast
  then show ?thesis using run [of h1 kvs] fits by auto
qed

theorem reserve_prevents_rehash_witness:
  "\<exists>h1. QHash_reserve (\<lambda>k s. s) 0 True 100 (None :: (nat, nat) QHash) = Some h1 \<and> 100 \<le> QHash_capacity h1"
  using reserve_prevents_rehash [of "\<lambda>k s. s" "None :: (nat, nat) QHash" 100 "[(True, 1, 2)]" 0 True] by (simp del: run_calls.simps) blast

section \<open>Erasing while iterating\<close>

text \<open>C15: erasing at an iterator of a table, shared or not, removes just the node there and returns the
  iterator at the first occupied bucket from that one on (the end, if it was the last bucket: a node
  that closing the hole wraps into the last bucket has been visited). None of the nodes not yet visited
  is skipped, although closing the hole moves nodes.\<close>

theorem erase_skips_none:
  assumes ok: "hash_ok hf (Some d)" and b: "b < numBuckets d" "\<not> bucket_isUnused d (Bucket_at b)"
  shows "\<exists>d' it. QHash_erase hf g sh b (Some d) = Some (it, Some d') \<and> hash_ok hf (Some d')
    \<and> hash_map (Some d') = (hash_map (Some d))(node_key (bucket_node d (Bucket_at b)) := None)
    \<and> numBuckets d' = numBuckets d
    \<and> it = (if Suc b = numBuckets d then None
            else find (\<lambda>p. \<not> bucket_isUnused d' (Bucket_at p)) [b..<numBuckets d])
    \<and> set (iterate_from d (iterator_next d b)) \<subseteq> set (iterate_from d' it)"
  by (rule QHash_erase_ok [OF ok b])

theorem erase_skips_none_witness:
  "\<exists>d b d' it. bucket_node d (Bucket_at b) = \<lparr>node_key = 3 :: nat, node_value = 4 :: nat\<rparr> \<and> QHash_erase (\<lambda>k s. 5) 0 True b (Some d) = Some (it, Some d')
    \<and> hash_map (Some d') = Map.empty"
proof -
  have "hash_ok (\<lambda>k s. 5) (None :: (nat, nat) QHash)" "QHash_size (None :: (nat, nat) QHash) + 1 < 2 ^ 61" by simp_all
  from insert_ok [OF this, of 0 False 3 4] obtain h where h: "hash_ok (\<lambda>k s. 5) h" "hash_map h = [3 :: nat \<mapsto> 4 :: nat]" by auto
  then obtain d where d: "table_ok (\<lambda>k s. 5) d" "data_map d = [3 :: nat \<mapsto> 4 :: nat]" proof -
    have "hash_map h 3 = Some 4" using h(2) by simp
    then show ?thesis using that h by (cases h) auto
  qed
  obtain x where "x \<in> data_filled d" "node_key x = 3" "node_value x = 4" using data_map_iff [OF d(1), of 3 4] d(2) by auto
  then obtain b where b: "b < numBuckets d" "tab d b = Some \<lparr>node_key = 3, node_value = 4\<rparr>" by (auto simp: filled_def)
  note x = node_tab [OF b(2)]
  have "\<not> bucket_isUnused d (Bucket_at b)" using unused_tab [OF b(1)] b(2) by simp
  from erase_skips_none [OF _ b(1) this, of "\<lambda>k s. 5" 0 True] d(1) obtain d' it
    where "QHash_erase (\<lambda>k s. 5) 0 True b (Some d) = Some (it, Some d')" "hash_map (Some d') = (data_map d)(3 := None)"
    using x by auto
  then show ?thesis using x d(2) by fastforce
qed

text \<open>C14: removeIf returns, erases exactly the nodes the predicate holds for and counts each once,
  although an erasure can move nodes already visited in front of the iterator again.\<close>

theorem removeIf_erases_exactly:
  "hash_ok hf h \<Longrightarrow> \<exists>n h'. QHash_removeIf hf g sh P h = Some (n, h') \<and> hash_ok hf h'
    \<and> hash_map h' = map_keep (\<lambda>k v. \<not> P k v) (hash_map h) \<and> n + QHash_size h' = QHash_size h"
  by (rule removeIf_ok)

theorem removeIf_erases_exactly_witness:
  "\<exists>h h'. hash_map h = [3 :: nat \<mapsto> 4 :: nat] \<and> QHash_removeIf (\<lambda>k s. 5) 0 True (\<lambda>k v. k < v) h = Some (1, h') \<and> hash_map h' = Map.empty"
proof -
  have "hash_ok (\<lambda>k s. 5) (None :: (nat, nat) QHash)" "QHash_size (None :: (nat, nat) QHash) + 1 < 2 ^ 61" by simp_all
  from insert_ok [OF this, of 0 False 3 4] obtain h where h: "hash_ok (\<lambda>k s. 5) h" "hash_map h = [3 :: nat \<mapsto> 4 :: nat]" by auto
  from removeIf_erases_exactly [OF h(1), of 0 True "\<lambda>k v. k < v"] obtain n h'
    where n: "QHash_removeIf (\<lambda>k s. 5) 0 True (\<lambda>k v. k < v) h = Some (n, h')" "hash_ok (\<lambda>k s. 5) h'"
      "hash_map h' = map_keep (\<lambda>k v. \<not> k < v) (hash_map h)" "n + QHash_size h' = QHash_size h" by blast
  have e: "hash_map h' = Map.empty" unfolding n(3) h(2) by (simp add: map_keep_def fun_eq_iff)
  have "QHash_size h = 1" using size_dom [OF h(1)] h(2) by simp
  moreover have "QHash_size h' = 0" using size_dom [OF n(2)] e by simp
  ultimately have "n = 1" using n(4) by simp
  then show ?thesis using h(2) n(1) e by blast
qed

text \<open>insert(hash) is the union of the two tables in which the second wins, and returns.\<close>

theorem unite_overrides:
  "hash_ok hf h \<Longrightarrow> hash_ok hf h' \<Longrightarrow> same \<longrightarrow> h = h' \<Longrightarrow> QHash_size h + QHash_size h' < 2 ^ 61
    \<Longrightarrow> \<exists>r. QHash_unite hf g sh same h' h = Some r \<and> hash_ok hf r \<and> hash_map r = hash_map h ++ hash_map h'"
  by (rule unite_ok)

theorem unite_overrides_witness:
  "\<exists>h r. hash_map h = [3 :: nat \<mapsto> 4 :: nat] \<and> QHash_unite (\<lambda>k s. 5) 0 True False h (Some (Data_new 9 500)) = Some r \<and> hash_map r = [3 \<mapsto> 4]"
proof -
  have "hash_ok (\<lambda>k s. 5) (None :: (nat, nat) QHash)" "QHash_size (None :: (nat, nat) QHash) + 1 < 2 ^ 61" by simp_all
  from insert_ok [OF this, of 0 False 3 4] obtain h where h: "hash_ok (\<lambda>k s. 5) h" "hash_map h = [3 :: nat \<mapsto> 4 :: nat]" by auto
  let ?e = "Data_new 9 500 :: (nat, nat) Data"
  have e: "table_ok (\<lambda>k s. 5) ?e" by (rule Data_new_ok) simp
  have "data_filled ?e = {}" by (rule Data_new_ok) simp
  then have m: "data_map ?e = Map.empty" by (rule empty_data_map [OF e])
  have "QHash_size h = 1" using size_dom [OF h(1)] h(2) by simp
  moreover have "QHash_size (Some ?e) = 0" by (simp add: Data_new_def Let_def)
  ultimately have "hash_ok (\<lambda>k s. 5) (Some ?e)" "QHash_size (Some ?e) + QHash_size h < 2 ^ 61" "False \<longrightarrow> Some ?e = h" using e by simp_all
  from unite_overrides [OF this(1) h(1) this(3,2), of 0 True] h(2) m show ?thesis by (auto simp: map_add_def)
qed

end
