(* ===== verification/Utf8Codec.thy ===== *)
theory Utf8Codec
  imports Prelude "HOL-Library.Word"
begin

text \<open>
  \<open>src/corelib/text/qstringconverter.cpp\<close> and its headers: UTF-8 to UTF-16 and back, at once and in
  chunks with a state. Pointers into a buffer are the list of what is left of it; what is written is
  the list of what a call appends. The SIMD routines are shortcuts for runs of ASCII; the model is
  the code of the platforms without them.
\<close>

unbundle bit_operations_syntax

section \<open>QChar\<close>

definition ReplacementCharacter :: "16 word" where "ReplacementCharacter = 0xfffd"
definition ByteOrderMark :: "16 word" where "ByteOrderMark = 0xfeff"
definition ByteOrderSwapped :: "16 word" where "ByteOrderSwapped = 0xfffe"
definition LastValidCodePoint :: "32 word" where "LastValidCodePoint = 0x10ffff"

definition isHighSurrogate :: "32 word \<Rightarrow> bool" where
  "isHighSurrogate ucs4 \<longleftrightarrow> ucs4 AND 0xfffffc00 = 0xd800"

definition isLowSurrogate :: "32 word \<Rightarrow> bool" where
  "isLowSurrogate ucs4 \<longleftrightarrow> ucs4 AND 0xfffffc00 = 0xdc00"

definition isSurrogate :: "32 word \<Rightarrow> bool" where
  "isSurrogate ucs4 \<longleftrightarrow> ucs4 - 0xd800 < 2048"

definition requiresSurrogates :: "32 word \<Rightarrow> bool" where
  "requiresSurrogates ucs4 \<longleftrightarrow> ucs4 \<ge> 0x10000"

definition surrogateToUcs4 :: "16 word \<Rightarrow> 16 word \<Rightarrow> 32 word" where
  "surrogateToUcs4 high low = push_bit 10 (ucast high) + ucast low - 0x35fdc00"

definition highSurrogate :: "32 word \<Rightarrow> 16 word" where
  "highSurrogate ucs4 = ucast (drop_bit 10 ucs4 + 0xd7c0)"

definition lowSurrogate :: "32 word \<Rightarrow> 16 word" where
  "lowSurrogate ucs4 = ucast (ucs4 mod 0x400 + 0xdc00)"

section \<open>State\<close>

datatype DataEndianness = DetectEndianness | BigEndianness | LittleEndianness

text \<open>
  The flags, the one bit \<open>internalState\<close> has, and \<open>state_data\<close> by its use: the bytes of an unfinished
  character (decoders), the byte order they detected, the surrogate that waits for its second half
  (encoders).
\<close>

record ConverterState =
  Stateless :: bool
  ConvertInvalidToNull :: bool
  WriteBom :: bool
  ConvertInitialBom :: bool
  HeaderDone :: bool
  remainingChars :: nat
  invalidChars :: nat
  state_bytes :: "8 word list"
  state_endian :: DataEndianness
  state_char :: "16 word"

definition ConverterState_new :: "bool \<Rightarrow> bool \<Rightarrow> bool \<Rightarrow> bool \<Rightarrow> ConverterState" where
  "ConverterState_new sl toNull bom initialBom =
     \<lparr>Stateless = sl, ConvertInvalidToNull = toNull, WriteBom = bom, ConvertInitialBom = initialBom, HeaderDone = False,
      remainingChars = 0, invalidChars = 0, state_bytes = [], state_endian = DetectEndianness, state_char = 0\<rparr>"

text \<open>The moving constructor: the state made and the one left behind.\<close>

definition ConverterState_move :: "ConverterState \<Rightarrow> ConverterState" where
  "ConverterState_move other = other\<lparr>HeaderDone := False\<rparr>"

definition ConverterState_clear :: "ConverterState \<Rightarrow> ConverterState" where
  "ConverterState_clear st =
     st\<lparr>HeaderDone := False, remainingChars := 0, invalidChars := 0, state_bytes := [], state_endian := DetectEndianness, state_char := 0\<rparr>"

definition hasError :: "ConverterState \<Rightarrow> bool" where
  "hasError st \<longleftrightarrow> invalidChars st \<noteq> 0"

section \<open>One character\<close>

datatype Encoded = EncodeError | EncodeEndOfString | Encoded "8 word list" "16 word list"

datatype Decoded = DecodeError | DecodeEndOfString | Decoded nat "32 word" "8 word list"

definition toUtf8 :: "16 word \<Rightarrow> 16 word list \<Rightarrow> Encoded" where
  "toUtf8 u src =
     (if u < 0x80 then Encoded [ucast u] src
      else if u < 0x800 then Encoded [0xc0 OR ucast (drop_bit 6 u), ucast (0x80 OR (u AND 0x3f))] src
      else if \<not> isSurrogate (ucast u)
      then Encoded [0xe0 OR ucast (drop_bit 12 u), 0x80 OR (ucast (drop_bit 6 u) AND 0x3f), ucast (0x80 OR (u AND 0x3f))] src
      else case src of
             [] \<Rightarrow> EncodeEndOfString
           | low # rest \<Rightarrow>
               if \<not> isHighSurrogate (ucast u) then EncodeError
               else if \<not> isLowSurrogate (ucast low) then EncodeError
               else let ucs4 = surrogateToUcs4 u low;
                        u = ucast ucs4 :: 16 word
                    in Encoded [0xf0 OR (ucast (drop_bit 18 ucs4) AND 0xf), 0x80 OR (ucast (drop_bit 12 ucs4) AND 0x3f),
                                0x80 OR (ucast (drop_bit 6 u) AND 0x3f), ucast (0x80 OR (u AND 0x3f))] rest)"

definition isContinuationByte :: "8 word \<Rightarrow> bool" where
  "isContinuationByte b \<longleftrightarrow> b AND 0xc0 = 0x80"

text \<open>The code point after so many more continuation bytes.\<close>

fun continuationBytes :: "nat \<Rightarrow> 8 word list \<Rightarrow> 32 word \<Rightarrow> 32 word option" where
  "continuationBytes 0 src uc = Some uc"
| "continuationBytes (Suc n) [] uc = None"
| "continuationBytes (Suc n) (b # src) uc =
     (if \<not> isContinuationByte b then None
      else continuationBytes n src (push_bit 6 uc OR (ucast b AND 0x3f)))"

definition decodeRest :: "nat \<Rightarrow> 32 word \<Rightarrow> 32 word \<Rightarrow> 8 word list \<Rightarrow> Decoded" where
  "decodeRest charsNeeded min_uc uc src =
     (if length src < charsNeeded - 1
      then if length src > 0 \<and> \<not> isContinuationByte (src ! 0) then DecodeError
           else if length src > 1 \<and> \<not> isContinuationByte (src ! 1) then DecodeError
           else DecodeEndOfString
      else case continuationBytes (charsNeeded - 1) src uc of
             None \<Rightarrow> DecodeError
           | Some uc \<Rightarrow>
               if uc < min_uc then DecodeError
               else if isSurrogate uc \<or> uc > LastValidCodePoint then DecodeError
               else Decoded charsNeeded uc (drop (charsNeeded - 1) src))"

definition fromUtf8 :: "8 word \<Rightarrow> 8 word list \<Rightarrow> Decoded" where
  "fromUtf8 b src =
     (if b < 0x80 then Decoded 1 (ucast b) src
      else if b \<le> 0xC1 then DecodeError
      else if b < 0xe0 then decodeRest 2 0x80 (ucast (b AND 0x1f)) src
      else if b < 0xf0 then decodeRest 3 0x800 (ucast (b AND 0x0f)) src
      else if b < 0xf5 then decodeRest 4 0x10000 (ucast (b AND 0x07)) src
      else DecodeError)"

definition appendUtf16 :: "32 word \<Rightarrow> 16 word list" where
  "appendUtf16 uc = (if \<not> requiresSurrogates uc then [ucast uc] else [highSurrogate uc, lowSurrogate uc])"

lemma toUtf8_shorter: "toUtf8 u src = Encoded bs rest \<Longrightarrow> length rest \<le> length src"
  by (auto simp: toUtf8_def Let_def split: if_splits list.splits)

lemma fromUtf8_rest: "fromUtf8 b src = Decoded n uc rest \<Longrightarrow> 0 < n \<and> n - 1 \<le> length src \<and> rest = drop (n - 1) src"
  by (auto simp: fromUtf8_def decodeRest_def not_less Suc_le_eq split: if_splits option.splits)

lemma fromUtf8_shorter: "fromUtf8 b src = Decoded n uc rest \<Longrightarrow> length rest \<le> length src"
  using fromUtf8_rest by fastforce

section \<open>Encoding\<close>

function utf8_fromUnicode :: "16 word list \<Rightarrow> 8 word list" where
  "utf8_fromUnicode [] = []"
| "utf8_fromUnicode (u # src) =
     (case toUtf8 u src of
        Encoded bs rest \<Rightarrow> bs @ utf8_fromUnicode rest
      | EncodeError \<Rightarrow> 0x3f # utf8_fromUnicode src
      | EncodeEndOfString \<Rightarrow> 0x3f # utf8_fromUnicode src)"
  by pat_completeness auto
termination by (relation "measure length") (auto dest: toUtf8_shorter)

definition utf8bom :: "8 word list" where "utf8bom = [0xef, 0xbb, 0xbf]"

definition utf8_replacement :: "ConverterState \<Rightarrow> 8 word list" where
  "utf8_replacement st = (if ConvertInvalidToNull st then [0] else [0xef, 0xbf, 0xbd])"

text \<open>The state a call starts from: a surrogate left over, or the byte order mark.\<close>

definition utf8_encodePending :: "16 word list \<Rightarrow> ConverterState \<Rightarrow> 8 word list \<times> 16 word list \<times> ConverterState" where
  "utf8_encodePending src st =
     (if \<not> Stateless st
      then if remainingChars st \<noteq> 0
           then let st' = st\<lparr>state_char := 0, remainingChars := 0\<rparr>
                in case toUtf8 (state_char st) src of
                     Encoded bs rest \<Rightarrow> (bs, rest, st')
                   | EncodeError \<Rightarrow> (utf8_replacement st, src, st')
                   | EncodeEndOfString \<Rightarrow> (utf8_replacement st, src, st')
           else if \<not> HeaderDone st \<and> WriteBom st
           then (utf8bom, src, st\<lparr>HeaderDone := True\<rparr>)
           else ([], src, st)
      else ([], src, st))"

function utf8_encodeLoop :: "16 word list \<Rightarrow> ConverterState \<Rightarrow> 8 word list \<times> ConverterState" where
  "utf8_encodeLoop [] st = ([], st)"
| "utf8_encodeLoop (u # src) st =
     (case toUtf8 u src of
        Encoded bs rest \<Rightarrow> let (out, st) = utf8_encodeLoop rest st in (bs @ out, st)
      | EncodeError \<Rightarrow>
          let (out, st') = utf8_encodeLoop src (st\<lparr>invalidChars := invalidChars st + 1\<rparr>)
          in (utf8_replacement st @ out, st')
      | EncodeEndOfString \<Rightarrow>
          if Stateless st then (utf8_replacement st, st\<lparr>invalidChars := invalidChars st + 1\<rparr>)
          else ([], st\<lparr>remainingChars := 1, state_char := u\<rparr>))"
  by pat_completeness auto
termination by (relation "measure (\<lambda>(src, st). length src)") (auto dest: toUtf8_shorter)

definition utf8_convertFromUnicode :: "16 word list \<Rightarrow> ConverterState \<Rightarrow> 8 word list \<times> ConverterState" where
  "utf8_convertFromUnicode src st =
     (if src = [] then ([], st)
      else let (pre, src, st) = utf8_encodePending src st; (out, st) = utf8_encodeLoop src st in (pre @ out, st))"

definition utf8_convertFromLatin1 :: "8 word list \<Rightarrow> 8 word list" where
  "utf8_convertFromLatin1 src =
     concat (map (\<lambda>ch. if ch < 128 then [ch] else [0xc0 OR drop_bit 6 ch, 0x80 OR (ch AND 0x3f)]) src)"

section \<open>Decoding\<close>

function utf8_toUnicodeLoop :: "8 word list \<Rightarrow> 16 word list" where
  "utf8_toUnicodeLoop [] = []"
| "utf8_toUnicodeLoop (b # src) =
     (case fromUtf8 b src of
        Decoded n uc rest \<Rightarrow> appendUtf16 uc @ utf8_toUnicodeLoop rest
      | DecodeError \<Rightarrow> ReplacementCharacter # utf8_toUnicodeLoop src
      | DecodeEndOfString \<Rightarrow> ReplacementCharacter # utf8_toUnicodeLoop src)"
  by pat_completeness auto
termination by (relation "measure length") (auto dest: fromUtf8_shorter)

definition utf8_toUnicode :: "8 word list \<Rightarrow> 16 word list" where
  "utf8_toUnicode src = utf8_toUnicodeLoop (if length src \<ge> 3 \<and> take 3 src = utf8bom then drop 3 src else src)"

definition decode_replacement :: "ConverterState \<Rightarrow> 16 word" where
  "decode_replacement st = (if ConvertInvalidToNull st then 0 else ReplacementCharacter)"

text \<open>
  The main body. What is left when a sequence is not finished becomes the state, or is replaced byte by
  byte.
\<close>

function utf8_decodeLoop :: "8 word list \<Rightarrow> ConverterState \<Rightarrow> 16 word list \<times> ConverterState" where
  "utf8_decodeLoop [] st = ([], st\<lparr>remainingChars := 0\<rparr>)"
| "utf8_decodeLoop (b # src) st =
     (case fromUtf8 b src of
        Decoded n uc rest \<Rightarrow> let (out, st) = utf8_decodeLoop rest st in (appendUtf16 uc @ out, st)
      | DecodeError \<Rightarrow>
          let (out, st') = utf8_decodeLoop src (st\<lparr>invalidChars := invalidChars st + 1\<rparr>)
          in (decode_replacement st # out, st')
      | DecodeEndOfString \<Rightarrow>
          if Stateless st
          then (replicate (Suc (length src)) ReplacementCharacter,
                st\<lparr>invalidChars := invalidChars st + Suc (length src), remainingChars := 0\<rparr>)
          else ([], st\<lparr>remainingChars := Suc (length src), state_bytes := b # src\<rparr>))"
  by pat_completeness auto
termination by (relation "measure (\<lambda>(src, st). length src)") (auto dest: fromUtf8_shorter)

text \<open>
  The incoming state: \<open>Inl\<close> the state when the call ends here, else what is written, what is left of the
  input and the state. The input is not empty.
\<close>

definition utf8_decodePending :: "8 word list \<Rightarrow> ConverterState \<Rightarrow> ConverterState + (16 word list \<times> 8 word list \<times> ConverterState)" where
  "utf8_decodePending src st =
     (if \<not> Stateless st
      then let headerdone = HeaderDone st \<or> ConvertInitialBom st
           in if remainingChars st \<noteq> 0 \<or> \<not> headerdone
              then let remainingCharsCount = remainingChars st;
                       newCharsToCopy = min (4 - remainingCharsCount) (length src);
                       remainingCharsData = take remainingCharsCount (state_bytes st) @ take newCharsToCopy src
                   in case fromUtf8 (hd remainingCharsData) (tl remainingCharsData) of
                        DecodeError \<Rightarrow>
                          Inr ([decode_replacement st], drop 1 src, st\<lparr>invalidChars := invalidChars st + 1, HeaderDone := True\<rparr>)
                      | DecodeEndOfString \<Rightarrow>
                          Inl (st\<lparr>remainingChars := remainingCharsCount + newCharsToCopy, state_bytes := remainingCharsData\<rparr>)
                      | Decoded res uc rest \<Rightarrow>
                          Inr (if \<not> headerdone \<and> last (appendUtf16 uc) = ByteOrderMark then butlast (appendUtf16 uc) else appendUtf16 uc,
                               drop (res - remainingCharsCount) src, st\<lparr>HeaderDone := True\<rparr>)
              else Inr ([], src, st)
      else if \<not> ConvertInitialBom st
      then Inr ([], if length src > 2 \<and> take 3 src = utf8bom then drop 3 src else src, st)
      else Inr ([], src, st))"

definition utf8_convertToUnicode :: "8 word list \<Rightarrow> ConverterState \<Rightarrow> 16 word list \<times> ConverterState" where
  "utf8_convertToUnicode src st =
     (if src = [] then ([], st)
      else case utf8_decodePending src st of
             Inl st \<Rightarrow> ([], st)
           | Inr (pre, src, st) \<Rightarrow> let (out, st) = utf8_decodeLoop src st in (pre @ out, st))"

text \<open>A decoder or an encoder fed in chunks.\<close>

fun convert_chunks :: "('i list \<Rightarrow> ConverterState \<Rightarrow> 'o list \<times> ConverterState) \<Rightarrow> 'i list list \<Rightarrow> ConverterState \<Rightarrow> 'o list \<times> ConverterState" where
  "convert_chunks convert [] st = ([], st)"
| "convert_chunks convert (c # cs) st =
     (let (out, st) = convert c st; (rest, st) = convert_chunks convert cs st in (out @ rest, st))"

section \<open>Validation and comparison\<close>

function isValidUtf8_loop :: "8 word list \<Rightarrow> bool \<Rightarrow> bool \<times> bool" where
  "isValidUtf8_loop [] isValidAscii = (True, isValidAscii)"
| "isValidUtf8_loop (b # src) isValidAscii =
     (if b AND 0x80 = 0 then isValidUtf8_loop src isValidAscii
      else case fromUtf8 b src of
             Decoded n uc rest \<Rightarrow> isValidUtf8_loop rest False
           | DecodeError \<Rightarrow> (False, False)
           | DecodeEndOfString \<Rightarrow> (False, False))"
  by pat_completeness auto
termination by (relation "measure (\<lambda>(src, a). length src)") (auto dest: fromUtf8_shorter)

definition isValidUtf8 :: "8 word list \<Rightarrow> bool \<times> bool" where
  "isValidUtf8 src = isValidUtf8_loop src True"

text \<open>\<open>toCaseFolded\<close> is a parameter, applied when the comparison ignores case.\<close>

function compareUtf8_loop :: "(32 word \<Rightarrow> 32 word) \<Rightarrow> 8 word list \<Rightarrow> 16 word list \<Rightarrow> int" where
  "compareUtf8_loop foldCase [] src2 = - of_bool (src2 \<noteq> [])"
| "compareUtf8_loop foldCase (b # src1) [] = 1"
| "compareUtf8_loop foldCase (b # src1) (u # src2) =
     (let (uc1, rest1) =
            (if b < 0x80 then (ucast b, src1)
             else case fromUtf8 b src1 of
                    Decoded n uc rest \<Rightarrow> (uc, rest)
                  | DecodeError \<Rightarrow> (ucast ReplacementCharacter, src1)
                  | DecodeEndOfString \<Rightarrow> (ucast ReplacementCharacter, src1));
          (uc2, rest2) =
            (if b \<ge> 0x80 \<and> isHighSurrogate (ucast u) \<and> src2 \<noteq> [] \<and> isLowSurrogate (ucast (hd src2))
             then (surrogateToUcs4 u (hd src2), tl src2) else (ucast u, src2))
      in if foldCase uc1 \<noteq> foldCase uc2 then sint (foldCase uc1) - sint (foldCase uc2)
         else compareUtf8_loop foldCase rest1 rest2)"
  by pat_completeness auto
termination
  by (relation "measure (\<lambda>(f, src1, src2). length src1)") (auto split: if_splits Decoded.splits dest: fromUtf8_shorter)

definition compareUtf8 :: "(32 word \<Rightarrow> 32 word) \<Rightarrow> bool \<Rightarrow> 8 word list \<Rightarrow> 16 word list \<Rightarrow> int" where
  "compareUtf8 toCaseFolded caseInsensitive utf8 utf16 =
     compareUtf8_loop (if caseInsensitive then toCaseFolded else (\<lambda>uc. uc)) utf8 utf16"

end
