(* ===== verification/Utf8Char.thy ===== *)
theory Utf8Char
  imports Utf8Codec
begin

text \<open>
  The encoding forms of the Unicode standard on numbers, and that the code implements them: every
  scalar value is encoded as it says, only its encodings are decoded, and a sequence that is cut off
  is reported as such.
\<close>

section \<open>Words and numbers\<close>

lemma unat_bounds: "unat (b :: 8 word) < 256" "unat (u :: 16 word) < 65536" "unat (c :: 32 word) < 4294967296"
  by (rule order.strict_trans2 [OF unsigned_less], simp)+

lemma unat_mask: "unat (w AND mask n) = unat w mod 2 ^ n"
proof -
  have "unat (w AND mask n) = take_bit n (unat w)" by (simp only: take_bit_eq_mask [symmetric] unsigned_take_bit_eq)
  then show ?thesis by (simp add: take_bit_eq_mod)
qed

lemma unat_and_numerals [simp]:
  fixes b :: "8 word" and u :: "16 word"
  shows "unat (b AND 0x3f) = unat b mod 64" "unat (b AND 0x1f) = unat b mod 32" "unat (b AND 0xf) = unat b mod 16"
    "unat (b AND 0x7) = unat b mod 8" "unat (u AND 0x3f) = unat u mod 64"
  using unat_mask [of b 6] unat_mask [of b 5] unat_mask [of b 4] unat_mask [of b 3] unat_mask [of u 6]
  by (simp_all add: mask_eq_exp_minus_1)

lemma nat_or_add: "2 ^ n dvd a \<Longrightarrow> w < 2 ^ n \<Longrightarrow> a OR w = a + (w :: nat)"
proof -
  assume a: "2 ^ n dvd a" and w: "w < 2 ^ n"
  have "a AND w = 0"
  proof (rule bit_eqI)
    fix m
    have "\<not> bit w m" if "n \<le> m"
    proof -
      have "(2 :: nat) ^ n \<le> 2 ^ m" using that by (simp add: power_increasing)
      then have "w div 2 ^ m = 0" using w by (intro div_less) linarith
      then show ?thesis by (simp add: bit_nat_def)
    qed
    moreover have "\<not> bit a m" if "m < n"
    proof -
      obtain k where k: "a = 2 ^ n * k" using a by (auto elim: dvdE)
      have "(2 :: nat) ^ n = 2 ^ m * 2 ^ (n - m)" using that by (simp flip: power_add)
      then have "a div 2 ^ m = 2 ^ (n - m) * k" using k by simp
      then show ?thesis using that by (simp add: bit_nat_def)
    qed
    ultimately show "bit (a AND w) m = bit 0 m" by (cases "n \<le> m") (auto simp: bit_and_iff)
  qed
  then show ?thesis by (simp add: disjunctive_add_eq_or)
qed

lemma unat_or_add:
  fixes a w :: "'a :: len word"
  assumes "2 ^ n dvd unat a" "unat w < 2 ^ n"
  shows "unat (a OR w) = unat a + unat w"
  by (simp only: unsigned_or_eq nat_or_add [OF assms])

lemma or_marks:
  fixes b :: "8 word" and u :: "16 word"
  shows "unat b < 64 \<Longrightarrow> unat (0x80 OR b) = 128 + unat b" "unat b < 32 \<Longrightarrow> unat (0xc0 OR b) = 192 + unat b"
    "unat b < 16 \<Longrightarrow> unat (0xe0 OR b) = 224 + unat b" "unat b < 16 \<Longrightarrow> unat (0xf0 OR b) = 240 + unat b"
    "unat u < 64 \<Longrightarrow> unat (0x80 OR u) = 128 + unat u"
  using unat_or_add [of 6 "0x80 :: 8 word" b] unat_or_add [of 5 "0xc0 :: 8 word" b] unat_or_add [of 4 "0xe0 :: 8 word" b]
    unat_or_add [of 4 "0xf0 :: 8 word" b] unat_or_add [of 6 "0x80 :: 16 word" u]
  by (simp_all add: dvd_def)

lemma unat_narrow:
  fixes u :: "16 word" and c :: "32 word" and b :: "8 word"
  shows "unat (ucast u :: 8 word) = unat u mod 256" "unat (ucast c :: 8 word) = unat c mod 256" "unat (ucast c :: 16 word) = unat c mod 65536"
    "unat (ucast b :: 32 word) = unat b" "unat (ucast u :: 32 word) = unat u"
  using unat_bounds(1) [of b] unat_bounds(2) [of u]
  by (simp_all add: unsigned_ucast_eq take_bit_eq_mod)

lemma unat_shift [simp]: "unat (drop_bit n w) = unat w div 2 ^ n"
proof -
  have "unat (drop_bit n w) = drop_bit n (unat w)" by (rule unat_drop_bit_eq)
  then show ?thesis by (simp add: drop_bit_eq_div)
qed

section \<open>The encoding forms\<close>

definition scalar :: "nat \<Rightarrow> bool" where
  "scalar c \<longleftrightarrow> c < 0xd800 \<or> 0xe000 \<le> c \<and> c \<le> 0x10ffff"

definition utf8_form :: "nat \<Rightarrow> nat list" where
  "utf8_form c =
     (if c < 0x80 then [c]
      else if c < 0x800 then [192 + c div 64, 128 + c mod 64]
      else if c < 0x10000 then [224 + c div 4096, 128 + c div 64 mod 64, 128 + c mod 64]
      else [240 + c div 262144, 128 + c div 4096 mod 64, 128 + c div 64 mod 64, 128 + c mod 64])"

definition utf16_form :: "nat \<Rightarrow> nat list" where
  "utf16_form c = (if c < 0x10000 then [c] else [0xd800 + (c - 0x10000) div 1024, 0xdc00 + c mod 1024])"

definition utf8_bytes :: "nat \<Rightarrow> 8 word list" where "utf8_bytes c = map of_nat (utf8_form c)"

definition utf16_units :: "nat \<Rightarrow> 16 word list" where "utf16_units c = map of_nat (utf16_form c)"

lemma forms_nonempty [simp]: "utf8_form c \<noteq> []" "utf16_form c \<noteq> []" "utf8_bytes c \<noteq> []" "utf16_units c \<noteq> []"
  by (simp_all add: utf8_form_def utf16_form_def utf8_bytes_def utf16_units_def)

lemma div_block: "0 < m \<Longrightarrow> x div m * m = k * m \<longleftrightarrow> k * m \<le> x \<and> x < k * m + m" for x k m :: nat
proof -
  assume m: "0 < m"
  have "x div m * m \<le> x" "x < x div m * m + m" using m dividend_less_div_times [of m x] by (simp_all add: add.commute)
  moreover have "x div m = k" if "k * m \<le> x" "x < k * m + m"
    using that m by (intro div_nat_eqI) (simp_all add: mult.commute)
  ultimately show ?thesis by auto
qed

lemma isSurrogate_value: "isSurrogate c \<longleftrightarrow> 0xd800 \<le> unat c \<and> unat c < 0xe000"
  unfolding isSurrogate_def word_less_nat_alt unat_sub_if' using unat_bounds(3) [of c] by auto

lemma surrogate_tests:
  fixes u :: "16 word"
  shows "isSurrogate (ucast u) \<longleftrightarrow> 0xd800 \<le> unat u \<and> unat u < 0xe000"
    "isHighSurrogate (ucast u) \<longleftrightarrow> 0xd800 \<le> unat u \<and> unat u < 0xdc00" "isLowSurrogate (ucast u) \<longleftrightarrow> 0xdc00 \<le> unat u \<and> unat u < 0xe000"
proof -
  have and_high: "unat (w AND 0xfffffc00) = unat w div 1024 * 1024" for w :: "32 word"
  proof -
    have m: "(0xfffffc00 :: 32 word) = NOT (mask 10)" by (simp add: mask_eq_exp_minus_1)
    have "w AND 0xfffffc00 = push_bit 10 (drop_bit 10 w)"
      unfolding m by (rule bit_word_eqI) (auto simp: bit_and_iff bit_not_iff bit_mask_iff bit_push_bit_iff bit_drop_bit_eq)
    moreover have "unat w div 1024 * 1024 < 2 ^ 32" using unat_bounds(3) [of w] by simp
    moreover have "unat (push_bit 10 (drop_bit 10 w)) = take_bit LENGTH(32) (push_bit 10 (unat (drop_bit 10 w)))" by (rule unsigned_push_bit_eq)
    moreover have "take_bit LENGTH(32) (push_bit 10 (unat (drop_bit 10 w))) = unat w div 1024 * 1024 mod 2 ^ 32"
      by (simp add: push_bit_eq_mult take_bit_eq_mod)
    ultimately show ?thesis by (simp only: mod_less)
  qed
  have eq: "w AND 0xfffffc00 = k \<longleftrightarrow> unat w div 1024 * 1024 = unat k" for w k :: "32 word"
    unfolding word_unat_eq_iff and_high ..
  show "isHighSurrogate (ucast u) \<longleftrightarrow> 0xd800 \<le> unat u \<and> unat u < 0xdc00" "isLowSurrogate (ucast u) \<longleftrightarrow> 0xdc00 \<le> unat u \<and> unat u < 0xe000"
    unfolding isHighSurrogate_def isLowSurrogate_def eq unat_narrow
    using div_block [of 1024 "unat u" 54] div_block [of 1024 "unat u" 55] by simp_all
  show "isSurrogate (ucast u) \<longleftrightarrow> 0xd800 \<le> unat u \<and> unat u < 0xe000" by (simp add: isSurrogate_value unat_narrow)
qed

lemma unat_surrogateToUcs4:
  assumes "0xd800 \<le> unat u" "unat u < 0xdc00" "0xdc00 \<le> unat low" "unat low < 0xe000"
  shows "unat (surrogateToUcs4 u low) = 0x10000 + (unat u - 0xd800) * 1024 + (unat low - 0xdc00)"
proof -
  have "unat (push_bit 10 (ucast u) :: 32 word) = take_bit LENGTH(32) (push_bit 10 (unat (ucast u :: 32 word)))" by (rule unsigned_push_bit_eq)
  then have p: "unat (push_bit 10 (ucast u) :: 32 word) = unat u * 1024"
    using unat_bounds(2) [of u] by (simp add: push_bit_eq_mult [where 'a = nat] take_bit_eq_mod [where 'a = nat] unat_narrow)
  have s: "unat (push_bit 10 (ucast u) + ucast low :: 32 word) = unat u * 1024 + unat low"
    using unat_bounds(2) [of u] unat_bounds(2) [of low] by (simp add: unat_word_ariths p unat_narrow)
  show ?thesis unfolding surrogateToUcs4_def unat_sub_if' s using assms by simp
qed

lemma unat_surrogates:
  assumes "0x10000 \<le> unat c" "unat c \<le> 0x10ffff"
  shows "unat (highSurrogate c) = 0xd800 + (unat c - 0x10000) div 1024" "unat (lowSurrogate c) = 0xdc00 + unat c mod 1024"
proof -
  have "unat (drop_bit 10 c + 0xd7c0) = unat c div 1024 + 0xd7c0" using assms(2) by (simp add: unat_word_ariths)
  moreover have "(unat c - 0x10000) div 1024 = unat c div 1024 - 64" by simp
  moreover have "64 \<le> unat c div 1024" "unat c div 1024 < 1088" using assms by simp_all
  ultimately show "unat (highSurrogate c) = 0xd800 + (unat c - 0x10000) div 1024" by (simp add: highSurrogate_def unat_narrow)
  have "unat c mod 1024 < 1024" by simp
  then have "unat (c mod 0x400 + 0xdc00) = unat c mod 1024 + 0xdc00" by (simp add: unat_word_ariths unat_mod_distrib)
  then show "unat (lowSurrogate c) = 0xdc00 + unat c mod 1024" by (simp add: lowSurrogate_def unat_narrow)
qed

lemma appendUtf16_form: "unat uc \<le> 0x10ffff \<Longrightarrow> appendUtf16 uc = utf16_units (unat uc)"
  unfolding appendUtf16_def utf16_units_def utf16_form_def requiresSurrogates_def
  by (auto simp: word_le_nat_alt word_unat_eq_iff unat_surrogates unat_of_nat unat_narrow simp del: of_nat_add)

section \<open>Encoding one character\<close>

lemma bytes_eqI: "map unat bs = utf8_form c \<Longrightarrow> bs = utf8_bytes c"
proof -
  assume "map unat bs = utf8_form c"
  then have "utf8_bytes c = map of_nat (map unat bs)" by (simp add: utf8_bytes_def)
  then show ?thesis by (simp add: comp_def map_idI)
qed

lemma toUtf8_bmp:
  assumes "scalar (unat u)"
  shows "toUtf8 u src = Encoded (utf8_bytes (unat u)) src"
proof -
  have b: "unat u < 65536" by (rule unat_bounds)
  have n: "\<not> isSurrogate (ucast u)" using assms by (auto simp: surrogate_tests scalar_def)
  consider "unat u < 128" | "128 \<le> unat u" "unat u < 2048" | "2048 \<le> unat u" by linarith
  then show ?thesis
  proof cases
    case 1
    then have "[ucast u] = utf8_bytes (unat u)" by (intro bytes_eqI) (simp add: utf8_form_def unat_narrow)
    then show ?thesis using 1 by (simp add: toUtf8_def word_less_nat_alt)
  next
    case 2
    then have "unat u div 64 < 32" by simp
    then have "[0xc0 OR ucast (drop_bit 6 u), ucast (0x80 OR (u AND 0x3f))] = utf8_bytes (unat u)"
      using 2 by (intro bytes_eqI) (simp add: utf8_form_def or_marks unat_narrow)
    then show ?thesis using 2 by (simp add: toUtf8_def word_less_nat_alt)
  next
    case 3
    then have "unat u div 4096 < 16" using b by simp
    then have "[0xe0 OR ucast (drop_bit 12 u), 0x80 OR (ucast (drop_bit 6 u) AND 0x3f), ucast (0x80 OR (u AND 0x3f))] = utf8_bytes (unat u)"
      using 3 b by (intro bytes_eqI) (simp add: utf8_form_def or_marks unat_narrow mod_mod_cancel)
    then show ?thesis using 3 n by (simp add: toUtf8_def word_less_nat_alt)
  qed
qed

lemma toUtf8_pair:
  assumes "0xd800 \<le> unat u" "unat u < 0xdc00" "0xdc00 \<le> unat low" "unat low < 0xe000"
  shows "toUtf8 u (low # src) = Encoded (utf8_bytes (0x10000 + (unat u - 0xd800) * 1024 + (unat low - 0xdc00))) src"
proof -
  define c where "c = 0x10000 + (unat u - 0xd800) * 1024 + (unat low - 0xdc00)"
  define ucs4 where "ucs4 = surrogateToUcs4 u low"
  define v where "v = (ucast ucs4 :: 16 word)"
  have c: "unat ucs4 = c" "0x10000 \<le> c" "c < 0x110000"
    using unat_surrogateToUcs4 [OF assms] assms by (simp_all add: ucs4_def c_def)
  have v: "unat v = c mod 65536" by (simp add: v_def unat_narrow c)
  have "c div 262144 < 16" using c(3) by simp
  moreover have "c mod 65536 div 64 mod 64 = c div 64 mod 64" "c mod 65536 mod 64 = c mod 64"
    using mod_mult2_eq [of c 64 1024] by (simp_all add: mod_mod_cancel)
  ultimately have "[0xf0 OR (ucast (drop_bit 18 ucs4) AND 0xf), 0x80 OR (ucast (drop_bit 12 ucs4) AND 0x3f),
      0x80 OR (ucast (drop_bit 6 v) AND 0x3f), ucast (0x80 OR (v AND 0x3f))] = utf8_bytes c"
    using c(2,3) v by (intro bytes_eqI) (simp add: utf8_form_def or_marks unat_narrow c(1) mod_mod_cancel)
  moreover have "\<not> u < 0x80" "\<not> u < 0x800" using assms by (simp_all add: word_less_nat_alt)
  ultimately show ?thesis
    using assms by (simp add: toUtf8_def surrogate_tests Let_def ucs4_def [symmetric] v_def [symmetric] c_def [symmetric])
qed

text \<open>What is not the start of a scalar value.\<close>

lemma toUtf8_lone:
  assumes "0xd800 \<le> unat u" "unat u < 0xe000"
  shows "toUtf8 u src = (if src = [] then EncodeEndOfString
    else if unat u < 0xdc00 \<and> 0xdc00 \<le> unat (hd src) \<and> unat (hd src) < 0xe000
    then Encoded (utf8_bytes (0x10000 + (unat u - 0xd800) * 1024 + (unat (hd src) - 0xdc00))) (tl src) else EncodeError)"
proof (cases "src \<noteq> [] \<and> unat u < 0xdc00 \<and> 0xdc00 \<le> unat (hd src) \<and> unat (hd src) < 0xe000")
  case True
  then show ?thesis using toUtf8_pair [of u "hd src" "tl src"] assms by (cases src) simp_all
next
  case False
  have "\<not> u < 0x80" "\<not> u < 0x800" using assms by (simp_all add: word_less_nat_alt)
  then show ?thesis using False assms by (cases src) (auto simp: toUtf8_def surrogate_tests Let_def)
qed

section \<open>Decoding one character\<close>

definition is_cont :: "8 word \<Rightarrow> bool" where "is_cont b \<longleftrightarrow> 128 \<le> unat b \<and> unat b < 192"

lemma continuation_range: "isContinuationByte b \<longleftrightarrow> is_cont b"
proof -
  have m: "(0xc0 :: 8 word) = NOT (mask 6)" by (simp add: mask_eq_exp_minus_1)
  have "b AND 0xc0 = push_bit 6 (drop_bit 6 b)"
    unfolding m by (rule bit_word_eqI) (auto simp: bit_and_iff bit_not_iff bit_mask_iff bit_push_bit_iff bit_drop_bit_eq)
  moreover have "unat b div 64 * 64 < 2 ^ 8" using unat_bounds(1) [of b] by simp
  moreover have "unat (push_bit 6 (drop_bit 6 b)) = take_bit LENGTH(8) (push_bit 6 (unat (drop_bit 6 b)))" by (rule unsigned_push_bit_eq)
  moreover have "take_bit LENGTH(8) (push_bit 6 (unat (drop_bit 6 b))) = unat b div 64 * 64 mod 2 ^ 8"
    by (simp add: push_bit_eq_mult take_bit_eq_mod)
  ultimately have "unat (b AND 0xc0) = unat b div 64 * 64" by (simp only: mod_less)
  then show ?thesis unfolding isContinuationByte_def is_cont_def word_unat_eq_iff using div_block [of 64 "unat b" 2] by simp
qed

lemma accumulate:
  fixes uc :: "32 word" and b :: "8 word"
  assumes "unat uc < 2 ^ 20"
  shows "unat (push_bit 6 uc OR (ucast b AND 0x3f)) = unat uc * 64 + unat b mod 64"
proof -
  have m: "(0x3f :: 32 word) = mask 6" by (simp add: mask_eq_exp_minus_1)
  have b: "unat (ucast b AND 0x3f :: 32 word) = unat b mod 64" unfolding m unat_mask by (simp add: unat_narrow)
  have "unat (push_bit 6 uc) = take_bit LENGTH(32) (push_bit 6 (unat uc))" by (rule unsigned_push_bit_eq)
  moreover have "take_bit LENGTH(32) (push_bit 6 (unat uc)) = unat uc * 64" using assms by (simp add: push_bit_eq_mult take_bit_eq_mod)
  ultimately have p: "unat (push_bit 6 uc) = unat uc * 64" by (simp only:)
  have "2 ^ 6 dvd unat (push_bit 6 uc)" "unat (ucast b AND 0x3f :: 32 word) < 2 ^ 6" unfolding p b by simp_all
  from unat_or_add [OF this] show ?thesis unfolding p b .
qed

fun cont_value :: "nat \<Rightarrow> nat \<Rightarrow> 8 word list \<Rightarrow> nat" where
  "cont_value 0 v bs = v"
| "cont_value (Suc n) v [] = v"
| "cont_value (Suc n) v (b # bs) = cont_value n (v * 64 + unat b mod 64) bs"

lemma cont_values [simp]:
  "cont_value 2 v (b # b' # bs) = (v * 64 + unat b mod 64) * 64 + unat b' mod 64"
  "cont_value 3 v (b # b' # b'' # bs) = ((v * 64 + unat b mod 64) * 64 + unat b' mod 64) * 64 + unat b'' mod 64"
  by (simp_all add: numeral_2_eq_2 numeral_3_eq_3)

lemma continuationBytes_value:
  "n \<le> length src \<Longrightarrow> unat uc < 2 ^ (26 - 6 * n) \<Longrightarrow> n \<le> 3 \<Longrightarrow>
    (case continuationBytes n src uc of None \<Rightarrow> \<not> list_all is_cont (take n src)
     | Some v \<Rightarrow> list_all is_cont (take n src) \<and> unat v = cont_value n (unat uc) src)"
proof (induction n src uc rule: continuationBytes.induct)
  case (3 n b src uc)
  have "(2 :: nat) ^ (26 - 6 * Suc n) \<le> 2 ^ 20" by (intro power_increasing) auto
  then have "unat uc < 2 ^ 20" using 3(3) by linarith
  note acc = accumulate [OF this, of b]
  have e: "26 - 6 * n = Suc (Suc (Suc (Suc (Suc (Suc (26 - 6 * Suc n))))))" using 3(4) by simp
  have "unat uc * 64 + unat b mod 64 < 2 ^ (26 - 6 * n)"
  proof -
    have "unat uc + 1 \<le> 2 ^ (26 - 6 * Suc n)" using 3(3) by simp
    then have "(unat uc + 1) * 64 \<le> 2 ^ (26 - 6 * Suc n) * 64" by (rule mult_le_mono1)
    moreover have "unat b mod 64 < 64" by simp
    ultimately show ?thesis unfolding e by (simp add: algebra_simps)
  qed
  then show ?case using 3(1,2,4) by (auto simp: continuation_range acc split: option.splits)
qed auto

lemma decodeRest_value:
  assumes "n \<in> {2, 3, 4}" "unat uc < 2 ^ (32 - 6 * n)"
  shows "decodeRest n min_uc uc src =
    (if length src < n - 1 then if list_all is_cont src then DecodeEndOfString else DecodeError
     else let v = cont_value (n - 1) (unat uc) src
          in if list_all is_cont (take (n - 1) src) \<and> unat min_uc \<le> v \<and> scalar v then Decoded n (of_nat v) (drop (n - 1) src)
             else DecodeError)"
proof (cases "length src < n - 1")
  case True
  then have l: "length src \<le> 2" using assms(1) by auto
  have "(length src > 0 \<and> \<not> isContinuationByte (src ! 0) \<or> length src > 1 \<and> \<not> isContinuationByte (src ! 1)) = (\<not> list_all is_cont src)"
    using l by (cases src; cases "tl src") (auto simp: continuation_range)
  then show ?thesis using True by (auto simp: decodeRest_def)
next
  case False
  have e: "26 - 6 * (n - 1) = 32 - 6 * n" using assms(1) by auto
  have "n - 1 \<le> length src" "n - 1 \<le> 3" using False assms(1) by auto
  from continuationBytes_value [OF this(1) _ this(2), of uc] assms(2) e
  have c: "case continuationBytes (n - 1) src uc of None \<Rightarrow> \<not> list_all is_cont (take (n - 1) src)
     | Some v \<Rightarrow> list_all is_cont (take (n - 1) src) \<and> unat v = cont_value (n - 1) (unat uc) src" by simp
  show ?thesis
  proof (cases "continuationBytes (n - 1) src uc")
    case None
    then show ?thesis using False c by (simp add: decodeRest_def Let_def)
  next
    case (Some v)
    then have v: "list_all is_cont (take (n - 1) src)" "unat v = cont_value (n - 1) (unat uc) src" using c by auto
    have s: "isSurrogate v \<or> v > LastValidCodePoint \<longleftrightarrow> \<not> scalar (unat v)"
      unfolding isSurrogate_value scalar_def LastValidCodePoint_def word_less_nat_alt by auto
    have "v = of_nat (unat v)" by simp
    then show ?thesis using False Some v s
      by (auto simp: decodeRest_def Let_def word_less_nat_alt not_less simp flip: v(2))
  qed
qed

lemma lead_byte:
  fixes b :: "8 word"
  shows "unat (ucast (b AND 0x1f) :: 32 word) = unat b mod 32" "unat (ucast (b AND 0xf) :: 32 word) = unat b mod 16"
    "unat (ucast (b AND 0x7) :: 32 word) = unat b mod 8"
  by (simp_all add: unat_narrow)

definition sequence_length :: "8 word \<Rightarrow> nat" where
  "sequence_length b = (if unat b < 128 then 1 else if unat b < 0xe0 then 2 else if unat b < 0xf0 then 3 else 4)"

lemma fromUtf8_value:
  "fromUtf8 b src =
    (if unat b < 128 then Decoded 1 (of_nat (unat b)) src
     else if unat b \<le> 0xc1 \<or> 0xf5 \<le> unat b then DecodeError
     else let n = sequence_length b; v = cont_value (n - 1) (unat b mod 2 ^ (7 - n)) src
          in if length src < n - 1 then if list_all is_cont src then DecodeEndOfString else DecodeError
             else if list_all is_cont (take (n - 1) src) \<and> (if n = 2 then 0x80 else if n = 3 then 0x800 else 0x10000) \<le> v \<and> scalar v
             then Decoded n (of_nat v) (drop (n - 1) src) else DecodeError)"
proof -
  have "unat b mod 32 < 2 ^ 20" "unat b mod 16 < 2 ^ 14" "unat b mod 8 < 2 ^ 8" by (simp_all add: order.strict_trans [OF mod_less_divisor])
  then have "decodeRest 2 0x80 (ucast (b AND 0x1f)) src = (if length src < 2 - 1 then if list_all is_cont src then DecodeEndOfString else DecodeError
     else let v = cont_value (2 - 1) (unat b mod 32) src
          in if list_all is_cont (take (2 - 1) src) \<and> 0x80 \<le> v \<and> scalar v then Decoded 2 (of_nat v) (drop (2 - 1) src) else DecodeError)"
    "decodeRest 3 0x800 (ucast (b AND 0xf)) src = (if length src < 3 - 1 then if list_all is_cont src then DecodeEndOfString else DecodeError
     else let v = cont_value (3 - 1) (unat b mod 16) src
          in if list_all is_cont (take (3 - 1) src) \<and> 0x800 \<le> v \<and> scalar v then Decoded 3 (of_nat v) (drop (3 - 1) src) else DecodeError)"
    "decodeRest 4 0x10000 (ucast (b AND 0x7)) src = (if length src < 4 - 1 then if list_all is_cont src then DecodeEndOfString else DecodeError
     else let v = cont_value (4 - 1) (unat b mod 8) src
          in if list_all is_cont (take (4 - 1) src) \<and> 0x10000 \<le> v \<and> scalar v then Decoded 4 (of_nat v) (drop (4 - 1) src) else DecodeError)"
    by (subst decodeRest_value; simp add: lead_byte)+
  note d = this
  consider "unat b < 128" | "128 \<le> unat b" "unat b \<le> 0xc1" | "0xc1 < unat b" "unat b < 0xe0" | "0xe0 \<le> unat b" "unat b < 0xf0"
    | "0xf0 \<le> unat b" "unat b < 0xf5" | "0xf5 \<le> unat b" by linarith
  then show ?thesis
  proof cases
    case 1 then show ?thesis by (simp add: fromUtf8_def word_less_nat_alt word_unat_eq_iff unat_narrow unat_of_nat)
  next
    case 2 then show ?thesis by (simp add: fromUtf8_def word_less_nat_alt word_le_nat_alt)
  next
    case 3 then show ?thesis by (simp add: fromUtf8_def word_less_nat_alt word_le_nat_alt d(1) sequence_length_def Let_def)
  next
    case 4 then show ?thesis by (simp add: fromUtf8_def word_less_nat_alt word_le_nat_alt d(2) sequence_length_def Let_def)
  next
    case 5 then show ?thesis by (simp add: fromUtf8_def word_less_nat_alt word_le_nat_alt d(3) sequence_length_def Let_def)
  next
    case 6 then show ?thesis by (simp add: fromUtf8_def word_less_nat_alt word_le_nat_alt)
  qed
qed

section \<open>The code and the standard\<close>

lemma byte_value: "k < 256 \<Longrightarrow> unat (of_nat k :: 8 word) = k"
  by (simp add: unat_of_nat)

lemma cont_byte: "is_cont (of_nat (128 + k mod 64))" "unat (of_nat (128 + k mod 64) :: 8 word) mod 64 = k mod 64"
proof -
  have "k mod 64 < 64" by simp
  then have "unat (of_nat (128 + k mod 64) :: 8 word) = 128 + k mod 64" by (intro byte_value) linarith
  then show "is_cont (of_nat (128 + k mod 64))" "unat (of_nat (128 + k mod 64) :: 8 word) mod 64 = k mod 64"
    using mod_mult_self3 [of 2 64 "k mod 64"] by (simp_all only: is_cont_def) simp_all
qed

lemma utf8_bytes_cases:
  assumes "c \<le> 0x10ffff"
  obtains (one) "c < 128" "utf8_bytes c = [of_nat c]"
  | (two) "128 \<le> c" "c < 2048" "utf8_bytes c = [of_nat (192 + c div 64), of_nat (128 + c mod 64)]" "c div 64 < 32" "2 \<le> c div 64"
  | (three) "2048 \<le> c" "c < 65536" "utf8_bytes c = [of_nat (224 + c div 4096), of_nat (128 + c div 64 mod 64), of_nat (128 + c mod 64)]"
      "c div 4096 < 16"
  | (four) "65536 \<le> c" "utf8_bytes c = [of_nat (240 + c div 262144), of_nat (128 + c div 4096 mod 64), of_nat (128 + c div 64 mod 64), of_nat (128 + c mod 64)]"
      "c div 262144 < 5"
proof -
  consider "c < 128" | "128 \<le> c" "c < 2048" | "2048 \<le> c" "c < 65536" | "65536 \<le> c" by linarith
  then show ?thesis
  proof cases
    case 1
    then have "utf8_bytes c = [of_nat c]" by (simp add: utf8_bytes_def utf8_form_def)
    then show ?thesis using 1 one by blast
  next
    case 2
    then have "utf8_bytes c = [of_nat (192 + c div 64), of_nat (128 + c mod 64)]" by (simp add: utf8_bytes_def utf8_form_def del: of_nat_add)
    moreover have "c div 64 < 32" "2 \<le> c div 64" using 2 by simp_all
    ultimately show ?thesis using 2 two by blast
  next
    case 3
    then have "utf8_bytes c = [of_nat (224 + c div 4096), of_nat (128 + c div 64 mod 64), of_nat (128 + c mod 64)]"
      by (simp add: utf8_bytes_def utf8_form_def del: of_nat_add)
    moreover have "c div 4096 < 16" using 3 by simp
    ultimately show ?thesis using 3 three by blast
  next
    case 4
    then have "utf8_bytes c = [of_nat (240 + c div 262144), of_nat (128 + c div 4096 mod 64), of_nat (128 + c div 64 mod 64), of_nat (128 + c mod 64)]"
      by (simp add: utf8_bytes_def utf8_form_def del: of_nat_add)
    moreover have "c div 262144 < 5" using assms by simp
    ultimately show ?thesis using 4 four by blast
  qed
qed

lemma base64_digits:
  fixes c :: nat
  shows "c div 4096 * 64 + c div 64 mod 64 = c div 64" "c div 262144 * 64 + c div 4096 mod 64 = c div 4096" "c div 64 * 64 + c mod 64 = c"
proof -
  have "c div 64 div 64 * 64 + c div 64 mod 64 = c div 64" "c div 4096 div 64 * 64 + c div 4096 mod 64 = c div 4096" by (simp_all only: div_mult_mod_eq)
  then show "c div 4096 * 64 + c div 64 mod 64 = c div 64" "c div 262144 * 64 + c div 4096 mod 64 = c div 4096" "c div 64 * 64 + c mod 64 = c"
    by (simp_all add: div_mult2_eq [symmetric])
qed

lemma fromUtf8_complete:
  assumes "scalar c" "utf8_bytes c = b # bs"
  shows "fromUtf8 b (bs @ src) = Decoded (Suc (length bs)) (of_nat c) src"
proof -
  have "c \<le> 0x10ffff" using assms(1) by (auto simp: scalar_def)
  then show ?thesis
  proof (cases rule: utf8_bytes_cases)
    case one
    then show ?thesis using assms(2) by (auto simp: fromUtf8_value byte_value)
  next
    case two
    then have b: "b = of_nat (192 + c div 64)" "bs = [of_nat (128 + c mod 64)]" using assms(2) by simp_all
    have u: "unat b = 192 + c div 64" unfolding b using two by (intro byte_value) simp
    then have "unat b mod 32 = c div 64" "sequence_length b = 2" using two mod_mult_self3 [of 6 32 "c div 64"] by (simp_all add: sequence_length_def)
    then show ?thesis using two u assms(1) by (simp add: fromUtf8_value b(2) cont_byte base64_digits Let_def del: of_nat_add)
  next
    case three
    then have b: "b = of_nat (224 + c div 4096)" "bs = [of_nat (128 + c div 64 mod 64), of_nat (128 + c mod 64)]" using assms(2) by simp_all
    have u: "unat b = 224 + c div 4096" unfolding b using three by (intro byte_value) simp
    then have "unat b mod 16 = c div 4096" "sequence_length b = 3" using three mod_mult_self3 [of 14 16 "c div 4096"] by (simp_all add: sequence_length_def)
    then show ?thesis using three u assms(1) by (simp add: fromUtf8_value b(2) cont_byte base64_digits Let_def del: of_nat_add)
  next
    case four
    then have b: "b = of_nat (240 + c div 262144)" "bs = [of_nat (128 + c div 4096 mod 64), of_nat (128 + c div 64 mod 64), of_nat (128 + c mod 64)]"
      using assms(2) by simp_all
    have u: "unat b = 240 + c div 262144" unfolding b using four by (intro byte_value) simp
    then have "unat b mod 8 = c div 262144" "sequence_length b = 4" using four mod_mult_self3 [of 30 8 "c div 262144"] by (simp_all add: sequence_length_def)
    then show ?thesis using four u assms(1) by (simp add: fromUtf8_value b(2) cont_byte base64_digits Let_def del: of_nat_add)
  qed
qed

text \<open>A sequence that is cut off.\<close>

lemma append_front: "bs @ q = xs \<Longrightarrow> q \<noteq> [] \<Longrightarrow> list_all P xs \<Longrightarrow> length bs < length xs \<and> list_all P bs"
  by auto

lemma fromUtf8_cut:
  assumes "scalar c" "utf8_bytes c = b # bs @ q" "q \<noteq> []"
  shows "fromUtf8 b bs = DecodeEndOfString"
proof -
  have "c \<le> 0x10ffff" using assms(1) by (auto simp: scalar_def)
  then show ?thesis
  proof (cases rule: utf8_bytes_cases)
    case one
    then show ?thesis using assms(2,3) by auto
  next
    case two
    then have b: "b = of_nat (192 + c div 64)" "bs = []" using assms(2,3) by (auto simp: Cons_eq_append_conv append_eq_Cons_conv)
    have u: "unat b = 192 + c div 64" unfolding b using two by (intro byte_value) simp
    then have "sequence_length b = 2" using two by (simp add: sequence_length_def)
    then show ?thesis using two u by (simp add: fromUtf8_value b(2))
  next
    case three
    then have b: "b = of_nat (224 + c div 4096)" "length bs < 2" "list_all is_cont bs"
      using assms(2) append_front [of bs q "[of_nat (128 + c div 64 mod 64), of_nat (128 + c mod 64)]" is_cont, OF _ assms(3)]
      by (simp_all add: cont_byte del: of_nat_add)
    have u: "unat b = 224 + c div 4096" unfolding b using three by (intro byte_value) simp
    then have "sequence_length b = 3" using three by (simp add: sequence_length_def)
    then show ?thesis using three u b by (simp add: fromUtf8_value)
  next
    case four
    then have b: "b = of_nat (240 + c div 262144)" "length bs < 3" "list_all is_cont bs"
      using assms(2) append_front [of bs q "[of_nat (128 + c div 4096 mod 64), of_nat (128 + c div 64 mod 64), of_nat (128 + c mod 64)]" is_cont,
          OF _ assms(3)]
      by (simp_all add: cont_byte del: of_nat_add)
    have u: "unat b = 240 + c div 262144" unfolding b using four by (intro byte_value) simp
    then have "sequence_length b = 4" using four by (simp add: sequence_length_def)
    then show ?thesis using four u b by (simp add: fromUtf8_value)
  qed
qed

lemma cont_digit:
  assumes "is_cont s"
  obtains i where "unat s = 128 + i" "i < 64" "unat s mod 64 = i"
proof -
  have "unat s = 128 + (unat s - 128)" "unat s - 128 < 64" using assms by (auto simp: is_cont_def)
  moreover have "(2 * 64 + (unat s - 128)) mod 64 = (unat s - 128) mod 64" by (rule mod_mult_self3)
  ultimately show ?thesis using that by force
qed

lemma digit_mod: "j < 64 \<Longrightarrow> (a * 64 + j) mod 64 = j" for a j :: nat
  by simp

lemma base64_value:
  fixes h k i j :: nat
  assumes "k < 64" "i < 64" "j < 64"
  shows "(k * 64 + j) div 64 = k" "(k * 64 + j) mod 64 = j" "((k * 64 + i) * 64 + j) div 4096 = k" "((k * 64 + i) * 64 + j) div 64 = k * 64 + i"
    "((k * 64 + i) * 64 + j) mod 64 = j" "(((h * 64 + k) * 64 + i) * 64 + j) div 262144 = h"
    "(((h * 64 + k) * 64 + i) * 64 + j) div 4096 = h * 64 + k" "(((h * 64 + k) * 64 + i) * 64 + j) div 64 = (h * 64 + k) * 64 + i"
    "(((h * 64 + k) * 64 + i) * 64 + j) mod 64 = j"
proof -
  have e: "(4096 :: nat) = 64 * 64" "(262144 :: nat) = 64 * (64 * 64)" by simp_all
  have d: "(a * 64 + j) div 64 = a" "(a * 64 + j) mod 64 = j" "(a * 64 + i) div 64 = a" "(a * 64 + k) div 64 = a" for a using assms by simp_all
  show "(k * 64 + j) div 64 = k" "(k * 64 + j) mod 64 = j" "((k * 64 + i) * 64 + j) div 4096 = k" "((k * 64 + i) * 64 + j) div 64 = k * 64 + i"
    "((k * 64 + i) * 64 + j) mod 64 = j" "(((h * 64 + k) * 64 + i) * 64 + j) div 262144 = h"
    "(((h * 64 + k) * 64 + i) * 64 + j) div 4096 = h * 64 + k" "(((h * 64 + k) * 64 + i) * 64 + j) div 64 = (h * 64 + k) * 64 + i"
    "(((h * 64 + k) * 64 + i) * 64 + j) mod 64 = j"
    by (simp_all only: e div_mult2_eq d)
qed

lemma two_of: "1 \<le> length src \<Longrightarrow> \<exists>a r. src = a # r" "2 \<le> length src \<Longrightarrow> \<exists>a b r. src = a # b # r"
  "3 \<le> length src \<Longrightarrow> \<exists>a b c r. src = a # b # c # r"
  by (cases src; cases "tl src"; cases "tl (tl src)"; simp)+

lemma unat_code: "v \<le> 0x10ffff \<Longrightarrow> unat (of_nat v :: 32 word) = v"
  by (simp add: unat_of_nat)

lemma sound_two:
  assumes "0xc1 < unat b" "unat b < 0xe0" "fromUtf8 b src = Decoded n uc rest"
  shows "scalar (unat uc) \<and> b # src = utf8_bytes (unat uc) @ rest \<and> n = length (utf8_bytes (unat uc))"
proof -
  define v where "v = cont_value 1 (unat b mod 32) src"
  have s: "sequence_length b = 2" using assms by (simp add: sequence_length_def)
  have r: "1 \<le> length src" "list_all is_cont (take 1 src)" "0x80 \<le> v" "scalar v" "n = 2" "uc = of_nat v" "rest = drop 1 src"
    using assms(3) unfolding fromUtf8_value v_def using assms(1,2) by (auto simp: s Let_def Suc_le_eq split: if_splits)
  obtain a rs where src: "src = a # rs" using two_of(1) [OF r(1)] by blast
  obtain j where j: "unat a = 128 + j" "j < 64" "unat a mod 64 = j" using r(2) src by (auto elim: cont_digit)
  define k where "k = unat b - 192"
  have k: "unat b = 192 + k" "k < 32" using assms by (simp_all add: k_def)
  then have "unat b mod 32 = k" using mod_mult_self3 [of 6 32 k] by simp
  then have v: "v = k * 64 + j" using src j by (simp add: v_def)
  have "v \<le> 0x10ffff" "unat uc = v" using v k j r(6) by (simp_all add: unat_code del: of_nat_add)
  moreover have "[b, a] = utf8_bytes v"
    by (rule bytes_eqI) (use v k j r(3) base64_value(1,2) [of k 0 j] in \<open>simp add: utf8_form_def\<close>)
  ultimately show ?thesis using r src by (metis One_nat_def append_Cons append_Nil drop0 drop_Suc_Cons length_Cons list.size(3) numeral_2_eq_2)
qed

lemma sound_three:
  assumes "0xe0 \<le> unat b" "unat b < 0xf0" "fromUtf8 b src = Decoded n uc rest"
  shows "scalar (unat uc) \<and> b # src = utf8_bytes (unat uc) @ rest \<and> n = length (utf8_bytes (unat uc))"
proof -
  define v where "v = cont_value 2 (unat b mod 16) src"
  have s: "sequence_length b = 3" using assms by (simp add: sequence_length_def)
  have r: "2 \<le> length src" "list_all is_cont (take 2 src)" "0x800 \<le> v" "scalar v" "n = 3" "uc = of_nat v" "rest = drop 2 src"
    using assms(3) unfolding fromUtf8_value v_def using assms(1,2) by (auto simp: s Let_def split: if_splits)
  obtain a' a rs where src: "src = a' # a # rs" using two_of(2) [OF r(1)] by blast
  obtain j where j: "unat a = 128 + j" "j < 64" "unat a mod 64 = j" using r(2) src by (auto elim: cont_digit)
  obtain i where i: "unat a' = 128 + i" "i < 64" "unat a' mod 64 = i" using r(2) src by (auto elim: cont_digit)
  define k where "k = unat b - 224"
  have k: "unat b = 224 + k" "k < 16" using assms by (simp_all add: k_def)
  then have "unat b mod 16 = k" using mod_mult_self3 [of 14 16 k] by simp
  then have v: "v = (k * 64 + i) * 64 + j" using src i j by (simp add: v_def)
  have "v \<le> 0x10ffff" "unat uc = v" "v < 65536" using v k i j r(6) by (simp_all add: unat_code del: of_nat_add)
  moreover have "v div 4096 = k" "v div 64 mod 64 = i" "v mod 64 = j"
    using k(2) i(2) j(2) base64_value(3,4,5) [of k i j] base64_value(2) [of k 0 i] unfolding v by simp_all
  then have "[b, a', a] = utf8_bytes v"
    by (intro bytes_eqI) (use k i j r(3) \<open>v < 65536\<close> in \<open>simp add: utf8_form_def\<close>)
  ultimately show ?thesis using r src
    by (metis append_Cons append_Nil drop0 drop_Suc_Cons length_Cons list.size(3) numeral_2_eq_2 numeral_3_eq_3)
qed

lemma sound_four:
  assumes "0xf0 \<le> unat b" "unat b < 0xf5" "fromUtf8 b src = Decoded n uc rest"
  shows "scalar (unat uc) \<and> b # src = utf8_bytes (unat uc) @ rest \<and> n = length (utf8_bytes (unat uc))"
proof -
  define v where "v = cont_value 3 (unat b mod 8) src"
  have s: "sequence_length b = 4" using assms by (simp add: sequence_length_def)
  have r: "3 \<le> length src" "list_all is_cont (take 3 src)" "0x10000 \<le> v" "scalar v" "n = 4" "uc = of_nat v" "rest = drop 3 src"
    using assms(3) unfolding fromUtf8_value v_def using assms(1,2) by (auto simp: s Let_def split: if_splits)
  obtain a'' a' a rs where src: "src = a'' # a' # a # rs" using two_of(3) [OF r(1)] by blast
  obtain j where j: "unat a = 128 + j" "j < 64" "unat a mod 64 = j" using r(2) src by (auto elim: cont_digit)
  obtain i where i: "unat a' = 128 + i" "i < 64" "unat a' mod 64 = i" using r(2) src by (auto elim: cont_digit)
  obtain k where k: "unat a'' = 128 + k" "k < 64" "unat a'' mod 64 = k" using r(2) src by (auto elim: cont_digit)
  define h where "h = unat b - 240"
  have h: "unat b = 240 + h" "h < 8" using assms by (simp_all add: h_def)
  then have "unat b mod 8 = h" using mod_mult_self3 [of 30 8 h] by simp
  then have v: "v = ((h * 64 + k) * 64 + i) * 64 + j" using src i j k by (simp add: v_def)
  have "v \<le> 0x10ffff" using r(4) by (auto simp: scalar_def)
  then have "unat uc = v" using r(6) by (simp add: unat_code)
  moreover have "v div 262144 = h" "v div 4096 mod 64 = k" "v div 64 mod 64 = i" "v mod 64 = j"
    unfolding v base64_value(6-9) [OF k(2) i(2) j(2)] by (simp_all only: digit_mod k(2) i(2))
  then have "[b, a'', a', a] = utf8_bytes v"
    by (intro bytes_eqI) (use h k i j r(3) in \<open>simp add: utf8_form_def\<close>)
  ultimately show ?thesis using r src by (auto simp flip: \<open>[b, a'', a', a] = utf8_bytes v\<close>)
qed

lemma fromUtf8_sound:
  assumes "fromUtf8 b src = Decoded n uc rest"
  shows "scalar (unat uc) \<and> b # src = utf8_bytes (unat uc) @ rest \<and> n = length (utf8_bytes (unat uc))"
proof -
  consider "unat b < 128" | "128 \<le> unat b" "unat b \<le> 0xc1" | "0xc1 < unat b" "unat b < 0xe0" | "0xe0 \<le> unat b" "unat b < 0xf0"
    | "0xf0 \<le> unat b" "unat b < 0xf5" | "0xf5 \<le> unat b" by linarith
  then show ?thesis
  proof cases
    case 1
    then have "uc = of_nat (unat b)" "rest = src" "n = 1" using assms by (auto simp: fromUtf8_value)
    moreover have "[b] = utf8_bytes (unat b)" by (rule bytes_eqI) (use 1 in \<open>simp add: utf8_form_def\<close>)
    moreover have "unat (of_nat (unat b) :: 32 word) = unat b" using 1 by (intro unat_code) simp
    ultimately show ?thesis using 1 by (simp add: scalar_def flip: \<open>[b] = utf8_bytes (unat b)\<close>)
  next
    case 2 then show ?thesis using assms by (simp add: fromUtf8_value)
  next
    case 3 then show ?thesis by (rule sound_two [OF _ _ assms])
  next
    case 4 then show ?thesis by (rule sound_three [OF _ _ assms])
  next
    case 5 then show ?thesis by (rule sound_four [OF _ _ assms])
  next
    case 6 then show ?thesis using assms by (simp add: fromUtf8_value)
  qed
qed

lemma fromUtf8_EndOfString:
  "fromUtf8 b src = DecodeEndOfString \<Longrightarrow> length src < 3 \<and> length src + 1 < sequence_length b \<and> list_all is_cont src"
  by (auto simp: fromUtf8_value sequence_length_def Let_def split: if_splits)

end
