(* ===== verification/Utf8Text.thy ===== *)
theory Utf8Text
  imports Utf8Char
begin

text \<open>
  Texts: what the loops make of the encoding of a sequence of scalar values, of any UTF-16 with lone
  surrogates, and of a text that arrives in chunks.
\<close>

section \<open>Sequences of scalar values\<close>

definition utf8_text :: "nat list \<Rightarrow> 8 word list" where "utf8_text cs = concat (map utf8_bytes cs)"

definition utf16_text :: "nat list \<Rightarrow> 16 word list" where "utf16_text cs = concat (map utf16_units cs)"

lemma text_simps [simp]:
  "utf8_text [] = []" "utf8_text (c # cs) = utf8_bytes c @ utf8_text cs" "utf8_text (cs @ ds) = utf8_text cs @ utf8_text ds"
  "utf16_text [] = []" "utf16_text (c # cs) = utf16_units c @ utf16_text cs" "utf16_text (cs @ ds) = utf16_text cs @ utf16_text ds"
  by (simp_all add: utf8_text_def utf16_text_def)

lemma utf8_text_empty [simp]: "utf8_text cs = [] \<longleftrightarrow> cs = []"
  by (cases cs) simp_all

lemma utf8_length: "length (utf8_bytes c) \<le> 4" "1 \<le> length (utf8_bytes c)"
  by (simp_all add: utf8_bytes_def utf8_form_def)

lemma scalar_unat: "scalar c \<Longrightarrow> unat (of_nat c :: 32 word) = c"
  by (rule unat_code) (auto simp: scalar_def)

lemma append_scalar: "scalar c \<Longrightarrow> appendUtf16 (of_nat c) = utf16_units c"
  using appendUtf16_form [of "of_nat c"] by (simp add: scalar_unat) (auto simp: scalar_def)

lemma decode_scalar:
  assumes "scalar c" "utf8_bytes c @ rest = b # src"
  shows "fromUtf8 b src = Decoded (length (utf8_bytes c)) (of_nat c) rest"
proof -
  obtain bs where bs: "utf8_bytes c = b # bs" "src = bs @ rest" using assms(2) by (cases "utf8_bytes c") auto
  show ?thesis using fromUtf8_complete [OF assms(1) bs(1), of rest] bs by simp
qed

section \<open>The loops on well formed text\<close>

lemma toUnicodeLoop_text: "list_all scalar cs \<Longrightarrow> utf8_toUnicodeLoop (utf8_text cs) = utf16_text cs"
proof (induction cs)
  case (Cons c cs)
  obtain b src where b: "utf8_bytes c @ utf8_text cs = b # src" by (cases "utf8_bytes c") auto
  then show ?case using Cons decode_scalar [OF _ b] by (simp add: append_scalar)
qed simp

text \<open>One scalar value in UTF-16 for the encoder.\<close>

lemma unit_value: "k < 65536 \<Longrightarrow> unat (of_nat k :: 16 word) = k"
  by (simp add: unat_of_nat)

lemma encode_scalar:
  assumes "scalar c" "utf16_units c @ rest = u # src"
  shows "toUtf8 u src = Encoded (utf8_bytes c) rest"
proof (cases "c < 0x10000")
  case True
  then have u: "u = of_nat c" "src = rest" using assms(2) by (simp_all add: utf16_units_def utf16_form_def)
  then have "unat u = c" using True by (simp add: unit_value)
  then show ?thesis using toUtf8_bmp [of u src] assms(1) u(2) by simp
next
  case False
  let ?h = "0xd800 + (c - 0x10000) div 1024" and ?l = "0xdc00 + c mod 1024"
  have u: "u = of_nat ?h" "src = of_nat ?l # rest"
    using assms(2) False by (simp_all add: utf16_units_def utf16_form_def del: of_nat_add)
  have c: "c \<le> 0x10ffff" using assms(1) by (auto simp: scalar_def)
  have "(c - 0x10000) div 1024 < 1024" "c mod 1024 < 1024" using c by simp_all
  then have r: "unat u = ?h" "unat (of_nat ?l :: 16 word) = ?l" "?h < 0xdc00" "?l < 0xe000" unfolding u by (simp_all only: unit_value)
  have "(c - 0x10000) mod 1024 = c mod 1024" using mod_mult_self1 [of "c - 0x10000" 64 1024] False by simp
  then have "(c - 0x10000) div 1024 * 1024 + c mod 1024 = c - 0x10000" using div_mult_mod_eq [of "c - 0x10000" 1024] by simp
  then have "0x10000 + (c - 0x10000) div 1024 * 1024 + c mod 1024 = c" using False by linarith
  then show ?thesis using toUtf8_pair [of u "of_nat ?l" rest] r u by (simp del: of_nat_add)
qed

lemma fromUnicode_text: "list_all scalar cs \<Longrightarrow> utf8_fromUnicode (utf16_text cs) = utf8_text cs"
proof (induction cs)
  case (Cons c cs)
  obtain u src where u: "utf16_units c @ utf16_text cs = u # src" by (cases "utf16_units c") auto
  then show ?case using Cons encode_scalar [OF _ u] by simp
qed simp

text \<open>Only the byte order mark is encoded as its bytes.\<close>

lemma bom_bytes: "utf8_bytes 0xfeff = utf8bom" "utf16_units 0xfeff = [ByteOrderMark]"
  by (simp_all add: utf8_bytes_def utf8_form_def utf8bom_def utf16_units_def utf16_form_def ByteOrderMark_def)

lemma bom_text:
  assumes "list_all scalar cs"
  shows "(length (utf8_text cs) \<ge> 3 \<and> take 3 (utf8_text cs) = utf8bom) \<longleftrightarrow> (\<exists>ds. cs = 0xfeff # ds)"
proof
  assume a: "length (utf8_text cs) \<ge> 3 \<and> take 3 (utf8_text cs) = utf8bom"
  then obtain c ds where c: "cs = c # ds" by (cases cs) auto
  define t where "t = drop 3 (utf8_text cs)"
  have t: "utf8_text cs = utf8_bytes 0xfeff @ t" using a append_take_drop_id [of 3 "utf8_text cs"] by (simp add: t_def bom_bytes)
  obtain b src where b: "utf8_text cs = b # src" using c by (cases "utf8_text cs") auto
  have "fromUtf8 b src = Decoded (length (utf8_bytes c)) (of_nat c) (utf8_text ds)"
    using decode_scalar [of c "utf8_text ds" b src] assms b unfolding c by simp
  moreover have "scalar 0xfeff" by (simp add: scalar_def)
  then have "fromUtf8 b src = Decoded (length (utf8_bytes 0xfeff)) (of_nat 0xfeff) t" using decode_scalar [of "0xfeff" t b src] b t by simp
  ultimately have "(of_nat c :: 32 word) = of_nat 0xfeff" by simp
  then have "unat (of_nat c :: 32 word) = 0xfeff" by simp
  then show "\<exists>ds. cs = 0xfeff # ds" using c assms scalar_unat [of c] by auto
next
  assume "\<exists>ds. cs = 0xfeff # ds"
  then show "length (utf8_text cs) \<ge> 3 \<and> take 3 (utf8_text cs) = utf8bom" using bom_bytes(1) by (auto simp: utf8bom_def)
qed

definition without_bom :: "nat list \<Rightarrow> nat list" where
  "without_bom cs = (if cs \<noteq> [] \<and> hd cs = 0xfeff then tl cs else cs)"

lemma toUnicode_text: "list_all scalar cs \<Longrightarrow> utf8_toUnicode (utf8_text cs) = utf16_text (without_bom cs)"
proof -
  assume ok: "list_all scalar cs"
  show ?thesis
  proof (cases "\<exists>ds. cs = 0xfeff # ds")
    case True
    then obtain ds where ds: "cs = 0xfeff # ds" by blast
    have "drop 3 (utf8_text cs) = utf8_text ds" unfolding ds using bom_bytes(1) by (simp add: utf8bom_def)
    then show ?thesis using bom_text [OF ok] True ok toUnicodeLoop_text [of ds] ds by (simp add: utf8_toUnicode_def without_bom_def)
  next
    case False
    then have "without_bom cs = cs" by (cases cs) (auto simp: without_bom_def)
    moreover have "\<not> (length (utf8_text cs) \<ge> 3 \<and> take 3 (utf8_text cs) = utf8bom)" using bom_text [OF ok] False by blast
    ultimately show ?thesis using toUnicodeLoop_text [OF ok] by (simp only: utf8_toUnicode_def if_False)
  qed
qed

section \<open>Validation\<close>

lemma high_bit: "(b :: 8 word) AND 0x80 = 0 \<longleftrightarrow> unat b < 128"
proof -
  have m: "(0x80 :: 8 word) = NOT (mask 7)" by (simp add: mask_eq_exp_minus_1)
  have "b AND 0x80 = push_bit 7 (drop_bit 7 b)"
    unfolding m
  proof (rule bit_word_eqI)
    fix n assume "n < LENGTH(8)"
    then have "n < 7 \<or> n = 7" by auto
    then show "bit (b AND NOT (mask 7)) n = bit (push_bit 7 (drop_bit 7 b)) n"
      by (auto simp: bit_and_iff bit_not_iff bit_mask_iff bit_push_bit_iff bit_drop_bit_eq)
  qed
  moreover have "unat b div 128 * 128 < 2 ^ 8" using unat_bounds(1) [of b] by simp
  moreover have "unat (push_bit 7 (drop_bit 7 b)) = take_bit LENGTH(8) (push_bit 7 (unat (drop_bit 7 b)))" by (rule unsigned_push_bit_eq)
  moreover have "take_bit LENGTH(8) (push_bit 7 (unat (drop_bit 7 b))) = unat b div 128 * 128 mod 2 ^ 8"
    by (simp add: push_bit_eq_mult take_bit_eq_mod)
  ultimately have "unat (b AND 0x80) = unat b div 128 * 128" by (simp only: mod_less)
  then show ?thesis unfolding word_unat_eq_iff using div_block [of 128 "unat b" 0] by simp
qed

lemma isValidUtf8_sound: "fst (isValidUtf8_loop src a) \<Longrightarrow> \<exists>cs. list_all scalar cs \<and> src = utf8_text cs"
proof (induction src a rule: isValidUtf8_loop.induct)
  case (1 a)
  then show ?case by (intro exI [of _ "[]"]) simp
next
  case (2 b src a)
  show ?case
  proof (cases "b AND 0x80 = 0")
    case True
    then obtain cs where "list_all scalar cs" "src = utf8_text cs" using 2 by auto
    moreover have "[b] = utf8_bytes (unat b)" "scalar (unat b)" using True by (auto simp: high_bit utf8_form_def scalar_def intro!: bytes_eqI)
    ultimately show ?thesis by (intro exI [of _ "unat b # cs"]) (simp flip: \<open>[b] = utf8_bytes (unat b)\<close>)
  next
    case False
    then obtain n uc rest where d: "fromUtf8 b src = Decoded n uc rest" using 2(3) by (auto split: Decoded.splits)
    then have "fst (isValidUtf8_loop rest False)" using 2(3) False by simp
    then obtain cs where "list_all scalar cs" "rest = utf8_text cs" using 2(2) [OF False d] by blast
    then show ?thesis using fromUtf8_sound [OF d] by (intro exI [of _ "unat uc # cs"]) simp
  qed
qed

lemma ascii_scalar: "scalar c \<Longrightarrow> utf8_bytes c = b # bs \<Longrightarrow> unat b < 128 \<longleftrightarrow> c < 128"
  "scalar c \<Longrightarrow> c < 128 \<Longrightarrow> utf8_bytes c = [of_nat c]"
proof -
  show "scalar c \<Longrightarrow> utf8_bytes c = b # bs \<Longrightarrow> unat b < 128 \<longleftrightarrow> c < 128"
  proof -
    assume c: "scalar c" "utf8_bytes c = b # bs"
    have "c \<le> 0x10ffff" using c(1) by (auto simp: scalar_def)
    then show ?thesis by (cases rule: utf8_bytes_cases) (use c(2) in \<open>auto simp: byte_value simp del: of_nat_add\<close>)
  qed
  show "scalar c \<Longrightarrow> c < 128 \<Longrightarrow> utf8_bytes c = [of_nat c]" by (simp add: utf8_bytes_def utf8_form_def)
qed

lemma isValidUtf8_text:
  "list_all scalar cs \<Longrightarrow> isValidUtf8_loop (utf8_text cs) a = (True, a \<and> list_all (\<lambda>c. c < 128) cs)"
proof (induction cs arbitrary: a)
  case (Cons c cs)
  obtain b src where b: "utf8_bytes c @ utf8_text cs = b # src" by (cases "utf8_bytes c") auto
  obtain bs where bs: "utf8_bytes c = b # bs" using b by (cases "utf8_bytes c") auto
  note d = decode_scalar [OF _ b]
  show ?case
  proof (cases "c < 128")
    case True
    then show ?thesis using Cons b bs ascii_scalar [of c] by (simp add: high_bit)
  next
    case False
    then show ?thesis using Cons b d ascii_scalar(1) [OF _ bs] by (simp add: high_bit)
  qed
qed simp

end
