(* ===== verification/Utf8Chunks.thy ===== *)
theory Utf8Chunks
  imports Utf8Text
begin

text \<open>
  Text that arrives in chunks: what the decoder has written and kept after each, and what the encoder
  has, whatever the chunks cut apart.
\<close>

section \<open>The decoder on well formed text\<close>

text \<open>Bytes kept of a character the text goes on with.\<close>

definition cut_of :: "8 word list \<Rightarrow> nat list \<Rightarrow> bool" where
  "cut_of part cs \<longleftrightarrow> part = [] \<or> (\<exists>c ds q. cs = c # ds \<and> scalar c \<and> utf8_bytes c = part @ q \<and> q \<noteq> [])"

lemma cut_length: "cut_of part cs \<Longrightarrow> length part < 4"
proof -
  assume "cut_of part cs"
  then consider "part = []" | c q where "utf8_bytes c = part @ q" "q \<noteq> []" by (auto simp: cut_of_def)
  then show ?thesis
  proof cases
    case 2
    have "length (part @ q) \<le> 4" using utf8_length(1) [of c] 2(1) by simp
    then show ?thesis using 2(2) by (cases q) auto
  qed simp
qed

lemma split_text:
  "list_all scalar cs \<Longrightarrow> x @ y = utf8_text cs \<Longrightarrow> \<exists>ds es part. cs = ds @ es \<and> x = utf8_text ds @ part \<and> cut_of part es \<and> part @ y = utf8_text es"
proof (induction cs arbitrary: x)
  case Nil
  then show ?case by (intro exI [of _ "[]"]) (simp add: cut_of_def)
next
  case (Cons c cs)
  show ?case
  proof (cases "length x < length (utf8_bytes c)")
    case True
    have "x = take (length x) (utf8_bytes c)" using Cons.prems(2) True
      by (metis append_eq_conv_conj order_less_imp_le take_append take_all_iff diff_is_0_eq take0 append_Nil2 text_simps(2))
    then have "utf8_bytes c = x @ drop (length x) (utf8_bytes c)" by (metis append_take_drop_id)
    moreover have "drop (length x) (utf8_bytes c) \<noteq> []" using True by simp
    ultimately have "cut_of x (c # cs)" using Cons.prems(1) unfolding cut_of_def by force
    then show ?thesis using Cons.prems(2) by (intro exI [of _ "[]"] exI [of _ "c # cs"] exI [of _ x]) simp
  next
    case False
    then obtain z where z: "x = utf8_bytes c @ z" "z @ y = utf8_text cs"
      using Cons.prems(2) by (auto simp: append_eq_append_conv_if split: if_splits) (metis append_eq_conv_conj append_take_drop_id)
    have "list_all scalar cs" using Cons.prems(1) by simp
    from Cons.IH [OF this z(2)] obtain ds es part where "cs = ds @ es" "z = utf8_text ds @ part" "cut_of part es" "part @ y = utf8_text es" by blast
    then show ?thesis using z(1) by (intro exI [of _ "c # ds"] exI [of _ es] exI [of _ part]) simp
  qed
qed

definition kept :: "ConverterState \<Rightarrow> 8 word list \<Rightarrow> bool" where
  "kept st part \<longleftrightarrow> \<not> Stateless st \<and> remainingChars st = length part \<and> take (length part) (state_bytes st) = part"

lemma cut_end: "part \<noteq> [] \<Longrightarrow> cut_of part cs \<Longrightarrow> fromUtf8 (hd part) (tl part) = DecodeEndOfString"
  using fromUtf8_cut by (cases part) (auto simp: cut_of_def)

lemma decodeLoop_text:
  assumes "\<not> Stateless st" "list_all scalar cs" "cut_of part es"
  shows "\<exists>st'. utf8_decodeLoop (utf8_text cs @ part) st = (utf16_text cs, st') \<and> kept st' part \<and> HeaderDone st' = HeaderDone st
    \<and> ConvertInitialBom st' = ConvertInitialBom st \<and> invalidChars st' = invalidChars st"
  using assms(2)
proof (induction cs)
  case Nil
  show ?case
  proof (cases part)
    case Nil
    then show ?thesis using assms(1) by (simp add: kept_def)
  next
    case (Cons b src)
    then show ?thesis using assms(1) cut_end [OF _ assms(3)] by (simp add: kept_def)
  qed
next
  case (Cons c cs)
  obtain b src where b: "utf8_bytes c @ utf8_text cs @ part = b # src" by (cases "utf8_bytes c") auto
  have "fromUtf8 b src = Decoded (length (utf8_bytes c)) (of_nat c) (utf8_text cs @ part)"
    using decode_scalar [OF _ b] Cons.prems by simp
  then show ?case using Cons b by (auto simp: append_scalar)
qed

lemma last_bom:
  assumes "scalar c"
  shows "last (utf16_units c) = ByteOrderMark \<longleftrightarrow> c = 0xfeff"
proof (cases "c < 0x10000")
  case True
  then show ?thesis by (simp add: utf16_units_def utf16_form_def ByteOrderMark_def word_unat_eq_iff unit_value)
next
  case False
  have "c mod 1024 < 1024" by simp
  then have "unat (of_nat (0xdc00 + c mod 1024) :: 16 word) = 0xdc00 + c mod 1024" by (intro unit_value) linarith
  then show ?thesis using False by (simp add: utf16_units_def utf16_form_def ByteOrderMark_def word_unat_eq_iff del: of_nat_add)
qed

definition headerdone :: "ConverterState \<Rightarrow> bool" where
  "headerdone st \<longleftrightarrow> HeaderDone st \<or> ConvertInitialBom st"

definition shown :: "ConverterState \<Rightarrow> nat list \<Rightarrow> nat list" where
  "shown st cs = (if headerdone st then cs else without_bom cs)"

lemma decode_chunk:
  assumes k: "kept st part" and s: "list_all scalar (ds @ es)" and cut: "cut_of part (ds @ es)" and x: "part @ y = utf8_text ds @ part'"
    and cut': "cut_of part' es"
  shows "\<exists>st'. utf8_convertToUnicode y st = (utf16_text (shown st ds), st') \<and> kept st' part' \<and> (headerdone st' \<longleftrightarrow> headerdone st \<or> ds \<noteq> [])
    \<and> ConvertInitialBom st' = ConvertInitialBom st \<and> invalidChars st' = invalidChars st"
proof -
  consider (empty) "y = []" | (loop) "y \<noteq> []" "part = []" "headerdone st" | (pending) "y \<noteq> []" "part \<noteq> [] \<or> \<not> headerdone st" by blast
  then show ?thesis
  proof cases
    case empty
    have "ds = []"
    proof (cases ds)
      case (Cons c ds')
      then have p: "part = utf8_bytes c @ utf8_text ds' @ part'" using x empty by simp
      then obtain q where q: "utf8_bytes c = part @ q" "q \<noteq> []" using cut Cons by (auto simp: cut_of_def)
      have "length part < length part" using p q by (metis append.assoc append_self_conv length_append less_add_same_cancel1 length_greater_0_conv append_is_Nil_conv)
      then show ?thesis by simp
    qed simp
    then show ?thesis using empty x k by (simp add: utf8_convertToUnicode_def shown_def without_bom_def)
  next
    case loop
    have "utf8_decodePending y st = Inr ([], y, st)" using k loop by (simp add: utf8_decodePending_def kept_def headerdone_def)
    then show ?thesis using loop x decodeLoop_text [OF _ _ cut', of st ds] s k
      by (auto simp: utf8_convertToUnicode_def kept_def headerdone_def shown_def)
  next
    case pending
    have r: "\<not> Stateless st" "remainingChars st = length part" "take (length part) (state_bytes st) = part" using k by (simp_all add: kept_def)
    let ?data = "part @ take (min (4 - length part) (length y)) y"
    have data: "?data = take 4 (part @ y)" using cut_length [OF cut] by (simp add: min_def)
    have go: "remainingChars st \<noteq> 0 \<or> \<not> (HeaderDone st \<or> ConvertInitialBom st)" using pending r by (auto simp: headerdone_def)
    show ?thesis
    proof (cases ds)
      case Nil
      then have p: "part @ y = part'" "part' \<noteq> []" using x pending by auto
      then have dp: "?data = part'" using data cut_length [OF cut'] by simp
      have "fromUtf8 (hd part') (tl part') = DecodeEndOfString" by (rule cut_end [OF p(2) cut'])
      then have "utf8_decodePending y st = Inl (st\<lparr>remainingChars := length part + min (4 - length part) (length y), state_bytes := part'\<rparr>)"
        using r go dp by (simp add: utf8_decodePending_def Let_def)
      moreover have "length part + min (4 - length part) (length y) = length part'" using arg_cong [OF dp, of length] by simp
      ultimately show ?thesis using pending Nil r by (simp add: utf8_convertToUnicode_def kept_def headerdone_def shown_def without_bom_def)
    next
      case (Cons c ds')
      let ?n = "length (utf8_bytes c)" and ?rest = "utf8_text ds' @ part'"
      have c: "scalar c" "list_all scalar ds'" using s Cons by simp_all
      have le: "length part \<le> ?n" using cut Cons by (auto simp: cut_of_def)
      have xc: "part @ y = utf8_bytes c @ ?rest" using x Cons by simp
      have dx: "?data = utf8_bytes c @ take (4 - ?n) ?rest" unfolding data xc using utf8_length(1) [of c] by simp
      obtain b src where bs: "utf8_bytes c @ take (4 - ?n) ?rest = b # src" by (cases "utf8_bytes c") auto
      then have b: "?data = b # src" unfolding dx .
      have d: "fromUtf8 b src = Decoded ?n (of_nat c) (take (4 - ?n) ?rest)" by (rule decode_scalar [OF c(1) bs])
      have "drop (?n - length part) y = drop ?n (part @ y)" using le by simp
      then have left: "drop (?n - length part) y = ?rest" unfolding xc by simp
      let ?st = "st\<lparr>HeaderDone := True\<rparr>"
      let ?pre = "if \<not> headerdone st \<and> last (utf16_units c) = ByteOrderMark then butlast (utf16_units c) else utf16_units c"
      have "utf8_decodePending y st = Inr (?pre, ?rest, ?st)"
        using r go d b left append_scalar [OF c(1)] by (simp add: utf8_decodePending_def Let_def headerdone_def)
      moreover have "?pre = utf16_text (shown st [c])" using last_bom [OF c(1)] by (auto simp: shown_def without_bom_def bom_bytes)
      moreover obtain st' where st': "utf8_decodeLoop ?rest ?st = (utf16_text ds', st')" "kept st' part'" "HeaderDone st'"
        "ConvertInitialBom st' = ConvertInitialBom st" "invalidChars st' = invalidChars st"
        using decodeLoop_text [OF _ c(2) cut', of ?st] r by auto
      moreover have "shown st ds = shown st [c] @ ds'" using Cons by (auto simp: shown_def without_bom_def)
      ultimately show ?thesis using pending Cons by (simp add: utf8_convertToUnicode_def headerdone_def)
    qed
  qed
qed

lemma decode_chunks:
  "kept st part \<Longrightarrow> list_all scalar cs \<Longrightarrow> cut_of part cs \<Longrightarrow> part @ concat chunks = utf8_text cs \<Longrightarrow>
    \<exists>st'. convert_chunks utf8_convertToUnicode chunks st = (utf16_text (shown st cs), st') \<and> remainingChars st' = 0 \<and> invalidChars st' = invalidChars st"
proof (induction chunks arbitrary: st part cs)
  case Nil
  have "cs = []"
  proof (cases cs)
    case (Cons c ds)
    have p: "part = utf8_bytes c @ utf8_text ds" using Nil.prems(4) Cons by simp
    then obtain q where q: "utf8_bytes c = part @ q" "q \<noteq> []" using Nil.prems(3) Cons by (auto simp: cut_of_def)
    have "length part < length part" using p q by (metis append.assoc append_self_conv length_append less_add_same_cancel1 length_greater_0_conv append_is_Nil_conv)
    then show ?thesis by simp
  qed simp
  then show ?case using Nil.prems by (simp add: kept_def shown_def without_bom_def)
next
  case (Cons y chunks)
  have "(part @ y) @ concat chunks = utf8_text cs" using Cons.prems(4) by simp
  from split_text [OF Cons.prems(2) this] obtain ds es part' where
    p: "cs = ds @ es" "part @ y = utf8_text ds @ part'" "cut_of part' es" "part' @ concat chunks = utf8_text es" by blast
  from decode_chunk [OF Cons.prems(1) _ _ p(2,3)] Cons.prems(2,3) p(1) obtain st1 where
    st1: "utf8_convertToUnicode y st = (utf16_text (shown st ds), st1)" "kept st1 part'" "headerdone st1 \<longleftrightarrow> headerdone st \<or> ds \<noteq> []"
      "invalidChars st1 = invalidChars st" by auto
  have "list_all scalar es" using Cons.prems(2) p(1) by simp
  from Cons.IH [OF st1(2) this p(3,4)] obtain st2 where
    st2: "convert_chunks utf8_convertToUnicode chunks st1 = (utf16_text (shown st1 es), st2)" "remainingChars st2 = 0" "invalidChars st2 = invalidChars st1"
    by blast
  have "shown st ds @ shown st1 es = shown st cs" using st1(3) p(1) by (auto simp: shown_def without_bom_def)
  then have "utf16_text (shown st ds) @ utf16_text (shown st1 es) = utf16_text (shown st cs)" by (metis text_simps(6))
  then show ?case using st1 st2 by simp
qed

end
