(* ===== verification/Utf8Broken.thy ===== *)
theory Utf8Broken
  imports Utf8Chunks
begin

text \<open>
  What becomes of a sequence that is not finished when a byte comes that cannot continue it: in one
  input, and when the chunk ends between the two.
\<close>

section \<open>Unfinished sequences\<close>

lemma decodeRest_unfinished:
  assumes "decodeRest n m uc xs = DecodeEndOfString" "n \<le> 4"
  shows "length xs < n - 1" "list_all isContinuationByte xs"
proof -
  show l: "length xs < n - 1"
    using assms(1) by (auto simp: decodeRest_def split: if_splits option.splits)
  have "length xs > 0 \<longrightarrow> isContinuationByte (xs ! 0)" "length xs > 1 \<longrightarrow> isContinuationByte (xs ! 1)"
    using assms(1) by (auto simp: decodeRest_def split: if_splits option.splits)
  moreover have "length xs = 0 \<or> length xs = 1 \<or> length xs = 2" using l assms(2) by linarith
  ultimately show "list_all isContinuationByte xs"
    by (auto simp: list_all_length less_2_cases_iff)
qed

lemma continuationBytes_broken:
  "\<lbrakk>length xs < k; list_all isContinuationByte xs; \<not> isContinuationByte b\<rbrakk> \<Longrightarrow> continuationBytes k (xs @ b # src) u = None"
proof (induction xs arbitrary: k u)
  case Nil
  then show ?case by (cases k) simp_all
next
  case (Cons y xs)
  then show ?case by (cases k) simp_all
qed

lemma decodeRest_broken:
  assumes "length xs < n - 1" "list_all isContinuationByte xs" "\<not> isContinuationByte b" "n \<le> 4"
  shows "decodeRest n m uc (xs @ b # src) = DecodeError"
proof -
  have "length xs = 0 \<or> length xs = 1 \<or> 2 \<le> length xs" by linarith
  then show ?thesis
    using assms continuationBytes_broken [OF assms(1-3)] by (auto simp: decodeRest_def nth_append)
qed

lemma fromUtf8_unfinished:
  assumes "fromUtf8 x xs = DecodeEndOfString"
  shows "length xs < 3" "list_all isContinuationByte xs"
    and "\<not> isContinuationByte b \<Longrightarrow> fromUtf8 x (xs @ b # src) = DecodeError"
proof -
  define n m uc where "n = (if x < 0xe0 then 2 else if x < 0xf0 then 3 else 4 :: nat)"
    and "m = (if x < 0xe0 then 0x80 else if x < 0xf0 then 0x800 else 0x10000 :: 32 word)"
    and "uc = (if x < 0xe0 then ucast (x AND 0x1f) else if x < 0xf0 then ucast (x AND 0x0f) else ucast (x AND 0x07) :: 32 word)"
  have rest: "fromUtf8 x ys = decodeRest n m uc ys" for ys
    using assms by (auto simp: fromUtf8_def n_def m_def uc_def split: if_splits)
  have n: "n \<le> 4" "decodeRest n m uc xs = DecodeEndOfString" "\<And>ys. fromUtf8 x ys = decodeRest n m uc ys"
    using rest assms by (simp_all add: n_def)
  note u = decodeRest_unfinished [OF n(2,1)]
  show "length xs < 3" "list_all isContinuationByte xs" using u n(1) by simp_all
  show "fromUtf8 x (xs @ b # src) = DecodeError" if "\<not> isContinuationByte b"
    using decodeRest_broken [OF u that n(1)] n(3) by simp
qed

lemma continuation_alone: "isContinuationByte y \<Longrightarrow> fromUtf8 y ys = DecodeError"
proof -
  assume y: "isContinuationByte y"
  then have "y AND 0xc0 = 0x80" by (simp add: isContinuationByte_def)
  have "\<forall>v :: 8 word. v AND 0xc0 = 0x80 \<longrightarrow> \<not> v < 0x80 \<and> v \<le> 0xC1" by code_simp
  then show ?thesis using y by (simp add: fromUtf8_def isContinuationByte_def)
qed

section \<open>The main loop\<close>

text \<open>What it writes depends on the flags of the state alone.\<close>

lemma decodeLoop_output:
  "Stateless st = Stateless st' \<Longrightarrow> ConvertInvalidToNull st = ConvertInvalidToNull st'
    \<Longrightarrow> fst (utf8_decodeLoop src st) = fst (utf8_decodeLoop src st')"
proof (induction src st arbitrary: st' rule: utf8_decodeLoop.induct)
  case (2 b src st)
  show ?case
  proof (cases "fromUtf8 b src")
    case DecodeError
    let ?e = "\<lambda>st. st\<lparr>invalidChars := invalidChars st + 1\<rparr>"
    have "fst (utf8_decodeLoop src (?e st)) = fst (utf8_decodeLoop src (?e st'))"
      using 2(1) [OF DecodeError, of "?e st'"] 2(3,4) by simp
    then show ?thesis using DecodeError 2(4) by (simp add: decode_replacement_def case_prod_beta)
  next
    case DecodeEndOfString
    then show ?thesis using 2(3,4) by simp
  next
    case (Decoded n uc rest)
    then show ?thesis using 2 Decoded by (simp add: case_prod_beta)
  qed
qed simp

lemma decodeLoop_continuations:
  "list_all isContinuationByte ys \<Longrightarrow> fst (utf8_decodeLoop (ys @ src) st)
    = replicate (length ys) (decode_replacement st) @ fst (utf8_decodeLoop src st)"
proof (induction ys arbitrary: st)
  case (Cons y ys)
  let ?e = "st\<lparr>invalidChars := invalidChars st + 1\<rparr>"
  have "fst (utf8_decodeLoop src ?e) = fst (utf8_decodeLoop src st)" "decode_replacement ?e = decode_replacement st"
    by (rule decodeLoop_output) (simp_all add: decode_replacement_def)
  then show ?case using Cons continuation_alone [of y] by (simp add: case_prod_beta)
qed simp

lemma decodeLoop_broken:
  assumes "fromUtf8 x xs = DecodeEndOfString" "\<not> isContinuationByte b"
  shows "fst (utf8_decodeLoop (x # xs @ b # src) st)
    = replicate (Suc (length xs)) (decode_replacement st) @ fst (utf8_decodeLoop (b # src) st)"
proof -
  let ?e = "st\<lparr>invalidChars := invalidChars st + 1\<rparr>"
  have e: "fst (utf8_decodeLoop (b # src) ?e) = fst (utf8_decodeLoop (b # src) st)" "decode_replacement ?e = decode_replacement st"
    by (rule decodeLoop_output) (simp_all add: decode_replacement_def)
  from fromUtf8_unfinished(3) [OF assms] decodeLoop_continuations [OF fromUtf8_unfinished(2) [OF assms(1)], of "b # src" ?e]
  show ?thesis unfolding utf8_decodeLoop.simps(2) [of x] by (simp only: e) (simp add: case_prod_beta)
qed

lemma decodeLoop_letter:
  assumes "b < 0x80"
  shows "fst (utf8_decodeLoop (b # src) st) = ucast b # fst (utf8_decodeLoop src st)"
proof -
  have "unat (ucast b :: 32 word) < 256" using unsigned_less [of b, where 'a = nat]
    by (simp add: unsigned_ucast_eq take_bit_nat_eq_self)
  then have "\<not> requiresSurrogates (ucast b)" by (simp add: requiresSurrogates_def word_le_nat_alt)
  moreover have "(ucast (ucast b :: 32 word) :: 16 word) = ucast b"
    by (rule bit_word_eqI) (auto simp: bit_simps dest: bit_imp_le_length)
  ultimately show ?thesis using assms by (simp add: fromUtf8_def appendUtf16_def case_prod_beta)
qed

section \<open>At the end of a chunk\<close>

lemma broken_at_once:
  assumes st: "\<not> Stateless st" "remainingChars st = 0"
    and cut: "fromUtf8 x xs = DecodeEndOfString" "\<not> isContinuationByte b"
  shows "fst (utf8_convertToUnicode (x # xs @ b # src) st)
    = replicate (Suc (length xs)) (decode_replacement st) @ fst (utf8_decodeLoop (b # src) st)"
proof (cases "HeaderDone st \<or> ConvertInitialBom st")
  case True
  then show ?thesis
    using st decodeLoop_broken [OF cut, of src st]
    by (simp add: utf8_convertToUnicode_def utf8_decodePending_def case_prod_beta del: utf8_decodeLoop.simps)
next
  case False
  let ?e = "st\<lparr>invalidChars := Suc (invalidChars st), HeaderDone := True\<rparr>"
  have e: "fst (utf8_decodeLoop (b # src) ?e) = fst (utf8_decodeLoop (b # src) st)" "decode_replacement ?e = decode_replacement st"
    by (rule decodeLoop_output) (simp_all add: decode_replacement_def)
  define r where "r = take (2 - length xs) src"
  have t: "take (min 4 (Suc (Suc (length xs + length src)))) (x # xs @ b # src) = x # xs @ b # r"
    using fromUtf8_unfinished(1) [OF cut(1)] by (auto simp: r_def min_def take_Cons')
  have err: "fromUtf8 x (xs @ b # r) = DecodeError" by (rule fromUtf8_unfinished(3) [OF cut])
  from False st t err have "utf8_convertToUnicode (x # xs @ b # src) st =
      (let (out, st') = utf8_decodeLoop (xs @ b # src) ?e in (decode_replacement st # out, st'))"
    by (simp add: utf8_convertToUnicode_def utf8_decodePending_def Let_def decode_replacement_def case_prod_beta
        del: utf8_decodeLoop.simps)
  with decodeLoop_continuations [OF fromUtf8_unfinished(2) [OF cut(1)], of "b # src" ?e] e show ?thesis
    by (simp add: case_prod_beta)
qed

lemma unfinished_kept:
  assumes st: "\<not> Stateless st" "remainingChars st = 0" and cut: "fromUtf8 x xs = DecodeEndOfString"
  shows "utf8_convertToUnicode (x # xs) st = ([], st\<lparr>remainingChars := Suc (length xs), state_bytes := x # xs\<rparr>)"
proof (cases "HeaderDone st \<or> ConvertInitialBom st")
  case True
  then show ?thesis using st cut by (simp add: utf8_convertToUnicode_def utf8_decodePending_def)
next
  case False
  have "min 4 (Suc (length xs)) = Suc (length xs)" using fromUtf8_unfinished(1) [OF cut] by simp
  then show ?thesis using False st cut by (simp add: utf8_convertToUnicode_def utf8_decodePending_def Let_def)
qed

lemma broken_in_chunks:
  assumes st: "\<not> Stateless st" "remainingChars st = 0"
    and cut: "fromUtf8 x xs = DecodeEndOfString" "\<not> isContinuationByte b"
  shows "fst (convert_chunks utf8_convertToUnicode [x # xs, b # src] st)
    = decode_replacement st # fst (utf8_decodeLoop src st)"
proof -
  let ?k = "st\<lparr>remainingChars := Suc (length xs), state_bytes := x # xs\<rparr>"
  let ?e = "?k\<lparr>invalidChars := Suc (invalidChars st), HeaderDone := True\<rparr>"
  have e: "fst (utf8_decodeLoop src ?e) = fst (utf8_decodeLoop src st)" by (rule decodeLoop_output) simp_all
  define r where "r = take (min (3 - length xs) (Suc (length src)) - 1) src"
  have t: "take (min (3 - length xs) (Suc (length src))) (b # src) = b # r"
    using fromUtf8_unfinished(1) [OF cut(1)] by (auto simp: r_def take_Cons')
  have err: "fromUtf8 x (xs @ b # r) = DecodeError" by (rule fromUtf8_unfinished(3) [OF cut])
  from st(1) t err have "utf8_convertToUnicode (b # src) ?k =
      (let (out, st') = utf8_decodeLoop src ?e in (decode_replacement st # out, st'))"
    by (simp add: utf8_convertToUnicode_def utf8_decodePending_def Let_def decode_replacement_def case_prod_beta
        del: utf8_decodeLoop.simps)
  with unfinished_kept [OF st cut(1)] e show ?thesis by (simp add: case_prod_beta)
qed

end
