(* ===== verification/ChunkedConverter.thy ===== *)
theory ChunkedConverter
  imports Utf8Codec
begin

text \<open>
  What \<open>QStringEncoder\<close> and \<open>QStringDecoder\<close> promise of their converters: fed chunk by chunk, they
  write what they write for the whole text, and end in a state that makes no difference later. A
  converter keeps the promise when two calls do what one does; each codec shows that of its own.
\<close>

text \<open>What two runs write and the states they end in, for a relation of states.\<close>

definition runs_alike :: "('s \<Rightarrow> 's \<Rightarrow> bool) \<Rightarrow> 'o list \<times> 's \<Rightarrow> 'o list \<times> 's \<Rightarrow> bool" where
  "runs_alike same r r' \<longleftrightarrow> fst r = fst r' \<and> same (snd r) (snd r')"

definition then_run :: "'o list \<Rightarrow> 'o list \<times> 's \<Rightarrow> 'o list \<times> 's" where
  "then_run o1 r = (o1 @ fst r, snd r)"

lemma then_run_simps [simp]: "fst (then_run o1 r) = o1 @ fst r" "snd (then_run o1 r) = snd r"
  by (simp_all add: then_run_def)

lemma then_runs_alike: "runs_alike same r r' \<Longrightarrow> runs_alike same (then_run o1 r) (then_run o1 r')"
  by (simp add: runs_alike_def)

lemma chunks_unfold: "convert_chunks convert (c # cs) st = then_run (fst (convert c st)) (convert_chunks convert cs (snd (convert c st)))"
  by (simp add: then_run_def split: prod.split)

locale chunked_converter =
  fixes convert :: "'i list \<Rightarrow> ConverterState \<Rightarrow> 'o list \<times> ConverterState"
    and ok :: "ConverterState \<Rightarrow> bool"
    and same :: "ConverterState \<Rightarrow> ConverterState \<Rightarrow> bool"
  assumes ok_kept: "ok st \<Longrightarrow> ok (snd (convert x st))"
    and same_refl: "same st st"
    and same_trans: "same st st' \<Longrightarrow> same st' st'' \<Longrightarrow> same st st''"
    and two_calls: "ok st \<Longrightarrow> runs_alike same (then_run (fst (convert x st)) (convert y (snd (convert x st)))) (convert (x @ y) st)"
begin

lemma ok_reached: "ok st \<Longrightarrow> ok (snd (convert_chunks convert chunks st))"
  by (induction chunks arbitrary: st) (simp_all add: chunks_unfold ok_kept del: convert_chunks.simps(2))

lemma any_chunks: "ok st \<Longrightarrow> runs_alike same (convert_chunks convert (x # chunks) st) (convert (x @ concat chunks) st)"
proof (induction chunks arbitrary: x st)
  case Nil
  then show ?case by (simp add: chunks_unfold runs_alike_def same_refl del: convert_chunks.simps(2))
next
  case (Cons y chunks)
  let ?r = "convert x st"
  have "runs_alike same (then_run (fst ?r) (convert_chunks convert (y # chunks) (snd ?r)))
      (then_run (fst ?r) (convert (y @ concat chunks) (snd ?r)))"
    by (rule then_runs_alike [OF Cons.IH [OF ok_kept [OF Cons.prems]]])
  then show ?case using two_calls [OF Cons.prems, of x "y @ concat chunks"]
    unfolding chunks_unfold [of _ x] runs_alike_def by (auto intro: same_trans)
qed

text \<open>How a text is cut makes no difference.\<close>

lemma chunk_output:
  assumes "ok st" "chunks \<noteq> []"
  shows "fst (convert_chunks convert chunks st) = fst (convert (concat chunks) st)"
  using any_chunks [OF assms(1), of "hd chunks" "tl chunks"] assms(2) by (cases chunks) (auto simp: runs_alike_def)

end

end
