(* ===== verification/Utf8Bounds.thy ===== *)
theory Utf8Bounds
  imports Utf8Chunks ChunkedConverter
begin

text \<open>
  What a call can write, and what it can keep, whatever it is fed; and that the encoder's output does
  not depend on where the chunks are cut.
\<close>

section \<open>The decoder\<close>

lemma units_length: "length (utf16_units c) \<le> 2" "1 \<le> length (utf16_units c)" "length (utf16_units c) = 2 \<Longrightarrow> length (utf8_bytes c) = 4"
  by (simp_all add: utf16_units_def utf16_form_def utf8_bytes_def utf8_form_def split: if_splits)

lemma decoded_length:
  assumes "fromUtf8 b src = Decoded n uc rest"
  shows "length (appendUtf16 uc) \<le> 2" "length (appendUtf16 uc) = 2 \<Longrightarrow> n = 4" "1 \<le> n" "n \<le> 4" "Suc (length src) = n + length rest"
    "n = sequence_length b"
proof -
  note s = fromUtf8_sound [OF assms]
  have "unat uc \<le> 0x10ffff" using s by (auto simp: scalar_def)
  then have a: "appendUtf16 uc = utf16_units (unat uc)" by (rule appendUtf16_form)
  show "length (appendUtf16 uc) \<le> 2" "length (appendUtf16 uc) = 2 \<Longrightarrow> n = 4" using s units_length [of "unat uc"] unfolding a by auto
  show "1 \<le> n" "n \<le> 4" using s utf8_length [of "unat uc"] by auto
  show "Suc (length src) = n + length rest" using s by (metis length_Cons length_append)
  show "n = sequence_length b" using assms by (auto simp: fromUtf8_value sequence_length_def Let_def split: if_splits)
qed

definition decoder_ok :: "ConverterState \<Rightarrow> bool" where
  "decoder_ok st \<longleftrightarrow> remainingChars st \<le> length (state_bytes st)
     \<and> (remainingChars st \<noteq> 0 \<longrightarrow> fromUtf8 (hd (take (remainingChars st) (state_bytes st))) (tl (take (remainingChars st) (state_bytes st))) = DecodeEndOfString)"

lemma decoder_kept: "decoder_ok st \<Longrightarrow> remainingChars st \<le> 3"
  using fromUtf8_EndOfString [of "hd (take (remainingChars st) (state_bytes st))" "tl (take (remainingChars st) (state_bytes st))"]
  by (cases "remainingChars st = 0") (auto simp: decoder_ok_def)

lemma decodeLoop_bound:
  "length (fst (utf8_decodeLoop src st)) \<le> length src \<and> decoder_ok (snd (utf8_decodeLoop src st))"
proof (induction src st rule: utf8_decodeLoop.induct)
  case (1 st)
  then show ?case by (simp add: decoder_ok_def)
next
  case (2 b src st)
  show ?case
  proof (cases "fromUtf8 b src")
    case DecodeError
    then show ?thesis using 2(1) by (auto split: prod.split)
  next
    case DecodeEndOfString
    then show ?thesis by (auto simp: decoder_ok_def)
  next
    case (Decoded n uc rest)
    have "length (appendUtf16 uc) \<le> n" using decoded_length [OF Decoded] by linarith
    then show ?thesis using 2(2) [OF Decoded] Decoded decoded_length(5) [OF Decoded] by (auto split: prod.split)
  qed
qed

lemma decode_bound:
  assumes ok: "decoder_ok st"
  shows "length (fst (utf8_convertToUnicode src st)) \<le> length src + 1" "decoder_ok (snd (utf8_convertToUnicode src st))"
proof -
  have "length (fst (utf8_convertToUnicode src st)) \<le> length src + 1 \<and> decoder_ok (snd (utf8_convertToUnicode src st))"
  proof (cases "src = []")
    case True
    then show ?thesis using ok by (simp add: utf8_convertToUnicode_def)
  next
    case False
    show ?thesis
    proof (cases "utf8_decodePending src st")
      case (Inl st')
      moreover have "remainingChars st \<le> length (state_bytes st)" using ok by (simp add: decoder_ok_def)
      ultimately have "decoder_ok st'" using False by (auto simp: utf8_decodePending_def Let_def decoder_ok_def split: if_splits Decoded.splits)
      then show ?thesis using False Inl by (simp add: utf8_convertToUnicode_def)
    next
      case (Inr r)
      obtain pre rest st' where r: "r = (pre, rest, st')" by (cases r)
      have "length pre + length rest \<le> length src + 1"
      proof (cases "\<not> Stateless st \<and> (remainingChars st \<noteq> 0 \<or> \<not> (HeaderDone st \<or> ConvertInitialBom st))")
        case False
        then show ?thesis using Inr r by (auto simp: utf8_decodePending_def Let_def split: if_splits)
      next
        case True
        define data where "data = take (remainingChars st) (state_bytes st) @ take (min (4 - remainingChars st) (length src)) src"
        show ?thesis
        proof (cases "fromUtf8 (hd data) (tl data)")
          case DecodeError
          then show ?thesis using Inr r True \<open>src \<noteq> []\<close> by (cases src) (auto simp: utf8_decodePending_def Let_def data_def)
        next
          case DecodeEndOfString
          then show ?thesis using Inr r True by (auto simp: utf8_decodePending_def Let_def data_def)
        next
          case (Decoded n uc q)
          have d: "length pre \<le> length (appendUtf16 uc)" "rest = drop (n - remainingChars st) src"
            using Inr r True Decoded by (auto simp: utf8_decodePending_def Let_def data_def split: if_splits)
          have "remainingChars st < n"
          proof (cases "remainingChars st = 0")
            case True
            then show ?thesis using decoded_length(3) [OF Decoded] by simp
          next
            case False
            let ?p = "take (remainingChars st) (state_bytes st)"
            have p: "?p \<noteq> []" "length ?p = remainingChars st" using ok False by (auto simp: decoder_ok_def)
            have "fromUtf8 (hd ?p) (tl ?p) = DecodeEndOfString" using ok False by (simp add: decoder_ok_def)
            from fromUtf8_EndOfString [OF this] have "length ?p < sequence_length (hd ?p)" using p(1) by (cases ?p) auto
            moreover have "hd data = hd ?p" using p(1) by (simp add: data_def)
            ultimately show ?thesis using decoded_length(6) [OF Decoded] p(2) by simp
          qed
          moreover have "0 < min (4 - remainingChars st) (length src)" using \<open>src \<noteq> []\<close> decoder_kept [OF ok] by simp
          then have "data \<noteq> []" by (simp add: data_def)
          then have "Suc (length (tl data)) = length data" by (cases data) simp_all
          moreover have "length data \<le> remainingChars st + length src" by (simp add: data_def)
          moreover have "length (appendUtf16 uc) \<le> Suc (n - remainingChars st)"
            using decoded_length(1,2) [OF Decoded] decoder_kept [OF ok] calculation(1) by linarith
          ultimately show ?thesis using d decoded_length(5) [OF Decoded] by auto
        qed
      qed
      then show ?thesis using False Inr r decodeLoop_bound [of rest st'] by (auto simp: utf8_convertToUnicode_def split: prod.split)
    qed
  qed
  then show "length (fst (utf8_convertToUnicode src st)) \<le> length src + 1" "decoder_ok (snd (utf8_convertToUnicode src st))" by auto
qed

lemma decoder_reach: "decoder_ok st \<Longrightarrow> decoder_ok (snd (convert_chunks utf8_convertToUnicode chunks st))"
proof (induction chunks arbitrary: st)
  case (Cons y chunks)
  have "decoder_ok (snd (utf8_convertToUnicode y st))" by (rule decode_bound(2) [OF Cons.prems])
  from Cons.IH [OF this] show ?case by (simp split: prod.split) (metis snd_conv)
qed simp

section \<open>The encoder\<close>

lemma toUtf8_length: "toUtf8 u src = Encoded bs rest \<Longrightarrow> length bs + 3 * length rest \<le> 3 * Suc (length src) \<and> length bs \<le> 4"
  by (auto simp: toUtf8_def Let_def split: if_splits list.splits)

lemma encodeLoop_bound: "length (fst (utf8_encodeLoop src st)) \<le> 3 * length src"
proof (induction src st rule: utf8_encodeLoop.induct)
  case (2 u src st)
  show ?case
  proof (cases "toUtf8 u src")
    case (Encoded bs rest)
    then show ?thesis using 2(2) [OF Encoded] toUtf8_length [OF Encoded] by (auto split: prod.split)
  next
    case EncodeError
    then show ?thesis using 2(1) [OF EncodeError] by (auto simp: utf8_replacement_def split: prod.split)
  next
    case EncodeEndOfString
    then show ?thesis by (auto simp: utf8_replacement_def)
  qed
qed simp

lemma encode_bound: "length (fst (utf8_convertFromUnicode src st)) \<le> 3 * (length src + 1)"
proof -
  obtain pre rest st' where p: "utf8_encodePending src st = (pre, rest, st')" by (cases "utf8_encodePending src st")
  then have "length pre + 3 * length rest \<le> 3 * (length src + 1)"
    by (auto simp: utf8_encodePending_def Let_def utf8_replacement_def utf8bom_def split: if_splits Encoded.splits dest: toUtf8_length)
  then show ?thesis using encodeLoop_bound [of rest st'] p by (auto simp: utf8_convertFromUnicode_def split: prod.split)
qed

text \<open>States that differ at most in the number of errors.\<close>

definition alike :: "ConverterState \<Rightarrow> ConverterState \<Rightarrow> bool" where
  "alike st st' \<longleftrightarrow> st\<lparr>invalidChars := 0\<rparr> = st'\<lparr>invalidChars := 0\<rparr>"

abbreviation same_run :: "'o list \<times> ConverterState \<Rightarrow> 'o list \<times> ConverterState \<Rightarrow> bool" where
  "same_run \<equiv> runs_alike alike"

lemma alike_simps: "alike st st' \<longleftrightarrow> Stateless st = Stateless st' \<and> ConvertInvalidToNull st = ConvertInvalidToNull st' \<and> WriteBom st = WriteBom st'
    \<and> ConvertInitialBom st = ConvertInitialBom st' \<and> HeaderDone st = HeaderDone st' \<and> remainingChars st = remainingChars st'
    \<and> state_bytes st = state_bytes st' \<and> state_endian st = state_endian st' \<and> state_char st = state_char st'"
  unfolding alike_def by (cases st; cases st') auto

lemma alike_same [simp]: "alike st st"
  by (simp add: alike_def)

lemma same_run_trans: "same_run a b \<Longrightarrow> same_run b c \<Longrightarrow> same_run a c"
  by (simp add: runs_alike_def alike_def)

lemma same_run_sym: "same_run a b \<Longrightarrow> same_run b a"
  by (simp add: runs_alike_def alike_def)

lemmas same_then = then_runs_alike [of alike]

lemma encodeLoop_unfold:
  "utf8_encodeLoop (u # src) st =
     (case toUtf8 u src of
        Encoded bs rest \<Rightarrow> then_run bs (utf8_encodeLoop rest st)
      | EncodeError \<Rightarrow> then_run (utf8_replacement st) (utf8_encodeLoop src (st\<lparr>invalidChars := invalidChars st + 1\<rparr>))
      | EncodeEndOfString \<Rightarrow>
          if Stateless st then (utf8_replacement st, st\<lparr>invalidChars := invalidChars st + 1\<rparr>)
          else ([], st\<lparr>remainingChars := 1, state_char := u\<rparr>))"
  by (auto simp: then_run_def split: Encoded.split prod.split)

lemma encodeLoop_alike: "alike st st' \<Longrightarrow> same_run (utf8_encodeLoop src st) (utf8_encodeLoop src st')"
proof (induction src st arbitrary: st' rule: utf8_encodeLoop.induct)
  case (1 st)
  then show ?case by (simp add: runs_alike_def)
next
  case (2 u src st)
  have f: "utf8_replacement st = utf8_replacement st'" "Stateless st = Stateless st'" using 2(3) by (simp_all add: alike_simps utf8_replacement_def)
  show ?case
  proof (cases "toUtf8 u src")
    case (Encoded bs rest)
    then show ?thesis unfolding encodeLoop_unfold using 2(2) [OF Encoded 2(3)] by (simp add: same_then)
  next
    case EncodeError
    have "alike (st\<lparr>invalidChars := invalidChars st + 1\<rparr>) (st'\<lparr>invalidChars := invalidChars st' + 1\<rparr>)" using 2(3) by (simp add: alike_def)
    from 2(1) [OF EncodeError this] show ?thesis unfolding encodeLoop_unfold using EncodeError f by (simp add: same_then)
  next
    case EncodeEndOfString
    then show ?thesis unfolding encodeLoop_unfold using 2(3) f by (simp add: runs_alike_def alike_simps)
  qed
qed

lemma toUtf8_more:
  "toUtf8 u x = Encoded bs rest \<Longrightarrow> toUtf8 u (x @ y) = Encoded bs (rest @ y)" "toUtf8 u x = EncodeError \<Longrightarrow> toUtf8 u (x @ y) = EncodeError"
  "toUtf8 u x = EncodeEndOfString \<Longrightarrow> x = []" "y \<noteq> [] \<Longrightarrow> toUtf8 u y \<noteq> EncodeEndOfString"
  by (auto simp: toUtf8_def Let_def split: if_splits list.splits)

definition encoder_ok :: "ConverterState \<Rightarrow> bool" where
  "encoder_ok st \<longleftrightarrow> \<not> Stateless st \<and> (remainingChars st = 0 \<longrightarrow> state_char st = 0) \<and> (remainingChars st \<noteq> 0 \<longrightarrow> HeaderDone st \<or> \<not> WriteBom st)"

definition bom_settled :: "ConverterState \<Rightarrow> bool" where
  "bom_settled st \<longleftrightarrow> HeaderDone st \<or> \<not> WriteBom st"

lemma encodeLoop_state:
  "\<not> Stateless st \<Longrightarrow> bom_settled st \<Longrightarrow> remainingChars st = 0 \<Longrightarrow> state_char st = 0 \<Longrightarrow>
    encoder_ok (snd (utf8_encodeLoop src st)) \<and> bom_settled (snd (utf8_encodeLoop src st))"
proof (induction src st rule: utf8_encodeLoop.induct)
  case (2 u src st)
  then show ?case unfolding encodeLoop_unfold by (auto simp: then_run_def encoder_ok_def bom_settled_def split: Encoded.split)
qed (simp add: encoder_ok_def)

lemma encodeLoop_append:
  assumes "\<not> Stateless st" "bom_settled st" "remainingChars st = 0" "state_char st = 0" "y \<noteq> []"
  shows "same_run (utf8_encodeLoop (x @ y) st)
    (then_run (fst (utf8_encodeLoop x st)) (utf8_convertFromUnicode y (snd (utf8_encodeLoop x st))))"
  using assms(1-4)
proof (induction x st rule: utf8_encodeLoop.induct)
  case (1 st)
  then have "utf8_encodePending y st = ([], y, st)" by (auto simp: utf8_encodePending_def bom_settled_def)
  then show ?case using assms(5) by (simp add: utf8_convertFromUnicode_def then_run_def runs_alike_def split: prod.split)
next
  case (2 u x st)
  have nest: "then_run a (then_run b r) = then_run (a @ b) r" for a b :: "8 word list" and r by (simp add: then_run_def)
  show ?case
  proof (cases "toUtf8 u x")
    case (Encoded bs rest)
    from 2(2) [OF Encoded 2(3-6)] have
      "same_run (then_run bs (utf8_encodeLoop (rest @ y) st)) (then_run bs (then_run (fst (utf8_encodeLoop rest st)) (utf8_convertFromUnicode y (snd (utf8_encodeLoop rest st)))))"
      by (rule same_then)
    then show ?thesis unfolding append_Cons encodeLoop_unfold using toUtf8_more(1) [OF Encoded, of y] Encoded by (simp add: nest then_run_def)
  next
    case EncodeError
    let ?st = "st\<lparr>invalidChars := invalidChars st + 1\<rparr>"
    have "\<not> Stateless ?st" "bom_settled ?st" "remainingChars ?st = 0" "state_char ?st = 0" using 2(3-6) by (simp_all add: bom_settled_def)
    from same_then [OF 2(1) [OF EncodeError this], of "utf8_replacement st"] show ?thesis
      unfolding append_Cons encodeLoop_unfold using toUtf8_more(2) [OF EncodeError, of y] EncodeError by (simp add: nest then_run_def)
  next
    case EncodeEndOfString
    then have x: "x = []" by (rule toUtf8_more(3))
    let ?st = "st\<lparr>remainingChars := 1, state_char := u\<rparr>"
    have l: "utf8_encodeLoop [u] st = ([], ?st)" using EncodeEndOfString 2(3) x by (simp add: encodeLoop_unfold)
    have restored: "?st\<lparr>state_char := 0, remainingChars := 0\<rparr> = st" using 2(5,6) by simp
    show ?thesis
    proof (cases "toUtf8 u y")
      case (Encoded bs rest)
      have "utf8_convertFromUnicode y ?st = then_run bs (utf8_encodeLoop rest st)"
        using assms(5) Encoded restored 2(3) by (simp add: utf8_convertFromUnicode_def utf8_encodePending_def Let_def then_run_def split: prod.split)
      moreover have "utf8_encodeLoop (u # y) st = then_run bs (utf8_encodeLoop rest st)" by (simp only: encodeLoop_unfold Encoded Encoded.case)
      ultimately show ?thesis unfolding x append_Cons append_Nil l by (simp add: then_run_def runs_alike_def)
    next
      case EncodeError
      have "utf8_convertFromUnicode y ?st = then_run (utf8_replacement st) (utf8_encodeLoop y st)"
        using assms(5) EncodeError restored 2(3)
        by (simp add: utf8_convertFromUnicode_def utf8_encodePending_def Let_def then_run_def utf8_replacement_def split: prod.split)
      moreover have "same_run (utf8_encodeLoop y (st\<lparr>invalidChars := invalidChars st + 1\<rparr>)) (utf8_encodeLoop y st)"
        by (rule encodeLoop_alike) (simp add: alike_def)
      moreover have "utf8_encodeLoop (u # y) st = then_run (utf8_replacement st) (utf8_encodeLoop y (st\<lparr>invalidChars := invalidChars st + 1\<rparr>))"
        by (simp only: encodeLoop_unfold EncodeError Encoded.case)
      ultimately show ?thesis unfolding x append_Cons append_Nil l by (simp add: then_run_def runs_alike_def)
    next
      case EncodeEndOfString
      then show ?thesis using toUtf8_more(4) [OF assms(5)] by blast
    qed
  qed
qed

section \<open>The encoder in chunks\<close>

lemma encode_append:
  assumes ok: "encoder_ok st" and x: "x \<noteq> []" and y: "y \<noteq> []"
  shows "same_run (utf8_convertFromUnicode (x @ y) st)
    (then_run (fst (utf8_convertFromUnicode x st)) (utf8_convertFromUnicode y (snd (utf8_convertFromUnicode x st))))"
proof -
  obtain pre rest st' where p: "utf8_encodePending x st = (pre, rest, st')" by (cases "utf8_encodePending x st")
  have s: "\<not> Stateless st'" "bom_settled st'" "remainingChars st' = 0" "state_char st' = 0"
    using p ok by (auto simp: utf8_encodePending_def encoder_ok_def bom_settled_def Let_def split: if_splits Encoded.splits)
  have "utf8_encodePending (x @ y) st = (pre, rest @ y, st')"
    using p ok x toUtf8_more(1) [of "state_char st" x _ _ y] toUtf8_more(2) [of "state_char st" x y] toUtf8_more(4) [OF x, of "state_char st"]
    by (cases "toUtf8 (state_char st) x") (auto simp: utf8_encodePending_def encoder_ok_def Let_def split: if_splits)
  then have w: "utf8_convertFromUnicode (x @ y) st = then_run pre (utf8_encodeLoop (rest @ y) st')"
    using x by (simp add: utf8_convertFromUnicode_def then_run_def split: prod.split)
  have v: "utf8_convertFromUnicode x st = then_run pre (utf8_encodeLoop rest st')"
    using x p by (simp add: utf8_convertFromUnicode_def then_run_def split: prod.split)
  show ?thesis unfolding w v using same_then [OF encodeLoop_append [OF s y, of rest], of pre] by (simp add: then_run_def)
qed

lemma encode_state:
  assumes ok: "encoder_ok st"
  shows "encoder_ok (snd (utf8_convertFromUnicode x st))"
proof (cases "x = []")
  case False
  obtain pre rest st' where p: "utf8_encodePending x st = (pre, rest, st')" by (cases "utf8_encodePending x st")
  have s: "\<not> Stateless st'" "bom_settled st'" "remainingChars st' = 0" "state_char st' = 0"
    using p ok by (auto simp: utf8_encodePending_def encoder_ok_def bom_settled_def Let_def split: if_splits Encoded.splits)
  then show ?thesis using False p encodeLoop_state [OF s, of rest]
    by (cases "utf8_encodeLoop rest st'") (simp add: utf8_convertFromUnicode_def)
qed (use ok in \<open>simp add: utf8_convertFromUnicode_def\<close>)

text \<open>Two calls are one, and so are any number of them.\<close>

lemma encode_two_calls:
  assumes "encoder_ok st"
  shows "same_run (then_run (fst (utf8_convertFromUnicode x st)) (utf8_convertFromUnicode y (snd (utf8_convertFromUnicode x st))))
    (utf8_convertFromUnicode (x @ y) st)"
proof (cases "x = [] \<or> y = []")
  case True
  then show ?thesis by (auto simp: utf8_convertFromUnicode_def runs_alike_def)
next
  case False
  then show ?thesis using same_run_sym [OF encode_append [OF assms]] by blast
qed

interpretation utf8_encoder: chunked_converter utf8_convertFromUnicode encoder_ok alike
  by unfold_locales (auto intro: encode_state encode_two_calls simp: alike_def)

end
