(* ===== verification/EndianDecoder.thy ===== *)
theory EndianDecoder
  imports ChunkedConverter
begin

text \<open>
  What the decoders of UTF-16 and UTF-32 share: a text of units of a fixed number of bytes, in a byte
  order that is told by the caller, by a byte order mark or by the machine, of which less than a unit
  waits for the next call. A decoder that takes these steps is a chunked converter.
\<close>

text \<open>Bytes after the last whole unit.\<close>

definition left_over :: "nat \<Rightarrow> 'b list \<Rightarrow> 'b list" where
  "left_over width bytes = drop (length bytes - length bytes mod width) bytes"

lemma left_over_length: "0 < width \<Longrightarrow> length (left_over width bytes) = length bytes mod width"
  using mod_less_eq_dividend [of "length bytes" width] by (simp add: left_over_def)

lemma left_over_whole: "width dvd length p \<Longrightarrow> left_over width (p @ z) = left_over width z"
proof -
  assume d: "width dvd length p"
  define a where "a = length z - length z mod width"
  have "length (p @ z) mod width = length z mod width" using d by (auto simp: dvd_def)
  then have "length (p @ z) - length (p @ z) mod width = length p + a"
    using mod_less_eq_dividend [of "length z" width] by (simp add: a_def)
  then show ?thesis unfolding left_over_def a_def [symmetric] by simp
qed

lemma left_over_append: "left_over width (x @ y) = left_over width (left_over width x @ y)"
proof -
  let ?p = "take (length x - length x mod width) x"
  have "width dvd length ?p" by (simp add: minus_mod_eq_mult_div)
  then show ?thesis using left_over_whole [of width ?p "left_over width x @ y"]
    by (simp add: left_over_def flip: append_assoc)
qed

text \<open>The part of a state that decides what is written: past the mark, the byte order, the bytes that wait.\<close>

definition decoder_view :: "ConverterState \<Rightarrow> bool \<times> DataEndianness \<times> 8 word list" where
  "decoder_view st = (HeaderDone st \<or> ConvertInitialBom st, state_endian st, take (remainingChars st) (state_bytes st))"

definition decoder_flags :: "ConverterState \<Rightarrow> bool \<times> bool \<times> bool \<times> bool \<times> nat" where
  "decoder_flags st = (Stateless st, ConvertInvalidToNull st, WriteBom st, ConvertInitialBom st, invalidChars st)"

definition alike_decoder :: "ConverterState \<Rightarrow> ConverterState \<Rightarrow> bool" where
  "alike_decoder st st' \<longleftrightarrow> decoder_flags st = decoder_flags st' \<and> decoder_view st = decoder_view st'"

definition skip_first :: "'u \<Rightarrow> 'u list \<Rightarrow> 'u list" where
  "skip_first u us = (if us \<noteq> [] \<and> hd us = u then tl us else us)"

lemma skip_first_append: "us \<noteq> [] \<Longrightarrow> skip_first u (us @ vs) = skip_first u us @ vs"
  by (simp add: skip_first_def)

text \<open>One call of such a decoder.\<close>

definition reader_step ::
    "nat \<Rightarrow> (DataEndianness \<Rightarrow> 8 word list \<Rightarrow> 'u list) \<Rightarrow> 'u \<Rightarrow> (8 word list \<Rightarrow> DataEndianness) \<Rightarrow> DataEndianness
      \<Rightarrow> bool \<times> DataEndianness \<times> 8 word list \<Rightarrow> 8 word list \<Rightarrow> 'u list \<times> bool \<times> DataEndianness \<times> 8 word list" where
  "reader_step width units bom order endian v y =
     (let (headerdone, en, part) = v;
          bytes = part @ y;
          en' = (if endian = DetectEndianness then en else endian);
          en'' = (if en' = DetectEndianness then order bytes else en');
          us = units en'' bytes
      in if length bytes < width then ([], headerdone, en, bytes)
         else (if headerdone then us else skip_first bom us, True, en'', left_over width bytes))"

locale endian_decoder =
  fixes width :: nat
    and units :: "DataEndianness \<Rightarrow> 8 word list \<Rightarrow> 'u list"
    and bom :: 'u
    and order :: "8 word list \<Rightarrow> DataEndianness"
    and as_text :: "'u list \<Rightarrow> 16 word list"
    and endian :: DataEndianness
    and ok :: "ConverterState \<Rightarrow> bool"
    and convert :: "8 word list \<Rightarrow> ConverterState \<Rightarrow> 16 word list \<times> ConverterState"
  assumes width_pos: "0 < width"
    and units_append: "units en (x @ y) = units en x @ units en (left_over width x @ y)"
    and units_none: "units en x = [] \<longleftrightarrow> length x < width"
    and order_start: "width \<le> length x \<Longrightarrow> order (x @ y) = order x"
    and order_known: "order x \<noteq> DetectEndianness"
    and text_append: "as_text (us @ vs) = as_text us @ as_text vs"
    and ok_step: "ok st \<Longrightarrow> ok (snd (convert y st))"
    and flags_step: "ok st \<Longrightarrow> decoder_flags (snd (convert y st)) = decoder_flags st"
    and convert_step: "ok st \<Longrightarrow> reader_step width units bom order endian (decoder_view st) y = (us, v)
      \<Longrightarrow> fst (convert y st) = as_text us \<and> decoder_view (snd (convert y st)) = v"
begin

abbreviation step where
  "step \<equiv> reader_step width units bom order endian"

lemma two_steps:
  assumes "step v x = (us, v1)" "step v1 y = (vs, v2)"
  shows "step v (x @ y) = (us @ vs, v2)"
proof -
  obtain h en part where v: "v = (h, en, part)" by (cases v)
  show ?thesis
  proof (cases "length (part @ x) < width")
    case True
    then have "us = []" "v1 = (h, en, part @ x)" using assms(1) unfolding v by (auto simp: reader_step_def Let_def)
    moreover have "step (h, en, part @ x) y = step v (x @ y)" unfolding v by (simp add: reader_step_def Let_def)
    ultimately show ?thesis using assms(2) by simp
  next
    case False
    let ?en = "if endian = DetectEndianness then en else endian"
    define en' where "en' = (if ?en = DetectEndianness then order (part @ x) else ?en)"
    have o: "(if ?en = DetectEndianness then order (part @ x @ y) else ?en) = en'"
      using order_start [of "part @ x" y] False by (simp add: en'_def)
    have k: "en' \<noteq> DetectEndianness" "(if endian = DetectEndianness then en' else endian) = en'"
      using order_known by (auto simp: en'_def)
    let ?us = "units en' (part @ x)" and ?l = "left_over width (part @ x)"
    have s1: "us = (if h then ?us else skip_first bom ?us)" "v1 = (True, en', ?l)"
      using assms(1) False unfolding v by (auto simp: reader_step_def Let_def en'_def)
    have "vs = units en' (?l @ y) \<and> v2 = (True, en', left_over width (?l @ y))"
    proof (cases "length (?l @ y) < width")
      case True
      then have "left_over width (?l @ y) = ?l @ y" by (simp add: left_over_def)
      moreover have "units en' (?l @ y) = []" using True units_none by blast
      ultimately show ?thesis using assms(2) True k unfolding s1(2) by (simp add: reader_step_def Let_def)
    next
      case False
      then show ?thesis using assms(2) k unfolding s1(2) by (simp add: reader_step_def Let_def)
    qed
    moreover have "units en' (part @ x @ y) = ?us @ units en' (?l @ y)" using units_append [of en' "part @ x" y] by simp
    moreover have "left_over width (part @ x @ y) = left_over width (?l @ y)" using left_over_append [of width "part @ x" y] by simp
    moreover have "?us \<noteq> []" using False units_none by blast
    ultimately show ?thesis using False o s1(1) unfolding v by (simp add: reader_step_def Let_def skip_first_append)
  qed
qed

lemma two_converts:
  assumes "ok st"
  shows "runs_alike alike_decoder (then_run (fst (convert x st)) (convert y (snd (convert x st)))) (convert (x @ y) st)"
proof -
  obtain us v1 where 1: "step (decoder_view st) x = (us, v1)" by (cases "step (decoder_view st) x")
  obtain vs v2 where 2: "step v1 y = (vs, v2)" by (cases "step v1 y")
  have a: "fst (convert x st) = as_text us" "decoder_view (snd (convert x st)) = v1" using convert_step [OF assms 1] by simp_all
  have b: "fst (convert y (snd (convert x st))) = as_text vs" "decoder_view (snd (convert y (snd (convert x st)))) = v2"
    using convert_step [OF ok_step [OF assms], of x y vs v2] 2 a(2) by simp_all
  have c: "fst (convert (x @ y) st) = as_text (us @ vs)" "decoder_view (snd (convert (x @ y) st)) = v2"
    using convert_step [OF assms two_steps [OF 1 2]] by simp_all
  show ?thesis using a b c flags_step [OF assms] flags_step [OF ok_step [OF assms]]
    by (simp add: runs_alike_def alike_decoder_def text_append)
qed

end

sublocale endian_decoder \<subseteq> chunked_converter convert ok alike_decoder
  by unfold_locales (simp_all add: ok_step two_converts alike_decoder_def)

end
