(* ===== verification/Utf16Codec.thy ===== *)
theory Utf16Codec
  imports EndianDecoder
begin

text \<open>
  \<open>QUtf16\<close> of \<open>src/corelib/text/qstringconverter.cpp\<close>: UTF-16 in either byte order or the one a byte
  order mark tells. The byte order of the machine is a parameter.
\<close>

section \<open>Code\<close>

definition hostOrder :: "bool \<Rightarrow> DataEndianness" where
  "hostOrder hostBigEndian = (if hostBigEndian then BigEndianness else LittleEndianness)"

text \<open>\<open>qToBigEndian\<close>, \<open>qToLittleEndian\<close> and the way back, and \<open>QChar(cell, row)\<close>.\<close>

definition toEndian :: "DataEndianness \<Rightarrow> 16 word \<Rightarrow> 8 word list" where
  "toEndian endian u = (if endian = BigEndianness then [ucast (drop_bit 8 u), ucast u] else [ucast u, ucast (drop_bit 8 u)])"

definition QChar_of :: "8 word \<Rightarrow> 8 word \<Rightarrow> 16 word" where
  "QChar_of c r = push_bit 8 (ucast r) OR ucast c"

fun fromEndian :: "DataEndianness \<Rightarrow> 8 word list \<Rightarrow> 16 word list" where
  "fromEndian endian (a # b # src) = (if endian = BigEndianness then QChar_of b a else QChar_of a b) # fromEndian endian src"
| "fromEndian endian src = []"

definition utf16_convertFromUnicode ::
    "bool \<Rightarrow> DataEndianness \<Rightarrow> 16 word list \<Rightarrow> ConverterState \<Rightarrow> 8 word list \<times> ConverterState" where
  "utf16_convertFromUnicode hostBigEndian endian src st =
     (let writeBom = (\<not> HeaderDone st \<and> WriteBom st);
          endian = (if endian = DetectEndianness then hostOrder hostBigEndian else endian);
          bom = (if writeBom then toEndian endian ByteOrderMark else [])
      in (bom @ concat (map (toEndian endian) src), st\<lparr>remainingChars := 0, HeaderDone := True\<rparr>))"

definition swapBytes :: "16 word \<Rightarrow> 16 word" where
  "swapBytes ch = drop_bit 8 ch OR push_bit 8 (ch AND 0xff)"

definition detectEndian :: "bool \<Rightarrow> DataEndianness \<Rightarrow> 16 word \<Rightarrow> DataEndianness" where
  "detectEndian hostBigEndian endian ch =
     (if endian = DetectEndianness
      then if ch = ByteOrderSwapped then BigEndianness
           else if ch = ByteOrderMark then LittleEndianness
           else hostOrder hostBigEndian
      else endian)"

text \<open>The first character of a call: what is written, what is left, the byte order and the state.\<close>

definition utf16_first ::
    "bool \<Rightarrow> DataEndianness \<Rightarrow> 8 word list \<Rightarrow> ConverterState \<Rightarrow> 16 word list \<times> 8 word list \<times> DataEndianness \<times> ConverterState" where
  "utf16_first hostBigEndian endian chars st =
     (let headerdone = (HeaderDone st \<or> ConvertInitialBom st)
      in if \<not> headerdone \<or> remainingChars st \<noteq> 0
         then let (buf, chars) = (if remainingChars st \<noteq> 0 then (hd (state_bytes st), chars) else (hd chars, tl chars));
                  ch = QChar_of buf (hd chars);
                  chars = tl chars;
                  endian = detectEndian hostBigEndian endian ch;
                  ch = (if endian = BigEndianness then swapBytes ch else ch)
              in (if headerdone \<or> ch \<noteq> ByteOrderMark then [ch] else [], chars, endian, st\<lparr>HeaderDone := True\<rparr>)
         else ([], chars, if endian = DetectEndianness then hostOrder hostBigEndian else endian, st))"

definition utf16_convertToUnicode ::
    "bool \<Rightarrow> DataEndianness \<Rightarrow> 8 word list \<Rightarrow> ConverterState \<Rightarrow> 16 word list \<times> ConverterState" where
  "utf16_convertToUnicode hostBigEndian endian src st =
     (let endian = (if endian = DetectEndianness then state_endian st else endian)
      in if remainingChars st + length src < 2
         then (if src \<noteq> [] then ([], st\<lparr>remainingChars := 1, state_bytes := [hd src]\<rparr>) else ([], st))
         else let (pre, chars, endian, st) = utf16_first hostBigEndian endian src st;
                  out = pre @ fromEndian endian chars;
                  st = st\<lparr>state_endian := endian, remainingChars := 0\<rparr>
              in if odd (length chars)
                 then if Stateless st then (out @ [decode_replacement st], st)
                      else (out, st\<lparr>remainingChars := 1, state_bytes := [last src]\<rparr>)
                 else (out, st\<lparr>state_bytes := [0]\<rparr>))"

section \<open>Both ways\<close>

lemma QChar_of_bytes: "QChar_of (ucast u) (ucast (drop_bit 8 u)) = u"
  unfolding QChar_of_def
  by (rule bit_word_eqI) (auto simp: bit_or_iff bit_push_bit_iff bit_ucast_iff bit_drop_bit_eq dest: bit_imp_le_length)

lemma fromEndian_toEndian: "fromEndian endian (concat (map (toEndian endian) s)) = s"
  by (induction s) (auto simp: toEndian_def QChar_of_bytes)

lemma swap_QChar: "swapBytes (QChar_of a b) = QChar_of b a"
proof -
  have m: "(0xff :: 16 word) = mask 8" by (simp add: mask_eq_exp_minus_1)
  show ?thesis unfolding swapBytes_def QChar_of_def m
    by (rule bit_word_eqI) (auto simp: bit_or_iff bit_and_iff bit_mask_iff bit_push_bit_iff bit_ucast_iff bit_drop_bit_eq dest: bit_imp_le_length)
qed

lemma QChar_of_eq: "QChar_of a b = QChar_of c d \<longleftrightarrow> a = c \<and> b = d"
proof
  assume e: "QChar_of a b = QChar_of c d"
  have "bit a n = bit c n \<and> bit b n = bit d n" if "n < 8" for n
    using arg_cong [OF e, of "\<lambda>u. bit u n"] arg_cong [OF e, of "\<lambda>u. bit u (n + 8)"] that
    by (auto simp: QChar_of_def bit_or_iff bit_push_bit_iff bit_ucast_iff dest: bit_imp_le_length)
  then show "a = c \<and> b = d" by (auto intro!: bit_word_eqI)
qed simp

section \<open>Chunks\<close>

text \<open>The character two bytes stand for.\<close>

definition char_in :: "DataEndianness \<Rightarrow> 8 word \<Rightarrow> 8 word \<Rightarrow> 16 word" where
  "char_in endian a b = (if endian = BigEndianness then QChar_of b a else QChar_of a b)"

lemma char_in_swap: "(if en = BigEndianness then swapBytes (QChar_of a b) else QChar_of a b) = char_in en a b"
  by (simp add: char_in_def swap_QChar)

lemma fromEndian_char: "fromEndian en (a # b # x) = char_in en a b # fromEndian en x"
  by (simp add: char_in_def)

lemma fromEndian_append: "fromEndian en (x @ y) = fromEndian en x @ fromEndian en (left_over 2 x @ y)"
proof (induction en x rule: fromEndian.induct)
  case (1 en a b x)
  have "left_over 2 (a # b # x) = left_over 2 x" using left_over_whole [of 2 "[a, b]" x] by simp
  then show ?case using 1 by simp
qed (simp_all add: left_over_def)

lemma fromEndian_none: "fromEndian en x = [] \<longleftrightarrow> length x < 2"
  by (cases "(en, x)" rule: fromEndian.cases) auto

lemma left_over_odd: "left_over 2 x = (if odd (length x) then [last x] else [])"
proof (cases "odd (length x)")
  case True
  then have "length x mod 2 = 1" "x \<noteq> []" by (auto simp: odd_iff_mod_2_eq_one)
  then show ?thesis using True append_butlast_last_id [of x]
    by (metis One_nat_def append_eq_conv_conj left_over_def length_butlast)
qed (simp add: left_over_def even_iff_mod_2_eq_zero)

text \<open>The byte order the first two bytes tell.\<close>

definition order16 :: "bool \<Rightarrow> 8 word list \<Rightarrow> DataEndianness" where
  "order16 hostBigEndian bytes = detectEndian hostBigEndian DetectEndianness (QChar_of (bytes ! 0) (bytes ! 1))"

text \<open>
  A decoder with at most a byte kept. One that shall detect the order and give the mark too has not
  begun right: without a byte that waits it takes the order of the machine unseen.
\<close>

definition decoder16_ok :: "DataEndianness \<Rightarrow> ConverterState \<Rightarrow> bool" where
  "decoder16_ok endian st \<longleftrightarrow> \<not> Stateless st \<and> remainingChars st \<le> 1 \<and> remainingChars st \<le> length (state_bytes st)
    \<and> (endian = DetectEndianness \<and> (HeaderDone st \<or> ConvertInitialBom st) \<longrightarrow> state_endian st \<noteq> DetectEndianness)"

lemma kept_byte:
  assumes "decoder16_ok e st"
  shows "length (take (remainingChars st) (state_bytes st)) = remainingChars st"
    "remainingChars st \<noteq> 0 \<Longrightarrow> take (remainingChars st) (state_bytes st) = [hd (state_bytes st)]"
proof -
  show "length (take (remainingChars st) (state_bytes st)) = remainingChars st" using assms by (simp add: decoder16_ok_def)
  assume "remainingChars st \<noteq> 0"
  then have "remainingChars st = 1" "state_bytes st \<noteq> []" using assms by (auto simp: decoder16_ok_def)
  then show "take (remainingChars st) (state_bytes st) = [hd (state_bytes st)]" by (cases "state_bytes st") simp_all
qed

lemma utf16_first_step:
  assumes ok: "decoder16_ok e st" and part: "part = take (remainingChars st) (state_bytes st)" and l: "2 \<le> length (part @ y)"
    and en: "en = (if e = DetectEndianness then state_endian st else e)"
    and en': "en' = (if en = DetectEndianness then order16 host (part @ y) else en)"
    and hd: "headerdone = (HeaderDone st \<or> ConvertInitialBom st)"
  obtains pre chars d where "utf16_first host en y st = (pre, chars, en', st\<lparr>HeaderDone := d\<rparr>)" "d \<or> ConvertInitialBom st"
    "pre @ fromEndian en' chars = (if headerdone then fromEndian en' (part @ y) else skip_first ByteOrderMark (fromEndian en' (part @ y)))"
    "odd (length chars) = odd (length (part @ y))"
proof (cases "headerdone \<and> part = []")
  case True
  have "remainingChars st = length part" unfolding part by (rule kept_byte(1) [OF ok, symmetric])
  then have "remainingChars st = 0" using True by simp
  then have "utf16_first host en y st = ([], y, en', st\<lparr>HeaderDone := HeaderDone st\<rparr>)"
    using True ok en en' hd by (auto simp: utf16_first_def decoder16_ok_def)
  then show ?thesis by (rule that) (use True hd in auto)
next
  case False
  obtain a b r where ab: "part @ y = a # b # r" using l by (cases "part @ y"; cases "tl (part @ y)") auto
  have d: "detectEndian host en (QChar_of a b) = en'" unfolding en' ab by (simp add: order16_def detectEndian_def)
  have "utf16_first host en y st = (if headerdone \<or> char_in en' a b \<noteq> ByteOrderMark then [char_in en' a b] else [], r, en', st\<lparr>HeaderDone := True\<rparr>)"
  proof (cases "remainingChars st = 0")
    case True
    then have "y = a # b # r" using part ab by simp
    then show ?thesis using True False hd part by (simp add: utf16_first_def d char_in_swap)
  next
    case rem: False
    then have "hd (state_bytes st) = a" "y = b # r" using kept_byte(2) [OF ok rem] part ab by auto
    then show ?thesis using rem hd by (simp add: utf16_first_def d char_in_swap)
  qed
  then show ?thesis by (rule that) (auto simp: ab fromEndian_char skip_first_def simp del: fromEndian.simps)
qed

lemma utf16_decoder_step:
  assumes ok: "decoder16_ok e st"
    and step: "reader_step 2 fromEndian ByteOrderMark (order16 host) e (decoder_view st) y = (us, v)"
  shows "decoder16_ok e (snd (utf16_convertToUnicode host e y st)) \<and> decoder_flags (snd (utf16_convertToUnicode host e y st)) = decoder_flags st
    \<and> fst (utf16_convertToUnicode host e y st) = us \<and> decoder_view (snd (utf16_convertToUnicode host e y st)) = v"
proof -
  define part where part: "part = take (remainingChars st) (state_bytes st)"
  have rem: "remainingChars st = length part" using kept_byte(1) [OF ok] part by simp
  show ?thesis
  proof (cases "length (part @ y) < 2")
    case True
    then have "us = []" "v = (HeaderDone st \<or> ConvertInitialBom st, state_endian st, part @ y)"
      using step unfolding decoder_view_def part [symmetric] by (simp_all add: reader_step_def Let_def)
    moreover have "utf16_convertToUnicode host e y st = ([], if y = [] then st else st\<lparr>remainingChars := 1, state_bytes := [hd y]\<rparr>)"
      using True rem by (simp add: utf16_convertToUnicode_def)
    moreover have "y = [] \<or> part = [] \<and> y = [hd y]" using True by (cases y) auto
    moreover have "decoder16_ok e (st\<lparr>remainingChars := 1, state_bytes := [hd y]\<rparr>)" using ok by (simp add: decoder16_ok_def)
    ultimately show ?thesis using ok part by (auto simp: decoder_flags_def decoder_view_def)
  next
    case False
    define en where en: "en = (if e = DetectEndianness then state_endian st else e)"
    define en' where en': "en' = (if en = DetectEndianness then order16 host (part @ y) else en)"
    obtain pre chars d where f: "utf16_first host en y st = (pre, chars, en', st\<lparr>HeaderDone := d\<rparr>)" "d \<or> ConvertInitialBom st"
      "pre @ fromEndian en' chars = (if HeaderDone st \<or> ConvertInitialBom st then fromEndian en' (part @ y) else skip_first ByteOrderMark (fromEndian en' (part @ y)))"
      "odd (length chars) = odd (length (part @ y))"
      by (rule utf16_first_step [OF ok part _ en en' refl]) (use False in auto)
    have v: "us = pre @ fromEndian en' chars" "v = (True, en', left_over 2 (part @ y))"
      using step False f(3) unfolding decoder_view_def part [symmetric] by (auto simp: reader_step_def Let_def en en')
    have k: "en' \<noteq> DetectEndianness" by (auto simp: en' order16_def detectEndian_def hostOrder_def)
    have "length part \<le> 1" using ok rem by (simp add: decoder16_ok_def)
    then have y: "y \<noteq> []" using False by auto
    then have y: "y \<noteq> []" "last y = last (part @ y)" by simp_all
    have "2 \<le> remainingChars st + length y" using False rem by simp
    then show ?thesis using f(1,2,4) v k y ok
      by (auto simp: utf16_convertToUnicode_def en [symmetric] decoder16_ok_def decoder_flags_def decoder_view_def left_over_odd Let_def)
  qed
qed

interpretation utf16_decoder: endian_decoder 2 fromEndian ByteOrderMark "order16 host" "\<lambda>us. us" endian "decoder16_ok endian"
    "utf16_convertToUnicode host endian" for host endian
proof unfold_locales
  fix st y us v
  assume ok: "decoder16_ok endian st"
  show "decoder16_ok endian (snd (utf16_convertToUnicode host endian y st))"
    "decoder_flags (snd (utf16_convertToUnicode host endian y st)) = decoder_flags st"
    using utf16_decoder_step [OF ok, of host y] by (metis prod.exhaust)+
  assume "reader_step 2 fromEndian ByteOrderMark (order16 host) endian (decoder_view st) y = (us, v)"
  then show "fst (utf16_convertToUnicode host endian y st) = us \<and> decoder_view (snd (utf16_convertToUnicode host endian y st)) = v"
    using utf16_decoder_step [OF ok] by blast
next
  fix x y :: "8 word list"
  show "order16 host x \<noteq> DetectEndianness" by (simp add: order16_def detectEndian_def hostOrder_def)
  show "order16 host (x @ y) = order16 host x" if "2 \<le> length x" using that by (auto simp: order16_def nth_append)
  show "fromEndian en (x @ y) = fromEndian en x @ fromEndian en (left_over 2 x @ y)" for en by (rule fromEndian_append)
  show "fromEndian en x = [] \<longleftrightarrow> length x < 2" for en by (rule fromEndian_none)
qed simp_all

text \<open>The encoder keeps nothing but that the mark is written.\<close>

interpretation utf16_encoder: chunked_converter "utf16_convertFromUnicode host endian" "\<lambda>st. True" "(=)" for host endian
  by unfold_locales (auto simp: runs_alike_def utf16_convertFromUnicode_def Let_def)

end
