(* ===== verification/Utf32Codec.thy ===== *)
theory Utf32Codec
  imports EndianDecoder Utf16Codec Utf8Char
begin

text \<open>\<open>QUtf32\<close> of \<open>src/corelib/text/qstringconverter.cpp\<close>: four bytes a code point, in either byte order.\<close>

section \<open>Code\<close>

definition toEndian32 :: "DataEndianness \<Rightarrow> 32 word \<Rightarrow> 8 word list" where
  "toEndian32 endian u =
     (let bytes = [ucast (drop_bit 24 u), ucast (drop_bit 16 u), ucast (drop_bit 8 u), ucast u]
      in if endian = BigEndianness then bytes else rev bytes)"

definition UInt_of :: "8 word \<Rightarrow> 8 word \<Rightarrow> 8 word \<Rightarrow> 8 word \<Rightarrow> 32 word" where
  "UInt_of a b c d = push_bit 24 (ucast a) OR push_bit 16 (ucast b) OR push_bit 8 (ucast c) OR ucast d"

fun fromEndian32 :: "DataEndianness \<Rightarrow> 8 word list \<Rightarrow> 32 word list" where
  "fromEndian32 endian (a # b # c # d # src) =
     (if endian = BigEndianness then UInt_of a b c d else UInt_of d c b a) # fromEndian32 endian src"
| "fromEndian32 endian src = []"

text \<open>\<open>QChar::fromUcs4\<close>.\<close>

definition fromUcs4 :: "32 word \<Rightarrow> 16 word list" where
  "fromUcs4 c = (if requiresSurrogates c then [highSurrogate c, lowSurrogate c] else [ucast c])"

definition utf32_replacement :: "ConverterState \<Rightarrow> 32 word" where
  "utf32_replacement st = (if ConvertInvalidToNull st then 0 else ucast ReplacementCharacter)"

text \<open>\<open>decode_surrogate\<close>: the code point of a high surrogate and what follows, unless that is yet to come.\<close>

definition utf32_surrogate :: "16 word \<Rightarrow> 16 word list \<Rightarrow> ConverterState \<Rightarrow> (32 word \<times> 16 word list) option" where
  "utf32_surrogate ch src st =
     (case src of
        [] \<Rightarrow> if Stateless st then Some (utf32_replacement st, []) else None
      | uc # rest \<Rightarrow>
          if isLowSurrogate (ucast uc) then Some (surrogateToUcs4 ch uc, rest)
          else Some (utf32_replacement st, src))"

lemma utf32_surrogate_shorter: "utf32_surrogate ch src st = Some (u, rest) \<Longrightarrow> length rest \<le> length src"
  by (auto simp: utf32_surrogate_def split: list.splits if_splits)

function utf32_encodeLoop :: "DataEndianness \<Rightarrow> 16 word list \<Rightarrow> ConverterState \<Rightarrow> 8 word list \<times> ConverterState" where
  "utf32_encodeLoop endian [] st = ([], st)"
| "utf32_encodeLoop endian (ch # src) st =
     (if \<not> isSurrogate (ucast ch)
      then let (out, st) = utf32_encodeLoop endian src st in (toEndian32 endian (ucast ch) @ out, st)
      else if isHighSurrogate (ucast ch)
      then case utf32_surrogate ch src st of
             None \<Rightarrow> ([], st\<lparr>remainingChars := 1, state_char := ch\<rparr>)
           | Some (ucs4, rest) \<Rightarrow> let (out, st) = utf32_encodeLoop endian rest st in (toEndian32 endian ucs4 @ out, st)
      else let ucs4 = utf32_replacement st;
               (out, st) = utf32_encodeLoop endian src st
           in (toEndian32 endian ucs4 @ out, st))"
  by pat_completeness auto
termination by (relation "measure (\<lambda>(e, src, st). length src)") (auto dest: utf32_surrogate_shorter)

definition utf32_convertFromUnicode ::
    "bool \<Rightarrow> DataEndianness \<Rightarrow> 16 word list \<Rightarrow> ConverterState \<Rightarrow> 8 word list \<times> ConverterState" where
  "utf32_convertFromUnicode hostBigEndian endian src st =
     (let writeBom = (\<not> HeaderDone st \<and> WriteBom st);
          endian = (if endian = DetectEndianness then hostOrder hostBigEndian else endian);
          bom = (if \<not> writeBom then [] else if endian = BigEndianness then [0, 0, 0xfe, 0xff] else [0xff, 0xfe, 0, 0]);
          st = (if writeBom then st\<lparr>HeaderDone := True\<rparr> else st)
      in if remainingChars st = 1
         then let ch = state_char st;
                  st = st\<lparr>remainingChars := 0\<rparr>
              in case utf32_surrogate ch src st of
                   None \<Rightarrow> (bom, st\<lparr>remainingChars := 1, state_char := ch\<rparr>)
                 | Some (ucs4, rest) \<Rightarrow>
                     let (out, st) = utf32_encodeLoop endian rest st in (bom @ toEndian32 endian ucs4 @ out, st)
         else let (out, st) = utf32_encodeLoop endian src st in (bom @ out, st))"

definition detectEndian32 :: "bool \<Rightarrow> DataEndianness \<Rightarrow> 8 word list \<Rightarrow> DataEndianness" where
  "detectEndian32 hostBigEndian endian tuple =
     (if endian = DetectEndianness
      then if take 4 tuple = [0xff, 0xfe, 0, 0] then LittleEndianness
           else if take 4 tuple = [0, 0, 0xfe, 0xff] then BigEndianness
           else hostOrder hostBigEndian
      else endian)"

text \<open>The first code point of a call: what is written, what is left and the byte order.\<close>

definition utf32_first ::
    "bool \<Rightarrow> DataEndianness \<Rightarrow> 8 word list \<Rightarrow> ConverterState \<Rightarrow> 16 word list \<times> 8 word list \<times> DataEndianness" where
  "utf32_first hostBigEndian endian chars st =
     (let headerdone = (HeaderDone st \<or> ConvertInitialBom st);
          num = remainingChars st
      in if \<not> headerdone \<or> endian = DetectEndianness \<or> num \<noteq> 0
         then let tuple = take num (state_bytes st) @ take (4 - num) chars;
                  endian = detectEndian32 hostBigEndian endian tuple;
                  code = hd (fromEndian32 endian tuple)
              in (if headerdone \<or> code \<noteq> ucast ByteOrderMark then fromUcs4 code else [], drop (4 - num) chars, endian)
         else ([], chars, endian))"

definition utf32_convertToUnicode ::
    "bool \<Rightarrow> DataEndianness \<Rightarrow> 8 word list \<Rightarrow> ConverterState \<Rightarrow> 16 word list \<times> ConverterState" where
  "utf32_convertToUnicode hostBigEndian endian src st =
     (let endian = (if endian = DetectEndianness then state_endian st else endian)
      in if remainingChars st + length src < 4
         then (if src \<noteq> []
               then ([], st\<lparr>remainingChars := remainingChars st + length src,
                            state_bytes := take (remainingChars st) (state_bytes st) @ src\<rparr>)
               else ([], st))
         else let (out, chars, endian) = utf32_first hostBigEndian endian src st;
                  st = st\<lparr>remainingChars := 0, state_endian := endian, HeaderDone := True\<rparr>;
                  out = out @ concat (map fromUcs4 (fromEndian32 endian chars));
                  rest = drop (length chars - length chars mod 4) chars
              in if rest \<noteq> []
                 then if Stateless st then (out @ [ReplacementCharacter], st)
                      else (out, st\<lparr>remainingChars := length rest, state_bytes := rest\<rparr>)
                 else (out, st))"

section \<open>Decoder\<close>

definition code_in :: "DataEndianness \<Rightarrow> 8 word \<Rightarrow> 8 word \<Rightarrow> 8 word \<Rightarrow> 8 word \<Rightarrow> 32 word" where
  "code_in endian a b c d = (if endian = BigEndianness then UInt_of a b c d else UInt_of d c b a)"

lemma fromEndian32_code: "fromEndian32 en (a # b # c # d # x) = code_in en a b c d # fromEndian32 en x"
  by (simp add: code_in_def)

lemma fromEndian32_append: "fromEndian32 en (x @ y) = fromEndian32 en x @ fromEndian32 en (left_over 4 x @ y)"
proof (induction en x rule: fromEndian32.induct)
  case (1 en a b c d x)
  have "left_over 4 (a # b # c # d # x) = left_over 4 x" using left_over_whole [of 4 "[a, b, c, d]" x] by (simp add: eval_nat_numeral)
  then show ?case using 1 by simp
qed (simp_all add: left_over_def)

lemma fromEndian32_none: "fromEndian32 en x = [] \<longleftrightarrow> length x < 4"
  by (cases "(en, x)" rule: fromEndian32.cases) auto

lemma four_more: "\<not> length t < 4 \<Longrightarrow> \<exists>a b c d r. t = a # b # c # d # r"
  by (auto simp: not_less Suc_le_length_iff eval_nat_numeral)

definition decoder32_ok :: "ConverterState \<Rightarrow> bool" where
  "decoder32_ok st \<longleftrightarrow> \<not> Stateless st \<and> remainingChars st \<le> 3 \<and> remainingChars st \<le> length (state_bytes st)"

abbreviation order32 :: "bool \<Rightarrow> 8 word list \<Rightarrow> DataEndianness" where
  "order32 hostBigEndian \<equiv> detectEndian32 hostBigEndian DetectEndianness"

abbreviation codes_text :: "32 word list \<Rightarrow> 16 word list" where
  "codes_text us \<equiv> concat (map fromUcs4 us)"

lemma utf32_decoder_step:
  assumes ok: "decoder32_ok st"
    and step: "reader_step 4 fromEndian32 (ucast ByteOrderMark) (order32 host) e (decoder_view st) y = (us, v)"
  shows "decoder32_ok (snd (utf32_convertToUnicode host e y st)) \<and> decoder_flags (snd (utf32_convertToUnicode host e y st)) = decoder_flags st
    \<and> fst (utf32_convertToUnicode host e y st) = codes_text us \<and> decoder_view (snd (utf32_convertToUnicode host e y st)) = v"
proof -
  define part where part: "part = take (remainingChars st) (state_bytes st)"
  have rem: "remainingChars st = length part" using ok part by (simp add: decoder32_ok_def)
  show ?thesis
  proof (cases "length (part @ y) < 4")
    case True
    then have v: "us = []" "v = (HeaderDone st \<or> ConvertInitialBom st, state_endian st, part @ y)"
      using step unfolding decoder_view_def part [symmetric] by (simp_all add: reader_step_def Let_def)
    have "utf32_convertToUnicode host e y st = ([], if y = [] then st else st\<lparr>remainingChars := length (part @ y), state_bytes := part @ y\<rparr>)"
      using True rem unfolding utf32_convertToUnicode_def part [symmetric] by simp
    then show ?thesis using ok v True part by (auto simp: decoder_flags_def decoder_view_def decoder32_ok_def)
  next
    case False
    define en where en: "en = (if e = DetectEndianness then state_endian st else e)"
    define en' where en': "en' = (if en = DetectEndianness then order32 host (part @ y) else en)"
    define hd' where hd': "hd' = (HeaderDone st \<or> ConvertInitialBom st)"
    have v: "us = (if hd' then fromEndian32 en' (part @ y) else skip_first (ucast ByteOrderMark) (fromEndian32 en' (part @ y)))"
        "v = (True, en', left_over 4 (part @ y))"
      using step False unfolding decoder_view_def part [symmetric] by (auto simp: reader_step_def Let_def en en' hd')
    obtain pre chars where first: "utf32_first host en y st = (pre, chars, en')" "pre @ codes_text (fromEndian32 en' chars) = codes_text us"
      "left_over 4 chars = left_over 4 (part @ y)"
    proof (cases "\<not> hd' \<or> en = DetectEndianness \<or> length part \<noteq> 0")
      case detour: True
      have "length part \<le> 3" using ok rem by (simp add: decoder32_ok_def)
      then have cut: "part @ take (4 - length part) y = take 4 (part @ y)" "drop (4 - length part) y = drop 4 (part @ y)" by simp_all
      obtain a b c d r where t: "part @ y = a # b # c # d # r"
        using four_more [of "part @ y"] False by auto
      have d: "detectEndian32 host en [a, b, c, d] = en'" unfolding en' t by (simp add: detectEndian32_def)
      have "left_over 4 (part @ y) = left_over 4 r" unfolding t using left_over_whole [of 4 "[a, b, c, d]" r] by (simp add: eval_nat_numeral)
      moreover have "take (remainingChars st) (state_bytes st) @ take (4 - remainingChars st) y = [a, b, c, d]" "drop (4 - remainingChars st) y = r"
        using cut unfolding part [symmetric] t by (simp_all add: rem)
      then have "utf32_first host en y st = (if hd' \<or> code_in en' a b c d \<noteq> ucast ByteOrderMark then fromUcs4 (code_in en' a b c d) else [], r, en')"
        using detour d unfolding utf32_first_def hd' [symmetric] by (simp add: rem Let_def fromEndian32_code del: fromEndian32.simps(1))
      ultimately show ?thesis
        by (intro that) (auto simp: v(1) t fromEndian32_code skip_first_def simp del: fromEndian32.simps(1))
    next
      case straight: False
      then have "en' = en" "part = []" by (simp_all add: en')
      then show ?thesis using straight v(1) rem hd' by (intro that [of "[]" y]) (simp_all add: utf32_first_def)
    qed
    have "length (left_over 4 chars) \<le> 3" using left_over_length [of 4 chars] mod_less_divisor [of 4 "length chars"] by simp
    moreover have "utf32_convertToUnicode host e y st =
        (codes_text us, let st = st\<lparr>remainingChars := 0, state_endian := en', HeaderDone := True\<rparr>; rest = left_over 4 chars
          in if rest \<noteq> [] then st\<lparr>remainingChars := length rest, state_bytes := rest\<rparr> else st)"
      using False ok rem first(1) unfolding utf32_convertToUnicode_def en [symmetric] left_over_def [symmetric]
      by (simp add: first(2) [symmetric] Let_def decoder32_ok_def)
    ultimately show ?thesis using ok v(2) first(3) by (auto simp: Let_def decoder_flags_def decoder_view_def decoder32_ok_def)
  qed
qed

interpretation utf32_decoder: endian_decoder 4 fromEndian32 "ucast ByteOrderMark" "order32 host" codes_text endian decoder32_ok
    "utf32_convertToUnicode host endian" for host endian
proof unfold_locales
  fix st y us v
  assume ok: "decoder32_ok st"
  show "decoder32_ok (snd (utf32_convertToUnicode host endian y st))"
    "decoder_flags (snd (utf32_convertToUnicode host endian y st)) = decoder_flags st"
    using utf32_decoder_step [OF ok, of host endian y] by (metis prod.exhaust)+
  assume "reader_step 4 fromEndian32 (ucast ByteOrderMark) (order32 host) endian (decoder_view st) y = (us, v)"
  then show "fst (utf32_convertToUnicode host endian y st) = codes_text us \<and> decoder_view (snd (utf32_convertToUnicode host endian y st)) = v"
    using utf32_decoder_step [OF ok] by blast
next
  fix x y :: "8 word list"
  show "order32 host x \<noteq> DetectEndianness" by (simp add: detectEndian32_def hostOrder_def)
  show "order32 host (x @ y) = order32 host x" if "4 \<le> length x" using that by (simp add: detectEndian32_def)
  show "fromEndian32 en (x @ y) = fromEndian32 en x @ fromEndian32 en (left_over 4 x @ y)" for en by (rule fromEndian32_append)
  show "fromEndian32 en x = [] \<longleftrightarrow> length x < 4" for en by (rule fromEndian32_none)
qed simp_all

section \<open>Encoder\<close>

text \<open>The code points of a text, and the high surrogate at its end if there is one.\<close>

fun code_points :: "32 word \<Rightarrow> 16 word list \<Rightarrow> 32 word list \<times> 16 word list" where
  "code_points r [] = ([], [])"
| "code_points r [ch] = (if isHighSurrogate (ucast ch) then ([], [ch]) else ([if isSurrogate (ucast ch) then r else ucast ch], []))"
| "code_points r (ch # u # src) =
     (if isHighSurrogate (ucast ch)
      then if isLowSurrogate (ucast u) then apfst ((#) (surrogateToUcs4 ch u)) (code_points r src)
           else apfst ((#) r) (code_points r (u # src))
      else apfst ((#) (if isSurrogate (ucast ch) then r else ucast ch)) (code_points r (u # src)))"

lemma code_points_append:
  "code_points r (x @ y) = apfst ((@) (fst (code_points r x))) (code_points r (snd (code_points r x) @ y))"
proof (induction r x rule: code_points.induct)
  case (2 r ch)
  then show ?case by (cases y) (auto simp: apfst_def map_prod_def split: prod.splits)
qed (auto simp: apfst_def map_prod_def split: prod.splits)

lemma high_is_surrogate: "isHighSurrogate (ucast (u :: 16 word)) \<Longrightarrow> isSurrogate (ucast u)"
  by (simp add: surrogate_tests)

lemma code_points_wait: "snd (code_points r x) = [] \<or> (\<exists>ch. snd (code_points r x) = [ch] \<and> isHighSurrogate (ucast ch))"
  by (induction r x rule: code_points.induct) auto

lemma code_points_length: "length (fst (code_points r x)) \<le> length x"
  by (induction r x rule: code_points.induct) auto

text \<open>The state after what waits has been put aside.\<close>

definition put_aside :: "16 word list \<Rightarrow> ConverterState \<Rightarrow> ConverterState" where
  "put_aside wait st = (if wait = [] then st else st\<lparr>remainingChars := 1, state_char := hd wait\<rparr>)"

definition codes_bytes :: "DataEndianness \<Rightarrow> 32 word list \<Rightarrow> 8 word list" where
  "codes_bytes endian us = concat (map (toEndian32 endian) us)"

lemma codes_bytes_simps [simp]:
  "codes_bytes e [] = []" "codes_bytes e (u # us) = toEndian32 e u @ codes_bytes e us" "codes_bytes e (us @ vs) = codes_bytes e us @ codes_bytes e vs"
  by (simp_all add: codes_bytes_def)

lemma encodeLoop32:
  "\<not> Stateless st \<Longrightarrow> utf32_encodeLoop e src st =
    (codes_bytes e (fst (code_points (utf32_replacement st) src)), put_aside (snd (code_points (utf32_replacement st) src)) st)"
proof (induction "utf32_replacement st" src rule: code_points.induct)
  case (2 ch)
  then show ?case by (auto simp: utf32_surrogate_def put_aside_def dest: high_is_surrogate)
next
  case (3 ch u src)
  note loop = utf32_encodeLoop.simps(2) [of e ch "u # src" st]
  consider "isHighSurrogate (ucast ch)" "isLowSurrogate (ucast u)" | "isHighSurrogate (ucast ch)" "\<not> isLowSurrogate (ucast u)"
    | "\<not> isHighSurrogate (ucast ch)" by blast
  then show ?case
  proof cases
    case 1
    then show ?thesis using 3(1) [OF 1 3(4)] high_is_surrogate by (simp add: utf32_surrogate_def)
  next
    case 2
    then show ?thesis using 3(2) [OF 2 3(4)] high_is_surrogate by (simp add: loop utf32_surrogate_def del: utf32_encodeLoop.simps(2))
  next
    case l: 3
    then show ?thesis using 3(3) [OF l 3(4)] by (simp add: loop del: utf32_encodeLoop.simps(2))
  qed
qed (simp add: put_aside_def)

text \<open>What waits, and an encoder in which no more than a high surrogate does.\<close>

definition waiting :: "ConverterState \<Rightarrow> 16 word list" where
  "waiting st = (if remainingChars st = 1 then [state_char st] else [])"

definition encoder32_ok :: "ConverterState \<Rightarrow> bool" where
  "encoder32_ok st \<longleftrightarrow> \<not> Stateless st \<and> remainingChars st \<le> 1
    \<and> (remainingChars st = 1 \<longrightarrow> isHighSurrogate (ucast (state_char st)) \<and> (HeaderDone st \<or> \<not> WriteBom st))"

definition alike_encoder :: "ConverterState \<Rightarrow> ConverterState \<Rightarrow> bool" where
  "alike_encoder st st' \<longleftrightarrow> decoder_flags st = decoder_flags st' \<and> HeaderDone st = HeaderDone st' \<and> waiting st = waiting st'"

definition bom32 :: "DataEndianness \<Rightarrow> ConverterState \<Rightarrow> 8 word list" where
  "bom32 e st = (if \<not> HeaderDone st \<and> WriteBom st then codes_bytes e [ucast ByteOrderMark] else [])"

lemma utf32_encoder_call:
  assumes ok: "encoder32_ok st" and e: "e' = (if e = DetectEndianness then hostOrder host else e)"
    and c: "code_points (utf32_replacement st) (waiting st @ src) = (us, wait)"
  shows "utf32_convertFromUnicode host e src st =
    (bom32 e' st @ codes_bytes e' us, put_aside wait (st\<lparr>remainingChars := 0, HeaderDone := HeaderDone st \<or> WriteBom st\<rparr>))"
proof -
  have b: "(if e' = BigEndianness then [0, 0, 0xfe, 0xff] else [0xff, 0xfe, 0, 0]) = codes_bytes e' [ucast ByteOrderMark]"
    by (simp add: toEndian32_def ByteOrderMark_def)
  define st1 where "st1 = (if \<not> HeaderDone st \<and> WriteBom st then st\<lparr>HeaderDone := True\<rparr> else st)"
  have st1: "st1\<lparr>remainingChars := 0\<rparr> = st\<lparr>remainingChars := 0, HeaderDone := HeaderDone st \<or> WriteBom st\<rparr>" "remainingChars st1 = remainingChars st"
    "state_char st1 = state_char st" "\<not> Stateless (st1\<lparr>remainingChars := 0\<rparr>)"
    "utf32_replacement (st1\<lparr>remainingChars := 0\<rparr>) = utf32_replacement st" "\<not> Stateless st1" "utf32_replacement st1 = utf32_replacement st"
    using ok by (auto simp: st1_def encoder32_ok_def utf32_replacement_def)
  have call: "utf32_convertFromUnicode host e src st =
      (if remainingChars st1 = 1
       then (case utf32_surrogate (state_char st1) src (st1\<lparr>remainingChars := 0\<rparr>) of
               None \<Rightarrow> (bom32 e' st, st1\<lparr>remainingChars := 0, remainingChars := 1, state_char := state_char st1\<rparr>)
             | Some (ucs4, rest) \<Rightarrow> let (out, st2) = utf32_encodeLoop e' rest (st1\<lparr>remainingChars := 0\<rparr>)
                 in (bom32 e' st @ toEndian32 e' ucs4 @ out, st2))
       else let (out, st2) = utf32_encodeLoop e' src st1 in (bom32 e' st @ out, st2))"
    unfolding utf32_convertFromUnicode_def e [symmetric] bom32_def b [symmetric] st1_def Let_def
    by (cases "\<not> HeaderDone st \<and> WriteBom st") (simp_all only: simp_thms if_True if_False)
  show ?thesis
  proof (cases "remainingChars st = 1")
    case True
    have h: "isHighSurrogate (ucast (state_char st))" "isSurrogate (ucast (state_char st))"
      using ok True high_is_surrogate by (auto simp: encoder32_ok_def)
    have "utf32_encodeLoop e' (state_char st # src) (st1\<lparr>remainingChars := 0\<rparr>) = (codes_bytes e' us, put_aside wait (st1\<lparr>remainingChars := 0\<rparr>))"
      using encodeLoop32 [OF st1(4), of e' "state_char st # src"] c True by (simp add: st1(5) waiting_def del: utf32_encodeLoop.simps)
    then have loop: "(case utf32_surrogate (state_char st) src (st1\<lparr>remainingChars := 0\<rparr>) of
             None \<Rightarrow> ([], st1\<lparr>remainingChars := 0, remainingChars := 1, state_char := state_char st\<rparr>)
           | Some (ucs4, rest) \<Rightarrow> let (out, st) = utf32_encodeLoop e' rest (st1\<lparr>remainingChars := 0\<rparr>) in (toEndian32 e' ucs4 @ out, st))
        = (codes_bytes e' us, put_aside wait (st1\<lparr>remainingChars := 0\<rparr>))" by (simp add: h)
    have "utf32_convertFromUnicode host e src st = (bom32 e' st @ codes_bytes e' us, put_aside wait (st1\<lparr>remainingChars := 0\<rparr>))"
    proof (cases "utf32_surrogate (state_char st) src (st1\<lparr>remainingChars := 0\<rparr>)")
      case None
      then show ?thesis using loop True unfolding call by (simp add: st1(2,3))
    next
      case (Some p)
      then obtain ucs4 rest where p: "utf32_surrogate (state_char st) src (st1\<lparr>remainingChars := 0\<rparr>) = Some (ucs4, rest)" by (cases p) auto
      obtain out st2 where l: "utf32_encodeLoop e' rest (st1\<lparr>remainingChars := 0\<rparr>) = (out, st2)" by fastforce
      show ?thesis using loop True p l unfolding call by (simp add: st1(2,3))
    qed
    then show ?thesis by (simp add: st1(1))
  next
    case False
    then have r: "remainingChars st = 0" using ok by (simp add: encoder32_ok_def)
    have "st1 = st1\<lparr>remainingChars := 0\<rparr>" using r by (simp add: st1_def)
    then have "utf32_encodeLoop e' src st1 = (codes_bytes e' us, put_aside wait (st1\<lparr>remainingChars := 0\<rparr>))"
      using encodeLoop32 [OF st1(6), of e' src] c False by (simp add: st1(7) waiting_def)
    then show ?thesis using False unfolding call by (simp add: st1(1) [symmetric] st1(2))
  qed
qed

lemma put_aside_simps [simp]:
  "Stateless (put_aside w st) = Stateless st" "WriteBom (put_aside w st) = WriteBom st" "HeaderDone (put_aside w st) = HeaderDone st"
  "utf32_replacement (put_aside w st) = utf32_replacement st" "decoder_flags (put_aside w st) = decoder_flags st"
  by (simp_all add: put_aside_def utf32_replacement_def decoder_flags_def)

lemma flags_updates [simp]: "decoder_flags (st\<lparr>remainingChars := n, HeaderDone := h\<rparr>) = decoder_flags st"
  by (simp add: decoder_flags_def)

lemma utf32_encoder_state:
  assumes ok: "encoder32_ok st" and c: "code_points (utf32_replacement st) (waiting st @ src) = (us, wait)"
  shows "encoder32_ok (snd (utf32_convertFromUnicode host e src st))" "waiting (snd (utf32_convertFromUnicode host e src st)) = wait"
proof -
  have "wait = [] \<or> (\<exists>ch. wait = [ch] \<and> isHighSurrogate (ucast ch))"
    using code_points_wait [of "utf32_replacement st" "waiting st @ src"] c by simp
  then show "encoder32_ok (snd (utf32_convertFromUnicode host e src st))" "waiting (snd (utf32_convertFromUnicode host e src st)) = wait"
    using ok unfolding utf32_encoder_call [OF ok refl c]
    by (auto simp: encoder32_ok_def waiting_def put_aside_def)
qed

lemma utf32_encoder_two_calls:
  assumes ok: "encoder32_ok st"
  shows "runs_alike alike_encoder (then_run (fst (utf32_convertFromUnicode host e x st)) (utf32_convertFromUnicode host e y (snd (utf32_convertFromUnicode host e x st))))
    (utf32_convertFromUnicode host e (x @ y) st)"
proof -
  let ?r = "utf32_replacement st" and ?e = "if e = DetectEndianness then hostOrder host else e"
  obtain us w where 1: "code_points ?r (waiting st @ x) = (us, w)" by (cases "code_points ?r (waiting st @ x)")
  obtain vs w' where 2: "code_points ?r (w @ y) = (vs, w')" by (cases "code_points ?r (w @ y)")
  have 3: "code_points ?r (waiting st @ x @ y) = (us @ vs, w')"
    using code_points_append [of ?r "waiting st @ x" y] 1 2 by simp
  let ?st = "snd (utf32_convertFromUnicode host e x st)"
  have r: "utf32_replacement ?st = ?r" "HeaderDone ?st = (HeaderDone st \<or> WriteBom st)" "WriteBom ?st = WriteBom st"
      "decoder_flags ?st = decoder_flags st"
    unfolding utf32_encoder_call [OF ok refl 1] by simp_all (simp_all add: utf32_replacement_def decoder_flags_def)
  have 2: "code_points (utf32_replacement ?st) (waiting ?st @ y) = (vs, w')" using 2 by (simp add: r utf32_encoder_state(2) [OF ok 1])
  note ok1 = utf32_encoder_state(1) [OF ok 1, of host e]
  let ?st2 = "snd (utf32_convertFromUnicode host e y ?st)" and ?st3 = "snd (utf32_convertFromUnicode host e (x @ y) st)"
  have "decoder_flags ?st2 = decoder_flags ?st3 \<and> HeaderDone ?st2 = HeaderDone ?st3"
    unfolding utf32_encoder_call [OF ok refl 3] utf32_encoder_call [OF ok1 refl 2] using r(2-4) by simp
  moreover have "waiting ?st2 = waiting ?st3"
    by (simp add: utf32_encoder_state(2) [OF ok 3] utf32_encoder_state(2) [OF ok1 2])
  moreover have "fst (utf32_convertFromUnicode host e x st) @ fst (utf32_convertFromUnicode host e y ?st) = fst (utf32_convertFromUnicode host e (x @ y) st)"
    unfolding utf32_encoder_call [OF ok refl 3] utf32_encoder_call [OF ok1 refl 2]
    using r by (simp add: utf32_encoder_call [OF ok refl 1] bom32_def)
  ultimately show ?thesis by (simp add: runs_alike_def alike_encoder_def)
qed

interpretation utf32_encoder: chunked_converter "utf32_convertFromUnicode host endian" encoder32_ok alike_encoder for host endian
  by unfold_locales (auto intro: utf32_encoder_state(1) [OF _ surjective_pairing] utf32_encoder_two_calls simp: alike_encoder_def)

end
