(* ===== verification/StringConverter.thy ===== *)
theory StringConverter
  imports Utf8Bounds Utf32Codec "HOL-Library.Char_ord"
begin

text \<open>
  \<open>QStringEncoder\<close> and \<open>QStringDecoder\<close> (\<open>qstringconverter.h\<close>, \<open>qstringconverter_base.h\<close>): the encodings, the
  table of their routines, the converters that call them and the names of the encodings. The model
  is of a system whose own encoding is UTF-8 and of a build without ICU.
\<close>

section \<open>Latin-1\<close>

definition qt_from_latin1 :: "8 word list \<Rightarrow> 16 word list" where
  "qt_from_latin1 str = map ucast str"

definition latin1_convertToUnicode :: "8 word list \<Rightarrow> ConverterState \<Rightarrow> 16 word list \<times> ConverterState" where
  "latin1_convertToUnicode src st = (qt_from_latin1 src, st)"

fun latin1_loop :: "8 word \<Rightarrow> 16 word list \<Rightarrow> nat \<Rightarrow> 8 word list \<times> nat" where
  "latin1_loop replacement [] invalid = ([], invalid)"
| "latin1_loop replacement (c # src) invalid =
     (if c > 0xff
      then let (out, invalid) = latin1_loop replacement src (invalid + 1) in (replacement # out, invalid)
      else let (out, invalid) = latin1_loop replacement src invalid in (ucast c # out, invalid))"

definition latin1_convertFromUnicode :: "16 word list \<Rightarrow> ConverterState \<Rightarrow> 8 word list \<times> ConverterState" where
  "latin1_convertFromUnicode src st =
     (let replacement = (if \<not> Stateless st \<and> ConvertInvalidToNull st then 0 else 0x3f);
          (out, invalid) = latin1_loop replacement src 0
      in (out, if \<not> Stateless st then st\<lparr>invalidChars := invalidChars st + invalid\<rparr> else st))"

section \<open>Interfaces\<close>

datatype Encoding = Utf8 | Utf16 | Utf16LE | Utf16BE | Utf32 | Utf32LE | Utf32BE | Latin1 | System

text \<open>The rows of \<open>encodingInterfaces\<close>: name, decoder, encoder and the room they ask for.\<close>

fun iface_name :: "Encoding \<Rightarrow> string" where
  "iface_name Utf8 = ''UTF-8''"
| "iface_name Utf16 = ''UTF-16''"
| "iface_name Utf16LE = ''UTF-16LE''"
| "iface_name Utf16BE = ''UTF-16BE''"
| "iface_name Utf32 = ''UTF-32''"
| "iface_name Utf32LE = ''UTF-32LE''"
| "iface_name Utf32BE = ''UTF-32BE''"
| "iface_name Latin1 = ''ISO-8859-1''"
| "iface_name System = ''Locale''"

fun iface_toUtf16 :: "bool \<Rightarrow> Encoding \<Rightarrow> 8 word list \<Rightarrow> ConverterState \<Rightarrow> 16 word list \<times> ConverterState" where
  "iface_toUtf16 host Utf8 = utf8_convertToUnicode"
| "iface_toUtf16 host Utf16 = utf16_convertToUnicode host DetectEndianness"
| "iface_toUtf16 host Utf16LE = utf16_convertToUnicode host LittleEndianness"
| "iface_toUtf16 host Utf16BE = utf16_convertToUnicode host BigEndianness"
| "iface_toUtf16 host Utf32 = utf32_convertToUnicode host DetectEndianness"
| "iface_toUtf16 host Utf32LE = utf32_convertToUnicode host LittleEndianness"
| "iface_toUtf16 host Utf32BE = utf32_convertToUnicode host BigEndianness"
| "iface_toUtf16 host Latin1 = latin1_convertToUnicode"
| "iface_toUtf16 host System = utf8_convertToUnicode"

fun iface_fromUtf16 :: "bool \<Rightarrow> Encoding \<Rightarrow> 16 word list \<Rightarrow> ConverterState \<Rightarrow> 8 word list \<times> ConverterState" where
  "iface_fromUtf16 host Utf8 = utf8_convertFromUnicode"
| "iface_fromUtf16 host Utf16 = utf16_convertFromUnicode host DetectEndianness"
| "iface_fromUtf16 host Utf16LE = utf16_convertFromUnicode host LittleEndianness"
| "iface_fromUtf16 host Utf16BE = utf16_convertFromUnicode host BigEndianness"
| "iface_fromUtf16 host Utf32 = utf32_convertFromUnicode host DetectEndianness"
| "iface_fromUtf16 host Utf32LE = utf32_convertFromUnicode host LittleEndianness"
| "iface_fromUtf16 host Utf32BE = utf32_convertFromUnicode host BigEndianness"
| "iface_fromUtf16 host Latin1 = latin1_convertFromUnicode"
| "iface_fromUtf16 host System = utf8_convertFromUnicode"

fun iface_toUtf16Len :: "Encoding \<Rightarrow> nat \<Rightarrow> nat" where
  "iface_toUtf16Len Utf8 l = l + 1"
| "iface_toUtf16Len Utf16 l = l div 2 + 2"
| "iface_toUtf16Len Utf16LE l = l div 2 + 2"
| "iface_toUtf16Len Utf16BE l = l div 2 + 2"
| "iface_toUtf16Len Utf32 l = l div 2 + 2"
| "iface_toUtf16Len Utf32LE l = l div 2 + 2"
| "iface_toUtf16Len Utf32BE l = l div 2 + 2"
| "iface_toUtf16Len Latin1 l = l + 1"
| "iface_toUtf16Len System l = l + 1"

fun iface_fromUtf16Len :: "Encoding \<Rightarrow> nat \<Rightarrow> nat" where
  "iface_fromUtf16Len Utf8 l = 3 * (l + 1)"
| "iface_fromUtf16Len Utf16 l = 2 * (l + 1)"
| "iface_fromUtf16Len Utf16LE l = 2 * (l + 1)"
| "iface_fromUtf16Len Utf16BE l = 2 * (l + 1)"
| "iface_fromUtf16Len Utf32 l = 4 * (l + 1)"
| "iface_fromUtf16Len Utf32LE l = 4 * (l + 1)"
| "iface_fromUtf16Len Utf32BE l = 4 * (l + 1)"
| "iface_fromUtf16Len Latin1 l = l + 1"
| "iface_fromUtf16Len System l = 3 * (l + 1)"

section \<open>Names\<close>

definition isAsciiUpper :: "char \<Rightarrow> bool" where
  "isAsciiUpper c \<longleftrightarrow> 65 \<le> (of_char c :: nat) \<and> (of_char c :: nat) \<le> 90"

definition toAsciiLower :: "char \<Rightarrow> char" where
  "toAsciiLower ch = (if isAsciiUpper ch then char_of (of_char ch + 32 :: nat) else ch)"

definition name_skip :: "char \<Rightarrow> bool" where
  "name_skip c \<longleftrightarrow> c = CHR ''-'' \<or> c = CHR ''_''"

text \<open>The end of the list is the terminating zero, which no letter is equal to.\<close>

function nameMatch :: "string \<Rightarrow> string \<Rightarrow> bool" where
  "nameMatch a b =
     (case (dropWhile name_skip a, dropWhile name_skip b) of
        ([], []) \<Rightarrow> True
      | (x # a, y # b) \<Rightarrow> toAsciiLower x = toAsciiLower y \<and> nameMatch a b
      | _ \<Rightarrow> False)"
  by pat_completeness auto
termination
proof (relation "measure (\<lambda>(a, b). length a)")
  fix a b x y x21 x22 x21a x22a
  assume "(x, y) = (dropWhile name_skip a, dropWhile name_skip b)" "x = x21 # x22" "y = x21a # x22a"
  then have "Suc (length x22) \<le> length a" by (metis length_Cons length_dropWhile_le prod.inject)
  then show "((x22, x22a), a, b) \<in> measure (\<lambda>(a, b). length a)" by simp
qed simp

text \<open>The numbers of the enumeration, in their order.\<close>

instantiation Encoding :: enum
begin

definition enum_Encoding :: "Encoding list" where
  "enum_Encoding = [Utf8, Utf16, Utf16LE, Utf16BE, Utf32, Utf32LE, Utf32BE, Latin1, System]"

definition enum_all_Encoding :: "(Encoding \<Rightarrow> bool) \<Rightarrow> bool" where
  "enum_all_Encoding P \<longleftrightarrow> list_all P Enum.enum"

definition enum_ex_Encoding :: "(Encoding \<Rightarrow> bool) \<Rightarrow> bool" where
  "enum_ex_Encoding P \<longleftrightarrow> list_ex P Enum.enum"

instance
proof
  show all: "(UNIV :: Encoding set) = set Enum.enum"
    by (auto simp: enum_Encoding_def intro: Encoding.exhaust)
  show "distinct (Enum.enum :: Encoding list)" by (simp add: enum_Encoding_def)
  show "Enum.enum_all P \<longleftrightarrow> Ball UNIV P" "Enum.enum_ex P \<longleftrightarrow> Bex UNIV P" for P :: "Encoding \<Rightarrow> bool"
    by (simp_all add: all enum_all_Encoding_def enum_ex_Encoding_def list_all_iff list_ex_iff)
qed

end

definition encodingForName :: "string option \<Rightarrow> Encoding option" where
  "encodingForName name =
     (case name of
        None \<Rightarrow> None
      | Some name \<Rightarrow>
          (case find (\<lambda>i. nameMatch (iface_name i) name) Enum.enum of
             Some i \<Rightarrow> Some i
           | None \<Rightarrow> if nameMatch name ''latin1'' then Some Latin1 else None))"

definition nameForEncoding :: "Encoding \<Rightarrow> string" where
  "nameForEncoding e = iface_name e"

section \<open>Detection\<close>

definition encodingForData :: "8 word list \<Rightarrow> 16 word \<Rightarrow> Encoding option" where
  "encodingForData data expectedFirstCharacter =
     (let expected32 = (ucast expectedFirstCharacter :: 32 word);
          big = hd (fromEndian32 BigEndianness (take 4 data));
          little = hd (fromEndian32 LittleEndianness (take 4 data));
          big16 = hd (fromEndian BigEndianness (take 2 data));
          little16 = hd (fromEndian LittleEndianness (take 2 data))
      in if length data > 3 \<and> big = ucast ByteOrderMark then Some Utf32BE
         else if length data > 3 \<and> little = ucast ByteOrderMark then Some Utf32LE
         else if length data > 3 \<and> expectedFirstCharacter \<noteq> 0 \<and> little = expected32 then Some Utf32LE
         else if length data > 3 \<and> expectedFirstCharacter \<noteq> 0 \<and> big = expected32 then Some Utf32BE
         else if length data > 2 \<and> take 3 data = utf8bom then Some Utf8
         else if length data > 1 \<and> big16 = ByteOrderMark then Some Utf16BE
         else if length data > 1 \<and> little16 = ByteOrderMark then Some Utf16LE
         else if length data > 1 \<and> expectedFirstCharacter \<noteq> 0 \<and> little16 = expectedFirstCharacter then Some Utf16LE
         else if length data > 1 \<and> expectedFirstCharacter \<noteq> 0 \<and> big16 = expectedFirstCharacter then Some Utf16BE
         else None)"

section \<open>Converters\<close>

record StringConverter =
  iface :: "Encoding option"
  state :: ConverterState

definition QStringConverter_make :: "Encoding \<Rightarrow> ConverterState \<Rightarrow> StringConverter" where
  "QStringConverter_make encoding f = \<lparr>iface = Some encoding, state = f\<rparr>"

definition QStringConverter_named :: "string option \<Rightarrow> ConverterState \<Rightarrow> StringConverter" where
  "QStringConverter_named name f = \<lparr>iface = encodingForName name, state = f\<rparr>"

definition QStringConverter_isValid :: "StringConverter \<Rightarrow> bool" where
  "QStringConverter_isValid conv \<longleftrightarrow> iface conv \<noteq> None"

definition QStringConverter_name :: "StringConverter \<Rightarrow> string option" where
  "QStringConverter_name conv = map_option iface_name (iface conv)"

definition QStringConverter_resetState :: "StringConverter \<Rightarrow> StringConverter" where
  "QStringConverter_resetState conv = conv\<lparr>state := ConverterState_clear (state conv)\<rparr>"

definition QStringConverter_hasError :: "StringConverter \<Rightarrow> bool" where
  "QStringConverter_hasError conv \<longleftrightarrow> hasError (state conv)"

definition QStringEncoder_requiredSpace :: "StringConverter \<Rightarrow> nat \<Rightarrow> nat" where
  "QStringEncoder_requiredSpace conv inputLength = (case iface conv of None \<Rightarrow> 0 | Some e \<Rightarrow> iface_fromUtf16Len e inputLength)"

definition QStringDecoder_requiredSpace :: "StringConverter \<Rightarrow> nat \<Rightarrow> nat" where
  "QStringDecoder_requiredSpace conv inputLength = (case iface conv of None \<Rightarrow> 0 | Some e \<Rightarrow> iface_toUtf16Len e inputLength)"

definition QStringEncoder_appendToBuffer :: "bool \<Rightarrow> 16 word list \<Rightarrow> StringConverter \<Rightarrow> 8 word list \<times> StringConverter" where
  "QStringEncoder_appendToBuffer host src conv =
     (case iface conv of
        None \<Rightarrow> ([], conv\<lparr>state := (state conv)\<lparr>invalidChars := 1\<rparr>\<rparr>)
      | Some e \<Rightarrow> let (out, st) = iface_fromUtf16 host e src (state conv) in (out, conv\<lparr>state := st\<rparr>))"

definition QStringDecoder_appendToBuffer :: "bool \<Rightarrow> 8 word list \<Rightarrow> StringConverter \<Rightarrow> 16 word list \<times> StringConverter" where
  "QStringDecoder_appendToBuffer host src conv =
     (case iface conv of
        None \<Rightarrow> ([], conv\<lparr>state := (state conv)\<lparr>invalidChars := 1\<rparr>\<rparr>)
      | Some e \<Rightarrow> let (out, st) = iface_toUtf16 host e src (state conv) in (out, conv\<lparr>state := st\<rparr>))"

text \<open>
  \<open>encodeAsByteArray\<close> and \<open>decodeAsString\<close> make a buffer of the room asked for and cut it where the
  routine stopped; a routine that writes past the room has no result.
\<close>

definition in_room :: "nat \<Rightarrow> 'o list \<times> 's \<Rightarrow> ('o list \<times> 's) option" where
  "in_room room r = (if length (fst r) \<le> room then Some r else None)"

definition QStringEncoder_encode :: "bool \<Rightarrow> 16 word list \<Rightarrow> StringConverter \<Rightarrow> (8 word list \<times> StringConverter) option" where
  "QStringEncoder_encode host src conv =
     in_room (QStringEncoder_requiredSpace conv (length src)) (QStringEncoder_appendToBuffer host src conv)"

definition QStringDecoder_decode :: "bool \<Rightarrow> 8 word list \<Rightarrow> StringConverter \<Rightarrow> (16 word list \<times> StringConverter) option" where
  "QStringDecoder_decode host src conv =
     in_room (QStringDecoder_requiredSpace conv (length src)) (QStringDecoder_appendToBuffer host src conv)"

section \<open>Names and Latin-1\<close>

text \<open>A name without what is skipped, in lower case.\<close>

definition name_key :: "string \<Rightarrow> string" where
  "name_key s = map toAsciiLower (filter (\<lambda>c. \<not> name_skip c) s)"

lemma name_key_skip: "name_key s = (case dropWhile name_skip s of [] \<Rightarrow> [] | c # s \<Rightarrow> toAsciiLower c # name_key s)"
proof (induction s)
  case (Cons c s)
  then show ?case by (cases "name_skip c") (simp_all add: name_key_def)
qed (simp add: name_key_def)

lemma nameMatch_key: "nameMatch a b \<longleftrightarrow> name_key a = name_key b"
proof (induction a b rule: nameMatch.induct)
  case (1 a b)
  show ?case unfolding nameMatch.simps [of a b] name_key_skip [of a] name_key_skip [of b]
  proof (cases "dropWhile name_skip a"; cases "dropWhile name_skip b")
    fix x a' y b'
    assume "dropWhile name_skip a = x # a'" "dropWhile name_skip b = y # b'"
    then show "(case (dropWhile name_skip a, dropWhile name_skip b) of ([], []) \<Rightarrow> True
        | (x # a, y # b) \<Rightarrow> toAsciiLower x = toAsciiLower y \<and> nameMatch a b | _ \<Rightarrow> False)
      = ((case dropWhile name_skip a of [] \<Rightarrow> [] | c # s \<Rightarrow> toAsciiLower c # name_key s)
        = (case dropWhile name_skip b of [] \<Rightarrow> [] | c # s \<Rightarrow> toAsciiLower c # name_key s))"
      using 1 by (simp del: nameMatch.simps)
  qed (simp_all only: prod.case list.case simp_thms list.distinct not_Cons_self2)
qed

lemma latin1_loop_simps:
  "fst (latin1_loop r src n) = map (\<lambda>c. if c > 0xff then r else ucast c) src"
  "snd (latin1_loop r src n) = n + length (filter (\<lambda>c. c > 0xff) src)"
  by (induction src arbitrary: n) (simp_all add: case_prod_beta Let_def)

end
