(* ===== verification/ConverterRoom.thy ===== *)
theory ConverterRoom
  imports StringConverter
begin

text \<open>
  The room \<open>decodeAsString\<close> and \<open>encodeAsByteArray\<close> ask for is enough, whatever the flags and the
  calls before.
\<close>

section \<open>Decoders\<close>

lemma fromEndian_length: "length (fromEndian en x) = length x div 2"
  by (induction en x rule: fromEndian.induct) auto

lemma fromEndian32_length: "length (fromEndian32 en x) = length x div 4"
  by (induction en x rule: fromEndian32.induct) auto

lemma codes_text_length: "length (codes_text us) \<le> 2 * length us"
  by (induction us) (simp_all add: fromUcs4_def)

lemma halves: "c div 2 + c mod 2 \<le> (c + 1) div 2" for c :: nat
  by presburger

lemma quarters: "2 * (c div 4) + (if c mod 4 = 0 then 0 else 1) \<le> (c + 1) div 2" for c :: nat
proof (cases "c mod 4 = 0")
  case False
  have "c = 4 * (c div 4) + c mod 4" by simp
  then have "4 * (c div 4) + 1 \<le> c" using False by linarith
  then have "(4 * (c div 4) + 2) div 2 \<le> (c + 1) div 2" by (intro div_le_mono) simp
  then show ?thesis using False by simp
next
  case True
  then show ?thesis by presburger
qed

text \<open>A buffer that loses at least a byte to a first character.\<close>

lemma less_left:
  fixes y k :: nat
  assumes "1 \<le> k" "k \<le> y"
  shows "(y - k + 1) div 2 \<le> y div 2"
  using assms by (intro div_le_mono) simp

lemma utf16_first_length:
  assumes "utf16_first host en y st = (pre, chars, en', st')" "remainingChars st \<le> 1" "\<not> remainingChars st + length y < 2"
  shows "length pre + length chars div 2 + length chars mod 2 \<le> length y div 2 + 1"
proof -
  let ?k = "2 - remainingChars st"
  have k: "1 \<le> ?k" "?k \<le> length y" using assms(2,3) by auto
  consider "length pre \<le> 1" "length chars = length y - ?k" | "pre = []" "chars = y"
    using assms(1,2) unfolding utf16_first_def Let_def by (auto simp: le_Suc_eq split: if_splits)
  then show ?thesis
  proof cases
    case 1
    then show ?thesis using halves [of "length y - ?k"] less_left [OF k] by simp
  next
    case 2
    then show ?thesis by simp
  qed
qed

lemma utf16_decoder_room:
  assumes "remainingChars st \<le> 1"
  shows "length (fst (utf16_convertToUnicode host e y st)) \<le> length y div 2 + 1" "remainingChars (snd (utf16_convertToUnicode host e y st)) \<le> 1"
proof -
  let ?en = "if e = DetectEndianness then state_endian st else e"
  obtain pre chars en' st' where f: "utf16_first host ?en y st = (pre, chars, en', st')" by (metis prod_cases4)
  show "length (fst (utf16_convertToUnicode host e y st)) \<le> length y div 2 + 1"
    using utf16_first_length [OF f assms] f
    by (auto simp: utf16_convertToUnicode_def Let_def fromEndian_length odd_iff_mod_2_eq_one)
  show "remainingChars (snd (utf16_convertToUnicode host e y st)) \<le> 1"
    using f assms by (auto simp: utf16_convertToUnicode_def Let_def)
qed

lemma utf32_first_length:
  assumes "utf32_first host en y st = (pre, chars, en')" "remainingChars st \<le> 3" "\<not> remainingChars st + length y < 4"
  shows "length pre + 2 * (length chars div 4) + (if length chars mod 4 = 0 then 0 else 1) \<le> length y div 2 + 2"
proof -
  let ?k = "4 - remainingChars st" and ?q = "2 * (length chars div 4) + (if length chars mod 4 = 0 then 0 else 1)"
  have k: "1 \<le> ?k" "?k \<le> length y" using assms(2,3) by auto
  consider "length pre \<le> 2" "length chars = length y - ?k" | "pre = []" "chars = y"
    using assms(1) unfolding utf32_first_def Let_def by (auto simp: fromUcs4_def split: if_splits)
  then show ?thesis
  proof cases
    case 1
    then have "?q \<le> length y div 2" using quarters [of "length y - ?k"] less_left [OF k] by (simp split: if_splits)
    then show ?thesis using 1(1) by linarith
  next
    case 2
    have "(length y + 1) div 2 \<le> length y div 2 + 1" by presburger
    then show ?thesis using quarters [of "length y"] 2 by (simp split: if_splits)
  qed
qed

lemma utf32_decoder_room:
  assumes "remainingChars st \<le> 3"
  shows "length (fst (utf32_convertToUnicode host e y st)) \<le> length y div 2 + 2" "remainingChars (snd (utf32_convertToUnicode host e y st)) \<le> 3"
proof -
  let ?en = "if e = DetectEndianness then state_endian st else e"
  obtain pre chars en' where f: "utf32_first host ?en y st = (pre, chars, en')" by (metis prod_cases3)
  have c: "length (codes_text (fromEndian32 en' chars)) \<le> 2 * (length chars div 4)"
    using codes_text_length [of "fromEndian32 en' chars"] by (simp add: fromEndian32_length)
  show "length (fst (utf32_convertToUnicode host e y st)) \<le> length y div 2 + 2"
    using utf32_first_length [OF f assms] f c
    by (auto simp: utf32_convertToUnicode_def Let_def split: if_splits)
  have "length chars mod 4 \<le> 3" using mod_less_divisor [of 4 "length chars"] by simp
  then show "remainingChars (snd (utf32_convertToUnicode host e y st)) \<le> 3"
    using f assms by (auto simp: utf32_convertToUnicode_def Let_def)
qed

section \<open>Encoders\<close>

lemma utf16_encoder_room: "length (fst (utf16_convertFromUnicode host e src st)) \<le> 2 * (length src + 1)"
proof -
  have c: "length (concat (map (toEndian en) src)) = 2 * length src" for en
    by (induction src) (simp_all add: toEndian_def)
  show ?thesis by (simp add: utf16_convertFromUnicode_def Let_def c toEndian_def)
qed

text \<open>A surrogate waits only where the mark has been written or is not wanted.\<close>

definition waits_after_bom :: "ConverterState \<Rightarrow> bool" where
  "waits_after_bom st \<longleftrightarrow> remainingChars st \<noteq> 0 \<longrightarrow> HeaderDone st \<or> \<not> WriteBom st"

lemma toEndian32_length [simp]: "length (toEndian32 e u) = 4"
  by (simp add: toEndian32_def Let_def)

lemma utf32_loop_room:
  "length (fst (utf32_encodeLoop e src st)) \<le> 4 * length src
    \<and> HeaderDone (snd (utf32_encodeLoop e src st)) = HeaderDone st \<and> WriteBom (snd (utf32_encodeLoop e src st)) = WriteBom st"
proof (induction e src st rule: utf32_encodeLoop.induct)
  case (2 e ch src st)
  consider "isSurrogate (ucast ch)" "isHighSurrogate (ucast ch)" "utf32_surrogate ch src st = None"
    | u rest where "isSurrogate (ucast ch)" "isHighSurrogate (ucast ch)" "utf32_surrogate ch src st = Some (u, rest)"
    | "\<not> isSurrogate (ucast ch)" | "isSurrogate (ucast ch)" "\<not> isHighSurrogate (ucast ch)" by (metis option.exhaust prod.exhaust)
  then show ?case
  proof cases
    case 1
    then show ?thesis by simp
  next
    case (2 u rest)
    have r: "length rest \<le> length src" by (rule utf32_surrogate_shorter [OF 2(3)])
    show ?thesis using "2.IH"(2) [of "(u, rest)" u rest] 2 r by (simp add: case_prod_beta Let_def)
  next
    case 3
    then show ?thesis using "2.IH"(1) by (simp add: case_prod_beta Let_def)
  next
    case 4
    then show ?thesis using "2.IH"(3) by (simp add: case_prod_beta Let_def)
  qed
qed simp

lemma utf32_encoder_room:
  assumes "waits_after_bom st"
  shows "length (fst (utf32_convertFromUnicode host e src st)) \<le> 4 * (length src + 1)
    \<and> waits_after_bom (snd (utf32_convertFromUnicode host e src st))"
proof -
  define st1 where "st1 = (if \<not> HeaderDone st \<and> WriteBom st then st\<lparr>HeaderDone := True\<rparr> else st)"
  have d: "HeaderDone st1 \<or> \<not> WriteBom st1" by (auto simp: st1_def)
  let ?e = "if e = DetectEndianness then hostOrder host else e"
  show ?thesis
  proof (cases "remainingChars st = 1")
    case False
    have "utf32_convertFromUnicode host e src st = then_run (bom32 ?e st) (utf32_encodeLoop ?e src st1)"
      using False unfolding utf32_convertFromUnicode_def Let_def st1_def [symmetric]
      by (auto simp: case_prod_beta then_run_def bom32_def toEndian32_def ByteOrderMark_def st1_def)
    moreover have "length (bom32 ?e st) \<le> 4" by (simp add: bom32_def)
    ultimately show ?thesis using utf32_loop_room [of ?e src st1] d by (auto simp: waits_after_bom_def)
  next
    case True
    then have h: "HeaderDone st \<or> \<not> WriteBom st" using assms by (simp add: waits_after_bom_def)
    then have st1: "st1 = st" by (auto simp: st1_def)
    let ?st = "st\<lparr>remainingChars := 0\<rparr>"
    show ?thesis
    proof (cases "utf32_surrogate (state_char st) src ?st")
      case None
      then show ?thesis using True h by (auto simp: utf32_convertFromUnicode_def Let_def waits_after_bom_def)
    next
      case (Some p)
      then obtain u rest where p: "utf32_surrogate (state_char st) src ?st = Some (u, rest)" by (cases p) auto
      show ?thesis using utf32_loop_room [of ?e rest ?st] utf32_surrogate_shorter [OF p] True h p
        by (auto simp: utf32_convertFromUnicode_def Let_def waits_after_bom_def case_prod_beta)
    qed
  qed
qed

section \<open>The routines that return a string or an array\<close>

text \<open>Each makes a buffer of its own size and cuts it where the routine above stops.\<close>

definition utf8_toUnicode_string :: "8 word list \<Rightarrow> 16 word list option" where
  "utf8_toUnicode_string src = map_option fst (in_room (length src) (utf8_toUnicode src, ()))"

definition utf8_convertFromUnicode_array :: "16 word list \<Rightarrow> ConverterState \<Rightarrow> (8 word list \<times> ConverterState) option" where
  "utf8_convertFromUnicode_array src st = in_room (3 * length src + 3) (utf8_convertFromUnicode src st)"

definition utf8_convertToUnicode_string :: "8 word list \<Rightarrow> ConverterState \<Rightarrow> (16 word list \<times> ConverterState) option" where
  "utf8_convertToUnicode_string src st = in_room (length src + 1) (utf8_convertToUnicode src st)"

definition utf16_convertFromUnicode_array ::
    "bool \<Rightarrow> DataEndianness \<Rightarrow> 16 word list \<Rightarrow> ConverterState \<Rightarrow> (8 word list \<times> ConverterState) option" where
  "utf16_convertFromUnicode_array host endian src st =
     (let writeBom = (\<not> HeaderDone st \<and> WriteBom st)
      in in_room (2 * length src + (if writeBom then 2 else 0)) (utf16_convertFromUnicode host endian src st))"

definition utf16_convertToUnicode_string ::
    "bool \<Rightarrow> DataEndianness \<Rightarrow> 8 word list \<Rightarrow> ConverterState \<Rightarrow> (16 word list \<times> ConverterState) option" where
  "utf16_convertToUnicode_string host endian src st = in_room ((length src + 1) div 2) (utf16_convertToUnicode host endian src st)"

definition utf32_convertFromUnicode_array ::
    "bool \<Rightarrow> DataEndianness \<Rightarrow> 16 word list \<Rightarrow> ConverterState \<Rightarrow> (8 word list \<times> ConverterState) option" where
  "utf32_convertFromUnicode_array host endian src st =
     (let writeBom = (\<not> HeaderDone st \<and> WriteBom st)
      in in_room (4 * length src + (if writeBom then 4 else 0)) (utf32_convertFromUnicode host endian src st))"

definition utf32_convertToUnicode_string ::
    "bool \<Rightarrow> DataEndianness \<Rightarrow> 8 word list \<Rightarrow> ConverterState \<Rightarrow> (16 word list \<times> ConverterState) option" where
  "utf32_convertToUnicode_string host endian src st = in_room ((length src + 7) div 2) (utf32_convertToUnicode host endian src st)"

lemma toUnicodeLoop_room: "length (utf8_toUnicodeLoop src) \<le> length src"
proof (induction src rule: utf8_toUnicodeLoop.induct)
  case (2 b src)
  show ?case
  proof (cases "fromUtf8 b src")
    case (Decoded n uc rest)
    then show ?thesis using 2 decoded_length [OF Decoded] by fastforce
  qed (use 2 in simp_all)
qed simp

lemma utf8_arrays_fit:
  "utf8_toUnicode_string src = Some (utf8_toUnicode src)"
  "utf8_convertFromUnicode_array us st = Some (utf8_convertFromUnicode us st)"
  "decoder_ok st \<Longrightarrow> utf8_convertToUnicode_string src st = Some (utf8_convertToUnicode src st)"
proof -
  have "length (utf8_toUnicode src) \<le> length src"
    using toUnicodeLoop_room [of "drop 3 src"] toUnicodeLoop_room [of src] by (auto simp: utf8_toUnicode_def)
  then show "utf8_toUnicode_string src = Some (utf8_toUnicode src)" by (simp add: utf8_toUnicode_string_def in_room_def)
  show "utf8_convertFromUnicode_array us st = Some (utf8_convertFromUnicode us st)"
    using encode_bound [of us st] by (simp add: utf8_convertFromUnicode_array_def in_room_def)
  show "decoder_ok st \<Longrightarrow> utf8_convertToUnicode_string src st = Some (utf8_convertToUnicode src st)"
    using decode_bound(1) [of st src] by (simp add: utf8_convertToUnicode_string_def in_room_def)
qed

lemma wide_arrays_fit:
  "utf16_convertFromUnicode_array host e us st = Some (utf16_convertFromUnicode host e us st)"
  "remainingChars st \<le> 3 \<Longrightarrow> utf32_convertToUnicode_string host e src st = Some (utf32_convertToUnicode host e src st)"
proof -
  have c: "length (concat (map (toEndian en) us)) = 2 * length us" for en by (induction us) (simp_all add: toEndian_def)
  show "utf16_convertFromUnicode_array host e us st = Some (utf16_convertFromUnicode host e us st)"
    by (simp add: utf16_convertFromUnicode_array_def in_room_def utf16_convertFromUnicode_def Let_def c toEndian_def [of _ ByteOrderMark])
  have "length src div 2 + 2 \<le> (length src + 7) div 2" by presburger
  then show "remainingChars st \<le> 3 \<Longrightarrow> utf32_convertToUnicode_string host e src st = Some (utf32_convertToUnicode host e src st)"
    using utf32_decoder_room(1) [of st host e src] by (simp add: utf32_convertToUnicode_string_def in_room_def)
qed

lemma utf16_string_fits:
  assumes "\<not> Stateless st" "remainingChars st \<le> 1"
  shows "utf16_convertToUnicode_string host e src st = Some (utf16_convertToUnicode host e src st)"
proof (cases "remainingChars st + length src < 2")
  case True
  then show ?thesis by (simp add: utf16_convertToUnicode_string_def in_room_def utf16_convertToUnicode_def)
next
  case False
  let ?en = "if e = DetectEndianness then state_endian st else e" and ?k = "2 - remainingChars st"
  obtain pre chars en' st' where f: "utf16_first host ?en src st = (pre, chars, en', st')" by (metis prod_cases4)
  have k: "1 \<le> ?k" "?k \<le> length src" using assms(2) False by auto
  have "length pre \<le> 1 \<and> length chars = length src - ?k \<or> pre = [] \<and> chars = src"
    using f assms(2) unfolding utf16_first_def Let_def by (auto simp: le_Suc_eq split: if_splits)
  then have "length pre + length chars div 2 \<le> (length src + 1) div 2"
  proof
    assume a: "length pre \<le> 1 \<and> length chars = length src - ?k"
    then have "length chars + 2 \<le> length src + 1" using k by linarith
    then have "(length chars + 2) div 2 \<le> (length src + 1) div 2" by (rule div_le_mono)
    then show ?thesis using a by simp
  next
    assume "pre = [] \<and> chars = src"
    then show ?thesis by (auto intro: div_le_mono)
  qed
  moreover have "Stateless st' = Stateless st" using f unfolding utf16_first_def Let_def by (auto split: if_splits)
  ultimately have "length (fst (utf16_convertToUnicode host e src st)) \<le> (length src + 1) div 2"
    using False f assms(1) by (auto simp: utf16_convertToUnicode_def Let_def fromEndian_length)
  then show ?thesis by (simp add: utf16_convertToUnicode_string_def in_room_def)
qed

text \<open>
  The string of UTF-16 has no room for what replaces the last byte of an odd number when a stateless
  decoder has kept the one byte of the call before, as it should not.
\<close>

lemma utf16_string_overflows:
  "utf16_convertToUnicode_string False BigEndianness [0x41, 0]
    (snd (utf16_convertToUnicode False BigEndianness [0] (ConverterState_new True False False False))) = None"
  by code_simp

text \<open>The array of UTF-32 has no room for the character that replaces a surrogate left over from the call before.\<close>

lemma utf32_array_overflows:
  "utf32_convertFromUnicode_array False BigEndianness [0x41] (snd (utf32_convertFromUnicode False BigEndianness [0xd800] (ConverterState_new False False False False)))
    = None"
  by code_simp

section \<open>Every interface\<close>

fun toUtf16_inv :: "Encoding \<Rightarrow> ConverterState \<Rightarrow> bool" where
  "toUtf16_inv Utf8 st = decoder_ok st"
| "toUtf16_inv Utf16 st = (remainingChars st \<le> 1)"
| "toUtf16_inv Utf16LE st = (remainingChars st \<le> 1)"
| "toUtf16_inv Utf16BE st = (remainingChars st \<le> 1)"
| "toUtf16_inv Utf32 st = (remainingChars st \<le> 3)"
| "toUtf16_inv Utf32LE st = (remainingChars st \<le> 3)"
| "toUtf16_inv Utf32BE st = (remainingChars st \<le> 3)"
| "toUtf16_inv Latin1 st = True"
| "toUtf16_inv System st = decoder_ok st"

lemma toUtf16_room:
  assumes "toUtf16_inv enc st"
  shows "length (fst (iface_toUtf16 host enc src st)) \<le> iface_toUtf16Len enc (length src)"
    "toUtf16_inv enc (snd (iface_toUtf16 host enc src st))"
proof -
  have 16: "remainingChars st \<le> 1 \<Longrightarrow> length (fst (utf16_convertToUnicode host e src st)) \<le> length src div 2 + 2" for e
    using utf16_decoder_room(1) [of st host e src] by simp
  have l: "length (fst (latin1_convertToUnicode src st)) \<le> length src + 1" by (simp add: latin1_convertToUnicode_def qt_from_latin1_def)
  show "length (fst (iface_toUtf16 host enc src st)) \<le> iface_toUtf16Len enc (length src)"
    using assms l by (cases enc) (simp_all only: iface_toUtf16.simps iface_toUtf16Len.simps toUtf16_inv.simps decode_bound(1) 16 utf32_decoder_room(1))
  show "toUtf16_inv enc (snd (iface_toUtf16 host enc src st))"
    using assms by (cases enc) (simp_all only: iface_toUtf16.simps toUtf16_inv.simps decode_bound(2) utf16_decoder_room(2) utf32_decoder_room(2))
qed

fun fromUtf16_inv :: "Encoding \<Rightarrow> ConverterState \<Rightarrow> bool" where
  "fromUtf16_inv Utf32 st = waits_after_bom st"
| "fromUtf16_inv Utf32LE st = waits_after_bom st"
| "fromUtf16_inv Utf32BE st = waits_after_bom st"
| "fromUtf16_inv _ st = True"

lemma fromUtf16_room:
  assumes "fromUtf16_inv enc st"
  shows "length (fst (iface_fromUtf16 host enc src st)) \<le> iface_fromUtf16Len enc (length src)"
    "fromUtf16_inv enc (snd (iface_fromUtf16 host enc src st))"
proof -
  have l: "length (fst (latin1_convertFromUnicode src st)) \<le> length src + 1"
    by (simp add: latin1_convertFromUnicode_def latin1_loop_simps case_prod_beta Let_def)
  show "length (fst (iface_fromUtf16 host enc src st)) \<le> iface_fromUtf16Len enc (length src)"
    using assms l by (cases enc) (simp_all only: iface_fromUtf16.simps iface_fromUtf16Len.simps fromUtf16_inv.simps encode_bound utf16_encoder_room utf32_encoder_room)
  show "fromUtf16_inv enc (snd (iface_fromUtf16 host enc src st))"
    using assms by (cases enc) (simp_all only: iface_fromUtf16.simps fromUtf16_inv.simps utf32_encoder_room)
qed

lemma new_inv: "toUtf16_inv enc (ConverterState_new sl n w i)" "fromUtf16_inv enc (ConverterState_new sl n w i)"
  by (cases enc; simp add: ConverterState_new_def decoder_ok_def waits_after_bom_def)+

text \<open>The calls of a program that feeds a converter chunk by chunk.\<close>

fun in_chunks :: "('i list \<Rightarrow> StringConverter \<Rightarrow> ('o list \<times> StringConverter) option) \<Rightarrow> 'i list list \<Rightarrow> StringConverter
    \<Rightarrow> ('o list \<times> StringConverter) option" where
  "in_chunks call [] conv = Some ([], conv)"
| "in_chunks call (c # cs) conv =
     (case call c conv of
        None \<Rightarrow> None
      | Some (out, conv) \<Rightarrow> map_option (\<lambda>(rest, conv). (out @ rest, conv)) (in_chunks call cs conv))"

lemma decode_in_room:
  "toUtf16_inv enc st \<Longrightarrow> QStringDecoder_decode host src (QStringConverter_make enc st)
    = Some (map_prod id (QStringConverter_make enc) (iface_toUtf16 host enc src st))"
  using toUtf16_room(1) [of enc st host src]
  by (cases "iface_toUtf16 host enc src st")
    (simp add: QStringDecoder_decode_def QStringDecoder_appendToBuffer_def QStringDecoder_requiredSpace_def in_room_def QStringConverter_make_def)

lemma encode_in_room:
  "fromUtf16_inv enc st \<Longrightarrow> QStringEncoder_encode host src (QStringConverter_make enc st)
    = Some (map_prod id (QStringConverter_make enc) (iface_fromUtf16 host enc src st))"
  using fromUtf16_room(1) [of enc st host src]
  by (cases "iface_fromUtf16 host enc src st")
    (simp add: QStringEncoder_encode_def QStringEncoder_appendToBuffer_def QStringEncoder_requiredSpace_def in_room_def QStringConverter_make_def)

lemma decode_chunks_in_room:
  "toUtf16_inv enc st \<Longrightarrow> in_chunks (QStringDecoder_decode host) chunks (QStringConverter_make enc st)
    = Some (map_prod id (QStringConverter_make enc) (convert_chunks (iface_toUtf16 host enc) chunks st))"
proof (induction chunks arbitrary: st)
  case (Cons c chunks)
  show ?case using Cons.IH [OF toUtf16_room(2) [OF Cons.prems]]
    by (simp add: decode_in_room [OF Cons.prems] map_prod_def case_prod_beta Let_def)
qed simp

lemma encode_chunks_in_room:
  "fromUtf16_inv enc st \<Longrightarrow> in_chunks (QStringEncoder_encode host) chunks (QStringConverter_make enc st)
    = Some (map_prod id (QStringConverter_make enc) (convert_chunks (iface_fromUtf16 host enc) chunks st))"
proof (induction chunks arbitrary: st)
  case (Cons c chunks)
  show ?case using Cons.IH [OF fromUtf16_room(2) [OF Cons.prems]]
    by (simp add: encode_in_room [OF Cons.prems] map_prod_def case_prod_beta Let_def)
qed simp

end
