(* ===== verification/ConverterText.thy ===== *)
theory ConverterText
  imports ConverterRoom
begin

text \<open>
  Texts through the converters: whole or in chunks, and back. A text is a list of Unicode scalar
  values, which every encoding but Latin-1 has a form for.
\<close>

section \<open>Encoders in chunks\<close>

interpretation latin1_encoder: chunked_converter latin1_convertFromUnicode "\<lambda>st. True" "(=)"
  by unfold_locales (auto simp: runs_alike_def latin1_convertFromUnicode_def latin1_loop_simps case_prod_beta Let_def intro!: prod_eqI)

lemma new_encoder_ok: "encoder_ok (ConverterState_new False n w i)" "encoder32_ok (ConverterState_new False n w i)"
  by (simp_all add: ConverterState_new_def encoder_ok_def encoder32_ok_def)

lemma encoder_any_chunks:
  assumes "chunks \<noteq> []"
  shows "fst (convert_chunks (iface_fromUtf16 host enc) chunks (ConverterState_new False n w i))
    = fst (iface_fromUtf16 host enc (concat chunks) (ConverterState_new False n w i))"
  using utf8_encoder.chunk_output [OF new_encoder_ok(1) assms] utf16_encoder.chunk_output [OF TrueI assms]
    utf32_encoder.chunk_output [OF new_encoder_ok(2) assms] latin1_encoder.chunk_output [OF TrueI assms]
  by (cases enc) (simp_all only: iface_fromUtf16.simps)

section \<open>Decoders in chunks\<close>

interpretation latin1_decoder: chunked_converter latin1_convertToUnicode "\<lambda>st. True" "(=)"
  by unfold_locales (auto simp: runs_alike_def latin1_convertToUnicode_def qt_from_latin1_def)

lemma new_decoder_ok: "decoder32_ok (ConverterState_new False n w i)" "\<not> (e = DetectEndianness \<and> i) \<Longrightarrow> decoder16_ok e (ConverterState_new False n w i)"
  by (auto simp: ConverterState_new_def decoder16_ok_def decoder32_ok_def)

lemma decoder_any_chunks:
  assumes "chunks \<noteq> []" "enc \<notin> {Utf8, System}" "enc = Utf16 \<longrightarrow> \<not> i"
  shows "fst (convert_chunks (iface_toUtf16 host enc) chunks (ConverterState_new False n w i))
    = fst (iface_toUtf16 host enc (concat chunks) (ConverterState_new False n w i))"
  using assms(2,3) utf16_decoder.chunk_output [OF new_decoder_ok(2) assms(1), of _ i host n w] utf32_decoder.chunk_output [OF new_decoder_ok(1) assms(1)]
    latin1_decoder.chunk_output [OF TrueI assms(1)]
  by (cases enc) simp_all

section \<open>UTF-32 of a text\<close>

lemma UInt_of_bytes: "UInt_of (ucast (drop_bit 24 u)) (ucast (drop_bit 16 u)) (ucast (drop_bit 8 u)) (ucast u) = u"
  unfolding UInt_of_def
proof (rule bit_word_eqI)
  fix n
  assume "n < LENGTH(32)"
  then have "n < 32" by simp
  then consider "n < 8" | "8 \<le> n" "n < 16" | "16 \<le> n" "n < 24" | "24 \<le> n" "n < 32" by linarith
  then show "bit (push_bit 24 (ucast (ucast (drop_bit 24 u) :: 8 word)) OR push_bit 16 (ucast (ucast (drop_bit 16 u) :: 8 word))
      OR push_bit 8 (ucast (ucast (drop_bit 8 u) :: 8 word)) OR ucast (ucast u :: 8 word) :: 32 word) n = bit u n"
    by cases (auto simp: bit_or_iff bit_push_bit_iff bit_ucast_iff bit_drop_bit_eq dest: bit_imp_le_length)
qed

lemma fromEndian32_toEndian32: "fromEndian32 e (codes_bytes e us) = us"
  by (induction us) (auto simp: toEndian32_def Let_def UInt_of_bytes)

lemma fromUcs4_append: "fromUcs4 = appendUtf16"
  by (auto simp: fun_eq_iff fromUcs4_def appendUtf16_def)

lemma codes_text_scalars: "list_all scalar cs \<Longrightarrow> codes_text (map of_nat cs) = utf16_text cs"
  by (induction cs) (simp_all add: fromUcs4_append append_scalar)

lemma code_points_low:
  "\<not> isHighSurrogate (ucast ch) \<Longrightarrow> code_points r (ch # src) = apfst ((#) (if isSurrogate (ucast ch) then r else ucast ch)) (code_points r src)"
  by (cases src) simp_all

text \<open>The code units of a scalar value.\<close>

lemma utf16_units_cases:
  assumes sc: "scalar c"
  obtains u where "c < 0x10000" "utf16_units c = [u]" "(ucast u :: 32 word) = of_nat c" "\<not> isSurrogate (ucast u)" "\<not> isHighSurrogate (ucast u)"
  | h l where "0x10000 \<le> c" "utf16_units c = [h, l]" "isHighSurrogate (ucast h)" "isLowSurrogate (ucast l)" "surrogateToUcs4 h l = of_nat c"
proof (cases "c < 0x10000")
  case True
  let ?u = "of_nat c :: 16 word"
  have v: "unat ?u = c" using True by (simp add: unit_value)
  then have s: "\<not> isSurrogate (ucast ?u)" "\<not> isHighSurrogate (ucast ?u)" using sc by (auto simp: surrogate_tests scalar_def)
  have "ucast ?u = (of_nat c :: 32 word)" by (simp only: word_unat_eq_iff unat_narrow(5) v scalar_unat [OF sc])
  then show ?thesis using True s by (intro that(1) [of ?u]) (simp_all add: utf16_units_def utf16_form_def)
next
  case False
  then have r: "0x10000 \<le> c" "c \<le> 0x10ffff" using sc by (auto simp: scalar_def)
  let ?h = "of_nat (0xd800 + (c - 0x10000) div 1024) :: 16 word" and ?l = "of_nat (0xdc00 + c mod 1024) :: 16 word"
  have q: "(c - 0x10000) div 1024 < 1024" "c mod 1024 < 1024" using r by simp_all
  then have "0xd800 + (c - 0x10000) div 1024 < 65536" "0xdc00 + c mod 1024 < 65536" by linarith+
  then have v: "unat ?h = 0xd800 + (c - 0x10000) div 1024" "unat ?l = 0xdc00 + c mod 1024" by (simp_all only: unit_value)
  have t: "isHighSurrogate (ucast ?h)" "isLowSurrogate (ucast ?l)" unfolding surrogate_tests v using q by linarith+
  have "(c - 0x10000) mod 1024 = c mod 1024" using mod_mult_self1 [of "c - 0x10000" 64 1024] False by simp
  then have "(c - 0x10000) div 1024 * 1024 + c mod 1024 = c - 0x10000" using div_mult_mod_eq [of "c - 0x10000" 1024] by simp
  then have "0x10000 + (c - 0x10000) div 1024 * 1024 + c mod 1024 = c" using False by linarith
  moreover have "unat (surrogateToUcs4 ?h ?l) = 0x10000 + (unat ?h - 0xd800) * 1024 + (unat ?l - 0xdc00)"
    by (rule unat_surrogateToUcs4) (use v q in linarith)+
  ultimately have "unat (surrogateToUcs4 ?h ?l) = c" unfolding v by simp
  then have "surrogateToUcs4 ?h ?l = of_nat c" by (simp only: word_unat_eq_iff scalar_unat [OF sc])
  then show ?thesis using r(1) False t by (intro that(2) [of ?h ?l]) (simp_all add: utf16_units_def utf16_form_def del: of_nat_add)
qed

lemma code_points_text: "list_all scalar cs \<Longrightarrow> code_points r (utf16_text cs) = (map of_nat cs, [])"
proof (induction cs)
  case (Cons c cs)
  then have "scalar c" by simp
  then show ?case by (rule utf16_units_cases) (use Cons in \<open>simp_all add: code_points_low\<close>)
qed simp

section \<open>There and back\<close>

text \<open>UTF-8.\<close>

lemma utf8_encodeLoop_text: "list_all scalar cs \<Longrightarrow> utf8_encodeLoop (utf16_text cs) st = (utf8_text cs, st)"
proof (induction cs)
  case (Cons c cs)
  obtain u src where u: "utf16_units c @ utf16_text cs = u # src" by (cases "utf16_units c") auto
  then show ?case using Cons encode_scalar [OF _ u] by simp
qed simp

lemma utf8_there_and_back:
  assumes cs: "list_all scalar cs" and ys: "concat ys = fst (utf8_convertFromUnicode (utf16_text cs) (ConverterState_new False n True i))"
  shows "\<exists>st. convert_chunks utf8_convertToUnicode ys (ConverterState_new False n' w False) = (utf16_text cs, st) \<and> invalidChars st = 0"
proof -
  define ds where "ds = (if cs = [] then [] else 0xfeff # cs)"
  have k: "kept (ConverterState_new False n' w False) []" "shown (ConverterState_new False n' w False) ds = cs"
    by (simp_all add: kept_def ConverterState_new_def shown_def headerdone_def without_bom_def ds_def)
  have "concat ys = utf8_text ds"
  proof (cases "cs = []")
    case False
    then have "utf16_text cs \<noteq> []" by (cases cs) auto
    then show ?thesis using False unfolding ys ds_def
      by (simp add: utf8_convertFromUnicode_def utf8_encodePending_def ConverterState_new_def utf8_encodeLoop_text [OF cs] bom_bytes)
  qed (simp add: ys ds_def utf8_convertFromUnicode_def)
  moreover have "list_all scalar ds" using cs by (simp add: ds_def scalar_def)
  moreover have "cut_of [] ds" by (simp add: cut_of_def)
  ultimately show ?thesis using decode_chunks [OF k(1), of ds ys] k(2) by (auto simp: ConverterState_new_def)
qed

text \<open>UTF-16, for any text.\<close>

lemma new_view: "decoder_view (ConverterState_new False n w i) = (i, DetectEndianness, [])"
  by (simp add: decoder_view_def ConverterState_new_def)

lemma new_invalid: "invalidChars (ConverterState_new sl n w i) = 0"
  by (simp add: ConverterState_new_def)

lemma new_step:
  assumes "\<not> length b < width" "(if endian = DetectEndianness then order b else endian) = en" "units en b = bom # us"
  shows "reader_step width units bom order endian (False, DetectEndianness, []) b = (us, True, en, left_over width b)"
proof -
  have "(if (if endian = DetectEndianness then DetectEndianness else endian) = DetectEndianness then order b
      else (if endian = DetectEndianness then DetectEndianness else endian)) = en" using assms(2) by (cases "endian = DetectEndianness") simp_all
  then show ?thesis using assms(1,3) unfolding reader_step_def Let_def prod.case append_Nil by (simp only: if_False skip_first_def list.sel not_Cons_self) simp
qed

lemma chunks_are_one:
  assumes r: "runs_alike alike_decoder (convert_chunks convert (y # ys) st) (convert (y @ concat ys) st)"
    and c: "fst (convert (y @ concat ys) st) = out" "decoder_flags (snd (convert (y @ concat ys) st)) = decoder_flags st"
  shows "\<exists>st'. convert_chunks convert (y # ys) st = (out, st') \<and> invalidChars st' = invalidChars st"
  using r c unfolding runs_alike_def alike_decoder_def
  by (intro exI [of _ "snd (convert_chunks convert (y # ys) st)"]) (auto simp: decoder_flags_def prod_eq_iff)

lemma utf16_there_and_back:
  assumes ys: "concat ys = fst (utf16_convertFromUnicode host e us (ConverterState_new False n True i))"
  shows "\<exists>st. convert_chunks (utf16_convertToUnicode host e) ys (ConverterState_new False n' w False) = (us, st) \<and> invalidChars st = 0"
proof -
  let ?st = "ConverterState_new False n' w False"
  let ?e = "if e = DetectEndianness then hostOrder host else e"
  have b: "concat ys = concat (map (toEndian ?e) (ByteOrderMark # us))"
    unfolding ys by (simp add: utf16_convertFromUnicode_def ConverterState_new_def Let_def)
  then have "length (concat ys) \<noteq> 0" by (simp add: toEndian_def)
  then obtain y ys' where y: "ys = y # ys'" by (cases ys) simp_all
  have t: "concat ys = y @ concat ys'" by (simp add: y)
  have ok: "decoder16_ok e ?st" by (rule new_decoder_ok) simp
  have o: "order16 host (concat ys) = hostOrder host" if "e = DetectEndianness"
    unfolding b using that
    by (cases host) (simp_all add: order16_def detectEndian_def hostOrder_def toEndian_def ByteOrderMark_def QChar_of_def ByteOrderSwapped_def)
  have l: "\<not> length (concat ys) < 2" unfolding b by (simp add: toEndian_def)
  have "fromEndian ?e (concat ys) = ByteOrderMark # us" unfolding b by (rule fromEndian_toEndian)
  then have "reader_step 2 fromEndian ByteOrderMark (order16 host) e (decoder_view ?st) (concat ys) = (us, True, ?e, left_over 2 (concat ys))"
    unfolding new_view by (intro new_step l) (use o in simp)
  then have c: "fst (utf16_convertToUnicode host e (y @ concat ys') ?st) = us" using utf16_decoder.convert_step [OF ok] unfolding t by blast
  from chunks_are_one [OF utf16_decoder.any_chunks [OF ok] c utf16_decoder.flags_step [OF ok]] show ?thesis unfolding y new_invalid .
qed

text \<open>UTF-32.\<close>

lemma utf32_there_and_back:
  assumes cs: "list_all scalar cs" and ys: "concat ys = fst (utf32_convertFromUnicode host e (utf16_text cs) (ConverterState_new False n True i))"
  shows "\<exists>st. convert_chunks (utf32_convertToUnicode host e) ys (ConverterState_new False n' w False) = (utf16_text cs, st) \<and> invalidChars st = 0"
proof -
  let ?st = "ConverterState_new False n' w False" and ?enc = "ConverterState_new False n True i"
  let ?e = "if e = DetectEndianness then hostOrder host else e"
  have c: "code_points (utf32_replacement ?enc) (waiting ?enc @ utf16_text cs) = (map of_nat cs, [])"
    using code_points_text [OF cs] by (simp add: waiting_def ConverterState_new_def)
  have b: "concat ys = codes_bytes ?e (ucast ByteOrderMark # map of_nat cs)"
    unfolding ys utf32_encoder_call [OF new_encoder_ok(2) refl c] by (simp add: bom32_def ConverterState_new_def)
  then have "length (concat ys) \<noteq> 0" by simp
  then obtain y ys' where y: "ys = y # ys'" by (cases ys) simp_all
  have t: "concat ys = y @ concat ys'" by (simp add: y)
  have ok: "decoder32_ok ?st" by (rule new_decoder_ok)
  have o: "order32 host (concat ys) = hostOrder host" if "e = DetectEndianness"
    unfolding b using that by (cases host) (simp_all add: detectEndian32_def hostOrder_def toEndian32_def ByteOrderMark_def)
  have l: "\<not> length (concat ys) < 4" unfolding b by simp
  have "fromEndian32 ?e (concat ys) = ucast ByteOrderMark # map of_nat cs" unfolding b by (rule fromEndian32_toEndian32)
  then have "reader_step 4 fromEndian32 (ucast ByteOrderMark) (order32 host) e (decoder_view ?st) (concat ys)
      = (map of_nat cs, True, ?e, left_over 4 (concat ys))"
    unfolding new_view by (intro new_step l) (use o in simp)
  then have c: "fst (utf32_convertToUnicode host e (y @ concat ys') ?st) = utf16_text cs"
    using utf32_decoder.convert_step [OF ok] unfolding t codes_text_scalars [OF cs, symmetric] by blast
  from chunks_are_one [OF utf32_decoder.any_chunks [OF ok] c utf32_decoder.flags_step [OF ok]] show ?thesis unfolding y new_invalid .
qed

text \<open>Every encoding that has a form for each scalar value.\<close>

lemma there_and_back:
  assumes "list_all scalar cs" "enc \<noteq> Latin1" "concat ys = fst (iface_fromUtf16 host enc (utf16_text cs) (ConverterState_new False n True i))"
  shows "\<exists>st. convert_chunks (iface_toUtf16 host enc) ys (ConverterState_new False n' w False) = (utf16_text cs, st) \<and> invalidChars st = 0"
  using assms by (cases enc) (simp_all add: utf8_there_and_back utf16_there_and_back utf32_there_and_back)

end
