(* ===== verification/Utf8Compare.thy ===== *)
theory Utf8Compare
  imports ConverterText
begin

text \<open>\<open>compareUtf8\<close>: a text in UTF-8 and one in UTF-16 are compared by their scalar values.\<close>

fun compare_codes :: "nat list \<Rightarrow> nat list \<Rightarrow> int" where
  "compare_codes [] ds = - of_bool (ds \<noteq> [])"
| "compare_codes (c # cs) [] = 1"
| "compare_codes (c # cs) (d # ds) = (if c \<noteq> d then int c - int d else compare_codes cs ds)"

lemma compare_codes_zero: "compare_codes cs ds = 0 \<longleftrightarrow> cs = ds"
  by (induction cs ds rule: compare_codes.induct) auto

lemma sint_code: "n < 2147483648 \<Longrightarrow> sint (of_nat n :: 32 word) = int n"
  by (simp add: sint_uint signed_take_bit_int_eq_self uint_nat unat_of_nat)

lemma utf16_text_empty [simp]: "utf16_text cs = [] \<longleftrightarrow> cs = []"
  by (cases cs) simp_all

lemma compareUtf8_text:
  "list_all scalar cs \<Longrightarrow> list_all scalar ds \<Longrightarrow>
    sgn (compareUtf8_loop (\<lambda>uc. uc) (utf8_text cs) (utf16_text ds)) = sgn (compare_codes cs ds)"
proof (induction cs ds rule: compare_codes.induct)
  case (1 ds)
  then show ?case by simp
next
  case (2 c cs)
  obtain b src where "utf8_bytes c @ utf8_text cs = b # src" by (cases "utf8_bytes c") auto
  then show ?case by simp
next
  case (3 c cs d ds)
  have c: "scalar c" "unat (of_nat c :: 32 word) = c" and d: "scalar d" "unat (of_nat d :: 32 word) = d"
    using 3 scalar_unat by simp_all
  have m: "c < 2147483648" "d < 2147483648" using c(1) d(1) by (auto simp: scalar_def)
  have eq: "(of_nat c :: 32 word) = of_nat d \<longleftrightarrow> c = d" using c(2) d(2) by metis
  have IH: "c = d \<Longrightarrow> sgn (compareUtf8_loop (\<lambda>uc. uc) (utf8_text cs) (utf16_text ds)) = sgn (compare_codes cs ds)" using 3 by simp
  have diff: "sint (of_nat c :: 32 word) - sint (of_nat d :: 32 word) = int c - int d" using m by (simp add: sint_code)
  obtain b src where b: "utf8_bytes c @ utf8_text cs = b # src" by (cases "utf8_bytes c") auto
  then obtain bs where bs: "utf8_bytes c = b # bs" by (cases "utf8_bytes c") auto
  have lead: "unat b < 128 \<longleftrightarrow> c < 128" by (rule ascii_scalar(1) [OF c(1) bs])
  then have lead: "b < 0x80 \<longleftrightarrow> c < 128" by (simp add: word_less_nat_alt)
  have first: "(if b < 0x80 then (ucast b, src)
      else case fromUtf8 b src of Decoded n uc rest \<Rightarrow> (uc, rest)
             | DecodeError \<Rightarrow> (ucast ReplacementCharacter, src) | DecodeEndOfString \<Rightarrow> (ucast ReplacementCharacter, src))
    = (of_nat c :: 32 word, utf8_text cs)"
  proof (cases "c < 128")
    case True
    then have "utf8_bytes c = [of_nat c]" by (rule ascii_scalar(2) [OF c(1)])
    then have "b = of_nat c" "src = utf8_text cs" using b by simp_all
    moreover have "(ucast (of_nat c :: 8 word) :: 32 word) = of_nat c"
      by (simp only: word_unat_eq_iff c(2) unat_narrow(4)) (use True in \<open>simp add: unat_of_nat\<close>)
    ultimately show ?thesis using lead True by simp
  next
    case False
    then show ?thesis using lead decode_scalar [OF c(1) b] by simp
  qed
  show ?case
  proof (rule utf16_units_cases [OF d(1)])
    fix u
    assume u: "utf16_units d = [u]" "(ucast u :: 32 word) = of_nat d" "\<not> isHighSurrogate (ucast u)"
    have "compareUtf8_loop (\<lambda>uc. uc) (b # src) (u # utf16_text ds)
        = (if c \<noteq> d then int c - int d else compareUtf8_loop (\<lambda>uc. uc) (utf8_text cs) (utf16_text ds))"
      unfolding compareUtf8_loop.simps(3) first Let_def prod.case using u(3) by (simp add: u(2) eq diff)
    then show ?thesis using u(1) IH by (simp add: b del: compareUtf8_loop.simps)
  next
    fix h l
    assume u: "0x10000 \<le> d" "utf16_units d = [h, l]" "isHighSurrogate (ucast h)" "isLowSurrogate (ucast l)" "surrogateToUcs4 h l = of_nat d"
    show ?thesis
    proof (cases "c < 128")
      case True
      have h: "0xd800 \<le> unat h" "unat h < 65536" using u(3) surrogate_tests(2) [of h] unat_bounds(2) [of h] by simp_all
      have v: "sint (ucast h :: 32 word) = int (unat h)" using sint_code [of "unat h"] h by simp
      have nb: "\<not> 0x80 \<le> b" using lead True by simp
      have n: "(of_nat c :: 32 word) \<noteq> ucast h" using True h by (simp add: word_unat_eq_iff c(2) unat_narrow)
      have "compareUtf8_loop (\<lambda>uc. uc) (b # src) (h # l # utf16_text ds) = int c - int (unat h)"
        unfolding compareUtf8_loop.simps(3) first Let_def prod.case using n by (simp add: v sint_code m(1) nb)
      moreover have "int c - int (unat h) < 0" using True h by linarith
      ultimately show ?thesis using True u(1,2) by (simp add: b del: compareUtf8_loop.simps)
    next
      case False
      have nb: "0x80 \<le> b" using lead False by simp
      have "compareUtf8_loop (\<lambda>uc. uc) (b # src) (h # l # utf16_text ds)
          = (if c \<noteq> d then int c - int d else compareUtf8_loop (\<lambda>uc. uc) (utf8_text cs) (utf16_text ds))"
        unfolding compareUtf8_loop.simps(3) first Let_def prod.case using nb u(3-5) by (simp add: eq diff)
      then show ?thesis using u(2) IH by (simp add: b del: compareUtf8_loop.simps)
    qed
  qed
qed

end
