(* ===== verification/ConverterReset.thy ===== *)
theory ConverterReset
  imports ConverterRoom
begin

text \<open>No routine changes the flags of a converter, so that \<open>resetState\<close> makes it what it was at first.\<close>

definition flags_of :: "ConverterState \<Rightarrow> bool \<times> bool \<times> bool \<times> bool" where
  "flags_of st = (Stateless st, ConvertInvalidToNull st, WriteBom st, ConvertInitialBom st)"

lemma flags_of_updates [simp]:
  "flags_of (st\<lparr>HeaderDone := h\<rparr>) = flags_of st" "flags_of (st\<lparr>remainingChars := n\<rparr>) = flags_of st" "flags_of (st\<lparr>invalidChars := n\<rparr>) = flags_of st"
  "flags_of (st\<lparr>state_bytes := b\<rparr>) = flags_of st" "flags_of (st\<lparr>state_endian := e\<rparr>) = flags_of st" "flags_of (st\<lparr>state_char := c\<rparr>) = flags_of st"
  by (simp_all add: flags_of_def)

lemma clear_new: "ConverterState_clear st = (case flags_of st of (sl, n, w, i) \<Rightarrow> ConverterState_new sl n w i)"
  by (cases st) (simp add: ConverterState_clear_def ConverterState_new_def flags_of_def)

lemma flags_utf8_encode [simp]: "flags_of (snd (utf8_encodeLoop src st)) = flags_of st"
proof (induction src st rule: utf8_encodeLoop.induct)
  case (2 u src st)
  then show ?case unfolding encodeLoop_unfold by (auto split: Encoded.split)
qed simp

lemma flags_utf8_from [simp]: "flags_of (snd (utf8_convertFromUnicode src st)) = flags_of st"
  by (auto simp: utf8_convertFromUnicode_def utf8_encodePending_def Let_def case_prod_beta split: Encoded.split)

lemma flags_utf32_encode [simp]: "flags_of (snd (utf32_encodeLoop e src st)) = flags_of st"
  by (induction e src st rule: utf32_encodeLoop.induct) (auto simp: case_prod_beta Let_def split: option.split)

lemma flags_utf32_from [simp]: "flags_of (snd (utf32_convertFromUnicode host e src st)) = flags_of st"
  by (auto simp: utf32_convertFromUnicode_def Let_def case_prod_beta split: option.split)

lemma flags_utf16_from [simp]: "flags_of (snd (utf16_convertFromUnicode host e src st)) = flags_of st"
  by (simp add: utf16_convertFromUnicode_def Let_def)

lemma flags_latin1 [simp]: "flags_of (snd (latin1_convertFromUnicode src st)) = flags_of st" "flags_of (snd (latin1_convertToUnicode bytes st)) = flags_of st"
  by (simp_all add: latin1_convertFromUnicode_def latin1_convertToUnicode_def Let_def case_prod_beta)

lemma flags_utf16_to [simp]: "flags_of (snd (utf16_convertToUnicode host e src st)) = flags_of st"
  by (auto simp: utf16_convertToUnicode_def utf16_first_def Let_def case_prod_beta)

lemma flags_utf32_to [simp]: "flags_of (snd (utf32_convertToUnicode host e src st)) = flags_of st"
  by (auto simp: utf32_convertToUnicode_def utf32_first_def Let_def case_prod_beta)

lemma flags_utf8_decode [simp]: "flags_of (snd (utf8_decodeLoop src st)) = flags_of st"
  by (induction src st rule: utf8_decodeLoop.induct) (auto simp: case_prod_beta Let_def split: Decoded.split)

lemma flags_utf8_to [simp]: "flags_of (snd (utf8_convertToUnicode src st)) = flags_of st"
  by (auto simp: utf8_convertToUnicode_def utf8_decodePending_def Let_def case_prod_beta split: Decoded.split sum.split)

lemma flags_kept:
  "flags_of (snd (iface_toUtf16 host enc bytes st)) = flags_of st" "flags_of (snd (iface_fromUtf16 host enc src st)) = flags_of st"
  by (cases enc; simp)+

lemma chunk_flags_kept:
  assumes "\<And>x st. flags_of (snd (convert x st)) = flags_of st"
  shows "flags_of (snd (convert_chunks convert chunks st)) = flags_of st"
  using assms by (induction chunks arbitrary: st) (simp_all add: case_prod_beta)

lemma new_flags: "flags_of (ConverterState_new sl n w i) = (sl, n, w, i)"
  by (simp add: flags_of_def ConverterState_new_def)

end
