(* ===== verification/ConverterNames.thy ===== *)
theory ConverterNames
  imports ConverterText
begin

text \<open>The names of the encodings, and the byte order marks that tell them.\<close>

section \<open>Names\<close>

lemma iface_keys:
  "name_key ''UTF-8'' = ''utf8''" "name_key ''UTF-16'' = ''utf16''" "name_key ''UTF-16LE'' = ''utf16le''" "name_key ''UTF-16BE'' = ''utf16be''"
  "name_key ''UTF-32'' = ''utf32''" "name_key ''UTF-32LE'' = ''utf32le''" "name_key ''UTF-32BE'' = ''utf32be''"
  "name_key ''ISO-8859-1'' = ''iso88591''" "name_key ''Locale'' = ''locale''" "name_key ''latin1'' = ''latin1''"
  by code_simp+

lemma encodingForName_key:
  "encodingForName (Some name) = Some e \<longleftrightarrow> name_key name = name_key (nameForEncoding e) \<or> e = Latin1 \<and> name_key name = ''latin1''"
proof -
  define k where "k = name_key name"
  let ?keys = "{''utf8'', ''utf16'', ''utf16le'', ''utf16be'', ''utf32'', ''utf32le'', ''utf32be'', ''iso88591'', ''locale'', ''latin1''}"
  show ?thesis
    unfolding encodingForName_def enum_Encoding_def nameForEncoding_def nameMatch_key option.case find.simps iface_name.simps iface_keys k_def [symmetric]
  proof (cases "k \<in> ?keys")
    case True
    then consider "k = ''utf8''" | "k = ''utf16''" | "k = ''utf16le''" | "k = ''utf16be''" | "k = ''utf32''" | "k = ''utf32le''" | "k = ''utf32be''"
      | "k = ''iso88591''" | "k = ''locale''" | "k = ''latin1''"
      unfolding insert_iff empty_iff by (elim disjE) (simp_all only: HOL.simp_thms)
    then show "(case if ''utf8'' = k then Some Utf8 else if ''utf16'' = k then Some Utf16 else if ''utf16le'' = k then Some Utf16LE
        else if ''utf16be'' = k then Some Utf16BE else if ''utf32'' = k then Some Utf32 else if ''utf32le'' = k then Some Utf32LE
        else if ''utf32be'' = k then Some Utf32BE else if ''iso88591'' = k then Some Latin1 else if ''locale'' = k then Some System else None of
        None \<Rightarrow> if k = ''latin1'' then Some Latin1 else None | Some i \<Rightarrow> Some i) = Some e
      \<longleftrightarrow> k = name_key (iface_name e) \<or> e = Latin1 \<and> k = ''latin1''"
      by cases (cases e; simp add: iface_keys)+
  next
    case False
    then have n: "k \<noteq> ''utf8''" "k \<noteq> ''utf16''" "k \<noteq> ''utf16le''" "k \<noteq> ''utf16be''" "k \<noteq> ''utf32''" "k \<noteq> ''utf32le''" "k \<noteq> ''utf32be''"
      "k \<noteq> ''iso88591''" "k \<noteq> ''locale''" "k \<noteq> ''latin1''"
      by (simp_all only: insert_iff empty_iff de_Morgan_disj simp_thms)
    show "(case if ''utf8'' = k then Some Utf8 else if ''utf16'' = k then Some Utf16 else if ''utf16le'' = k then Some Utf16LE
        else if ''utf16be'' = k then Some Utf16BE else if ''utf32'' = k then Some Utf32 else if ''utf32le'' = k then Some Utf32LE
        else if ''utf32be'' = k then Some Utf32BE else if ''iso88591'' = k then Some Latin1 else if ''locale'' = k then Some System else None of
        None \<Rightarrow> if k = ''latin1'' then Some Latin1 else None | Some i \<Rightarrow> Some i) = Some e
      \<longleftrightarrow> k = name_key (iface_name e) \<or> e = Latin1 \<and> k = ''latin1''"
      using n n [symmetric] by (cases e) (simp_all only: iface_name.simps iface_keys if_False option.case simp_thms option.distinct)
  qed
qed

section \<open>Byte order marks\<close>

lemma UInt_of_eq: "UInt_of a b c d = UInt_of a' b' c' d' \<longleftrightarrow> a = a' \<and> b = b' \<and> c = c' \<and> d = d'"
proof
  assume e: "UInt_of a b c d = UInt_of a' b' c' d'"
  have "bit a n = bit a' n \<and> bit b n = bit b' n \<and> bit c n = bit c' n \<and> bit d n = bit d' n" if n: "n < 8" for n
  proof -
    have "bit a n = bit a' n" using arg_cong [OF e, of "\<lambda>u. bit u (n + 24)"] n
      by (auto simp: UInt_of_def bit_or_iff bit_push_bit_iff bit_ucast_iff dest: bit_imp_le_length)
    moreover have "bit b n = bit b' n" using arg_cong [OF e, of "\<lambda>u. bit u (n + 16)"] n
      by (auto simp: UInt_of_def bit_or_iff bit_push_bit_iff bit_ucast_iff dest: bit_imp_le_length)
    moreover have "bit c n = bit c' n" using arg_cong [OF e, of "\<lambda>u. bit u (n + 8)"] n
      by (auto simp: UInt_of_def bit_or_iff bit_push_bit_iff bit_ucast_iff dest: bit_imp_le_length)
    moreover have "bit d n = bit d' n" using arg_cong [OF e, of "\<lambda>u. bit u n"] n
      by (auto simp: UInt_of_def bit_or_iff bit_push_bit_iff bit_ucast_iff dest: bit_imp_le_length)
    ultimately show ?thesis by blast
  qed
  then show "a = a' \<and> b = b' \<and> c = c' \<and> d = d'" by (auto intro!: bit_word_eqI)
qed simp

lemma ucast_bytes: "(ucast (x :: 16 word) :: 32 word) = UInt_of 0 0 (ucast (drop_bit 8 x)) (ucast x)"
  unfolding UInt_of_def
  by (rule bit_word_eqI) (auto simp: bit_or_iff bit_push_bit_iff bit_ucast_iff bit_drop_bit_eq dest: bit_imp_le_length)

lemma unit_bytes: "ucast (drop_bit 8 (u :: 16 word)) = (0 :: 8 word) \<and> ucast u = (0 :: 8 word) \<longleftrightarrow> u = 0"
  using QChar_of_bytes [of u] by (auto simp: QChar_of_def)

lemma bom_bytes32: "(ucast ByteOrderMark :: 32 word) = UInt_of 0 0 0xfe 0xff"
  by (simp add: ucast_bytes ByteOrderMark_def UInt_of_eq)

lemma bom_chars: "QChar_of 0xfe 0xff = ByteOrderSwapped" "QChar_of 0xff 0xfe = ByteOrderMark"
  by (simp_all add: QChar_of_def ByteOrderSwapped_def ByteOrderMark_def)

lemma bom_orders_differ: "ByteOrderSwapped \<noteq> ByteOrderMark" "ByteOrderMark \<noteq> ByteOrderSwapped"
  by (simp_all add: ByteOrderSwapped_def ByteOrderMark_def)

lemma detect_utf8:
  assumes "length rest \<ge> 1"
  shows "encodingForData (utf8bom @ rest) x = Some Utf8"
proof -
  obtain d r where "rest = d # r" using assms by (cases rest) auto
  then show ?thesis unfolding encodingForData_def bom_bytes32 ucast_bytes [of x] by (simp add: utf8bom_def UInt_of_eq Let_def)
qed

lemma detect_utf16:
  assumes "u \<noteq> 0" "en \<noteq> DetectEndianness"
  shows "encodingForData (concat (map (toEndian en) (ByteOrderMark # u # us))) x = Some (if en = BigEndianness then Utf16BE else Utf16LE)"
proof -
  have z: "ucast (drop_bit 8 u) = (0 :: 8 word) \<Longrightarrow> ucast u \<noteq> (0 :: 8 word)" using assms(1) unit_bytes [of u] by blast
  have w: "toEndian BigEndianness ByteOrderMark = [0xfe, 0xff]" "toEndian LittleEndianness ByteOrderMark = [0xff, 0xfe]"
    by (simp_all add: toEndian_def ByteOrderMark_def)
  show ?thesis using z unfolding encodingForData_def bom_bytes32 ucast_bytes [of x] using assms(2)
    by (cases en) (auto simp: w toEndian_def [of _ u] UInt_of_eq Let_def utf8bom_def bom_chars bom_orders_differ)
qed

lemma detect_utf32:
  assumes "en \<noteq> DetectEndianness"
  shows "encodingForData (codes_bytes en (ucast ByteOrderMark # us)) x = Some (if en = BigEndianness then Utf32BE else Utf32LE)"
proof -
  have w: "toEndian32 BigEndianness (UInt_of 0 0 0xfe 0xff) = [0, 0, 0xfe, 0xff]" "toEndian32 LittleEndianness (UInt_of 0 0 0xfe 0xff) = [0xff, 0xfe, 0, 0]"
    unfolding bom_bytes32 [symmetric] by (simp_all add: toEndian32_def ByteOrderMark_def)
  show ?thesis unfolding encodingForData_def bom_bytes32 ucast_bytes [of x] using assms
    by (cases en) (simp_all add: w UInt_of_eq Let_def)
qed

text \<open>The encoding a mark tells.\<close>

fun told :: "bool \<Rightarrow> Encoding \<Rightarrow> Encoding" where
  "told host Utf16 = (if host then Utf16BE else Utf16LE)"
| "told host Utf32 = (if host then Utf32BE else Utf32LE)"
| "told host System = Utf8"
| "told host enc = enc"

lemma first_unit: "scalar c \<Longrightarrow> c \<noteq> 0 \<Longrightarrow> \<exists>u us. utf16_units c = u # us \<and> u \<noteq> 0"
proof (erule utf16_units_cases)
  fix u assume "c \<noteq> 0" "c < 0x10000" "utf16_units c = [u]"
  then show ?thesis using unit_value [of c] by (auto simp: utf16_units_def utf16_form_def)
next
  fix h l assume h: "utf16_units c = [h, l]" "isHighSurrogate (ucast h)"
  then have "h \<noteq> 0" by (auto simp: surrogate_tests)
  then show ?thesis using h(1) by blast
qed

lemma detect_text:
  assumes cs: "list_all scalar (c # cs)" "c \<noteq> 0" and enc: "enc \<noteq> Latin1"
  shows "encodingForData (fst (iface_fromUtf16 host enc (utf16_text (c # cs)) (ConverterState_new False n True i))) x = Some (told host enc)"
proof -
  let ?st = "ConverterState_new False n True i" and ?t = "utf16_text (c # cs)"
  obtain u us where u: "?t = u # us" "u \<noteq> 0" using first_unit [of c] cs by auto
  have 8: "fst (utf8_convertFromUnicode ?t ?st) = utf8bom @ utf8_text (c # cs)"
    using u utf8_encodeLoop_text [OF cs(1)] by (simp add: utf8_convertFromUnicode_def utf8_encodePending_def ConverterState_new_def del: text_simps)
  have l: "length (utf8_text (c # cs)) \<ge> 1" using utf8_length [of c] by simp
  have 16: "encodingForData (fst (utf16_convertFromUnicode host e ?t ?st)) x
      = Some (if (if e = DetectEndianness then hostOrder host else e) = BigEndianness then Utf16BE else Utf16LE)" for e
  proof -
    let ?e = "if e = DetectEndianness then hostOrder host else e"
    have "fst (utf16_convertFromUnicode host e ?t ?st) = concat (map (toEndian ?e) (ByteOrderMark # u # us))"
      by (simp add: utf16_convertFromUnicode_def ConverterState_new_def Let_def u(1) del: text_simps)
    moreover have "?e \<noteq> DetectEndianness" by (simp add: hostOrder_def)
    ultimately show ?thesis using detect_utf16 [OF u(2), of ?e us x] by metis
  qed
  have 32: "encodingForData (fst (utf32_convertFromUnicode host e ?t ?st)) x
      = Some (if (if e = DetectEndianness then hostOrder host else e) = BigEndianness then Utf32BE else Utf32LE)" for e
  proof -
    let ?e = "if e = DetectEndianness then hostOrder host else e"
    have p: "code_points (utf32_replacement ?st) (waiting ?st @ ?t) = (map of_nat (c # cs), [])"
      using code_points_text [OF cs(1)] by (simp add: waiting_def ConverterState_new_def)
    have "fst (utf32_convertFromUnicode host e ?t ?st) = codes_bytes ?e (ucast ByteOrderMark # map of_nat (c # cs))"
      unfolding utf32_encoder_call [OF new_encoder_ok(2) refl p] by (simp add: bom32_def ConverterState_new_def)
    moreover have "?e \<noteq> DetectEndianness" by (simp add: hostOrder_def)
    ultimately show ?thesis using detect_utf32 [of ?e "map of_nat (c # cs)" x] by metis
  qed
  show ?thesis using enc detect_utf8 [OF l, of x]
    by (cases enc) (simp_all add: 8 16 32 hostOrder_def del: text_simps)
qed

end
