(* ===== verification/StringConverterProps.thy ===== *)
theory StringConverterProps
  imports Utf8Broken Utf8Compare ConverterReset ConverterNames
begin

text \<open>What \<open>QStringEncoder\<close>, \<open>QStringDecoder\<close> and the UTF-8 routines below them do, and where they fail.\<close>

section \<open>Room, chunks and round trips\<close>

text \<open>C5: The room \<open>requiredSpace\<close> asks for is enough: a decoder of any encoding and flags takes any chunks, and writes within its buffers
  what its routine writes; so does an encoder.\<close>

theorem converters_have_room:
  "in_chunks (QStringDecoder_decode host) chunks (QStringConverter_make enc (ConverterState_new sl n w i))
      = Some (map_prod id (QStringConverter_make enc) (convert_chunks (iface_toUtf16 host enc) chunks (ConverterState_new sl n w i)))
    \<and> in_chunks (QStringEncoder_encode host) texts (QStringConverter_make enc (ConverterState_new sl n w i))
      = Some (map_prod id (QStringConverter_make enc) (convert_chunks (iface_fromUtf16 host enc) texts (ConverterState_new sl n w i)))"
  by (rule conjI [OF decode_chunks_in_room [OF new_inv(1)] encode_chunks_in_room [OF new_inv(2)]])

text \<open>C4: A text that an encoder of any encoding but Latin-1 is given in any chunks, with a byte order mark wanted, comes back from the decoder of
  that encoding whatever the chunks its bytes arrive in, with no error.\<close>

theorem text_round_trip:
  assumes "list_all scalar cs" "enc \<noteq> Latin1" "texts \<noteq> []" "concat texts = utf16_text cs"
    and "in_chunks (QStringEncoder_encode host) texts (QStringConverter_make enc (ConverterState_new False n True i)) = Some (concat chunks, conv)"
  shows "\<exists>conv'. in_chunks (QStringDecoder_decode host) chunks (QStringConverter_make enc (ConverterState_new False n' w False)) = Some (utf16_text cs, conv')
    \<and> \<not> QStringConverter_hasError conv'"
proof -
  have "concat chunks = fst (convert_chunks (iface_fromUtf16 host enc) texts (ConverterState_new False n True i))"
    using assms(5) by (simp add: encode_chunks_in_room [OF new_inv(2)] map_prod_def case_prod_beta)
  then have "concat chunks = fst (iface_fromUtf16 host enc (utf16_text cs) (ConverterState_new False n True i))"
    by (simp only: encoder_any_chunks [OF assms(3)] assms(4))
  from there_and_back [OF assms(1,2) this, of n' w] show ?thesis
    unfolding decode_chunks_in_room [OF new_inv(1)]
    by (auto simp: QStringConverter_hasError_def hasError_def QStringConverter_make_def)
qed

theorem text_round_trip_witness:
  "\<exists>conv'. in_chunks (QStringDecoder_decode False) [[0xfe], [0xff, 0xd8, 0x3d], [0xde, 0x00]] (QStringConverter_make Utf16BE (ConverterState_new False False False False))
      = Some (utf16_text [0x1f600], conv') \<and> \<not> QStringConverter_hasError conv'"
proof (rule text_round_trip [where texts = "[[0xd83d], [0xde00]]"])
  show "in_chunks (QStringEncoder_encode False) [[0xd83d], [0xde00]] (QStringConverter_make Utf16BE (ConverterState_new False False True False))
    = Some (concat [[0xfe], [0xff, 0xd8, 0x3d], [0xde, 0x00]],
        QStringConverter_make Utf16BE ((ConverterState_new False False True False)\<lparr>HeaderDone := True\<rparr>))"
    by code_simp
qed (simp_all add: scalar_def utf16_units_def utf16_form_def)

text \<open>C19: How a text is cut makes no difference to what a stateful encoder (one without \<open>Stateless\<close>, the
  default) of any encoding writes.\<close>

theorem encoder_any_cut:
  assumes "texts \<noteq> []"
  shows "map_option fst (in_chunks (QStringEncoder_encode host) texts (QStringConverter_make enc (ConverterState_new False n w i)))
    = map_option fst (QStringEncoder_encode host (concat texts) (QStringConverter_make enc (ConverterState_new False n w i)))"
  by (simp add: encode_chunks_in_room [OF new_inv(2)] encode_in_room [OF new_inv(2)] encoder_any_chunks [OF assms])

theorem encoder_any_cut_witness:
  "map_option fst (in_chunks (QStringEncoder_encode True) [[0xd83d], [0xde00]] (QStringConverter_make Utf8 (ConverterState_new False False False False)))
    = map_option fst (QStringEncoder_encode True [0xd83d, 0xde00] (QStringConverter_make Utf8 (ConverterState_new False False False False)))"
  using encoder_any_cut [of "[[0xd83d], [0xde00]]" True Utf8 False False False] by simp

text \<open>C20: Nor does it to what a stateful decoder of UTF-16, UTF-32 or Latin-1 makes of any bytes, unless UTF-16
  is to tell its byte order and keep the mark.\<close>

theorem decoder_any_cut:
  assumes "chunks \<noteq> []" "enc \<notin> {Utf8, System}" "enc = Utf16 \<longrightarrow> \<not> i"
  shows "map_option fst (in_chunks (QStringDecoder_decode host) chunks (QStringConverter_make enc (ConverterState_new False n w i)))
    = map_option fst (QStringDecoder_decode host (concat chunks) (QStringConverter_make enc (ConverterState_new False n w i)))"
  by (simp add: decode_chunks_in_room [OF new_inv(1)] decode_in_room [OF new_inv(1)] decoder_any_chunks [OF assms])

theorem decoder_any_cut_witness:
  "map_option fst (in_chunks (QStringDecoder_decode True) [[0xff], [0xfe, 0x41], [0], [7]] (QStringConverter_make Utf16 (ConverterState_new False False False False)))
    = map_option fst (QStringDecoder_decode True [0xff, 0xfe, 0x41, 0, 7] (QStringConverter_make Utf16 (ConverterState_new False False False False)))"
  using decoder_any_cut [of "[[0xff], [0xfe, 0x41], [0], [7]]" Utf16 False True False False] by simp

text \<open>C5: After any calls, \<open>resetState\<close> makes a converter what the constructor made it.\<close>

theorem reset_is_new:
  "map_option (QStringConverter_resetState \<circ> snd) (in_chunks (QStringDecoder_decode host) chunks (QStringConverter_make enc (ConverterState_new sl n w i)))
      = Some (QStringConverter_make enc (ConverterState_new sl n w i))
    \<and> map_option (QStringConverter_resetState \<circ> snd) (in_chunks (QStringEncoder_encode host) texts (QStringConverter_make enc (ConverterState_new sl n w i)))
      = Some (QStringConverter_make enc (ConverterState_new sl n w i))"
  unfolding decode_chunks_in_room [OF new_inv(1)] encode_chunks_in_room [OF new_inv(2)]
  by (simp add: QStringConverter_resetState_def QStringConverter_make_def clear_new chunk_flags_kept [OF flags_kept(1)] chunk_flags_kept [OF flags_kept(2)] new_flags)

section \<open>UTF-8\<close>

text \<open>C23: \<open>QString::toUtf8\<close> and \<open>fromUtf8\<close>: a text comes back, less a byte order mark at its head.\<close>

theorem utf8_round_trip:
  assumes "list_all scalar cs"
  shows "utf8_toUnicode (utf8_fromUnicode (utf16_text cs)) = utf16_text (without_bom cs)"
  by (simp add: fromUnicode_text [OF assms] toUnicode_text [OF assms])

theorem utf8_round_trip_witness:
  "utf8_toUnicode (utf8_fromUnicode (utf16_text [0xfeff, 0x20ac, 0x10ffff])) = utf16_text [0x20ac, 0x10ffff]"
  using utf8_round_trip [of "[0xfeff, 0x20ac, 0x10ffff]"] by (simp add: scalar_def without_bom_def)

lemma validity_ascii: "snd (isValidUtf8_loop src a) \<longleftrightarrow> a \<and> list_all (\<lambda>b. b < 0x80) src"
proof (induction src a rule: isValidUtf8_loop.induct)
  case (2 b src a)
  have "b AND 0x80 = 0 \<longleftrightarrow> b < 0x80" by (simp add: high_bit word_less_nat_alt)
  then show ?case using 2 by (auto split: Decoded.splits)
qed simp

text \<open>C21: \<open>isValidUtf8\<close> accepts exactly the texts: no overlong form, no surrogate, nothing above U+10FFFF, nothing cut off; and knows which are
  ASCII.\<close>

theorem valid_utf8_is_text:
  "(fst (isValidUtf8 bytes) \<longleftrightarrow> (\<exists>cs. list_all scalar cs \<and> bytes = utf8_text cs)) \<and> (snd (isValidUtf8 bytes) \<longleftrightarrow> list_all (\<lambda>b. b < 0x80) bytes)"
  using isValidUtf8_sound [of bytes True] isValidUtf8_text [of _ True] by (auto simp: isValidUtf8_def validity_ascii)

text \<open>C22: \<open>compareUtf8\<close> orders a text in UTF-8 and one in UTF-16 by their code points, surrogate pairs or not, and finds them equal when they are.\<close>

theorem compareUtf8_by_code_point:
  assumes "list_all scalar cs" "list_all scalar ds"
  shows "sgn (compareUtf8 foldCase False (utf8_text cs) (utf16_text ds)) = sgn (compare_codes cs ds)
    \<and> (compareUtf8 foldCase False (utf8_text cs) (utf16_text ds) = 0 \<longleftrightarrow> cs = ds)"
  using compareUtf8_text [OF assms] compare_codes_zero [of cs ds] by (simp add: compareUtf8_def) (metis sgn_0_0)

theorem compareUtf8_by_code_point_witness:
  "sgn (compareUtf8 (\<lambda>c. c) False (utf8_text [0xff5e]) (utf16_text [0x1f600])) = - 1"
  using compareUtf8_by_code_point [of "[0xff5e]" "[0x1f600]" "\<lambda>c. c"] by (simp add: scalar_def)

section \<open>Names and marks\<close>

text \<open>C25: \<open>encodingForName\<close> finds an encoding by its name, or Latin-1 by \<open>latin1\<close>, whatever the case and the hyphens and underscores; each
  \<open>nameForEncoding\<close> finds its own.\<close>

theorem encodingForName_finds:
  "(encodingForName (Some name) = Some e \<longleftrightarrow> name_key name = name_key (nameForEncoding e) \<or> e = Latin1 \<and> name_key name = ''latin1'')
    \<and> encodingForName (Some (nameForEncoding e)) = Some e \<and> encodingForName None = None"
  using encodingForName_key [of name e] encodingForName_key [of "nameForEncoding e" e] by (simp add: encodingForName_def [of None])

text \<open>C24: \<open>encodingForData\<close> tells the encoding of a text that begins with a mark and not with U+0000, whatever first character is expected.\<close>

theorem encodingForData_tells:
  assumes "list_all scalar (c # cs)" "c \<noteq> 0" "enc \<noteq> Latin1"
  shows "encodingForData (fst (iface_fromUtf16 host enc (utf16_text (c # cs)) (ConverterState_new False n True i))) expected = Some (told host enc)"
  by (rule detect_text [OF assms])

theorem encodingForData_tells_witness:
  "encodingForData [0xff, 0xfe, 0x3c, 0] 0x3c = Some Utf16LE"
proof -
  have e: "fst (iface_fromUtf16 False Utf16 (utf16_text [0x3c]) (ConverterState_new False False True False)) = [0xff, 0xfe, 0x3c, 0]"
    by (simp add: utf16_convertFromUnicode_def ConverterState_new_def hostOrder_def toEndian_def ByteOrderMark_def utf16_units_def utf16_form_def)
  have "encodingForData (fst (iface_fromUtf16 False Utf16 (utf16_text [0x3c]) (ConverterState_new False False True False))) 0x3c = Some (told False Utf16)"
    by (rule encodingForData_tells) (simp_all add: scalar_def)
  then show ?thesis unfolding e by simp
qed

section \<open>Faults\<close>

abbreviation "new \<equiv> ConverterState_new False False False False"

text \<open>C26: A decoder of UTF-8 that is not stateless, between characters: when a sequence is not finished and a
  byte comes that cannot continue it, every byte of the sequence is replaced and the byte is decoded,
  if both come at once. If the byte is the first of the next chunk, one replacement is written and the
  byte itself is lost, be it a letter.\<close>

theorem letter_after_cut_lost:
  assumes "\<not> Stateless st" "remainingChars st = 0"
    and "fromUtf8 x xs = DecodeEndOfString" "\<not> isContinuationByte b"
  shows "fst (utf8_convertToUnicode (x # xs @ b # src) st)
      = replicate (Suc (length xs)) (decode_replacement st) @ fst (utf8_decodeLoop (b # src) st)
    \<and> fst (convert_chunks utf8_convertToUnicode [x # xs, b # src] st) = decode_replacement st # fst (utf8_decodeLoop src st)
    \<and> (b < 0x80 \<longrightarrow> fst (utf8_decodeLoop (b # src) st) = ucast b # fst (utf8_decodeLoop src st))"
  using broken_at_once [OF assms, of src] broken_in_chunks [OF assms, of src] decodeLoop_letter [of b src st] by simp

theorem letter_after_cut_lost_witness:
  "fst (utf8_convertToUnicode [0xe2, 0x82, 0x41, 0x42] new) = [ReplacementCharacter, ReplacementCharacter, 0x41, 0x42]
    \<and> fst (convert_chunks utf8_convertToUnicode [[0xe2, 0x82], [0x41, 0x42]] new) = [ReplacementCharacter, 0x42]"
proof -
  have a: "\<not> Stateless new" "remainingChars new = 0" by (simp_all add: ConverterState_new_def)
  have b: "fromUtf8 0xe2 [0x82] = DecodeEndOfString" "\<not> isContinuationByte 0x41" "(0x41 :: 8 word) < 0x80" by code_simp+
  have l: "fst (utf8_decodeLoop [0x42] new) = [0x42]" "decode_replacement new = ReplacementCharacter" by code_simp+
  from letter_after_cut_lost [OF a b(1,2), of "[0x42]"] b(3) l show ?thesis by simp
qed

text \<open>The encoder replaces a lone surrogate in both, and tells of it in one.\<close>

theorem lone_surrogate_untold:
  "hasError (snd (utf8_convertFromUnicode [0xd800, 0x41] new)) \<and> \<not> hasError (snd (convert_chunks utf8_convertFromUnicode [[0xd800], [0x41]] new))"
  by code_simp

text \<open>A decoder that has been moved takes a zero width no-break space for a mark, or forgets that none has come.\<close>

theorem moved_decoder_skips:
  "fst (convert_chunks utf8_convertToUnicode [[0x41], [0xef, 0xbb, 0xbf, 0x42]] new) = [0x41, 0xfeff, 0x42]
    \<and> (let (out, st) = utf8_convertToUnicode [0x41] new in out @ fst (utf8_convertToUnicode [0xef, 0xbb, 0xbf, 0x42] (ConverterState_move st))) = [0x41, 0x42]"
  by code_simp

text \<open>A decoder of UTF-16 that shall keep the mark does not look at it, unless its first byte comes alone.\<close>

theorem kept_mark_unseen:
  "fst (utf16_convertToUnicode False DetectEndianness [0xfe, 0xff, 0, 0x41] (ConverterState_new False False False True)) = [0xfffe, 0x4100]
    \<and> fst (convert_chunks (utf16_convertToUnicode False DetectEndianness) [[0xfe], [0xff, 0, 0x41]] (ConverterState_new False False False True)) = [0xfeff, 0x41]"
  by code_simp

text \<open>The decoders and encoders of UTF-16 and UTF-32 never report an error, and a stateless one of Latin-1 does not.\<close>

theorem wide_errors_untold:
  "fst (utf32_convertToUnicode False BigEndianness [0, 0x11, 0, 0] new) = [0xdc00, 0xdc00] \<and> \<not> hasError (snd (utf32_convertToUnicode False BigEndianness [0, 0x11, 0, 0] new))
    \<and> \<not> hasError (snd (utf32_convertFromUnicode False BigEndianness [0xd800, 0x41] new))
    \<and> \<not> hasError (snd (utf16_convertToUnicode False BigEndianness [0, 0x41, 0] (ConverterState_new True False False False)))
    \<and> \<not> hasError (snd (latin1_convertFromUnicode [0x20ac] (ConverterState_new True False False False)))"
  by code_simp

text \<open>\<open>ConvertInvalidToNull\<close> is not heeded for an unfinished sequence of a stateless decoder.\<close>

theorem unfinished_not_null:
  "fst (utf8_convertToUnicode [0xff, 0xe2] (ConverterState_new True True False False)) = [0, ReplacementCharacter]
    \<and> fst (utf32_convertToUnicode False BigEndianness [0, 0, 0, 0x41, 0] (ConverterState_new True True False False)) = [0x41, ReplacementCharacter]"
  by code_simp

end
