(* ===== verification/Spec2Isabelle.thy ===== *)
theory Spec2Isabelle
  imports CalendarProps DateTimeProps HpackProps Http2FramesProps QRingBufferProps QUndoStackProps QHashProps StringConverterProps
begin

text \<open>
  A model of eight parts of Qt (\<open>qtbase\<close>) and the theorems that make them correct. All paths are
  below \<open>src/\<close> of the repository. Each definition has the name of the function or type it models,
  with a prefix where the name alone would clash; the code's order of tests, early returns and
  updates is that of the definition. Classes are records or datatypes, member functions take the
  object and return it updated, and a result that can fail or that a loop may never give is an
  option.

  \<^bold>\<open>Integers.\<close> \<open>Prelude\<close> has the conversions of C++ to 32-bit and 64-bit integers, with wrap-around
  written out; where the code adds numbers it does not bound, as \<open>addMonths\<close> and \<open>addYears\<close> do, a sum that
  leaves \<open>int\<close> has no meaning in C++ and is the error \<open>SignedOverflow\<close> of \<open>int_add\<close>. Bytes, code units and code points are words of 8, 16 and 32 bits. Sizes of containers
  in memory are natural numbers; a theorem that needs a limit on them states it (\<open>2 ^ 61\<close> entries for
  the hash table).

  \<^bold>\<open>Calendars and dates\<close> (\<open>corelib/time\<close>). \<open>CalendarMath\<close> models \<open>qcalendarmath_p.h\<close>; \<open>QCalendar\<close> and
  \<open>CalendarBackend\<close> the interface \<open>QCalendarBackend\<close>, a record of the virtual functions, with the
  conversions of \<open>qcalendar.cpp\<close> and the calendar-aware \<open>QDate\<close>; \<open>RomanCalendars\<close> the Gregorian, Julian
  and Milankovic calendars; \<open>IslamicCivil\<close> the Islamic civil one; \<open>GregorianWeek\<close> and \<open>DateTime\<close> the
  overloads of \<open>QDate\<close> without a calendar, \<open>QTime\<close> and the split of a 64-bit count of milliseconds
  (\<open>qdatetime.cpp\<close>). The locale \<open>year_tower\<close> (\<open>YearTower\<close>) says when year and month numbers partition the
  days, \<open>roman_years\<close> and \<open>roman_calendar\<close> (\<open>RomanContract\<close>) refine it, \<open>calendar_backend\<close> is the contract of a
  backend; \<open>RomanInstances\<close>, \<open>MilankovicInstance\<close> and \<open>IslamicCivil\<close> interpret them. \<open>CalendarProps\<close> and
  \<open>DateTimeProps\<close> show round trips between day numbers and parts, the arithmetic of months and years
  with its clamping, the missing year zero and the sums that overflow an \<open>int\<close>, the agreement of the
  overloads, and where an \<open>int\<close> overflows near the ends of the range.

  \<^bold>\<open>HPACK\<close> (\<open>network/access/http2\<close>). \<open>HpackBits\<close> models the bit streams, \<open>HpackHuffman\<close> the static code
  with its prefix tables, \<open>HpackTable\<close> the static and the dynamic header table with its chunks and its
  search index, \<open>Hpack\<close> the encoder and the decoder. \<open>HpackStream\<close> turns the streams into lists of bits,
  \<open>HpackTableRefine\<close> refines the chunked table to the abstract table of RFC 7541 (locale
  \<open>header_table\<close>, interpreted on the code's table), \<open>HpackCodec\<close> shows representation by representation that
  the decoder reads what the encoder writes. \<open>HpackProps\<close>: header blocks come back and both tables stay
  the same, requests are accepted exactly when well formed, the table keeps its invariant.

  \<^bold>\<open>HTTP/2 frames\<close> (\<open>http2frames.cpp\<close>). \<open>Http2Frames\<close> models the frame and its validation, the reader as a
  state machine over a socket that delivers any number of bytes at a time, and the writer with the
  loops that split header blocks and data. \<open>Http2FramesProps\<close>: a frame is read whatever the fragments,
  the loops return for a limit above zero and split within it, the parts of a validated frame lie within it.

  \<^bold>\<open>Ring buffer\<close> (\<open>corelib/tools/qringbuffer.cpp\<close>). \<open>QRingBuffer\<close> models the chunks with their offsets and
  shared arrays; \<open>QRingBufferRefine\<close> and \<open>QRingBufferQueries\<close> refine every operation to one on the list of
  bytes; the locale \<open>byte_queue\<close> (\<open>QRingBufferProps\<close>), interpreted on it, gives that bytes leave in the
  order in which they came.

  \<^bold>\<open>Hash table\<close> (\<open>corelib/tools/qhash.h\<close>). \<open>QHash\<close> models spans of 128 buckets with their offsets, entries
  and free lists, probing, growth, the closing of holes, iteration and implicit sharing (whether another
  owner exists is an argument of every call that detaches, \<open>erase\<close> among them); the hash function
  and its seeds are parameters. \<open>QHashSpan\<close>, \<open>QHashProbe\<close> and \<open>QHashTable\<close> refine a span to a partial function,
  the table to one flat array, and show that the probing loops return since at most half of the buckets
  are occupied; \<open>QHashOps\<close>, \<open>QHashUpdate\<close> and \<open>QHashMap\<close> refine the operations to those of a finite map.
  \<open>QHashProps\<close> states the contract as the locale \<open>bounded_refinement\<close> and interprets it: any sequence of
  calls returns what the calls on a map return.

  \<^bold>\<open>Undo stack\<close> (\<open>gui/util/qundostack.cpp\<close>). \<open>QUndoStack\<close> models commands and their children, macros, merging,
  obsolete commands, the clean state, the limit and the signals, returned as a list. What the commands of
  an application do to its document is a parameter, a record \<open>behaviour\<close>. \<open>QUndoStackInv\<close> has the reachable
  states as an inductive relation and their invariant, \<open>QUndoStackSignals\<close> what a listener knows,
  \<open>QUndoStackHistory\<close> the abstract line of documents that undo and redo move along, under the hypothesis
  that the undo of a command takes back its redo. \<open>QUndoStackProps\<close> has an instance for the witnesses.

  \<^bold>\<open>String converters\<close> (\<open>corelib/text/qstringconverter.cpp\<close> and its headers). \<open>Utf8Codec\<close>, \<open>Utf16Codec\<close> and
  \<open>Utf32Codec\<close> model the codecs, at once and with the state that lives from call to call; \<open>StringConverter\<close> adds
  Latin-1, the table of interfaces, the names, the detection by byte order marks, \<open>QStringEncoder\<close> and
  \<open>QStringDecoder\<close>. Pointers into a buffer are what is left of it, and a buffer has a size that a routine
  must not exceed (\<open>in_room\<close>). \<open>Utf8Char\<close>, \<open>Utf8Text\<close> and \<open>Utf8Chunks\<close> relate the code to the encoding forms of the
  Unicode standard; \<open>Utf8Bounds\<close> and \<open>ConverterRoom\<close> bound what is written and kept. The locale
  \<open>chunked_converter\<close> (\<open>ChunkedConverter\<close>) says that two calls do what one does, and concludes that chunks make no
  difference; every encoder and the decoders of Latin-1 interpret it, the decoders of UTF-16 and UTF-32 by
  way of \<open>endian_decoder\<close> (\<open>EndianDecoder\<close>), a sublocale. The decoder of UTF-8 keeps the promise for texts only;
  \<open>Utf8Broken\<close> shows what it makes of a sequence that is not finished.
  \<open>ConverterText\<close>, \<open>ConverterReset\<close>, \<open>ConverterNames\<close> and \<open>Utf8Compare\<close> lead to \<open>StringConverterProps\<close>.

  \<^bold>\<open>How the parts meet.\<close> The header table, the frames and the ring buffer use the bytes of \<open>HpackBits\<close>; the
  encoder of HPACK drives the table and the streams, and its header blocks are the payload that the frame
  writer splits. The hash table uses the bit counts of \<open>qalgorithms.h\<close>. The calendars serve \<open>QDate\<close>. The others
  do not call each other.

  \<^bold>\<open>Loops.\<close> No definition has fuel. A loop whose end is plain from its data is a function with a measure. A loop
  that the code could run forever (\<open>addMonths\<close>, the Huffman tables and decoder, the reader of a header
  block, the splitting of frames, \<open>QRingBuffer::read\<close>, probing, closing a hole and \<open>removeIf\<close>) is a partial
  function whose value \<open>None\<close> is not to return; the theorems show that a value is returned, from the
  invariants, and \<open>ring_empty_append_stalls\<close> that one read does not.

  \<^bold>\<open>Faults.\<close> Where the code departs from its documentation or from itself a theorem says so of such inputs: the undo stack within macros, the padding of frames, the header table of size zero, the
  Huffman code of bytes above 127, the years at the ends of the range of dates, \<open>QDate::addMonths\<close>, \<open>QTime::addMSecs\<close>, the ring
  buffer after an empty array, and the converters (the last section of \<open>StringConverterProps\<close>).

  \<^bold>\<open>Not modelled.\<close> Of the parts above: the registry of calendars and all texts of locales, the Jalali calendar
  (floating point), time zones and date formats; \<open>QMultiHash\<close>, swaps, moves and list constructors of \<open>QHash\<close> and the hash
  functions; the actions and groups of undo stacks; the code pages of Windows, the converters of ICU, the
  detection by tags of web pages and the SIMD shortcuts of the converters, whose results are those of the
  plain loops. Assertions are not branches of the model; where a call could violate one the theorems have
  the hypothesis. Of the rest of the repository: strings and lists (storage around \<open>memcpy\<close>; the models use
  lists), generated Unicode and locale tables, the object system and its threads, input and output,
  the connections and sockets of the network, serialization formats, painting, fonts, text layout, the
  rendering interface, widgets, databases, D-Bus, printing, the test library, the build tools and the
  platform plugins. These rest on the operating system, on graphics libraries, on floating point or on
  generated code, or are left for a later development.
\<close>

end
